(* ===== verification/Prelude.thy ===== *)
theory Prelude
  imports Complex_Main "HOL-Library.Word" "HOL-Library.Char_ord" "HOL-Library.List_Lexorder"
    "HOL-Library.Product_Lexorder" "HOL-Library.Multiset"
begin

text \<open>
  What every component shares. A Go string is the list of its bytes (\<open>char\<close> ranges over the 256
  byte values), a Go map a partial function, an error return the left summand of a sum. The
  theory holds the parts of Go's standard library the source calls (decimal conversion, splitting,
  prefix tests, UTF-8 decoding, case folding of ASCII bytes, truncating division, comparison of
  \<open>float64\<close> values) as computable functions, the lemmas about them that several components use,
  and two small interfaces: \<open>codec\<close> for a printer with its parser, and \<open>step_invariant\<close>
  for a state machine whose steps keep an invariant.
\<close>

named_theorems bytes_simps
named_theorems table_simps
named_theorems run_simps

subsection \<open>Time\<close>

text \<open>
  An instant is an integer number of nanoseconds since the Unix epoch and a duration an integer
  number of nanoseconds, as in Go's \<open>time\<close> package inside its representable range.
  \<open>UnixMilli\<close> rounds towards minus infinity, as Go's does.
\<close>

type_synonym instant = int
type_synonym duration = int

definition second :: duration where "second = 1000000000"
definition minute :: duration where "minute = 60 * second"
definition hour :: duration where "hour = 60 * minute"

definition unix_milli :: "instant \<Rightarrow> int" where
  "unix_milli t = t div 1000000"

lemma unix_milli_mono: "s \<le> t \<Longrightarrow> unix_milli s \<le> unix_milli t"
  by (simp add: unix_milli_def zdiv_mono1)

lemma unix_milli_nonneg: "0 \<le> t \<Longrightarrow> 0 \<le> unix_milli t"
  by (simp add: unix_milli_def)

definition go_div :: "int \<Rightarrow> int \<Rightarrow> int" where
  "go_div a b = sgn a * sgn b * (\<bar>a\<bar> div \<bar>b\<bar>)"

definition go_rem :: "int \<Rightarrow> int \<Rightarrow> int" where
  "go_rem a b = a - go_div a b * b"

lemma go_div_pos: "0 \<le> a \<Longrightarrow> 0 < b \<Longrightarrow> go_div a b = a div b"
  by (cases "a = 0") (simp_all add: go_div_def)

text \<open>\<open>Duration.Truncate(m)\<close>: towards zero to a multiple of \<open>m\<close>, unchanged for \<open>m \<le> 0\<close>.\<close>

definition dur_truncate :: "duration \<Rightarrow> duration \<Rightarrow> duration" where
  "dur_truncate d m = (if m \<le> 0 then d else d - go_rem d m)"

subsection \<open>Bytes\<close>

abbreviation ord :: "char \<Rightarrow> nat" where "ord c \<equiv> of_char c"

lemma ord_bound: "ord c < 256"
  by simp

lemma ord_inject: "ord c = ord d \<longleftrightarrow> c = d"
  by simp

lemma ord_char_of: "n < 256 \<Longrightarrow> ord (char_of n) = n"
  by (simp add: take_bit_eq_mod)

lemma eq_char_of_iff [bytes_simps]: "c = char_of n \<longleftrightarrow> ord c = n mod 256"
  using char_of_eq_iff [of n c] by (auto simp: take_bit_eq_mod)

definition is_digit :: "char \<Rightarrow> bool" where
  "is_digit c \<longleftrightarrow> 48 \<le> ord c \<and> ord c \<le> 57"

definition is_lower :: "char \<Rightarrow> bool" where
  "is_lower c \<longleftrightarrow> 97 \<le> ord c \<and> ord c \<le> 122"

definition is_upper :: "char \<Rightarrow> bool" where
  "is_upper c \<longleftrightarrow> 65 \<le> ord c \<and> ord c \<le> 90"

definition lower_byte :: "char \<Rightarrow> char" where
  "lower_byte c = (if is_upper c then char_of (ord c + 32) else c)"

definition upper_byte :: "char \<Rightarrow> char" where
  "upper_byte c = (if is_lower c then char_of (ord c - 32) else c)"

text \<open>\<open>strings.ToLower\<close> and \<open>strings.ToUpper\<close> on ASCII text.\<close>

definition to_lower :: "string \<Rightarrow> string" where "to_lower = map lower_byte"
definition to_upper :: "string \<Rightarrow> string" where "to_upper = map upper_byte"

lemma ord_lower_byte: "ord (lower_byte c) = (if is_upper c then ord c + 32 else ord c)"
proof (cases "is_upper c")
  case True
  then have "ord c + 32 < 256" by (simp add: is_upper_def)
  with True show ?thesis by (simp add: lower_byte_def ord_char_of del: of_char_of)
qed (simp add: lower_byte_def)

lemma ord_upper_byte: "ord (upper_byte c) = (if is_lower c then ord c - 32 else ord c)"
proof (cases "is_lower c")
  case True
  then have "ord c - 32 < 256" using ord_bound [of c] by linarith
  with True show ?thesis by (simp add: upper_byte_def ord_char_of del: of_char_of)
qed (simp add: upper_byte_def)

lemma upper_upper [simp]: "upper_byte (upper_byte c) = upper_byte c"
  by (subst ord_inject [symmetric]) (auto simp: ord_upper_byte is_lower_def)

lemma lower_lower [simp]: "lower_byte (lower_byte c) = lower_byte c"
  by (subst ord_inject [symmetric]) (auto simp: ord_lower_byte is_upper_def)

lemma to_upper_idem [simp]: "to_upper (to_upper s) = to_upper s"
  by (simp add: to_upper_def)

lemma to_lower_idem [simp]: "to_lower (to_lower s) = to_lower s"
  by (simp add: to_lower_def)

lemma length_to_lower [simp]: "length (to_lower s) = length s"
  by (simp add: to_lower_def)

lemma length_to_upper [simp]: "length (to_upper s) = length s"
  by (simp add: to_upper_def)

subsection \<open>Prefixes, splitting, searching\<close>

definition has_prefix :: "string \<Rightarrow> string \<Rightarrow> bool" where
  "has_prefix s p \<longleftrightarrow> take (length p) s = p"

definition trim_prefix :: "string \<Rightarrow> string \<Rightarrow> string" where
  "trim_prefix s p = (if has_prefix s p then drop (length p) s else s)"

lemma has_prefix_append [simp]: "has_prefix (p @ s) p"
  by (simp add: has_prefix_def)

lemma trim_prefix_append [simp]: "trim_prefix (p @ s) p = s"
  by (simp add: trim_prefix_def)

lemma has_prefix_split: "has_prefix s p \<Longrightarrow> s = p @ trim_prefix s p"
  by (metis append_take_drop_id has_prefix_def trim_prefix_def)

text \<open>\<open>strings.Split(s, sep)\<close> for a one-byte separator: never empty.\<close>

fun split_on :: "char \<Rightarrow> string \<Rightarrow> string list" where
  "split_on sep [] = [[]]"
| "split_on sep (c # cs) =
     (if c = sep then [] # split_on sep cs
      else (case split_on sep cs of [] \<Rightarrow> [[c]] | w # ws \<Rightarrow> (c # w) # ws))"

fun join_with :: "char \<Rightarrow> string list \<Rightarrow> string" where
  "join_with sep [] = []"
| "join_with sep [w] = w"
| "join_with sep (w # v # ws) = w @ sep # join_with sep (v # ws)"

lemma split_on_nonempty [simp]: "split_on sep s \<noteq> []"
  by (cases s) (auto split: list.split)

lemma join_Cons_nonempty: "ws \<noteq> [] \<Longrightarrow> join_with sep (w # ws) = w @ sep # join_with sep ws"
  by (cases ws) auto

lemma join_split: "join_with sep (split_on sep s) = s"
proof (induction s)
  case (Cons c cs)
  obtain w ws where ws: "split_on sep cs = w # ws"
    by (cases "split_on sep cs") auto
  show ?case
    using Cons.IH by (cases ws) (auto simp: ws join_Cons_nonempty)
qed simp

lemma split_on_none: "sep \<notin> set s \<Longrightarrow> split_on sep s = [s]"
  by (induction s) auto

lemma split_on_append: "sep \<notin> set w \<Longrightarrow> split_on sep (w @ sep # s) = w # split_on sep s"
  by (induction w) auto

lemma append_sep_inject:
  fixes sep :: char
  assumes "sep \<notin> set u" and "sep \<notin> set v" and "u @ sep # s = v @ sep # t"
  shows "u = v \<and> s = t"
proof -
  have "u # split_on sep s = v # split_on sep t"
    using split_on_append [OF assms(1), of s] split_on_append [OF assms(2), of t] assms(3) by simp
  then show ?thesis using join_split by (metis list.inject)
qed

lemma split_on_sep_free: "w \<in> set (split_on sep s) \<Longrightarrow> sep \<notin> set w"
  by (induction s arbitrary: w) (auto split: list.splits if_splits)

lemma set_split_on: "w \<in> set (split_on sep s) \<Longrightarrow> set w \<subseteq> set s"
proof (induction s arbitrary: w)
  case (Cons c cs)
  then show ?case by (fastforce split: list.splits if_splits)
qed simp

lemma split_join:
  "ws \<noteq> [] \<Longrightarrow> \<forall>w \<in> set ws. sep \<notin> set w \<Longrightarrow> split_on sep (join_with sep ws) = ws"
  by (induction sep ws rule: join_with.induct) (auto simp: split_on_none split_on_append)

definition contains_any :: "string \<Rightarrow> string \<Rightarrow> bool" where
  "contains_any s cs \<longleftrightarrow> list_ex (\<lambda>c. c \<in> set cs) s"

lemma contains_any_iff: "contains_any s cs \<longleftrightarrow> set s \<inter> set cs \<noteq> {}"
  by (auto simp: contains_any_def list_ex_iff)


subsection \<open>Decimal integers\<close>

text \<open>\<open>strconv.FormatUint(n, 10)\<close> and \<open>strconv.ParseUint(s, 10, bits)\<close>.\<close>

fun format_uint :: "nat \<Rightarrow> string" where
  "format_uint n =
     (if n < 10 then [char_of (48 + n)] else format_uint (n div 10) @ [char_of (48 + n mod 10)])"

declare format_uint.simps [simp del]

definition digit_val :: "char \<Rightarrow> nat" where
  "digit_val c = ord c - 48"

fun digits_val :: "nat \<Rightarrow> string \<Rightarrow> nat" where
  "digits_val acc [] = acc"
| "digits_val acc (c # cs) = digits_val (acc * 10 + digit_val c) cs"

definition parse_uint :: "nat \<Rightarrow> string \<Rightarrow> nat option" where
  "parse_uint bits s =
     (if s = [] \<or> \<not> list_all is_digit s then None
      else let v = digits_val 0 s in if v < 2 ^ bits then Some v else None)"

lemma digits_val_append: "digits_val a (s @ t) = digits_val (digits_val a s) t"
  by (induction s arbitrary: a) auto

lemma digit_char: "d < 10 \<Longrightarrow> is_digit (char_of (48 + d)) \<and> digit_val (char_of (48 + d)) = d"
  using ord_char_of [of "48 + d"] by (simp add: is_digit_def digit_val_def del: of_char_of)

lemma char_of_48: "char_of (48 :: nat) = CHR ''0''"
  by (subst ord_inject [symmetric]) (simp add: ord_char_of del: of_char_of)

lemma char_of_digit_val: "is_digit c \<Longrightarrow> char_of (48 + digit_val c) = c"
  by (simp add: is_digit_def digit_val_def)

lemma digit_val_less: "is_digit c \<Longrightarrow> digit_val c < 10"
  unfolding is_digit_def digit_val_def by linarith

lemma format_uint_nonempty [simp]: "format_uint n \<noteq> []"
  by (subst format_uint.simps) simp

lemma format_uint_digits: "list_all is_digit (format_uint n)"
proof (induction n rule: format_uint.induct)
  case (1 n)
  then show ?case
    by (subst format_uint.simps) (simp add: digit_char)
qed

lemma digits_val_format [simp]: "digits_val 0 (format_uint n) = n"
proof (induction n rule: format_uint.induct)
  case (1 n)
  then show ?case
    by (subst format_uint.simps) (simp add: digit_char digits_val_append)
qed

lemma parse_format_uint: "n < 2 ^ bits \<Longrightarrow> parse_uint bits (format_uint n) = Some n"
  by (simp add: parse_uint_def format_uint_digits)

lemma format_uint_inject: "format_uint m = format_uint n \<longleftrightarrow> m = n"
  by (metis digits_val_format)

lemma format_uint_lead: "format_uint n = c # cs \<Longrightarrow> digit_val c = 0 \<Longrightarrow> n = 0"
proof (induction n arbitrary: cs rule: format_uint.induct)
  case (1 n)
  show ?case
  proof (cases "n < 10")
    case True
    with "1.prems" show ?thesis by (auto simp: format_uint.simps [of n] digit_char)
  next
    case False
    then have "format_uint n = format_uint (n div 10) @ [char_of (48 + n mod 10)]"
      by (simp add: format_uint.simps [of n])
    moreover obtain d ds where d: "format_uint (n div 10) = d # ds"
      by (cases "format_uint (n div 10)") auto
    ultimately have "d = c" using "1.prems"(1) by simp
    then have "n div 10 = 0" using "1.IH" [OF False] d "1.prems"(2) by simp
    with False show ?thesis by simp
  qed
qed

lemma digits_val_pos: "0 < a \<Longrightarrow> 0 < digits_val a s"
  by (induction s arbitrary: a) auto

text \<open>A digit string without a superfluous leading zero is the print of its value.\<close>

lemma format_digits_val:
  assumes "list_all is_digit s" and "s \<noteq> []" and "length s = 1 \<or> digit_val (hd s) \<noteq> 0"
  shows "format_uint (digits_val 0 s) = s"
  using assms
proof (induction s rule: rev_induct)
  case (snoc c s)
  show ?case
  proof (cases "s = []")
    case True
    with snoc.prems show ?thesis
      by (subst format_uint.simps) (simp add: digit_val_less char_of_digit_val)
  next
    case False
    then have hd: "digit_val (hd s) \<noteq> 0" using snoc.prems(3) by (cases s) auto
    have IH: "format_uint (digits_val 0 s) = s" using snoc False hd by auto
    have pos: "0 < digits_val 0 s"
      using hd False by (cases s) (auto intro: digits_val_pos)
    have c: "digit_val c < 10" "char_of (48 + digit_val c) = c"
      using snoc.prems(1) by (simp_all add: digit_val_less char_of_digit_val)
    show ?thesis
      using pos c IH by (subst format_uint.simps) (simp add: digits_val_append)
  qed
qed simp

subsection \<open>UTF-8\<close>

text \<open>
  \<open>utf8.DecodeRuneInString\<close>: the rune and its width, \<open>(0xFFFD, 1)\<close> for an invalid sequence. The
  accepted ranges of the second byte are those of the language's decoder (no overlong forms, no
  surrogates, nothing above \<open>0x10FFFF\<close>).
\<close>

definition rune_error :: nat where "rune_error = 65533"

definition in_range :: "nat \<Rightarrow> nat \<Rightarrow> char \<Rightarrow> bool" where
  "in_range lo hi c \<longleftrightarrow> lo \<le> ord c \<and> ord c \<le> hi"

definition decode_rune :: "string \<Rightarrow> nat \<times> nat" where
  "decode_rune s =
     (case s of [] \<Rightarrow> (rune_error, 0)
      | c0 # r \<Rightarrow>
         (let b0 = ord c0 in
          if b0 < 128 then (b0, 1)
          else if 194 \<le> b0 \<and> b0 \<le> 223 then
            (case r of c1 # _ \<Rightarrow>
               if in_range 128 191 c1 then ((b0 - 192) * 64 + (ord c1 - 128), 2) else (rune_error, 1)
             | _ \<Rightarrow> (rune_error, 1))
          else if 224 \<le> b0 \<and> b0 \<le> 239 then
            (case r of c1 # c2 # _ \<Rightarrow>
               if in_range (if b0 = 224 then 160 else 128) (if b0 = 237 then 159 else 191) c1
                  \<and> in_range 128 191 c2
               then ((b0 - 224) * 4096 + (ord c1 - 128) * 64 + (ord c2 - 128), 3)
               else (rune_error, 1)
             | _ \<Rightarrow> (rune_error, 1))
          else if 240 \<le> b0 \<and> b0 \<le> 244 then
            (case r of c1 # c2 # c3 # _ \<Rightarrow>
               if in_range (if b0 = 240 then 144 else 128) (if b0 = 244 then 143 else 191) c1
                  \<and> in_range 128 191 c2 \<and> in_range 128 191 c3
               then ((b0 - 240) * 262144 + (ord c1 - 128) * 4096 + (ord c2 - 128) * 64
                     + (ord c3 - 128), 4)
               else (rune_error, 1)
             | _ \<Rightarrow> (rune_error, 1))
          else (rune_error, 1)))"

lemma decode_rune_pos: "s \<noteq> [] \<Longrightarrow> 0 < snd (decode_rune s)"
  by (auto simp: decode_rune_def Let_def split: list.splits)

function utf8_chunks :: "string \<Rightarrow> (nat \<times> string) list" where
  "utf8_chunks s =
     (if s = [] then []
      else (case decode_rune s of (r, n) \<Rightarrow> (r, take n s) # utf8_chunks (drop n s)))"
  by pat_completeness auto
termination
proof (relation "measure length")
  fix s :: string and r n
  assume "s \<noteq> []" and "(r, n) = decode_rune s"
  with decode_rune_pos [of s] have "0 < n" by (metis snd_conv)
  with \<open>s \<noteq> []\<close> show "(drop n s, s) \<in> measure length" by simp
qed simp

declare utf8_chunks.simps [simp del]

lemma utf8_chunks_Nil [simp]: "utf8_chunks [] = []"
  by (simp add: utf8_chunks.simps)

lemma concat_utf8_chunks: "concat (map snd (utf8_chunks s)) = s"
proof (induction s rule: utf8_chunks.induct)
  case (1 s)
  show ?case
  proof (cases "s = []")
    case False
    then show ?thesis using "1.IH" by (subst utf8_chunks.simps) (auto split: prod.split)
  qed simp
qed

lemma utf8_chunks_ascii: "list_all (\<lambda>c. ord c < 128) s \<Longrightarrow> utf8_chunks s = map (\<lambda>c. (ord c, [c])) s"
proof (induction s)
  case (Cons c s)
  then have "decode_rune (c # s) = (ord c, 1)" by (simp add: decode_rune_def)
  with Cons show ?case by (subst utf8_chunks.simps) simp
qed simp

definition utf8_valid :: "string \<Rightarrow> bool" where
  "utf8_valid s \<longleftrightarrow> list_all (\<lambda>(r, bs). \<not> (r = rune_error \<and> length bs = 1)) (utf8_chunks s)"

definition runes :: "string \<Rightarrow> nat list" where
  "runes s = map fst (utf8_chunks s)"

text \<open>\<open>unicode.IsSpace\<close> and \<open>strings.TrimSpace\<close>.\<close>

definition is_space :: "nat \<Rightarrow> bool" where
  "is_space r \<longleftrightarrow> (9 \<le> r \<and> r \<le> 13) \<or> r = 32 \<or> r = 133 \<or> r = 160 \<or> r = 5760 \<or> (8192 \<le> r \<and> r \<le> 8202)
     \<or> r = 8232 \<or> r = 8233 \<or> r = 8239 \<or> r = 8287 \<or> r = 12288"

definition trim_space :: "string \<Rightarrow> string" where
  "trim_space s =
     (let sp = (\<lambda>(r, bs). is_space r)
      in concat (map snd (rev (dropWhile sp (rev (dropWhile sp (utf8_chunks s)))))))"

lemma set_trim_space: "set (trim_space s) \<subseteq> set s"
proof -
  have "set (trim_space s) \<subseteq> set (concat (map snd (utf8_chunks s)))"
    unfolding trim_space_def Let_def set_concat set_map set_rev
    by (auto dest!: set_dropWhileD simp: set_rev)
  then show ?thesis by (simp only: concat_utf8_chunks)
qed

lemma trim_space_ascii:
  assumes "list_all (\<lambda>c. ord c < 128) s"
  shows "trim_space s =
    rev (dropWhile (\<lambda>c. is_space (ord c)) (rev (dropWhile (\<lambda>c. is_space (ord c)) s)))"
  using assms
  by (simp add: trim_space_def utf8_chunks_ascii dropWhile_map rev_map o_def comp_def)

lemma trim_space_id: "list_all (\<lambda>c. ord c < 128 \<and> \<not> is_space (ord c)) s \<Longrightarrow> trim_space s = s"
proof -
  assume *: "list_all (\<lambda>c. ord c < 128 \<and> \<not> is_space (ord c)) s"
  then have "list_all (\<lambda>c. ord c < 128) s" by (auto simp: list_all_iff)
  moreover have "dropWhile (\<lambda>c. is_space (ord c)) s = s"
    and "dropWhile (\<lambda>c. is_space (ord c)) (rev s) = rev s"
    using * by (auto simp: list_all_iff dropWhile_eq_self_iff hd_rev)
  ultimately show ?thesis by (simp add: trim_space_ascii)
qed

text \<open>Trimming is idempotent: what is cut off at either end leaves the decoding of the rest alone.\<close>

lemma decode_rune_shape:
  obtains n ok val where "n \<le> 4" "\<And>r. decode_rune (c # r) =
    (if n \<le> length r \<and> ok (take n r) then (val (take n r), Suc n) else (rune_error, 1))"
proof -
  define ok1 where "ok1 = (\<lambda>t. in_range 128 191 (t ! 0))"
  define ok2 where "ok2 = (\<lambda>t. in_range (if ord c = 224 then 160 else 128) (if ord c = 237 then 159 else 191) (t ! 0)
    \<and> in_range 128 191 (t ! 1))"
  define ok3 where "ok3 = (\<lambda>t. in_range (if ord c = 240 then 144 else 128) (if ord c = 244 then 143 else 191) (t ! 0)
    \<and> in_range 128 191 (t ! 1) \<and> in_range 128 191 (t ! 2))"
  consider "ord c < 128" | "194 \<le> ord c" "ord c \<le> 223" | "224 \<le> ord c" "ord c \<le> 239"
    | "240 \<le> ord c" "ord c \<le> 244" | "128 \<le> ord c" "ord c < 194 \<or> 244 < ord c"
    by linarith
  then show ?thesis
  proof cases
    case 1
    then show ?thesis by (intro that [of 0 "\<lambda>_. True" "\<lambda>_. ord c"]) (simp_all add: decode_rune_def)
  next
    case 2
    then show ?thesis
      by (intro that [of 1 ok1 "\<lambda>t. (ord c - 192) * 64 + (ord (t ! 0) - 128)"])
        (simp_all add: decode_rune_def ok1_def split: list.split)
  next
    case 3
    then show ?thesis
      by (intro that [of 2 ok2 "\<lambda>t. (ord c - 224) * 4096 + (ord (t ! 0) - 128) * 64 + (ord (t ! 1) - 128)"])
        (simp_all add: decode_rune_def ok2_def numeral_2_eq_2 split: list.split)
  next
    case 4
    then show ?thesis
      by (intro that [of 3 ok3 "\<lambda>t. (ord c - 240) * 262144 + (ord (t ! 0) - 128) * 4096
          + (ord (t ! 1) - 128) * 64 + (ord (t ! 2) - 128)"])
        (simp_all add: decode_rune_def ok3_def numeral_2_eq_2 numeral_3_eq_3 split: list.split)
  next
    case 5
    then show ?thesis
      by (intro that [of 0 "\<lambda>_. False" "\<lambda>_. 0"]) (auto simp: decode_rune_def Let_def)
  qed
qed

lemma decode_rune_append:
  assumes "u \<noteq> []" and "snd (decode_rune (u @ x)) \<le> length u"
  shows "decode_rune (u @ x) = decode_rune u"
proof -
  obtain c r where u: "u = c # r" using assms(1) by (cases u) auto
  obtain n ok val where d: "\<And>r. decode_rune (c # r) =
    (if n \<le> length r \<and> ok (take n r) then (val (take n r), Suc n) else (rune_error, 1))"
    using decode_rune_shape [of c] by metis
  show ?thesis using assms(2) by (auto simp: u d split: if_split_asm)
qed

lemma utf8_chunks_step:
  "s \<noteq> [] \<Longrightarrow> utf8_chunks s = (fst (decode_rune s), take (snd (decode_rune s)) s) # utf8_chunks (drop (snd (decode_rune s)) s)"
  by (subst utf8_chunks.simps) (simp split: prod.split)

lemma decode_rune_le: "snd (decode_rune s) \<le> length s"
  by (auto simp: decode_rune_def Let_def split: list.splits)

lemma utf8_chunks_drop:
  "utf8_chunks (concat (map snd (drop k (utf8_chunks s)))) = drop k (utf8_chunks s)"
proof (induction k arbitrary: s)
  case (Suc k)
  show ?case by (cases "s = []") (simp_all add: utf8_chunks_step Suc)
qed (simp add: concat_utf8_chunks)

lemma utf8_chunks_take:
  "utf8_chunks (concat (map snd (take k (utf8_chunks s)))) = take k (utf8_chunks s)"
proof (induction k arbitrary: s)
  case (Suc k)
  show ?case
  proof (cases "s = []")
    case False
    let ?n = "snd (decode_rune s)" and ?t = "drop (snd (decode_rune s)) s"
    let ?u = "take ?n s @ concat (map snd (take k (utf8_chunks ?t)))"
    have n: "0 < ?n" "?n \<le> length s" using decode_rune_pos [OF False] decode_rune_le by simp_all
    then have u: "?u \<noteq> []" using False by simp
    have "concat (map snd (take k (utf8_chunks ?t))) @ concat (map snd (drop k (utf8_chunks ?t)))
        = concat (map snd (utf8_chunks ?t))"
      by (metis append_take_drop_id concat_append map_append)
    then have s: "?u @ concat (map snd (drop k (utf8_chunks ?t))) = s"
      by (simp add: concat_utf8_chunks)
    have "decode_rune s = decode_rune ?u"
      using decode_rune_append [OF u, of "concat (map snd (drop k (utf8_chunks ?t)))"] n
      unfolding s by simp
    then have "utf8_chunks ?u = (fst (decode_rune s), take ?n s) # utf8_chunks (concat (map snd (take k (utf8_chunks ?t))))"
      using n by (subst utf8_chunks_step [OF u]) simp
    then show ?thesis using Suc.IH [of ?t] False by (simp add: utf8_chunks_step)
  qed simp
qed simp

lemma trim_space_idem [simp]: "trim_space (trim_space s) = trim_space s"
proof -
  define sp where "sp = (\<lambda>(r :: nat, bs :: string). is_space r)"
  define l where "l = dropWhile sp (utf8_chunks s)"
  define m where "m = rev (dropWhile sp (rev l))"
  have t: "trim_space s = concat (map snd m)"
    by (simp add: trim_space_def Let_def m_def l_def sp_def)
  obtain k where l: "l = drop k (utf8_chunks s)" using dropWhile_eq_drop l_def by metis
  obtain j where "dropWhile sp (rev l) = drop j (rev l)" using dropWhile_eq_drop by metis
  then have m: "m = take (length l - j) l" by (simp add: m_def rev_drop)
  have "utf8_chunks (concat (map snd l)) = l" unfolding l by (rule utf8_chunks_drop)
  then have c: "utf8_chunks (concat (map snd m)) = m"
    using utf8_chunks_take [of "length l - j" "concat (map snd l)"] m by simp
  have first: "dropWhile sp m = m"
  proof (cases m)
    case (Cons a m')
    then have "l \<noteq> []" and "hd l = a" using m by (cases l; cases "length l - j"; auto)+
    then have "\<not> sp a" using hd_dropWhile [of sp "utf8_chunks s"] l_def by auto
    then show ?thesis using Cons by simp
  qed simp
  have "dropWhile sp (rev m) = rev m" by (simp add: m_def dropWhile_idem)
  then have "trim_space (concat (map snd m)) = concat (map snd m)"
    unfolding trim_space_def Let_def c using first by (simp add: sp_def)
  then show ?thesis by (simp add: t)
qed

subsection \<open>Comparison of float64 values\<close>

text \<open>
  The source stores and compares floating-point observations far more often than it computes with
  them. A value is NaN, an infinity or finite (every finite \<open>float64\<close> is a rational; the two
  zeros are one value, as comparison sees them); every comparison with NaN is false.
\<close>

datatype float64 = NaN | NegInf | Fin rat | PosInf

fun f_less :: "float64 \<Rightarrow> float64 \<Rightarrow> bool" where
  "f_less NaN y = False"
| "f_less x NaN = False"
| "f_less NegInf y = (y \<noteq> NegInf)"
| "f_less x PosInf = (x \<noteq> PosInf)"
| "f_less (Fin a) (Fin b) = (a < b)"
| "f_less x y = False"

definition f_eq :: "float64 \<Rightarrow> float64 \<Rightarrow> bool" where
  "f_eq x y \<longleftrightarrow> x \<noteq> NaN \<and> x = y"

definition f_leq :: "float64 \<Rightarrow> float64 \<Rightarrow> bool" where
  "f_leq x y \<longleftrightarrow> f_less x y \<or> f_eq x y"

definition is_nan :: "float64 \<Rightarrow> bool" where "is_nan x \<longleftrightarrow> x = NaN"
definition is_inf :: "float64 \<Rightarrow> bool" where "is_inf x \<longleftrightarrow> x = NegInf \<or> x = PosInf"

abbreviation fint :: "int \<Rightarrow> float64" where "fint n \<equiv> Fin (of_int n)"

lemma f_less_irrefl [simp]: "\<not> f_less x x"
  by (cases x) auto

lemma f_less_trans: "f_less x y \<Longrightarrow> f_less y z \<Longrightarrow> f_less x z"
  by (cases x; cases y; cases z) auto

lemma f_less_asym: "f_less x y \<Longrightarrow> \<not> f_less y x"
  by (cases x; cases y) auto

lemma f_less_linear: "x \<noteq> NaN \<Longrightarrow> y \<noteq> NaN \<Longrightarrow> f_less x y \<or> x = y \<or> f_less y x"
  by (cases x; cases y) auto

subsection \<open>Interfaces: printers with parsers, machines with invariants\<close>

locale codec =
  fixes enc :: "'a \<Rightarrow> string" and dec :: "string \<Rightarrow> 'a option" and ok :: "'a \<Rightarrow> bool"
  assumes dec_enc: "ok x \<Longrightarrow> dec (enc x) = Some x"
    and dec_ok: "dec s = Some x \<Longrightarrow> ok x"
begin

lemma enc_inject: "ok x \<Longrightarrow> ok y \<Longrightarrow> enc x = enc y \<longleftrightarrow> x = y"
  by (metis dec_enc option.inject)

lemma reparse: "dec s = Some x \<Longrightarrow> dec (enc x) = Some x"
  by (blast intro: dec_enc dec_ok)

end

locale canonical_codec = codec +
  assumes enc_dec: "dec s = Some x \<Longrightarrow> enc x = s"
begin

lemma dec_iff: "dec s = Some x \<longleftrightarrow> ok x \<and> s = enc x"
  by (blast intro: dec_enc dec_ok dest: enc_dec)

lemma dec_inject: "dec s = Some x \<Longrightarrow> dec t = Some x \<Longrightarrow> s = t"
  by (blast dest: enc_dec)

end

locale step_invariant =
  fixes step :: "'e \<Rightarrow> 's \<Rightarrow> 's" and inv :: "'s \<Rightarrow> bool"
  assumes inv_step: "inv s \<Longrightarrow> inv (step e s)"
begin

lemma inv_run: "inv s \<Longrightarrow> inv (fold step es s)"
  by (induction es arbitrary: s) (auto intro: inv_step)

end

text \<open>
  A machine whose steps answer with a label, and the abstract machine its labels are judged by: if
  every step is one of the abstract machine under \<open>abs\<close>, then every run is a run of it.
\<close>

fun run_labels :: "('e \<Rightarrow> 'c \<Rightarrow> 'l \<times> 'c) \<Rightarrow> 'e list \<Rightarrow> 'c \<Rightarrow> 'l list \<times> 'c" where
  "run_labels step [] c = ([], c)"
| "run_labels step (e # es) c =
     (case step e c of (l, c1) \<Rightarrow> (case run_labels step es c1 of (ls, c2) \<Rightarrow> (l # ls, c2)))"

inductive trace_of :: "('a \<Rightarrow> 'l \<Rightarrow> 'a \<Rightarrow> bool) \<Rightarrow> 'a \<Rightarrow> 'l list \<Rightarrow> 'a \<Rightarrow> bool"
  for spec where
  trace_nil: "trace_of spec a [] a"
| trace_cons: "spec a l b \<Longrightarrow> trace_of spec b ls c \<Longrightarrow> trace_of spec a (l # ls) c"

inductive_cases trace_nilE [elim!]: "trace_of spec a [] c"
inductive_cases trace_consE [elim!]: "trace_of spec a (l # ls) c"

locale simulation =
  fixes allowed :: "'e \<Rightarrow> bool" and inv :: "'c \<Rightarrow> bool" and step :: "'e \<Rightarrow> 'c \<Rightarrow> 'l \<times> 'c"
    and abs :: "'c \<Rightarrow> 'a" and spec :: "'a \<Rightarrow> 'l \<Rightarrow> 'a \<Rightarrow> bool"
  assumes simulates: "allowed e \<Longrightarrow> inv c \<Longrightarrow> step e c = (l, c') \<Longrightarrow> inv c' \<and> spec (abs c) l (abs c')"
begin

lemma run_refines:
  assumes "list_all allowed es" and "inv c" and "run_labels step es c = (ls, c')"
  shows "inv c' \<and> trace_of spec (abs c) ls (abs c')"
  using assms
proof (induction es arbitrary: c ls)
  case Nil then show ?case by (auto intro: trace_nil)
next
  case (Cons e es)
  obtain l c1 where s: "step e c = (l, c1)" by fastforce
  obtain ls1 where r: "run_labels step es c1 = (ls1, c')" and ls: "ls = l # ls1"
    using Cons.prems(3) s by (auto split: prod.splits)
  from simulates [OF _ Cons.prems(2) s] Cons.prems(1)
  have c1: "inv c1" "spec (abs c) l (abs c1)" by auto
  with Cons.IH [OF _ c1(1) r] Cons.prems(1) show ?case by (auto simp: ls intro: trace_cons)
qed

end

end
