(* ===== verification/Identifiers.thy ===== *)
theory Identifiers
  imports Prelude
begin

unbundle bit_operations_syntax

text \<open>
  The identifiers of the Fleet Sessions wire contract (\<open>internal/sessiondata/model.go\<close>,
  \<open>validation.go\<close>): canonical decimal 64-bit counters, version-7 UUIDs in their 16 wire bytes, and
  canonical host names. The source iterates over strings with \<open>for i := range text\<close>, which
  skips the continuation bytes of a multi-byte rune; each loop returns an error at the rune's
  first byte already, so the models iterate over bytes.
\<close>

type_synonym u8 = "8 word"
type_synonym u16 = "16 word"
type_synonym u32 = "32 word"
type_synonym u64 = "64 word"

subsection \<open>DecimalUint64\<close>

text \<open>\<open>ParseDecimalUint64\<close>, and the string \<open>MarshalJSON\<close> wraps in JSON quotes.\<close>

definition parse_decimal_uint64 :: "string \<Rightarrow> u64 option" where
  "parse_decimal_uint64 text =
     (if text = [] then None
      else if text = ''0'' then Some 0
      else if hd text = CHR ''0'' then None
      else if \<not> list_all is_digit text then None
      else map_option of_nat (parse_uint 64 text))"

definition decimal_uint64_text :: "u64 \<Rightarrow> string" where
  "decimal_uint64_text d = format_uint (unat d)"

lemma digit_val_0: "is_digit c \<Longrightarrow> digit_val c = 0 \<longleftrightarrow> c = CHR ''0''"
  using char_of_digit_val [of c] by (auto simp: digit_val_def char_of_48)

lemma format_uint_0: "format_uint 0 = ''0''"
  by (simp add: format_uint.simps char_of_48)

lemma unat_u64: "unat (d :: u64) < 2 ^ 64"
  by (rule order_less_le_trans [OF unsigned_less]) simp

interpretation decimal_uint64: canonical_codec decimal_uint64_text parse_decimal_uint64 "\<lambda>_. True"
proof unfold_locales
  fix d :: u64
  show "parse_decimal_uint64 (decimal_uint64_text d) = Some d"
  proof (cases "format_uint (unat d)")
    case (Cons c cs)
    have c: "is_digit c" using format_uint_digits [of "unat d"] Cons by simp
    have "c = CHR ''0'' \<Longrightarrow> d = 0"
      using format_uint_lead [OF Cons] digit_val_0 [OF c] by (simp add: unat_eq_0)
    then show ?thesis
      using format_uint_digits [of "unat d"] parse_format_uint [OF unat_u64, of d] Cons
      by (auto simp: parse_decimal_uint64_def decimal_uint64_text_def format_uint_0)
  qed simp
next
  fix s and d :: u64 assume *: "parse_decimal_uint64 s = Some d"
  show "decimal_uint64_text d = s"
  proof (cases "s = ''0''")
    case True
    with * show ?thesis
      by (auto simp: parse_decimal_uint64_def decimal_uint64_text_def format_uint_0)
  next
    case False
    with * have s: "list_all is_digit s" "s \<noteq> []" "hd s \<noteq> CHR ''0''" "digits_val 0 s < 2 ^ 64"
      "d = of_nat (digits_val 0 s)"
      by (auto simp: parse_decimal_uint64_def parse_uint_def Let_def split: if_splits)
    then have "digit_val (hd s) \<noteq> 0" by (cases s) (auto simp: digit_val_0)
    with s show ?thesis
      by (simp add: decimal_uint64_text_def format_digits_val unat_of_nat take_bit_eq_mod)
  qed
qed simp

subsection \<open>UUIDv7\<close>

type_synonym uuidv7 = "u8 list"

definition parse_uuid_hex :: "char \<Rightarrow> u8 option" where
  "parse_uuid_hex c =
     (if is_digit c then Some (of_nat (ord c - 48))
      else if 97 \<le> ord c \<and> ord c \<le> 102 then Some (of_nat (ord c - 97 + 10))
      else if 65 \<le> ord c \<and> ord c \<le> 70 then Some (of_nat (ord c - 65 + 10))
      else None)"

definition uuid_dash :: "nat \<Rightarrow> bool" where
  "uuid_dash i \<longleftrightarrow> i = 8 \<or> i = 13 \<or> i = 18 \<or> i = 23"

fun parse_uuid_loop :: "nat \<Rightarrow> nat \<Rightarrow> uuidv7 \<Rightarrow> string \<Rightarrow> uuidv7 option" where
  "parse_uuid_loop i bi v [] = Some v"
| "parse_uuid_loop i bi v (c # cs) =
     (if uuid_dash i then
        (if c \<noteq> CHR ''-'' then None else parse_uuid_loop (Suc i) bi v cs)
      else
        (case parse_uuid_hex c of
           None \<Rightarrow> None
         | Some nibble \<Rightarrow>
             parse_uuid_loop (Suc i) (Suc bi)
               (if bi mod 2 = 0 then v[bi div 2 := push_bit 4 nibble]
                else v[bi div 2 := v ! (bi div 2) OR nibble]) cs))"

text \<open>The version and variant test on the 16 bytes.\<close>

definition uuid_v7 :: "uuidv7 \<Rightarrow> bool" where
  "uuid_v7 v \<longleftrightarrow> length v = 16 \<and> drop_bit 4 (v ! 6) = 7 \<and> v ! 8 AND 0xc0 = 0x80"

definition parse_uuidv7 :: "string \<Rightarrow> uuidv7 option" where
  "parse_uuidv7 text =
     (if length text \<noteq> 36 then None
      else (case parse_uuid_loop 0 0 (replicate 16 0) text of
              None \<Rightarrow> None
            | Some v \<Rightarrow>
                if drop_bit 4 (v ! 6) \<noteq> 7 \<or> v ! 8 AND 0xc0 \<noteq> 0x80 then None else Some v))"

definition hex_char :: "u8 \<Rightarrow> char" where
  "hex_char d = ''0123456789abcdef'' ! unat d"

definition hex_byte :: "u8 \<Rightarrow> string" where
  "hex_byte b = [hex_char (drop_bit 4 b), hex_char (b AND 15)]"

text \<open>
  \<open>UUIDv7.String\<close>: byte \<open>i\<close> goes to index \<open>2i\<close>, shifted by one for each of the dashes at 8, 13, 18
  and 23 that precede it.
\<close>

definition uuid_string :: "uuidv7 \<Rightarrow> string" where
  "uuid_string v =
     (let h = (\<lambda>i j. concat (map hex_byte (take (j - i) (drop i v))))
      in h 0 4 @ ''-'' @ h 4 6 @ ''-'' @ h 6 8 @ ''-'' @ h 8 10 @ ''-'' @ h 10 16)"

fun compare_uuidv7 :: "uuidv7 \<Rightarrow> uuidv7 \<Rightarrow> int" where
  "compare_uuidv7 (l # ls) (r # rs) =
     (if l < r then - 1 else if l > r then 1 else compare_uuidv7 ls rs)"
| "compare_uuidv7 _ _ = 0"

lemma compare_uuidv7_eq:
  "length l = length r \<Longrightarrow> compare_uuidv7 l r = (if l < r then - 1 else if l = r then 0 else 1)"
  by (induction l r rule: compare_uuidv7.induct) auto

lemma nibble_split: "push_bit 4 (drop_bit 4 b) OR (b AND 15) = (b :: u8)"
proof (rule bit_word_eqI)
  fix n assume "n < LENGTH(8)"
  then have "n = 0 \<or> n = 1 \<or> n = 2 \<or> n = 3 \<or> n = 4 \<or> n = 5 \<or> n = 6 \<or> n = 7" by auto
  then show "bit (push_bit 4 (drop_bit 4 b) OR (b AND 15)) n \<longleftrightarrow> bit b n"
    by (elim disjE) (simp_all add: bit_simps)
qed

lemma unat_u8: "unat (b :: u8) < 256"
  by (rule order_less_le_trans [OF unsigned_less]) simp

lemma nibble_high: "(drop_bit 4 b :: u8) < 16"
  using unat_u8 [of b] by (simp add: word_less_nat_alt unat_drop_bit_eq drop_bit_eq_div unat_div_distrib)

lemma nibble_low: "(b AND 15 :: u8) < 16"
  using word_and_le1 [of b 15] by (simp add: word_le_nat_alt word_less_nat_alt)

lemma nibble_cases:
  assumes "(d :: u8) < 16"
  obtains n where "d = of_nat n" and "n \<in> {0, 1, 2, 3, 4, 5, 6, 7, 8, 9, 10, 11, 12, 13, 14, 15}"
proof -
  have "unat d < 16" using assms by (simp add: word_less_nat_alt)
  then have "unat d \<in> {0, 1, 2, 3, 4, 5, 6, 7, 8, 9, 10, 11, 12, 13, 14, 15}"
    by (simp only: insert_iff empty_iff) presburger
  then show ?thesis using that [of "unat d"] by simp
qed

lemma parse_hex_char: "d < 16 \<Longrightarrow> parse_uuid_hex (hex_char d) = Some d"
  by (erule nibble_cases) (auto simp: hex_char_def parse_uuid_hex_def is_digit_def)

lemma hex_char_nat:
  assumes "n < 16"
  shows "hex_char (of_nat n) = char_of (if n < 10 then 48 + n else 87 + n)"
proof -
  have "n \<in> {0, 1, 2, 3, 4, 5, 6, 7, 8, 9, 10, 11, 12, 13, 14, 15}"
    using assms by (simp only: insert_iff empty_iff) presburger
  then show ?thesis
    by (elim insertE) (simp_all add: hex_char_def bytes_simps)
qed

lemma of_nat_u8_less: "n < 16 \<Longrightarrow> (of_nat n :: u8) < 16"
  by (simp add: word_less_nat_alt unat_of_nat)

lemma parse_hex_Some:
  assumes "parse_uuid_hex c = Some d"
  shows "d < 16 \<and> hex_char d = lower_byte c"
proof -
  consider (digit) "is_digit c" "d = of_nat (ord c - 48)"
    | (lower) "97 \<le> ord c" "ord c \<le> 102" "d = of_nat (ord c - 97 + 10)"
    | (upper) "65 \<le> ord c" "ord c \<le> 70" "d = of_nat (ord c - 65 + 10)"
    using assms unfolding parse_uuid_hex_def by (metis option.distinct(1) option.inject)
  then show ?thesis
  proof cases
    case digit
    then have "48 \<le> ord c" "ord c - 48 < 10" "\<not> is_upper c"
      unfolding is_digit_def is_upper_def by linarith+
    then show ?thesis
      using hex_char_nat [of "ord c - 48"] of_nat_u8_less [of "ord c - 48"] digit
      by (simp add: lower_byte_def del: of_nat_diff)
  next
    case lower
    then have "ord c - 97 + 10 < 16" "\<not> ord c - 97 + 10 < 10" "87 + (ord c - 97 + 10) = ord c"
      "\<not> is_upper c"
      unfolding is_upper_def by linarith+
    then show ?thesis
      using hex_char_nat [of "ord c - 97 + 10"] of_nat_u8_less [of "ord c - 97 + 10"] lower
      by (simp only: lower_byte_def if_False char_of_char simp_thms)
  next
    case upper
    then have "ord c - 65 + 10 < 16" "\<not> ord c - 65 + 10 < 10" "87 + (ord c - 65 + 10) = ord c + 32"
      "is_upper c"
      unfolding is_upper_def by linarith+
    then show ?thesis
      using hex_char_nat [of "ord c - 65 + 10"] of_nat_u8_less [of "ord c - 65 + 10"] upper
      by (simp only: lower_byte_def if_False if_True simp_thms)
  qed
qed

lemma nibble_join:
  assumes "h < 16" and "l < (16 :: u8)"
  shows "drop_bit 4 (push_bit 4 h OR l) = h \<and> (push_bit 4 h OR l) AND 15 = l"
  using assms by (elim nibble_cases) (elim insertE; simp)

lemma parse_loop_byte:
  assumes "\<not> uuid_dash i" "\<not> uuid_dash (Suc i)" "k < length v"
  shows "parse_uuid_loop i (2 * k) v (hex_byte b @ cs) = parse_uuid_loop (i + 2) (2 * Suc k) (v[k := b]) cs"
  using assms by (simp add: hex_byte_def parse_hex_char nibble_high nibble_low nibble_split)

lemma parse_loop_bytes:
  assumes "\<forall>j < 2 * length bs. \<not> uuid_dash (i + j)" "k + length bs \<le> length v"
  shows "parse_uuid_loop i (2 * k) v (concat (map hex_byte bs) @ cs)
    = parse_uuid_loop (i + 2 * length bs) (2 * (k + length bs)) (take k v @ bs @ drop (k + length bs) v) cs"
  using assms
proof (induction bs arbitrary: i k v)
  case (Cons b bs)
  have nd: "\<not> uuid_dash i" "\<not> uuid_dash (Suc i)"
    using Cons.prems(1) [rule_format, of 0] Cons.prems(1) [rule_format, of 1] by simp_all
  have nds: "\<forall>j < 2 * length bs. \<not> uuid_dash ((i + 2) + j)"
    using Cons.prems(1) [rule_format, of "j + 2" for j] by (simp add: algebra_simps)
  have "parse_uuid_loop i (2 * k) v (concat (map hex_byte (b # bs)) @ cs)
      = parse_uuid_loop (i + 2) (2 * Suc k) (v[k := b]) (concat (map hex_byte bs) @ cs)"
    using parse_loop_byte [OF nd] Cons.prems(2) by simp
  also have "\<dots> = parse_uuid_loop (i + 2 + 2 * length bs) (2 * (Suc k + length bs))
      (take (Suc k) (v[k := b]) @ bs @ drop (Suc k + length bs) (v[k := b])) cs"
    using Cons.IH [OF nds, of "Suc k" "v[k := b]"] Cons.prems(2) by simp
  finally show ?case
    using Cons.prems(2) by (simp add: take_Suc_conv_app_nth)
qed simp

lemma parse_loop_inv:
  assumes "length t = 2 * n" "\<forall>j < 2 * n. \<not> uuid_dash (i + j)" "k + n \<le> length v"
    "parse_uuid_loop i (2 * k) v (t @ cs) = Some w"
  shows "\<exists>bs. length bs = n \<and> to_lower t = concat (map hex_byte bs)
    \<and> parse_uuid_loop (i + 2 * n) (2 * (k + n)) (take k v @ bs @ drop (k + n) v) cs = Some w"
  using assms
proof (induction n arbitrary: i k v t)
  case (Suc n)
  obtain c d u where t: "t = c # d # u" "length u = 2 * n"
    using Suc.prems(1) by (auto simp: length_Suc_conv)
  have nd: "\<not> uuid_dash i" "\<not> uuid_dash (Suc i)"
    using Suc.prems(2) [rule_format, of 0] Suc.prems(2) [rule_format, of 1] by simp_all
  have nds: "\<forall>j < 2 * n. \<not> uuid_dash ((i + 2) + j)"
    using Suc.prems(2) [rule_format, of "j + 2" for j] by (simp add: algebra_simps)
  obtain h l where hl: "parse_uuid_hex c = Some h" "parse_uuid_hex d = Some l"
    and rest: "parse_uuid_loop (i + 2) (2 * Suc k) (v[k := push_bit 4 h OR l]) (u @ cs) = Some w"
    using Suc.prems(3,4) nd by (auto simp: t split: option.split_asm)
  let ?b = "push_bit 4 h OR l"
  have b: "hex_byte ?b = [lower_byte c, lower_byte d]"
    using parse_hex_Some [OF hl(1)] parse_hex_Some [OF hl(2)] nibble_join [of h l]
    by (simp only: hex_byte_def simp_thms)
  obtain bs where bs: "length bs = n" "to_lower u = concat (map hex_byte bs)"
    "parse_uuid_loop (i + 2 + 2 * n) (2 * (Suc k + n))
       (take (Suc k) (v[k := ?b]) @ bs @ drop (Suc k + n) (v[k := ?b])) cs = Some w"
    using Suc.IH [OF t(2) nds _ rest] Suc.prems(3) by auto
  then show ?case using Suc.prems(3) b
    by (intro exI [of _ "?b # bs"]) (simp add: t to_lower_def take_Suc_conv_app_nth)
qed (simp add: to_lower_def)

lemma uuid_string_parts:
  "length v = 16 \<Longrightarrow> uuid_string v =
    concat (map hex_byte (take 4 v)) @ ''-'' @ concat (map hex_byte (take 2 (drop 4 v))) @ ''-''
     @ concat (map hex_byte (take 2 (drop 6 v))) @ ''-'' @ concat (map hex_byte (take 2 (drop 8 v))) @ ''-''
     @ concat (map hex_byte (drop 10 v))"
  by (simp add: uuid_string_def)

lemma length_hex_bytes: "length (concat (map hex_byte bs)) = 2 * length bs"
  by (induction bs) (simp_all add: hex_byte_def)


lemma parse_group:
  assumes "length v = 16" and "k + n \<le> 16" and "\<forall>j < 2 * n. \<not> uuid_dash (i + j)"
  shows "parse_uuid_loop i (2 * k) (take k v @ replicate (16 - k) 0)
      (concat (map hex_byte (take n (drop k v))) @ cs)
    = parse_uuid_loop (i + 2 * n) (2 * (k + n)) (take (k + n) v @ replicate (16 - (k + n)) 0) cs"
proof -
  have "take k (take k v @ replicate (16 - k) (0 :: u8)) @ take n (drop k v)
      @ drop (k + n) (take k v @ replicate (16 - k) 0)
    = take (k + n) v @ replicate (16 - (k + n)) 0"
    using assms(1,2) by (simp add: take_add)
  then show ?thesis
    using parse_loop_bytes [of "take n (drop k v)" i k "take k v @ replicate (16 - k) 0" cs] assms
    by (simp add: take_add)
qed

lemma parse_dash: "uuid_dash i \<Longrightarrow> parse_uuid_loop i b w (CHR ''-'' # cs) = parse_uuid_loop (Suc i) b w cs"
  by simp

lemma uuid_loop_string:
  assumes v: "length v = 16"
  shows "parse_uuid_loop 0 0 (replicate 16 0) (uuid_string v) = Some v"
proof -
  let ?h = "\<lambda>n k. concat (map hex_byte (take n (drop k v)))"
  let ?z = "\<lambda>k. take k v @ replicate (16 - k) 0"
  note g = parse_group [OF v, unfolded uuid_dash_def] and d = parse_dash [unfolded uuid_dash_def]
  have "parse_uuid_loop 0 0 (?z 0) (?h 4 0 @ cs) = parse_uuid_loop 8 8 (?z 4) cs" for cs
    using g [of 0 4 0 cs] by simp
  moreover have "parse_uuid_loop 9 8 (?z 4) (?h 2 4 @ cs) = parse_uuid_loop 13 12 (?z 6) cs" for cs
    using g [of 4 2 9 cs] by simp
  moreover have "parse_uuid_loop 14 12 (?z 6) (?h 2 6 @ cs) = parse_uuid_loop 18 16 (?z 8) cs" for cs
    using g [of 6 2 14 cs] by simp
  moreover have "parse_uuid_loop 19 16 (?z 8) (?h 2 8 @ cs) = parse_uuid_loop 23 20 (?z 10) cs" for cs
    using g [of 8 2 19 cs] by simp
  moreover have "parse_uuid_loop 24 20 (?z 10) (?h 6 10) = Some v"
    using g [of 10 6 24 "[]"] v by simp
  ultimately show ?thesis
    using d [of 8] d [of 13] d [of 18] d [of 23] v
    by (simp add: uuid_string_parts del: parse_uuid_loop.simps(2))
qed

lemma parse_group_inv:
  assumes "length us = k" and "k + n \<le> 16" and "\<forall>j < 2 * n. \<not> uuid_dash (i + j)"
    and "length t = 2 * n"
    and "parse_uuid_loop i (2 * k) (us @ replicate (16 - k) 0) (t @ cs) = Some w"
  shows "\<exists>bs. length bs = n \<and> to_lower t = concat (map hex_byte bs)
    \<and> parse_uuid_loop (i + 2 * n) (2 * (k + n)) ((us @ bs) @ replicate (16 - (k + n)) 0) cs = Some w"
  using parse_loop_inv [OF assms(4,3) _ assms(5)] assms(1,2) by auto

lemma parse_dash_inv:
  "uuid_dash i \<Longrightarrow> length t = Suc n \<Longrightarrow> parse_uuid_loop i b w (t @ cs) = Some u \<Longrightarrow>
   hd t = CHR ''-'' \<and> parse_uuid_loop (Suc i) b w (tl t @ cs) = Some u"
  by (cases t) (auto split: if_splits)


lemma parse_group_dash_inv:
  assumes "length us = k" and "k + n \<le> 16" and "\<forall>j < 2 * n. \<not> uuid_dash (i + j)"
    and "uuid_dash (i + 2 * n)" and "2 * n < length t"
    and "parse_uuid_loop i (2 * k) (us @ replicate (16 - k) 0) t = Some w"
  shows "\<exists>bs s. length bs = n \<and> to_lower t = concat (map hex_byte bs) @ ''-'' @ to_lower s
    \<and> length s = length t - (2 * n + 1)
    \<and> parse_uuid_loop (i + 2 * n + 1) (2 * (k + n)) ((us @ bs) @ replicate (16 - (k + n)) 0) s = Some w"
proof -
  let ?t = "take (2 * n) t" and ?s = "drop (2 * n) t"
  have t: "t = ?t @ ?s" and len: "length ?t = 2 * n" using assms(5) by simp_all
  have low: "to_lower t = to_lower ?t @ to_lower ?s"
    by (metis append_take_drop_id map_append to_lower_def)
  obtain bs where bs: "length bs = n" "to_lower ?t = concat (map hex_byte bs)"
    "parse_uuid_loop (i + 2 * n) (2 * (k + n)) ((us @ bs) @ replicate (16 - (k + n)) 0) ?s = Some w"
    using parse_group_inv [OF assms(1-3) len, of ?s w] assms(6) by auto
  obtain c s where s: "?s = c # s" using assms(5) by (cases ?s) auto
  with bs(3) assms(4) have c: "c = CHR ''-''"
    and r: "parse_uuid_loop (i + 2 * n + 1) (2 * (k + n)) ((us @ bs) @ replicate (16 - (k + n)) 0) s = Some w"
    by (auto split: if_split_asm)
  have "length s = length t - (2 * n + 1)" using arg_cong [OF s, of length] by simp
  moreover have "lower_byte (CHR ''-'') = CHR ''-''" by (simp add: lower_byte_def is_upper_def)
  ultimately show ?thesis
    using bs(1,2) low r by (intro exI [of _ bs] exI [of _ s]) (simp add: s c to_lower_def)
qed

lemma uuid_loop_inv:
  assumes t: "length t = 36" and p: "parse_uuid_loop 0 0 (replicate 16 0) t = Some v"
  shows "length v = 16 \<and> uuid_string v = to_lower t"
proof -
  let ?h = "\<lambda>bs. concat (map hex_byte bs)"
  note g = parse_group_dash_inv [unfolded uuid_dash_def]
  obtain b1 s1 where 1: "length b1 = 4" "to_lower t = ?h b1 @ ''-'' @ to_lower s1" "length s1 = 27"
    "parse_uuid_loop 9 8 (b1 @ replicate 12 0) s1 = Some v"
    using g [of "[]" 0 4 0 t v] t p by auto
  obtain b2 s2 where 2: "length b2 = 2" "to_lower s1 = ?h b2 @ ''-'' @ to_lower s2" "length s2 = 22"
    "parse_uuid_loop 14 12 ((b1 @ b2) @ replicate 10 0) s2 = Some v"
    using g [of b1 4 2 9 s1 v] 1 by auto
  obtain b3 s3 where 3: "length b3 = 2" "to_lower s2 = ?h b3 @ ''-'' @ to_lower s3" "length s3 = 17"
    "parse_uuid_loop 19 16 ((b1 @ b2 @ b3) @ replicate 8 0) s3 = Some v"
    using g [of "b1 @ b2" 6 2 14 s2 v] 1 2 by auto
  obtain b4 s4 where 4: "length b4 = 2" "to_lower s3 = ?h b4 @ ''-'' @ to_lower s4" "length s4 = 12"
    "parse_uuid_loop 24 20 ((b1 @ b2 @ b3 @ b4) @ replicate 6 0) s4 = Some v"
    using g [of "b1 @ b2 @ b3" 8 2 19 s3 v] 1 2 3 by auto
  obtain b5 where 5: "length b5 = 6" "to_lower s4 = ?h b5" "b1 @ b2 @ b3 @ b4 @ b5 = v"
    using parse_group_inv [of "b1 @ b2 @ b3 @ b4" 10 6 24 s4 "[]" v] 1 2 3 4
    by (auto simp: uuid_dash_def)
  show ?thesis
    using 1 2 3 4 5(1,2) by (simp add: 5(3) [symmetric] uuid_string_parts)
qed

lemma uuid_parse_print:
  "parse_uuidv7 t = Some v \<Longrightarrow> uuid_v7 v \<and> uuid_string v = to_lower t"
  using uuid_loop_inv [of t]
  by (auto simp: parse_uuidv7_def uuid_v7_def split: if_split_asm option.split_asm)

lemma length_uuid_string: "length v = 16 \<Longrightarrow> length (uuid_string v) = 36"
  by (simp add: uuid_string_parts length_hex_bytes)

interpretation uuid_text: codec uuid_string parse_uuidv7 uuid_v7
proof unfold_locales
  fix v assume "uuid_v7 v"
  then show "parse_uuidv7 (uuid_string v) = Some v"
    by (simp add: uuid_v7_def parse_uuidv7_def length_uuid_string uuid_loop_string)
qed (blast dest: uuid_parse_print)

text \<open>\<open>CompareUUIDv7\<close> is the order of the wire bytes, which on version-7 UUIDs is total.\<close>

lemma compare_uuidv7_order:
  assumes "uuid_v7 l" and "uuid_v7 r"
  shows "compare_uuidv7 l r = - 1 \<longleftrightarrow> l < r" and "compare_uuidv7 l r = 0 \<longleftrightarrow> l = r"
    and "compare_uuidv7 l r = 1 \<longleftrightarrow> r < l"
  using compare_uuidv7_eq [of l r] assms by (auto simp: uuid_v7_def)

subsection \<open>Canonical host names\<close>

text \<open>
  \<open>net.ParseIP\<close> on a text that may still be a host name: the dotted-decimal form (four fields, no
  superfluous leading zero, at most 255 each). The IPv6 forms contain a colon, which the label
  check of \<open>ValidateCanonicalHost\<close> rejects as well, so they need no case of their own.
\<close>

definition ipv4_field :: "string \<Rightarrow> bool" where
  "ipv4_field f \<longleftrightarrow> f \<noteq> [] \<and> list_all is_digit f \<and> (length f = 1 \<or> hd f \<noteq> CHR ''0'')
     \<and> digits_val 0 f \<le> 255"

definition parse_ip :: "string \<Rightarrow> bool" where
  "parse_ip s \<longleftrightarrow> (let fs = split_on (CHR ''.'') s in length fs = 4 \<and> list_all ipv4_field fs)"

definition host_byte :: "char \<Rightarrow> bool" where
  "host_byte c \<longleftrightarrow> c = CHR ''-'' \<or> is_lower c \<or> is_digit c"

definition host_label :: "string \<Rightarrow> bool" where
  "host_label l \<longleftrightarrow> l \<noteq> [] \<and> length l \<le> 63 \<and> hd l \<noteq> CHR ''-'' \<and> last l \<noteq> CHR ''-''
     \<and> list_all host_byte l"

text \<open>\<open>ValidateCanonicalHost\<close> returns nil.\<close>

definition valid_canonical_host :: "string \<Rightarrow> bool" where
  "valid_canonical_host host \<longleftrightarrow>
     \<not> (length host < 1 \<or> length host > 253 \<or> host \<noteq> to_lower host \<or> trim_space host \<noteq> host)
     \<and> \<not> parse_ip host
     \<and> list_all host_label (split_on (CHR ''.'') host)"

lemma set_join_with: "set (join_with sep ws) \<subseteq> insert sep (\<Union> (set ` set ws))"
  by (induction sep ws rule: join_with.induct) auto

lemma valid_host_bytes:
  assumes "valid_canonical_host h" and "c \<in> set h"
  shows "host_byte c \<or> c = CHR ''.''"
proof -
  have "set h \<subseteq> insert (CHR ''.'') (\<Union> (set ` set (split_on (CHR ''.'') h)))"
    using set_join_with [of "CHR ''.''" "split_on (CHR ''.'') h"] by (simp add: join_split)
  moreover have "\<forall>l \<in> set (split_on (CHR ''.'') h). \<forall>c \<in> set l. host_byte c"
    using assms(1) by (auto simp: valid_canonical_host_def host_label_def list_all_iff)
  ultimately show ?thesis using assms(2) by auto
qed

lemma valid_host_nonempty: "valid_canonical_host h \<Longrightarrow> h \<noteq> []"
  by (auto simp: valid_canonical_host_def)

lemma valid_host_free:
  assumes "valid_canonical_host h"
  shows "set h \<inter> set ''%&=#/;:? '' = {}"
proof (rule ccontr)
  assume "set h \<inter> set ''%&=#/;:? '' \<noteq> {}"
  then obtain c where "c \<in> set h" and c: "c \<in> set ''%&=#/;:? ''" by blast
  with valid_host_bytes [OF assms] have "host_byte c \<or> c = CHR ''.''" by blast
  with c show False
    by (auto simp: host_byte_def is_lower_def is_digit_def)
qed

text \<open>\<open>telemetry.CanonicalHostname\<close>: the key of a server in the roster.\<close>

definition canonical_hostname :: "string \<Rightarrow> string" where
  "canonical_hostname h = to_upper (trim_space h)"

subsection \<open>What the parsers accept\<close>

lemma lower_byte_hex: "parse_uuid_hex (lower_byte c) = parse_uuid_hex c"
  by (auto simp: parse_uuid_hex_def ord_lower_byte is_digit_def is_upper_def)

lemma lower_byte_dash: "lower_byte c = CHR ''-'' \<longleftrightarrow> c = CHR ''-''"
  by (subst (1 2) ord_inject [symmetric]) (auto simp: ord_lower_byte is_upper_def)

lemma parse_uuid_loop_lower: "parse_uuid_loop i bi v (to_lower s) = parse_uuid_loop i bi v s"
  by (induction i bi v s rule: parse_uuid_loop.induct)
    (auto simp: to_lower_def lower_byte_hex lower_byte_dash split: option.splits)

text \<open>
  The decimal form is canonical. A text parses to an unsigned 64-bit number exactly when it is
  the number's own decimal print, so no sign, leading zero, space or overflow is accepted and two
  texts never name one number.
\<close>

theorem decimal_uint64_canonical: "parse_decimal_uint64 s = Some n \<longleftrightarrow> s = decimal_uint64_text n"
  using decimal_uint64.dec_iff [of s n] by simp

text \<open>
  C32: \<open>ParseUUIDv7\<close> accepts exactly the texts whose lower-case form is the print of a
  16-byte value with version 7 and the RFC variant, and returns that value.
\<close>

theorem uuid_accepts_exactly:
  "parse_uuidv7 t = Some v \<longleftrightarrow> uuid_v7 v \<and> to_lower t = uuid_string v"
proof
  assume R: "uuid_v7 v \<and> to_lower t = uuid_string v"
  have "parse_uuidv7 t = parse_uuidv7 (to_lower t)"
    by (simp add: parse_uuidv7_def parse_uuid_loop_lower)
  with R uuid_text.dec_enc [of v] show "parse_uuidv7 t = Some v" by simp
qed (use uuid_parse_print [of t v] in auto)

end
