(* ===== verification/SessionModel.thy ===== *)
theory SessionModel
  imports Identifiers
begin

text \<open>
  The Fleet Sessions data model of \<open>internal/sessiondata/model.go\<close> and its validation in
  \<open>validation.go\<close>: records with the source's fields (a prefix tells the record), nullable
  pointers as options, \<open>float64\<close> as the comparison model of the prelude, the string-typed
  enumerations as strings with the source's constants. An error return is an option over the
  classes of message the code distinguishes; \<open>None\<close> is nil.
\<close>

subsection \<open>Records\<close>

abbreviation "snapshot_schema \<equiv> ''drainctl.session-snapshot.v1''"

definition max_snapshot_bytes :: nat where "max_snapshot_bytes = 512 * 1024"
definition max_sessions :: nat where "max_sessions = 500"
definition max_processes :: nat where "max_processes = 5"
definition max_unix_millis :: int where "max_unix_millis = 253402300799999"
definition max_stored_bytes :: u64 where "max_stored_bytes = 9223372036854775807"

lemmas session_limits =
  max_snapshot_bytes_def max_sessions_def max_processes_def max_unix_millis_def

record session_process =
  sp_pid :: u32
  sp_image_name :: string
  sp_cpu_percent :: "float64 option"
  sp_working_set :: u64

record remotefx_metrics =
  rfx_fps :: "float64 option"
  rfx_quality :: "float64 option"
  rfx_encode_ms :: "float64 option"
  rfx_rtt_ms :: "float64 option"
  rfx_loss :: "float64 option"
  rfx_server_skipped :: "float64 option"
  rfx_network_skipped :: "float64 option"

record session_record =
  sr_session_id :: u32
  sr_logon_at :: "int option"
  sr_user :: "string option"
  sr_domain :: "string option"
  sr_state :: string
  sr_station :: "string option"
  sr_client_name :: "string option"
  sr_client_address :: "string option"
  sr_connect_at :: "int option"
  sr_disconnect_at :: "int option"
  sr_idle_since :: "int option"
  sr_cpu_percent :: "float64 option"
  sr_working_set :: "u64 option"
  sr_input_delay :: "u32 option"
  sr_remotefx :: "remotefx_metrics option"
  sr_processes :: "session_process list"

record session_capabilities =
  cap_session_actions :: bool
  cap_processes :: bool
  cap_input_delay :: bool
  cap_remotefx :: bool

definition no_capabilities :: session_capabilities where
  "no_capabilities = \<lparr>cap_session_actions = False, cap_processes = False,
     cap_input_delay = False, cap_remotefx = False\<rparr>"

text \<open>\<open>collection_error\<close> is the code of the \<open>CollectionError\<close>, \<open>None\<close> for the null pointer.\<close>

record session_snapshot =
  ss_schema :: string
  ss_host :: string
  ss_agent_instance :: string
  ss_sequence :: u64
  ss_observed_at :: int
  ss_collector_version :: string
  ss_cpu_count :: u16
  ss_capabilities :: session_capabilities
  ss_collection_error :: "string option"
  ss_sessions :: "session_record list"

subsection \<open>Session states\<close>

definition state_rank :: "string \<Rightarrow> nat" where
  "state_rank s =
     (if s = ''active'' then 0
      else if s = ''connected'' then 1
      else if s = ''connect_query'' then 2
      else if s = ''shadow'' then 3
      else if s = ''disconnected'' then 4
      else if s = ''idle'' then 5
      else if s = ''listen'' then 6
      else if s = ''reset'' then 7
      else if s = ''down'' then 8
      else if s = ''init'' then 9
      else 10)"

definition session_state_valid :: "string \<Rightarrow> bool" where
  "session_state_valid s \<longleftrightarrow> state_rank s \<noteq> 10 \<or> s = ''unknown''"

definition is_safe_collection_error :: "string \<Rightarrow> bool" where
  "is_safe_collection_error code \<longleftrightarrow>
     code = ''wts_enumeration_failed'' \<or> code = ''wts_metadata_failed'' \<or> code = ''collector_timeout''"

definition is_safe_action_result :: "string \<Rightarrow> bool" where
  "is_safe_action_result code \<longleftrightarrow>
     code = ''completed'' \<or> code = ''failed'' \<or> code = ''expired'' \<or> code = ''session_changed''
     \<or> code = ''unsupported'' \<or> code = ''duplicate'' \<or> code = ''privacy_policy_changed''"

definition action_state_valid :: "string \<Rightarrow> bool" where
  "action_state_valid s \<longleftrightarrow>
     s = ''queued'' \<or> s = ''delivered'' \<or> s = ''completed'' \<or> s = ''failed'' \<or> s = ''expired''
     \<or> s = ''session_changed'' \<or> s = ''unsupported''"

definition outcome_valid :: "string \<Rightarrow> bool" where
  "outcome_valid outcome \<longleftrightarrow> is_safe_action_result outcome \<and> outcome \<noteq> ''privacy_policy_changed''"

subsection \<open>Validation\<close>

datatype session_error =
    BadState
  | BadLogon
  | LogonAfterObserved
  | BadTimestamp
  | TimestampAfterObserved
  | BadSessionText
  | BadClientAddress
  | BadCpuPercent
  | WorkingSetTooLarge
  | BadInputDelay
  | BadRemoteFX
  | TooManyProcesses
  | ZeroPid
  | DuplicatePid
  | BadImageName
  | ImageNotBase
  | ProcessWorkingSetTooLarge
  | BadProcessCpu

datatype snapshot_error =
    BadSchema
  | BadHost
  | BadAgentInstance
  | BadObservedTime
  | BadCollectorVersion
  | BadCpuCount
  | TooManySessions
  | BadCollectionError
  | FatalWithData
  | DuplicateSession
  | BadSession u32 session_error

text \<open>A chain of \<open>if \<dots> return error\<close> statements: the first that fires decides.\<close>

fun first_error :: "'e option list \<Rightarrow> 'e option" where
  "first_error [] = None"
| "first_error (None # es) = first_error es"
| "first_error (Some e # es) = Some e"

definition fail_if :: "bool \<Rightarrow> 'e \<Rightarrow> 'e option" where
  "fail_if b e = (if b then Some e else None)"

lemma first_error_None [simp]: "first_error es = None \<longleftrightarrow> (\<forall>e \<in> set es. e = None)"
  by (induction es rule: first_error.induct) auto

lemma fail_if_None [simp]: "fail_if b e = None \<longleftrightarrow> \<not> b"
  by (simp add: fail_if_def)

definition valid_timestamp :: "int \<Rightarrow> bool" where
  "valid_timestamp v \<longleftrightarrow> \<not> (v < 0 \<or> v > max_unix_millis)"

definition valid_nullable_timestamp :: "int option \<Rightarrow> bool" where
  "valid_nullable_timestamp v = (case v of None \<Rightarrow> True | Some t \<Rightarrow> valid_timestamp t)"

definition control_rune :: "bool \<Rightarrow> nat \<Rightarrow> bool" where
  "control_rune allow_newline r \<longleftrightarrow> r = 0 \<or> r = 127 \<or> r < 32 \<and> (\<not> allow_newline \<or> r \<noteq> 10)"

definition valid_bounded_text :: "string \<Rightarrow> nat \<Rightarrow> nat \<Rightarrow> bool \<Rightarrow> bool" where
  "valid_bounded_text v mn mx allow_newline \<longleftrightarrow>
     utf8_valid v \<and> \<not> length v < mn \<and> \<not> length v > mx
     \<and> list_all (\<lambda>r. \<not> control_rune allow_newline r) (runes v)"

definition valid_action_message :: "string \<Rightarrow> bool" where
  "valid_action_message m \<longleftrightarrow>
     utf8_valid m \<and> \<not> length (runes m) < 1 \<and> \<not> length (runes m) > 256
     \<and> list_all (\<lambda>r. \<not> control_rune True r) (runes m)"

definition valid_percent :: "float64 option \<Rightarrow> float64 \<Rightarrow> float64 \<Rightarrow> bool" where
  "valid_percent v mn mx =
     (case v of None \<Rightarrow> True
      | Some x \<Rightarrow> \<not> (is_nan x \<or> is_inf x \<or> f_less x mn \<or> f_less mx x))"

definition rfx_check :: "float64 option \<Rightarrow> int \<Rightarrow> int \<Rightarrow> bool \<Rightarrow> bool" where
  "rfx_check v mn mx exclusive_min =
     (case v of None \<Rightarrow> True
      | Some x \<Rightarrow> \<not> (is_nan x \<or> is_inf x \<or> f_less (fint mx) x \<or> f_less x (fint mn)
                    \<or> (exclusive_min \<and> f_eq x (fint mn))))"

definition valid_remotefx :: "remotefx_metrics \<Rightarrow> bool" where
  "valid_remotefx m \<longleftrightarrow>
     rfx_check (rfx_fps m) 0 240 True \<and> rfx_check (rfx_quality m) 0 100 True
     \<and> rfx_check (rfx_encode_ms m) 0 60000 False \<and> rfx_check (rfx_rtt_ms m) 0 60000 False
     \<and> rfx_check (rfx_loss m) 0 100 False \<and> rfx_check (rfx_server_skipped m) 0 1000000 False
     \<and> rfx_check (rfx_network_skipped m) 0 1000000 False"

definition cpu_limit :: "u16 \<Rightarrow> float64" where
  "cpu_limit cpu_count = fint (uint cpu_count * 100)"

definition validate_process :: "u16 \<Rightarrow> session_process \<Rightarrow> session_error option" where
  "validate_process cpu_count p =
     first_error
       [fail_if (\<not> valid_bounded_text (sp_image_name p) 1 260 False) BadImageName,
        fail_if (contains_any (sp_image_name p) [CHR ''/'', char_of (92 :: nat), CHR '':'']) ImageNotBase,
        fail_if (sp_working_set p > max_stored_bytes) ProcessWorkingSetTooLarge,
        fail_if (\<not> valid_percent (sp_cpu_percent p) (fint 0) (cpu_limit cpu_count)) BadProcessCpu]"

text \<open>The loop over the processes with its set \<open>seen\<close> of process ids.\<close>

fun validate_processes :: "u16 \<Rightarrow> u32 set \<Rightarrow> session_process list \<Rightarrow> session_error option" where
  "validate_processes cpu_count seen [] = None"
| "validate_processes cpu_count seen (p # ps) =
     (if sp_pid p = 0 then Some ZeroPid
      else if sp_pid p \<in> seen then Some DuplicatePid
      else (case validate_process cpu_count p of
              Some e \<Rightarrow> Some e
            | None \<Rightarrow> validate_processes cpu_count (insert (sp_pid p) seen) ps))"

definition after_observed :: "int option \<Rightarrow> int \<Rightarrow> bool" where
  "after_observed v observed = (case v of None \<Rightarrow> False | Some t \<Rightarrow> t > observed)"

definition session_text_ok :: "string option \<Rightarrow> nat \<Rightarrow> bool" where
  "session_text_ok v mx = (case v of None \<Rightarrow> True | Some t \<Rightarrow> valid_bounded_text t 0 mx False)"

definition validate_session :: "int \<Rightarrow> u16 \<Rightarrow> session_record \<Rightarrow> session_error option" where
  "validate_session observed cpu_count s =
     first_error
       ([fail_if (\<not> session_state_valid (sr_state s)) BadState,
         fail_if (\<not> valid_nullable_timestamp (sr_logon_at s)) BadLogon,
         fail_if (after_observed (sr_logon_at s) observed) LogonAfterObserved]
        @ concat (map (\<lambda>t. [fail_if (\<not> valid_nullable_timestamp t) BadTimestamp,
                             fail_if (after_observed t observed) TimestampAfterObserved])
             [sr_connect_at s, sr_disconnect_at s, sr_idle_since s])
        @ map (\<lambda>t. fail_if (\<not> session_text_ok t 256) BadSessionText)
             [sr_user s, sr_domain s, sr_station s, sr_client_name s]
        @ [fail_if (\<not> session_text_ok (sr_client_address s) 128) BadClientAddress,
           fail_if (\<not> valid_percent (sr_cpu_percent s) (fint 0) (cpu_limit cpu_count)) BadCpuPercent,
           fail_if (case sr_working_set s of None \<Rightarrow> False | Some w \<Rightarrow> w > max_stored_bytes)
             WorkingSetTooLarge,
           fail_if (case sr_input_delay s of None \<Rightarrow> False | Some d \<Rightarrow> d > 600000) BadInputDelay,
           fail_if (case sr_remotefx s of None \<Rightarrow> False | Some m \<Rightarrow> \<not> valid_remotefx m) BadRemoteFX,
           fail_if (length (sr_processes s) > max_processes) TooManyProcesses,
           validate_processes cpu_count {} (sr_processes s)])"

fun validate_sessions :: "int \<Rightarrow> u16 \<Rightarrow> u32 set \<Rightarrow> session_record list \<Rightarrow> snapshot_error option" where
  "validate_sessions observed cpu_count seen [] = None"
| "validate_sessions observed cpu_count seen (s # ss) =
     (if sr_session_id s \<in> seen then Some DuplicateSession
      else (case validate_session observed cpu_count s of
              Some e \<Rightarrow> Some (BadSession (sr_session_id s) e)
            | None \<Rightarrow> validate_sessions observed cpu_count (insert (sr_session_id s) seen) ss))"

definition validate_snapshot :: "session_snapshot \<Rightarrow> snapshot_error option" where
  "validate_snapshot s =
     (case first_error
        [fail_if (ss_schema s \<noteq> snapshot_schema) BadSchema,
         fail_if (\<not> valid_canonical_host (ss_host s)) BadHost,
         fail_if (parse_uuidv7 (ss_agent_instance s) = None) BadAgentInstance,
         fail_if (\<not> valid_timestamp (ss_observed_at s)) BadObservedTime,
         fail_if (\<not> valid_bounded_text (ss_collector_version s) 1 64 False) BadCollectorVersion,
         fail_if (ss_cpu_count s < 1 \<or> ss_cpu_count s > 1024) BadCpuCount,
         fail_if (length (ss_sessions s) > max_sessions) TooManySessions]
      of Some e \<Rightarrow> Some e
       | None \<Rightarrow>
          (case ss_collection_error s of
             Some code \<Rightarrow>
               first_error
                 [fail_if (\<not> is_safe_collection_error code) BadCollectionError,
                  fail_if (length (ss_sessions s) \<noteq> 0 \<or> ss_capabilities s \<noteq> no_capabilities)
                    FatalWithData]
           | None \<Rightarrow> validate_sessions (ss_observed_at s) (ss_cpu_count s) {} (ss_sessions s)))"

subsection \<open>What validation guarantees\<close>

lemma validate_processes_None:
  "validate_processes n seen ps = None \<longleftrightarrow>
     distinct (map sp_pid ps) \<and> sp_pid ` set ps \<inter> seen = {}
     \<and> (\<forall>p \<in> set ps. sp_pid p \<noteq> 0 \<and> validate_process n p = None)"
  by (induction ps arbitrary: seen) (auto split: option.splits)

lemma validate_sessions_None:
  "validate_sessions t n seen ss = None \<longleftrightarrow>
     distinct (map sr_session_id ss) \<and> sr_session_id ` set ss \<inter> seen = {}
     \<and> (\<forall>s \<in> set ss. validate_session t n s = None)"
  by (induction ss arbitrary: seen) (auto split: option.splits)

lemma validate_snapshot_header:
  assumes "validate_snapshot s = None"
  shows "ss_schema s = snapshot_schema" and "valid_canonical_host (ss_host s)"
    and "parse_uuidv7 (ss_agent_instance s) \<noteq> None" and "valid_timestamp (ss_observed_at s)"
    and "length (ss_sessions s) \<le> max_sessions"
    and "ss_cpu_count s \<noteq> 0" and "ss_cpu_count s \<le> 1024"
  using assms by (auto simp: validate_snapshot_def split: option.splits)

lemma validate_snapshot_fatal:
  assumes "validate_snapshot s = None" and "ss_collection_error s = Some code"
  shows "is_safe_collection_error code" and "ss_sessions s = []"
    and "ss_capabilities s = no_capabilities"
  using assms by (auto simp: validate_snapshot_def split: option.splits)

lemma validate_snapshot_sessions:
  assumes "validate_snapshot s = None"
  shows "distinct (map sr_session_id (ss_sessions s))"
    and "r \<in> set (ss_sessions s) \<Longrightarrow> validate_session (ss_observed_at s) (ss_cpu_count s) r = None"
  using assms by (auto simp: validate_snapshot_def validate_sessions_None split: option.splits)

lemma validate_session_times:
  assumes "validate_session obs n r = None"
  shows "sr_logon_at r = Some t \<or> sr_connect_at r = Some t \<or> sr_disconnect_at r = Some t
           \<or> sr_idle_since r = Some t \<Longrightarrow> 0 \<le> t \<and> t \<le> obs"
  using assms
  by (auto simp: validate_session_def valid_nullable_timestamp_def valid_timestamp_def after_observed_def)

lemma validate_session_processes:
  assumes "validate_session obs n r = None"
  shows "length (sr_processes r) \<le> max_processes" and "distinct (map sp_pid (sr_processes r))"
    and "p \<in> set (sr_processes r) \<Longrightarrow> sp_pid p \<noteq> 0 \<and> sp_working_set p \<le> max_stored_bytes"
  using assms by (auto simp: validate_session_def validate_processes_None validate_process_def)

subsection \<open>A snapshot that validates\<close>

definition example_session :: session_record where
  "example_session = \<lparr>sr_session_id = 2, sr_logon_at = Some 1000, sr_user = Some ''alice'',
     sr_domain = Some ''CORP'', sr_state = ''active'', sr_station = Some ''RDP-Tcp#1'',
     sr_client_name = None, sr_client_address = None, sr_connect_at = Some 1000,
     sr_disconnect_at = None, sr_idle_since = None, sr_cpu_percent = Some (Fin 12),
     sr_working_set = Some 4096, sr_input_delay = None, sr_remotefx = None,
     sr_processes = [\<lparr>sp_pid = 7, sp_image_name = ''cmd.exe'', sp_cpu_percent = None,
                       sp_working_set = 4096\<rparr>]\<rparr>"

definition example_uuid :: uuidv7 where
  "example_uuid = [1, 143, 74, 46, 124, 27, 125, 239, 129, 35, 69, 103, 137, 171, 205, 239]"

definition example_snapshot :: session_snapshot where
  "example_snapshot = \<lparr>ss_schema = snapshot_schema, ss_host = ''rdsh-01.corp.example'',
     ss_agent_instance = uuid_string example_uuid, ss_sequence = 1,
     ss_observed_at = 2000, ss_collector_version = ''1.2.3'', ss_cpu_count = 4,
     ss_capabilities = no_capabilities, ss_collection_error = None,
     ss_sessions = [example_session]\<rparr>"

lemma example_host: "valid_canonical_host ''rdsh-01.corp.example''"
  by (simp add: valid_canonical_host_def to_lower_def lower_byte_def is_upper_def trim_space_id
      is_space_def parse_ip_def host_label_def host_byte_def is_lower_def is_digit_def)

lemma example_uuid_v7: "uuid_v7 example_uuid"
  by (simp add: uuid_v7_def example_uuid_def)

lemma valid_bounded_text_ascii:
  assumes "list_all (\<lambda>c. 32 \<le> ord c \<and> ord c < 127) t" "mn \<le> length t" "length t \<le> mx"
  shows "valid_bounded_text t mn mx nl"
proof -
  have "utf8_chunks t = map (\<lambda>c. (ord c, [c])) t"
    using assms(1) by (intro utf8_chunks_ascii) (auto simp: list_all_iff)
  with assms show ?thesis
    by (auto simp: valid_bounded_text_def utf8_valid_def runes_def list_all_iff rune_error_def
        control_rune_def)
qed

lemma example_session_valid: "validate_session 2000 4 example_session = None"
  by (simp add: validate_session_def example_session_def session_state_valid_def state_rank_def
      valid_nullable_timestamp_def after_observed_def valid_timestamp_def max_unix_millis_def
      session_text_ok_def valid_bounded_text_ascii valid_percent_def cpu_limit_def
      max_processes_def max_stored_bytes_def validate_process_def contains_any_iff is_nan_def
      is_inf_def char_of_eq_iff fail_if_def)

lemma example_snapshot_valid: "validate_snapshot example_snapshot = None"
  using example_session_valid uuid_text.dec_enc [OF example_uuid_v7]
  by (simp add: validate_snapshot_def example_snapshot_def fail_if_def example_host
      valid_timestamp_def max_unix_millis_def max_sessions_def valid_bounded_text_ascii)

subsection \<open>The bounds of a validated snapshot\<close>

text \<open>
  A snapshot that passes \<open>Validate\<close> has a canonical host, at most 500 sessions with
  distinct ids and at most five processes each, with distinct non-zero process ids; no time stamp
  is negative or after the observation; every process working set fits the stored range; and a
  snapshot that reports a collection error carries neither sessions nor capabilities.
\<close>

theorem validated_snapshot_bounds:
  assumes "validate_snapshot s = None"
  shows "valid_canonical_host (ss_host s) \<and> length (ss_sessions s) \<le> 500
    \<and> distinct (map sr_session_id (ss_sessions s))
    \<and> (\<forall>r \<in> set (ss_sessions s).
         length (sr_processes r) \<le> 5 \<and> distinct (map sp_pid (sr_processes r))
         \<and> (\<forall>p \<in> set (sr_processes r). sp_pid p \<noteq> 0 \<and> sp_working_set p \<le> max_stored_bytes)
         \<and> (\<forall>t. Some t \<in> {sr_logon_at r, sr_connect_at r, sr_disconnect_at r, sr_idle_since r} \<longrightarrow>
               0 \<le> t \<and> t \<le> ss_observed_at s \<and> t \<le> max_unix_millis))
    \<and> (ss_collection_error s \<noteq> None \<longrightarrow>
         ss_sessions s = [] \<and> ss_capabilities s = no_capabilities)"
proof -
  note hdr = validate_snapshot_header [OF assms]
  have obs: "ss_observed_at s \<le> max_unix_millis" using hdr(4) by (simp add: valid_timestamp_def)
  have rec: "length (sr_processes r) \<le> 5 \<and> distinct (map sp_pid (sr_processes r))
         \<and> (\<forall>p \<in> set (sr_processes r). sp_pid p \<noteq> 0 \<and> sp_working_set p \<le> max_stored_bytes)
         \<and> (\<forall>t. Some t \<in> {sr_logon_at r, sr_connect_at r, sr_disconnect_at r, sr_idle_since r} \<longrightarrow>
               0 \<le> t \<and> t \<le> ss_observed_at s \<and> t \<le> max_unix_millis)"
    if r: "r \<in> set (ss_sessions s)" for r
  proof -
    have v: "validate_session (ss_observed_at s) (ss_cpu_count s) r = None"
      using validate_snapshot_sessions(2) [OF assms r] .
    have t: "0 \<le> t \<and> t \<le> ss_observed_at s"
      if "Some t \<in> {sr_logon_at r, sr_connect_at r, sr_disconnect_at r, sr_idle_since r}" for t
      using validate_session_times [OF v, of t] that by (elim insertE) auto
    show ?thesis
      using validate_session_processes [OF v] t obs
      by (auto simp only: max_processes_def dest: order_trans)
  qed
  show ?thesis
    using hdr validate_snapshot_sessions(1) [OF assms] rec validate_snapshot_fatal [OF assms]
    by (auto simp: max_sessions_def)
qed

theorem validated_snapshot_bounds_witness:
  "length (ss_sessions example_snapshot) \<le> 500 \<and> ss_sessions example_snapshot \<noteq> []"
  using validated_snapshot_bounds [OF example_snapshot_valid] by (simp add: example_snapshot_def)

end
