(* ===== verification/SessionProjection.thy ===== *)
theory SessionProjection
  imports SessionModel
begin

unbundle bit_operations_syntax

text \<open>
  What happens to a snapshot before it is stored or sent (\<open>internal/sessiondata/model.go\<close>): the
  privacy projection, the aggregate counts, and the compaction that makes a snapshot fit the wire
  limit. \<open>json.Marshal\<close> enters compaction as a parameter that gives the encoded length, so the
  results hold for every encoder.
\<close>

subsection \<open>Privacy projection\<close>

abbreviation "vis_full \<equiv> ''full''"
abbreviation "vis_masked \<equiv> ''masked''"
abbreviation "vis_hidden \<equiv> ''hidden''"

record privacy_policy =
  pp_identity :: string
  pp_client :: string
  pp_process :: string

definition example_policy :: privacy_policy where
  "example_policy = \<lparr>pp_identity = vis_masked, pp_client = vis_full, pp_process = vis_hidden\<rparr>"

definition project_optional :: "string option \<Rightarrow> string \<Rightarrow> string option" where
  "project_optional v visibility =
     (if v = None \<or> visibility = vis_hidden then None
      else if visibility = vis_masked then Some ''***''
      else v)"

definition project_session :: "session_record \<Rightarrow> privacy_policy \<Rightarrow> session_record" where
  "project_session s policy =
     (let projected = s\<lparr>sr_user := project_optional (sr_user s) (pp_identity policy),
                        sr_domain := project_optional (sr_domain s) (pp_identity policy),
                        sr_station := project_optional (sr_station s) (pp_client policy),
                        sr_client_name := project_optional (sr_client_name s) (pp_client policy),
                        sr_client_address := project_optional (sr_client_address s) (pp_client policy)\<rparr>
      in if pp_process policy = vis_hidden then projected\<lparr>sr_processes := []\<rparr>
         else if pp_process policy = vis_masked then
           projected\<lparr>sr_processes := map (\<lambda>p. p\<lparr>sp_image_name := ''***''\<rparr>) (sr_processes s)\<rparr>
         else projected\<lparr>sr_processes := sr_processes s\<rparr>)"

definition project_snapshot :: "session_snapshot \<Rightarrow> privacy_policy \<Rightarrow> session_snapshot" where
  "project_snapshot s policy = s\<lparr>ss_sessions := map (\<lambda>r. project_session r policy) (ss_sessions s)\<rparr>"

text \<open>
  The part of a session a policy lets through: what a reader who knows the policy may learn. A
  hidden group contributes nothing, a masked text only whether it was present, a masked process
  list its numbers without the names.
\<close>

definition visible_text :: "string \<Rightarrow> string option \<Rightarrow> string option" where
  "visible_text visibility v =
     (if visibility = vis_hidden then None
      else if visibility = vis_masked then map_option (\<lambda>_. []) v
      else v)"

definition visible_processes :: "string \<Rightarrow> session_process list \<Rightarrow> (string \<times> u32 \<times> float64 option \<times> u64) list" where
  "visible_processes visibility ps =
     (if visibility = vis_hidden then []
      else map (\<lambda>p. (if visibility = vis_masked then [] else sp_image_name p,
                     sp_pid p, sp_cpu_percent p, sp_working_set p)) ps)"

definition same_visible :: "privacy_policy \<Rightarrow> session_record \<Rightarrow> session_record \<Rightarrow> bool" where
  "same_visible policy s t \<longleftrightarrow>
     visible_text (pp_identity policy) (sr_user s) = visible_text (pp_identity policy) (sr_user t)
     \<and> visible_text (pp_identity policy) (sr_domain s) = visible_text (pp_identity policy) (sr_domain t)
     \<and> visible_text (pp_client policy) (sr_station s) = visible_text (pp_client policy) (sr_station t)
     \<and> visible_text (pp_client policy) (sr_client_name s) = visible_text (pp_client policy) (sr_client_name t)
     \<and> visible_text (pp_client policy) (sr_client_address s) = visible_text (pp_client policy) (sr_client_address t)
     \<and> visible_processes (pp_process policy) (sr_processes s) = visible_processes (pp_process policy) (sr_processes t)
     \<and> s\<lparr>sr_user := None, sr_domain := None, sr_station := None, sr_client_name := None,
         sr_client_address := None, sr_processes := []\<rparr>
       = t\<lparr>sr_user := None, sr_domain := None, sr_station := None, sr_client_name := None,
         sr_client_address := None, sr_processes := []\<rparr>"

lemma project_optional_visible:
  "visible_text v a = visible_text v b \<Longrightarrow> project_optional a v = project_optional b v"
  by (cases a; cases b) (auto simp: visible_text_def project_optional_def split: if_splits)

lemma masked_processes:
  "visible_processes vis_masked ps = visible_processes vis_masked qs \<Longrightarrow>
   map (\<lambda>p. p\<lparr>sp_image_name := i\<rparr>) ps = map (\<lambda>p. p\<lparr>sp_image_name := i\<rparr>) qs"
proof (induction ps arbitrary: qs)
  case (Cons p ps)
  then obtain q qs' where qs: "qs = q # qs'" by (cases qs) (auto simp: visible_processes_def)
  with Cons show ?case by (cases p; cases q) (auto simp: visible_processes_def)
qed (simp add: visible_processes_def)

lemma full_processes:
  "visible_processes v ps = visible_processes v qs \<Longrightarrow> v \<noteq> vis_hidden \<Longrightarrow> v \<noteq> vis_masked \<Longrightarrow>
   ps = qs"
proof (induction ps arbitrary: qs)
  case (Cons p ps)
  then obtain q qs' where qs: "qs = q # qs'" by (cases qs) (auto simp: visible_processes_def)
  with Cons show ?case by (cases p; cases q) (auto simp: visible_processes_def)
qed (simp add: visible_processes_def)

lemma projected_processes:
  "sr_processes (project_session s p) =
     (if pp_process p = vis_hidden then []
      else if pp_process p = vis_masked then map (\<lambda>q. q\<lparr>sp_image_name := ''***''\<rparr>) (sr_processes s)
      else sr_processes s)"
  by (simp add: project_session_def Let_def)

lemma project_optional_idem: "project_optional (project_optional v a) a = project_optional v a"
  by (simp add: project_optional_def)

text \<open>The projection as an overlay of the projected fields on the rest of the record.\<close>

lemma project_session_overlay:
  "project_session s p =
     s\<lparr>sr_user := None, sr_domain := None, sr_station := None, sr_client_name := None,
       sr_client_address := None, sr_processes := []\<rparr>
      \<lparr>sr_user := project_optional (sr_user s) (pp_identity p),
       sr_domain := project_optional (sr_domain s) (pp_identity p),
       sr_station := project_optional (sr_station s) (pp_client p),
       sr_client_name := project_optional (sr_client_name s) (pp_client p),
       sr_client_address := project_optional (sr_client_address s) (pp_client p),
       sr_processes := sr_processes (project_session s p)\<rparr>"
  by (simp add: project_session_def Let_def)

lemma project_session_idem: "project_session (project_session s p) p = project_session s p"
  by (simp add: project_session_def Let_def project_optional_idem)

lemma project_session_keeps [simp]:
  "sr_session_id (project_session s p) = sr_session_id s"
  "sr_logon_at (project_session s p) = sr_logon_at s"
  "sr_state (project_session s p) = sr_state s"
  "sr_working_set (project_session s p) = sr_working_set s"
  by (simp_all add: project_session_def Let_def)

lemma project_session_processes:
  "p' \<in> set (sr_processes (project_session s p)) \<Longrightarrow>
   \<exists>q \<in> set (sr_processes s). sp_pid p' = sp_pid q \<and> sp_working_set p' = sp_working_set q"
  by (auto simp: project_session_def Let_def split: if_split_asm)

lemma length_project_processes: "length (sr_processes (project_session s p)) \<le> length (sr_processes s)"
  by (simp add: project_session_def Let_def)


lemma length_project_sessions [simp]: "length (ss_sessions (project_snapshot s p)) = length (ss_sessions s)"
  by (simp add: project_snapshot_def)

subsection \<open>Cutting text at a code point\<close>

definition is_continuation :: "char \<Rightarrow> bool" where
  "is_continuation c \<longleftrightarrow> (of_char c :: u8) AND 0xC0 = 0x80"

fun cut_position :: "string \<Rightarrow> nat \<Rightarrow> nat" where
  "cut_position s 0 = 0"
| "cut_position s (Suc n) = (if is_continuation (s ! Suc n) then cut_position s n else Suc n)"

definition truncate_snapshot_text :: "string option \<Rightarrow> nat \<Rightarrow> string option" where
  "truncate_snapshot_text v max_bytes =
     (case v of None \<Rightarrow> None
      | Some t \<Rightarrow>
          if length t \<le> max_bytes then Some t
          else if cut_position t max_bytes = 0 then None
          else Some (take (cut_position t max_bytes) t))"

lemma is_continuation_iff: "is_continuation c \<longleftrightarrow> 128 \<le> ord c \<and> ord c \<le> 191"
proof -
  have "ord c div 64 = 2 \<longleftrightarrow> 128 \<le> ord c \<and> ord c \<le> 191" by linarith
  moreover have "is_continuation c \<longleftrightarrow> ord c div 64 = 2"
    by (cases c) (simp add: is_continuation_def of_char_def split: if_split)
  ultimately show ?thesis by simp
qed

lemma cut_position_le: "cut_position s n \<le> n"
  by (induction n) auto

lemma cut_position_boundary: "cut_position s n = 0 \<or> \<not> is_continuation (s ! cut_position s n)"
  by (induction n) auto

text \<open>The four widths of a valid code point, and what the decoder looks at for each.\<close>

inductive rune_at :: "nat \<Rightarrow> string \<Rightarrow> nat \<Rightarrow> bool" where
  "ord c0 < 128 \<Longrightarrow> rune_at (ord c0) [c0] 1"
| "194 \<le> ord c0 \<Longrightarrow> ord c0 \<le> 223 \<Longrightarrow> in_range 128 191 c1 \<Longrightarrow>
   rune_at ((ord c0 - 192) * 64 + (ord c1 - 128)) [c0, c1] 2"
| "224 \<le> ord c0 \<Longrightarrow> ord c0 \<le> 239 \<Longrightarrow>
   in_range (if ord c0 = 224 then 160 else 128) (if ord c0 = 237 then 159 else 191) c1 \<Longrightarrow>
   in_range 128 191 c2 \<Longrightarrow>
   rune_at ((ord c0 - 224) * 4096 + (ord c1 - 128) * 64 + (ord c2 - 128)) [c0, c1, c2] 3"
| "240 \<le> ord c0 \<Longrightarrow> ord c0 \<le> 244 \<Longrightarrow>
   in_range (if ord c0 = 240 then 144 else 128) (if ord c0 = 244 then 143 else 191) c1 \<Longrightarrow>
   in_range 128 191 c2 \<Longrightarrow> in_range 128 191 c3 \<Longrightarrow>
   rune_at ((ord c0 - 240) * 262144 + (ord c1 - 128) * 4096 + (ord c2 - 128) * 64
            + (ord c3 - 128)) [c0, c1, c2, c3] 4"

lemma rune_at_decode: "rune_at r bs n \<Longrightarrow> decode_rune (bs @ t) = (r, n)"
  by (induction rule: rune_at.induct) (simp_all add: decode_rune_def Let_def)

lemma rune_at_length: "rune_at r bs n \<Longrightarrow> length bs = n"
  by (induction rule: rune_at.induct) auto

lemma rune_at_tail: "rune_at r bs n \<Longrightarrow> 0 < i \<Longrightarrow> i < n \<Longrightarrow> is_continuation (bs ! i)"
proof (induction rule: rune_at.induct)
  case (2 c0 c1)
  then have "i = 1" by simp
  with 2 show ?case by (simp add: in_range_def is_continuation_iff)
next
  case (3 c0 c1 c2)
  then consider "i = 1" | "i = 2" by linarith
  then show ?case using 3 by cases (auto simp: in_range_def is_continuation_iff split: if_splits)
next
  case (4 c0 c1 c2 c3)
  then consider "i = 1" | "i = 2" | "i = 3" by linarith
  then show ?case
    using 4 by cases (auto simp: in_range_def is_continuation_iff numeral_3_eq_3 split: if_splits)
qed simp

lemma decode_rune_at:
  assumes "decode_rune s = (r, n)" and "\<not> (r = rune_error \<and> n = 1)" and "s \<noteq> []"
  shows "rune_at r (take n s) n"
proof -
  obtain c0 t where s: "s = c0 # t" using assms(3) by (cases s) auto
  consider "ord c0 < 128" | "194 \<le> ord c0 \<and> ord c0 \<le> 223" | "224 \<le> ord c0 \<and> ord c0 \<le> 239"
    | "240 \<le> ord c0 \<and> ord c0 \<le> 244"
    using assms(1,2) by (simp add: decode_rune_def s Let_def split: if_splits)
  then show ?thesis
  proof cases
    case 1
    then have "r = ord c0" "n = 1" using assms(1) by (simp_all add: decode_rune_def s)
    with rune_at.intros(1) [OF 1] show ?thesis by (simp add: s)
  next
    case 2
    then obtain c1 u where t: "t = c1 # u" and c: "in_range 128 191 c1"
      using assms(1,2) by (cases t) (auto simp: decode_rune_def s split: if_split_asm)
    have "rune_at ((ord c0 - 192) * 64 + (ord c1 - 128)) [c0, c1] 2"
      using 2 c by (intro rune_at.intros) auto
    moreover from rune_at_decode [OF this, of u]
    have "r = (ord c0 - 192) * 64 + (ord c1 - 128)" "n = 2" using assms(1) by (simp_all add: s t)
    ultimately show ?thesis by (simp add: s t)
  next
    case 3
    define lo :: nat where "lo = (if ord c0 = 224 then 160 else 128)"
    define hi :: nat where "hi = (if ord c0 = 237 then 159 else 191)"
    obtain c1 c2 u where t: "t = c1 # c2 # u"
      using 3 assms(1,2) by (simp add: decode_rune_def s Let_def split: list.split_asm)
    have "decode_rune s =
        (if in_range lo hi c1 \<and> in_range 128 191 c2
         then ((ord c0 - 224) * 4096 + (ord c1 - 128) * 64 + (ord c2 - 128), 3)
         else (rune_error, 1))"
      using 3 by (simp add: decode_rune_def Let_def s t lo_def hi_def)
    then have c: "in_range lo hi c1 \<and> in_range 128 191 c2"
      using assms(1,2) by (simp split: if_split_asm)
    have R: "rune_at ((ord c0 - 224) * 4096 + (ord c1 - 128) * 64 + (ord c2 - 128)) [c0, c1, c2] 3"
      using 3 c unfolding lo_def hi_def by (intro rune_at.intros) auto
    from rune_at_decode [OF R, of u] have "(r, n) =
        ((ord c0 - 224) * 4096 + (ord c1 - 128) * 64 + (ord c2 - 128), 3)"
      using assms(1) by (simp add: s t)
    with R show ?thesis by (simp add: s t)
  next
    case 4
    define lo :: nat where "lo = (if ord c0 = 240 then 144 else 128)"
    define hi :: nat where "hi = (if ord c0 = 244 then 143 else 191)"
    obtain c1 c2 c3 u where t: "t = c1 # c2 # c3 # u"
      using 4 assms(1,2) by (simp add: decode_rune_def s Let_def split: list.split_asm)
    have "decode_rune s =
        (if in_range lo hi c1 \<and> in_range 128 191 c2 \<and> in_range 128 191 c3
         then ((ord c0 - 240) * 262144 + (ord c1 - 128) * 4096 + (ord c2 - 128) * 64 + (ord c3 - 128), 4)
         else (rune_error, 1))"
      using 4 by (simp add: decode_rune_def Let_def s t lo_def hi_def)
    then have c: "in_range lo hi c1 \<and> in_range 128 191 c2 \<and> in_range 128 191 c3"
      using assms(1,2) by (simp split: if_split_asm)
    have R: "rune_at ((ord c0 - 240) * 262144 + (ord c1 - 128) * 4096 + (ord c2 - 128) * 64
                      + (ord c3 - 128)) [c0, c1, c2, c3] 4"
      using 4 c unfolding lo_def hi_def by (intro rune_at.intros) auto
    from rune_at_decode [OF R, of u] have "(r, n) =
        ((ord c0 - 240) * 262144 + (ord c1 - 128) * 4096 + (ord c2 - 128) * 64 + (ord c3 - 128), 4)"
      using assms(1) by (simp add: s t)
    with R show ?thesis by (simp add: s t)
  qed
qed

lemma decode_rune_take:
  assumes "decode_rune s = (r, n)" and "\<not> (r = rune_error \<and> n = 1)" and "s \<noteq> []" and "n \<le> e"
  shows "decode_rune (take e s) = (r, n)"
proof -
  have "take e s = take n s @ take (e - n) (drop n s)"
    using assms(4) by (metis append_take_drop_id le_add_diff_inverse take_add)
  with rune_at_decode [OF decode_rune_at [OF assms(1-3)]] show ?thesis by simp
qed

lemma decode_rune_tail:
  assumes "decode_rune s = (r, n)" and "\<not> (r = rune_error \<and> n = 1)" and "s \<noteq> []"
    and "0 < i" and "i < n"
  shows "is_continuation (s ! i)"
  using rune_at_tail [OF decode_rune_at [OF assms(1-3)] assms(4,5)] assms(5) by simp

text \<open>In valid text a byte that is no continuation byte starts a code point.\<close>

lemma utf8_chunks_of_take:
  "utf8_valid s \<Longrightarrow> e < length s \<Longrightarrow> e = 0 \<or> \<not> is_continuation (s ! e) \<Longrightarrow>
   \<exists>k. utf8_chunks (take e s) = take k (utf8_chunks s)"
proof (induction s arbitrary: e rule: utf8_chunks.induct)
  case (1 s)
  show ?case
  proof (cases "e = 0")
    case False
    obtain r n where d: "decode_rune s = (r, n)" by fastforce
    have ne: "s \<noteq> []" using "1.prems" by auto
    then have pos: "0 < n" using d decode_rune_pos [of s] by auto
    have ch: "utf8_chunks s = (r, take n s) # utf8_chunks (drop n s)"
      using ne d by (subst utf8_chunks.simps) simp
    have "\<not> (r = rune_error \<and> length (take n s) = 1)" and rest: "utf8_valid (drop n s)"
      using "1.prems"(1) by (simp_all add: utf8_valid_def ch)
    moreover have "n = 1 \<Longrightarrow> length (take n s) = 1" using ne by (cases s) auto
    ultimately have ok: "\<not> (r = rune_error \<and> n = 1)" by blast
    have n: "0 < n" "n \<le> length s"
      using pos rune_at_length [OF decode_rune_at [OF d ok ne]] by (auto simp: min_def split: if_splits)
    have "n \<le> e"
    proof (rule ccontr)
      assume "\<not> n \<le> e"
      with decode_rune_tail [OF d ok ne, of e] False "1.prems"(3) show False by simp
    qed
    then have len: "e - n < length (drop n s)" using n "1.prems"(2) by simp
    have bd: "\<not> is_continuation (drop n s ! (e - n))"
      using \<open>n \<le> e\<close> "1.prems"(3) False n by simp
    have "\<exists>k. utf8_chunks (take (e - n) (drop n s)) = take k (utf8_chunks (drop n s))"
      using "1.IH" [OF ne d [symmetric] rest len] bd by blast
    then obtain k where k: "utf8_chunks (take (e - n) (drop n s)) = take k (utf8_chunks (drop n s))"
      by blast
    have "decode_rune (take e s) = (r, n)" by (rule decode_rune_take [OF d ok ne \<open>n \<le> e\<close>])
    then have "utf8_chunks (take e s) = (r, take n s) # utf8_chunks (take (e - n) (drop n s))"
      using ne False \<open>n \<le> e\<close> by (subst utf8_chunks.simps) (simp add: drop_take min_absorb1)
    also have "\<dots> = take (Suc k) (utf8_chunks s)" by (simp add: ch k)
    finally show ?thesis by blast
  qed (auto intro: exI [of _ 0])
qed

lemma list_all_take: "list_all P xs \<Longrightarrow> list_all P (take k xs)"
  by (auto simp: list_all_iff dest: in_set_takeD)

lemma valid_bounded_text_cut:
  assumes "valid_bounded_text t 0 mx False"
  shows "session_text_ok (truncate_snapshot_text (Some t) n) mx"
proof (cases "length t \<le> n \<or> cut_position t n = 0")
  case False
  then have "cut_position t n < length t" using cut_position_le [of t n] by linarith
  then obtain k where k: "utf8_chunks (take (cut_position t n) t) = take k (utf8_chunks t)"
    using utf8_chunks_of_take [of t "cut_position t n"] cut_position_boundary [of t n] assms
    by (auto simp: valid_bounded_text_def)
  with False assms show ?thesis
    by (auto simp: truncate_snapshot_text_def session_text_ok_def valid_bounded_text_def utf8_valid_def
        runes_def take_map [symmetric] list_all_take)
qed (use assms in \<open>auto simp: truncate_snapshot_text_def session_text_ok_def\<close>)

lemma session_text_ok_cut: "session_text_ok v mx \<Longrightarrow> session_text_ok (truncate_snapshot_text v n) mx"
  by (cases v)
    (auto simp: truncate_snapshot_text_def [of None] session_text_ok_def [of None]
        session_text_ok_def [of "Some _"] intro!: valid_bounded_text_cut)

subsection \<open>Fitting the wire limit\<close>

datatype compact_error = CompactTooManySessions | CompactMarshal | CompactTooLarge

definition map_sessions :: "(session_record \<Rightarrow> session_record) \<Rightarrow> session_snapshot \<Rightarrow> session_snapshot" where
  "map_sessions f s = s\<lparr>ss_sessions := map f (ss_sessions s)\<rparr>"

definition wire_clears :: "(session_record \<Rightarrow> session_record) list" where
  "wire_clears =
     [\<lambda>r. r\<lparr>sr_processes := []\<rparr>,
      \<lambda>r. r\<lparr>sr_remotefx := None\<rparr>,
      \<lambda>r. r\<lparr>sr_cpu_percent := None\<rparr>,
      \<lambda>r. r\<lparr>sr_working_set := None\<rparr>,
      \<lambda>r. r\<lparr>sr_input_delay := None\<rparr>,
      \<lambda>r. r\<lparr>sr_station := None\<rparr>,
      \<lambda>r. r\<lparr>sr_client_name := None\<rparr>,
      \<lambda>r. r\<lparr>sr_client_address := None\<rparr>,
      \<lambda>r. r\<lparr>sr_connect_at := None\<rparr>,
      \<lambda>r. r\<lparr>sr_disconnect_at := None\<rparr>,
      \<lambda>r. r\<lparr>sr_idle_since := None\<rparr>]"

definition truncate_identity :: "session_record \<Rightarrow> session_record" where
  "truncate_identity r =
     r\<lparr>sr_user := truncate_snapshot_text (sr_user r) 32,
       sr_domain := truncate_snapshot_text (sr_domain r) 32\<rparr>"

text \<open>
  The loop over the stages; the last one, which cuts the identity texts, has the same shape and is
  the last stage of the list.
\<close>

fun compact_stages ::
  "(session_snapshot \<Rightarrow> nat option) \<Rightarrow> (session_record \<Rightarrow> session_record) list \<Rightarrow> session_snapshot
   \<Rightarrow> compact_error + session_snapshot" where
  "compact_stages marshal [] s = Inl CompactTooLarge"
| "compact_stages marshal (f # fs) s =
     (let s' = map_sessions f s in
      case marshal s' of
        None \<Rightarrow> Inl CompactMarshal
      | Some n \<Rightarrow> if n \<le> max_snapshot_bytes then Inr s' else compact_stages marshal fs s')"

definition compact_snapshot ::
  "(session_snapshot \<Rightarrow> nat option) \<Rightarrow> session_snapshot \<Rightarrow> compact_error + session_snapshot" where
  "compact_snapshot marshal s =
     (if length (ss_sessions s) > max_sessions then Inl CompactTooManySessions
      else case marshal s of
        None \<Rightarrow> Inl CompactMarshal
      | Some n \<Rightarrow>
          if n \<le> max_snapshot_bytes then Inr s
          else compact_stages marshal (wire_clears @ [truncate_identity]) s)"

lemma map_sessions_id: "map_sessions id s = s"
  by (simp add: map_sessions_def)

lemma map_sessions_comp: "map_sessions f (map_sessions g s) = map_sessions (f \<circ> g) s"
  by (simp add: map_sessions_def)

lemma compact_stages_result:
  assumes "compact_stages marshal fs s = Inr t"
  shows "\<exists>gs. set gs \<subseteq> set fs \<and> t = map_sessions (fold (\<lambda>f. f) gs) s"
    and "\<exists>n. marshal t = Some n \<and> n \<le> max_snapshot_bytes"
proof -
  have "(\<exists>gs. set gs \<subseteq> set fs \<and> t = map_sessions (fold (\<lambda>f. f) gs) s)
        \<and> (\<exists>n. marshal t = Some n \<and> n \<le> max_snapshot_bytes)"
    using assms
  proof (induction marshal fs s rule: compact_stages.induct)
    case (2 marshal f fs s)
    show ?case
    proof (cases "\<exists>n. marshal (map_sessions f s) = Some n \<and> n \<le> max_snapshot_bytes")
      case True
      then have "t = map_sessions f s" using "2.prems" by (auto simp: Let_def)
      with True show ?thesis by (auto intro!: exI [of _ "[f]"])
    next
      case False
      then obtain n where n: "marshal (map_sessions f s) = Some n" "\<not> n \<le> max_snapshot_bytes"
        and c: "compact_stages marshal fs (map_sessions f s) = Inr t"
        using "2.prems" by (auto simp: Let_def split: option.splits if_splits)
      obtain gs where gs: "set gs \<subseteq> set fs"
        "t = map_sessions (fold (\<lambda>f. f) gs) (map_sessions f s)"
        and m: "\<exists>n. marshal t = Some n \<and> n \<le> max_snapshot_bytes"
        using "2.IH" [OF refl n c] by blast
      have "t = map_sessions (fold (\<lambda>f. f) (f # gs)) s"
        using gs(2) by (simp add: map_sessions_comp comp_def)
      moreover have "set (f # gs) \<subseteq> set (f # fs)" using gs(1) by auto
      ultimately show ?thesis using m by blast
    qed
  qed simp
  then show "\<exists>gs. set gs \<subseteq> set fs \<and> t = map_sessions (fold (\<lambda>f. f) gs) s"
    and "\<exists>n. marshal t = Some n \<and> n \<le> max_snapshot_bytes" by blast+
qed

lemma compact_snapshot_result:
  assumes "compact_snapshot marshal s = Inr t"
  shows "\<exists>gs. set gs \<subseteq> set (wire_clears @ [truncate_identity])
           \<and> t = map_sessions (fold (\<lambda>f. f) gs) s"
    and "\<exists>n. marshal t = Some n \<and> n \<le> max_snapshot_bytes"
    and "length (ss_sessions s) \<le> max_sessions"
proof -
  show "length (ss_sessions s) \<le> max_sessions"
    using assms by (simp add: compact_snapshot_def split: if_splits)
  consider "t = s" "\<exists>n. marshal s = Some n \<and> n \<le> max_snapshot_bytes"
    | "compact_stages marshal (wire_clears @ [truncate_identity]) s = Inr t"
  proof (cases "marshal s")
    case (Some n)
    with assms that show ?thesis
      by (cases "n \<le> max_snapshot_bytes")
        (simp_all add: compact_snapshot_def split: if_split_asm)
  qed (use assms in \<open>simp add: compact_snapshot_def split: if_split_asm\<close>)
  then have "(\<exists>gs. set gs \<subseteq> set (wire_clears @ [truncate_identity])
           \<and> t = map_sessions (fold (\<lambda>f. f) gs) s)
        \<and> (\<exists>n. marshal t = Some n \<and> n \<le> max_snapshot_bytes)"
  proof cases
    case 1
    have "t = map_sessions (fold (\<lambda>f. f) []) s"
      by (simp only: fold_simps map_sessions_id 1(1) fold.simps)
    moreover have "set [] \<subseteq> set (wire_clears @ [truncate_identity])" by simp
    ultimately have "\<exists>gs. set gs \<subseteq> set (wire_clears @ [truncate_identity])
        \<and> t = map_sessions (fold (\<lambda>f. f) gs) s" by blast
    moreover have "\<exists>n. marshal t = Some n \<and> n \<le> max_snapshot_bytes" using 1 by simp
    ultimately show ?thesis by (rule conjI)
  next
    case 2
    from compact_stages_result [OF 2] show ?thesis by blast
  qed
  then show "\<exists>gs. set gs \<subseteq> set (wire_clears @ [truncate_identity])
        \<and> t = map_sessions (fold (\<lambda>f. f) gs) s"
    and "\<exists>n. marshal t = Some n \<and> n \<le> max_snapshot_bytes" by blast+
qed

lemma fold_stages:
  "list_all (\<lambda>f. \<forall>r. Q r \<longrightarrow> Q (f r)) fs \<Longrightarrow> set gs \<subseteq> set fs \<Longrightarrow> Q r \<Longrightarrow> Q (fold (\<lambda>f. f) gs r)"
  by (induction gs arbitrary: r) (auto simp: list_all_iff)

definition session_core :: "session_record \<Rightarrow> u32 \<times> int option \<times> string" where
  "session_core r = (sr_session_id r, sr_logon_at r, sr_state r)"

lemma stages_keep_core:
  "list_all (\<lambda>f. \<forall>r. session_core (f r) = session_core r) (wire_clears @ [truncate_identity])"
  by (simp add: wire_clears_def truncate_identity_def session_core_def)

lemma truncate_identity_valid:
  assumes "validate_session t n r = None"
  shows "validate_session t n (truncate_identity r) = None"
proof -
  have "session_text_ok (sr_user r) 256" "session_text_ok (sr_domain r) 256"
    using assms by (auto simp: validate_session_def)
  then have "session_text_ok (truncate_snapshot_text (sr_user r) 32) 256"
    "session_text_ok (truncate_snapshot_text (sr_domain r) 32) 256"
    by (auto intro: session_text_ok_cut)
  with assms show ?thesis by (auto simp: validate_session_def truncate_identity_def)
qed

lemma stages_valid:
  "list_all (\<lambda>f. \<forall>r. validate_session t n r = None \<longrightarrow> validate_session t n (f r) = None)
     (wire_clears @ [truncate_identity])"
  by (simp add: wire_clears_def truncate_identity_valid)
    (simp add: validate_session_def valid_nullable_timestamp_def
        after_observed_def session_text_ok_def valid_percent_def)

lemma fold_keeps_core:
  "set gs \<subseteq> set (wire_clears @ [truncate_identity]) \<Longrightarrow>
   session_core (fold (\<lambda>f. f) gs r) = session_core r"
  by (rule fold_stages [where Q = "\<lambda>x. session_core x = session_core r", OF _ _ refl])
    (auto intro: list.pred_mono_strong [OF stages_keep_core])

lemma fold_valid:
  "set gs \<subseteq> set (wire_clears @ [truncate_identity]) \<Longrightarrow> validate_session t n r = None \<Longrightarrow>
   validate_session t n (fold (\<lambda>f. f) gs r) = None"
  by (rule fold_stages [OF stages_valid])

lemma map_sessions_valid:
  assumes "validate_snapshot s = None" and "\<And>r. sr_session_id (g r) = sr_session_id r"
    and "\<And>t n r. validate_session t n r = None \<Longrightarrow> validate_session t n (g r) = None"
  shows "validate_snapshot (map_sessions g s) = None"
proof -
  have [simp]: "sr_session_id \<circ> g = sr_session_id" using assms(2) by (simp add: fun_eq_iff)
  show ?thesis
  proof (cases "ss_collection_error s")
    case None
    then have "validate_sessions (ss_observed_at s) (ss_cpu_count s) {} (ss_sessions s) = None"
      using assms(1) by (auto simp: validate_snapshot_def split: option.splits)
    then have "validate_sessions (ss_observed_at s) (ss_cpu_count s) {} (map g (ss_sessions s)) = None"
      by (simp add: validate_sessions_None assms(3))
    with None assms(1) show ?thesis
      by (simp add: validate_snapshot_def map_sessions_def split: option.splits)
  next
    case (Some code)
    have "map_sessions g s = s"
      using validate_snapshot_fatal(2) [OF assms(1) Some] by (simp add: map_sessions_def)
    with assms(1) show ?thesis by simp
  qed
qed

subsection \<open>Aggregates\<close>

record session_aggregates =
  ag_sessions :: nat
  ag_active :: nat
  ag_idle :: nat
  ag_disconnected :: nat
  ag_users :: nat
  ag_last_activity :: "int option"

definition later :: "int option \<Rightarrow> int option \<Rightarrow> int option" where
  "later latest v =
     (case v of None \<Rightarrow> latest
      | Some t \<Rightarrow> (case latest of None \<Rightarrow> Some t | Some l \<Rightarrow> if t > l then Some t else latest))"

text \<open>One turn of the loop: the counters with the set of user keys seen so far.\<close>

definition aggregate_session ::
  "session_record \<Rightarrow> session_aggregates \<times> string set \<Rightarrow> session_aggregates \<times> string set" where
  "aggregate_session r st =
     (case st of (a, users) \<Rightarrow>
        let a1 = (if sr_state r = ''active'' \<or> sr_state r = ''connected''
                  then a\<lparr>ag_active := ag_active a + 1\<rparr>
                  else if sr_state r = ''idle'' then a\<lparr>ag_idle := ag_idle a + 1\<rparr>
                  else if sr_state r = ''disconnected''
                  then a\<lparr>ag_disconnected := ag_disconnected a + 1\<rparr>
                  else a);
            users1 = (case (sr_user r, sr_domain r) of
                        (Some u, Some d) \<Rightarrow> insert (u @ [char_of (0 :: nat)] @ d) users
                      | _ \<Rightarrow> users);
            a2 = a1\<lparr>ag_last_activity :=
                      foldl later (ag_last_activity a1) [sr_idle_since r, sr_connect_at r, sr_logon_at r]\<rparr>
        in (a2, users1))"

definition calculate_aggregates :: "session_record list \<Rightarrow> session_aggregates" where
  "calculate_aggregates ss =
     (let start = \<lparr>ag_sessions = length ss, ag_active = 0, ag_idle = 0, ag_disconnected = 0,
                   ag_users = 0, ag_last_activity = None\<rparr>
      in case fold aggregate_session ss (start, {}) of
           (a, users) \<Rightarrow> a\<lparr>ag_users := card users\<rparr>)"

definition calculate_aggregates_for_identity ::
  "session_record list \<Rightarrow> string \<Rightarrow> session_aggregates" where
  "calculate_aggregates_for_identity ss identity =
     (let a = calculate_aggregates ss in if identity = vis_hidden then a\<lparr>ag_users := 0\<rparr> else a)"

definition user_key :: "session_record \<Rightarrow> string option" where
  "user_key r = (case (sr_user r, sr_domain r) of
                   (Some u, Some d) \<Rightarrow> Some (u @ [char_of (0 :: nat)] @ d) | _ \<Rightarrow> None)"

lemma user_key_Some:
  "user_key r = Some k \<longleftrightarrow>
     (\<exists>u d. sr_user r = Some u \<and> sr_domain r = Some d \<and> k = u @ char_of (0 :: nat) # d)"
  by (auto simp: user_key_def split: option.splits)

lemma aggregate_session_eq:
  "aggregate_session r (a, users) =
     (\<lparr>ag_sessions = ag_sessions a,
       ag_active = ag_active a + (if sr_state r = ''active'' \<or> sr_state r = ''connected'' then 1 else 0),
       ag_idle = ag_idle a + (if sr_state r = ''idle'' then 1 else 0),
       ag_disconnected = ag_disconnected a + (if sr_state r = ''disconnected'' then 1 else 0),
       ag_users = ag_users a,
       ag_last_activity = foldl later (ag_last_activity a)
         [sr_idle_since r, sr_connect_at r, sr_logon_at r]\<rparr>,
      users \<union> {k. user_key r = Some k})"
proof -
  have "(case (sr_user r, sr_domain r) of
           (Some u, Some d) \<Rightarrow> insert (u @ [char_of (0 :: nat)] @ d) users | _ \<Rightarrow> users)
      = users \<union> {k. user_key r = Some k}"
    by (cases "sr_user r"; cases "sr_domain r") (simp_all add: user_key_def)
  then show ?thesis by (simp add: aggregate_session_def Let_def)
qed

lemma fold_aggregate:
  "fold aggregate_session ss (a, users) =
     (\<lparr>ag_sessions = ag_sessions a,
       ag_active = ag_active a
         + length (filter (\<lambda>r. sr_state r = ''active'' \<or> sr_state r = ''connected'') ss),
       ag_idle = ag_idle a + length (filter (\<lambda>r. sr_state r = ''idle'') ss),
       ag_disconnected = ag_disconnected a + length (filter (\<lambda>r. sr_state r = ''disconnected'') ss),
       ag_users = ag_users a,
       ag_last_activity = foldl later (ag_last_activity a)
         (concat (map (\<lambda>r. [sr_idle_since r, sr_connect_at r, sr_logon_at r]) ss))\<rparr>,
      users \<union> {k. \<exists>r \<in> set ss. user_key r = Some k})"
proof (induction ss arbitrary: a users)
  case (Cons r ss)
  have "{k. \<exists>x \<in> set (r # ss). user_key x = Some k}
      = {k. user_key r = Some k} \<union> {k. \<exists>x \<in> set ss. user_key x = Some k}" by auto
  then show ?case by (simp add: aggregate_session_eq Cons.IH Un_assoc)
qed simp

lemma foldl_later:
  "foldl later l ts = Some m \<longleftrightarrow>
     (Some m = l \<or> Some m \<in> set ts)
     \<and> (\<forall>t. Some t = l \<or> Some t \<in> set ts \<longrightarrow> t \<le> m)"
proof (induction ts arbitrary: l)
  case (Cons t ts)
  show ?case unfolding foldl_Cons Cons.IH
    by (cases t; cases l) (auto simp: later_def intro: order_trans)
qed auto

lemma rune_at_ascii: "rune_at r bs n \<Longrightarrow> c \<in> set bs \<Longrightarrow> ord c < 128 \<Longrightarrow> r = ord c"
proof (induction rule: rune_at.induct)
  case (2 c0 c1)
  then show ?case by (auto simp: in_range_def)
next
  case (3 c0 c1 c2)
  then show ?case by (auto simp: in_range_def split: if_splits)
next
  case (4 c0 c1 c2 c3)
  then show ?case by (auto simp: in_range_def split: if_splits)
qed simp

lemma valid_chunks: "utf8_valid s \<Longrightarrow> (r, bs) \<in> set (utf8_chunks s) \<Longrightarrow> rune_at r bs (length bs)"
proof (induction s rule: utf8_chunks.induct)
  case (1 s)
  have ne: "s \<noteq> []" using "1.prems"(2) by auto
  obtain q n where d: "decode_rune s = (q, n)" by fastforce
  have ch: "utf8_chunks s = (q, take n s) # utf8_chunks (drop n s)"
    using ne d by (subst utf8_chunks.simps) simp
  have "\<not> (q = rune_error \<and> length (take n s) = 1)" and rest: "utf8_valid (drop n s)"
    using "1.prems"(1) by (simp_all add: utf8_valid_def ch)
  moreover have "n = 1 \<Longrightarrow> length (take n s) = 1" using ne by (cases s) auto
  ultimately have at: "rune_at q (take n s) n" using decode_rune_at [OF d _ ne] by blast
  from "1.prems"(2) consider "(r, bs) = (q, take n s)" | "(r, bs) \<in> set (utf8_chunks (drop n s))"
    by (auto simp: ch)
  then show ?case
  proof cases
    case 1
    then show ?thesis using at rune_at_length [OF at] by auto
  next
    case 2
    then show ?thesis by (rule "1.IH" [OF ne d [symmetric] rest])
  qed
qed

lemma valid_bounded_text_nul:
  assumes "valid_bounded_text t mn mx nl" shows "char_of (0 :: nat) \<notin> set t"
proof
  define z :: char where "z = char_of (0 :: nat)"
  assume "char_of (0 :: nat) \<in> set t"
  then have "z \<in> set (concat (map snd (utf8_chunks t)))" by (simp add: concat_utf8_chunks z_def)
  then obtain r bs where rb: "(r, bs) \<in> set (utf8_chunks t)" "z \<in> set bs" by auto
  have "rune_at r bs (length bs)"
    using assms rb(1) valid_chunks by (auto simp: valid_bounded_text_def)
  then have "r = ord z" using rb(2) by (intro rune_at_ascii) (auto simp: z_def)
  then have "(0, bs) \<in> set (utf8_chunks t)" using rb(1) by (simp add: z_def)
  then have "0 \<in> set (runes t)" by (force simp: runes_def)
  with assms show False by (auto simp: valid_bounded_text_def list_all_iff control_rune_def)
qed

subsection \<open>Properties\<close>

text \<open>
  C3: privacy projection is noninterfering. Two sessions that agree on what the policy lets through
  (for a hidden group nothing, for a masked text only whether it is present, for masked processes
  only their numbers) have the same projection, so what is stored or sent reveals nothing more.
\<close>

theorem projection_noninterference:
  assumes "same_visible policy s t"
  shows "project_session s policy = project_session t policy"
proof -
  have base: "s\<lparr>sr_user := None, sr_domain := None, sr_station := None, sr_client_name := None,
         sr_client_address := None, sr_processes := []\<rparr>
       = t\<lparr>sr_user := None, sr_domain := None, sr_station := None, sr_client_name := None,
         sr_client_address := None, sr_processes := []\<rparr>"
    using assms by (simp add: same_visible_def)
  have texts: "project_optional (sr_user s) (pp_identity policy) = project_optional (sr_user t) (pp_identity policy)"
    "project_optional (sr_domain s) (pp_identity policy) = project_optional (sr_domain t) (pp_identity policy)"
    "project_optional (sr_station s) (pp_client policy) = project_optional (sr_station t) (pp_client policy)"
    "project_optional (sr_client_name s) (pp_client policy) = project_optional (sr_client_name t) (pp_client policy)"
    "project_optional (sr_client_address s) (pp_client policy) = project_optional (sr_client_address t) (pp_client policy)"
    by (rule project_optional_visible; use assms in \<open>simp add: same_visible_def\<close>)+
  have procs: "sr_processes (project_session s policy) = sr_processes (project_session t policy)"
  proof -
    have v: "visible_processes (pp_process policy) (sr_processes s)
        = visible_processes (pp_process policy) (sr_processes t)"
      using assms by (simp add: same_visible_def)
    consider "pp_process policy = vis_hidden" | "pp_process policy = vis_masked"
      | "pp_process policy \<noteq> vis_hidden" "pp_process policy \<noteq> vis_masked" by blast
    then show ?thesis
    proof cases
      case 2
      with v masked_processes [of "sr_processes s" "sr_processes t" "''***''"]
      show ?thesis by (simp add: projected_processes)
    next
      case 3
      with full_processes [OF v] show ?thesis by (simp add: projected_processes)
    qed (simp add: projected_processes)
  qed
  show ?thesis
    by (subst (1 2) project_session_overlay) (simp add: base texts procs)
qed

theorem projection_noninterference_witness:
  "project_session (example_session\<lparr>sr_user := Some ''bob''\<rparr>)
       example_policy
   = project_session example_session
       example_policy"
  by (rule projection_noninterference)
    (simp add: same_visible_def visible_text_def visible_processes_def example_session_def
        example_policy_def)

text \<open>
  C31: compaction never loses a session. Whatever the encoder, a snapshot it returns encodes within
  the 512 KiB limit, lists the same sessions in the same order with the same id, logon time and
  state, keeps the header, and still validates if the snapshot did (a cut identity text stays
  valid UTF-8).
\<close>

theorem compaction_keeps_sessions:
  assumes "compact_snapshot marshal s = Inr t"
  shows "(\<exists>n. marshal t = Some n \<and> n \<le> 524288)
    \<and> map session_core (ss_sessions t) = map session_core (ss_sessions s)
    \<and> t\<lparr>ss_sessions := []\<rparr> = s\<lparr>ss_sessions := []\<rparr>
    \<and> (validate_snapshot s = None \<longrightarrow> validate_snapshot t = None)"
proof -
  obtain gs where gs: "set gs \<subseteq> set (wire_clears @ [truncate_identity])"
    "t = map_sessions (fold (\<lambda>f. f) gs) s"
    using compact_snapshot_result(1) [OF assms] by blast
  have id: "sr_session_id (fold (\<lambda>f. f) gs r) = sr_session_id r" for r
    using fold_keeps_core [OF gs(1), of r] by (simp add: session_core_def)
  have "validate_snapshot s = None \<Longrightarrow> validate_snapshot t = None"
    unfolding gs(2) by (rule map_sessions_valid [OF _ id fold_valid [OF gs(1)]])
  then show ?thesis
    using compact_snapshot_result(2) [OF assms] fold_keeps_core [OF gs(1)] gs(2)
    by (simp add: map_sessions_def max_snapshot_bytes_def comp_def)
qed

theorem compaction_keeps_sessions_witness:
  "map session_core (ss_sessions (map_sessions (\<lambda>r. r\<lparr>sr_processes := []\<rparr>) example_snapshot))
   = map session_core (ss_sessions example_snapshot)"
proof -
  let ?m = "\<lambda>s. Some (if list_all (\<lambda>r. sr_processes r = []) (ss_sessions s) then 10 else 600000)"
  have "compact_snapshot ?m example_snapshot
      = Inr (map_sessions (\<lambda>r. r\<lparr>sr_processes := []\<rparr>) example_snapshot)"
    by (simp add: compact_snapshot_def example_snapshot_def example_session_def map_sessions_def
        session_limits wire_clears_def)
  from compaction_keeps_sessions [OF this] show ?thesis by blast
qed

text \<open>
  The aggregates are the counts they name. Over validated sessions the user count is the number
  of distinct (user, domain) pairs, since the separator byte cannot occur in a name; the state
  counts are those of the states, and the last activity is the latest time stamp of the sessions.
\<close>

theorem aggregates_correct:
  assumes "\<forall>r \<in> set ss. validate_session obs cpus r = None"
  shows "ag_sessions (calculate_aggregates ss) = length ss
    \<and> ag_users (calculate_aggregates ss)
        = card {(u, d). \<exists>r \<in> set ss. sr_user r = Some u \<and> sr_domain r = Some d}
    \<and> ag_active (calculate_aggregates ss)
        = length (filter (\<lambda>r. sr_state r = ''active'' \<or> sr_state r = ''connected'') ss)
    \<and> ag_active (calculate_aggregates ss) + ag_idle (calculate_aggregates ss)
        + ag_disconnected (calculate_aggregates ss) \<le> length ss
    \<and> (ag_last_activity (calculate_aggregates ss) = Some m \<longleftrightarrow>
        m \<in> {t. \<exists>r \<in> set ss. Some t \<in> {sr_idle_since r, sr_connect_at r, sr_logon_at r}}
        \<and> (\<forall>r \<in> set ss. \<forall>t. Some t \<in> {sr_idle_since r, sr_connect_at r, sr_logon_at r} \<longrightarrow> t \<le> m))"
proof -
  let ?U = "{(u, d). \<exists>r \<in> set ss. sr_user r = Some u \<and> sr_domain r = Some d}"
  let ?k = "\<lambda>(u, d). u @ char_of (0 :: nat) # d"
  have nul: "char_of (0 :: nat) \<notin> set u" if "(u, d) \<in> ?U" for u d
    using that assms valid_bounded_text_nul
    by (fastforce simp: validate_session_def session_text_ok_def)
  have "inj_on ?k ?U"
  proof (rule inj_onI, clarify)
    fix u d u' d' r r'
    assume k: "u @ char_of (0 :: nat) # d = u' @ char_of (0 :: nat) # d'"
      and "r \<in> set ss" "sr_user r = Some u" "sr_domain r = Some d"
      and "r' \<in> set ss" "sr_user r' = Some u'" "sr_domain r' = Some d'"
    then have "char_of (0 :: nat) \<notin> set u" "char_of (0 :: nat) \<notin> set u'" using nul by blast+
    then show "u = u' \<and> d = d'" by (rule append_sep_inject [OF _ _ k])
  qed
  moreover have "{k. \<exists>r \<in> set ss. user_key r = Some k} = ?k ` ?U"
    by (force simp: user_key_Some image_iff)
  ultimately have users: "card {k. \<exists>r \<in> set ss. user_key r = Some k} = card ?U"
    by (simp add: card_image)
  have sum: "length (filter (\<lambda>r. sr_state r = ''active'' \<or> sr_state r = ''connected'') ss)
      + length (filter (\<lambda>r. sr_state r = ''idle'') ss)
      + length (filter (\<lambda>r. sr_state r = ''disconnected'') ss) \<le> length ss"
    by (induction ss) auto
  show ?thesis
    using users sum
    by (auto simp: calculate_aggregates_def fold_aggregate foldl_later)
qed

theorem aggregates_correct_witness:
  "ag_users (calculate_aggregates [example_session, example_session\<lparr>sr_session_id := 3\<rparr>]) = 1"
proof -
  let ?ss = "[example_session, example_session\<lparr>sr_session_id := 3\<rparr>]"
  have "\<forall>r \<in> set ?ss. validate_session 2000 4 r = None"
    using example_session_valid by (simp add: validate_session_def)
  from aggregates_correct [OF this]
  have "ag_users (calculate_aggregates ?ss)
      = card {(u, d). \<exists>r \<in> set ?ss. sr_user r = Some u \<and> sr_domain r = Some d}" by blast
  also have "{(u, d). \<exists>r \<in> set ?ss. sr_user r = Some u \<and> sr_domain r = Some d}
      = {(''alice'', ''CORP'')}"
    by (auto simp: example_session_def)
  finally show ?thesis by simp
qed

end
