(* ===== verification/Workload.thy ===== *)
theory Workload
  imports SessionModel "HOL-Library.AList"
begin

text \<open>
  The anonymous session workload statistics of \<open>internal/sessiondata/workload.go\<close>: computing
  them from a snapshot, merging, percentiles, and the binary codecs of the stored histograms
  (with the count series codec of \<open>internal/telemetry/session_workload.go\<close>). Counters are
  \<open>u64\<close> words. The floating-point operations the code performs (addition, division by the CPU
  count, the bin of a value) are hardware and \<open>math\<close> functions: they are the fields of
  \<open>float_ops\<close>, an argument of the definitions that use them, and nothing is assumed about them.
\<close>

subsection \<open>Unsigned varints\<close>

text \<open>\<open>binary.PutUvarint\<close>, and \<open>binary.Uvarint\<close> as the value with the unread rest.\<close>

fun put_varint :: "nat \<Rightarrow> string" where
  "put_varint n =
     (if n < 128 then [char_of n] else char_of (128 + n mod 128) # put_varint (n div 128))"

declare put_varint.simps [simp del]

definition put_uvarint :: "u64 \<Rightarrow> string" where
  "put_uvarint x = put_varint (unat x)"

fun uvarint_loop :: "nat \<Rightarrow> nat \<Rightarrow> string \<Rightarrow> (u64 \<times> string) option" where
  "uvarint_loop i x [] = None"
| "uvarint_loop i x (b # bs) =
     (if i = 10 then None
      else if ord b < 128 then
        (if i = 9 \<and> ord b > 1 then None else Some (of_nat (x + ord b * 128 ^ i), bs))
      else uvarint_loop (Suc i) (x + (ord b - 128) * 128 ^ i) bs)"

definition uvarint :: "string \<Rightarrow> (u64 \<times> string) option" where
  "uvarint data = uvarint_loop 0 0 data"

lemma uvarint_loop_put:
  "n * 128 ^ i < 2 ^ 64 \<Longrightarrow> i \<le> 9 \<Longrightarrow>
   uvarint_loop i x (put_varint n @ rest) = Some (of_nat (x + n * 128 ^ i), rest)"
proof (induction n arbitrary: i x rule: put_varint.induct)
  case (1 n)
  show ?case
  proof (cases "n < 128")
    case True
    have "\<not> (i = 9 \<and> n > 1)"
    proof
      assume "i = 9 \<and> n > 1"
      then have "2 * 128 ^ 9 \<le> n * (128 :: nat) ^ i" by (intro mult_le_mono) auto
      with "1.prems"(1) show False by simp
    qed
    moreover have "ord (char_of n) = n" using True by (intro ord_char_of) simp
    ultimately show ?thesis
      using True "1.prems" by (subst put_varint.simps) (simp del: of_char_of)
  next
    case False
    have i: "Suc i \<le> 9"
    proof (rule ccontr)
      assume "\<not> Suc i \<le> 9"
      with "1.prems"(2) have "i = 9" by simp
      moreover have "128 * 128 ^ 9 \<le> n * (128 :: nat) ^ 9" using False by (intro mult_le_mono) auto
      ultimately show False using "1.prems"(1) by simp
    qed
    have o: "ord (char_of (128 + n mod 128)) = 128 + n mod 128" by (intro ord_char_of) simp
    have split: "n * 128 ^ i = (n mod 128) * 128 ^ i + (n div 128) * 128 ^ Suc i"
    proof -
      define q r where "q = n div 128" and "r = n mod 128"
      then have "n = r + 128 * q" by simp
      then show ?thesis
        unfolding q_def [symmetric] r_def [symmetric] by (simp add: algebra_simps)
    qed
    then have "(n div 128) * 128 ^ Suc i < 2 ^ 64" using "1.prems"(1) by linarith
    from "1.IH" [OF False this i]
    have "uvarint_loop i x (put_varint n @ rest)
        = Some (of_nat (x + (n mod 128) * 128 ^ i + (n div 128) * 128 ^ Suc i), rest)"
      using False i o by (subst put_varint.simps) (simp del: of_char_of power_Suc)
    then show ?thesis by (simp only: split add.assoc)
  qed
qed

lemma uvarint_put [simp]: "uvarint (put_uvarint x @ rest) = Some (x, rest)"
  using uvarint_loop_put [of "unat x" 0 0 rest] unat_u64 [of x]
  by (simp add: uvarint_def put_uvarint_def)

text \<open>\<open>count\<close> varints in a row.\<close>

fun read_uvarints :: "nat \<Rightarrow> string \<Rightarrow> (u64 list \<times> string) option" where
  "read_uvarints 0 data = Some ([], data)"
| "read_uvarints (Suc n) data =
     (case uvarint data of None \<Rightarrow> None
      | Some (v, rest) \<Rightarrow> map_option (\<lambda>(vs, r). (v # vs, r)) (read_uvarints n rest))"

definition put_uvarints :: "u64 list \<Rightarrow> string" where
  "put_uvarints vs = concat (map put_uvarint vs)"

lemma read_put_uvarints [simp]:
  "read_uvarints (length vs) (put_uvarints vs @ rest) = Some (vs, rest)"
  by (induction vs) (simp_all add: put_uvarints_def)

lemma read_uvarints_length: "read_uvarints n data = Some (vs, rest) \<Longrightarrow> length vs = n"
  by (induction n arbitrary: data vs) (auto split: option.splits)

subsection \<open>The aggregate\<close>

record workload_aggregate =
  wa_base :: u64
  wa_empty :: u64
  wa_error :: u64
  wa_cpu_sum :: float64
  wa_cpu_count :: u64
  wa_cpu_hist :: "u64 list"
  wa_ge5 :: u64
  wa_ge20 :: u64
  wa_mem_sum :: float64
  wa_mem_count :: u64
  wa_mem_zero :: u64
  wa_mem_hist :: "(int \<times> u64) list"

definition cpu_bins :: nat where "cpu_bins = 201"

definition zero_aggregate :: workload_aggregate where
  "zero_aggregate = \<lparr>wa_base = 0, wa_empty = 0, wa_error = 0, wa_cpu_sum = Fin 0, wa_cpu_count = 0,
     wa_cpu_hist = replicate cpu_bins 0, wa_ge5 = 0, wa_ge20 = 0, wa_mem_sum = Fin 0,
     wa_mem_count = 0, wa_mem_zero = 0, wa_mem_hist = []\<rparr>"

text \<open>
  \<open>fo_div_cpu\<close> is \<open>value / float64(cpus)\<close>, \<open>fo_cpu_bin\<close> is \<open>int(math.Round(value / 0.5))\<close>,
  \<open>fo_mem_bin\<close> is \<open>memoryBin\<close> and \<open>fo_rank\<close> is \<open>uint64(math.Ceil(q * float64(count)))\<close>.
\<close>

record float_ops =
  fo_add :: "float64 \<Rightarrow> float64 \<Rightarrow> float64"
  fo_div_cpu :: "float64 \<Rightarrow> u16 \<Rightarrow> float64"
  fo_of_u64 :: "u64 \<Rightarrow> float64"
  fo_cpu_bin :: "float64 \<Rightarrow> int"
  fo_mem_bin :: "u64 \<Rightarrow> int"
  fo_rank :: "float64 \<Rightarrow> u64 \<Rightarrow> u64"

text \<open>One choice of the operations, for the examples.\<close>

definition example_float_ops :: float_ops where
  "example_float_ops =
     \<lparr>fo_add = \<lambda>x y. x, fo_div_cpu = \<lambda>x n. x, fo_of_u64 = \<lambda>x. Fin 0, fo_cpu_bin = \<lambda>x. 24,
      fo_mem_bin = \<lambda>x. 420, fo_rank = \<lambda>q n. n\<rparr>"

definition workload_eligible_state :: "string \<Rightarrow> bool" where
  "workload_eligible_state s \<longleftrightarrow>
     s = ''active'' \<or> s = ''connected'' \<or> s = ''connect_query'' \<or> s = ''shadow''
     \<or> s = ''disconnected'' \<or> s = ''idle''"

definition bump :: "u64 list \<Rightarrow> nat \<Rightarrow> u64 list" where
  "bump h i = h[i := h ! i + 1]"

text \<open>\<open>m[k] += c\<close> on a map kept as an association list.\<close>

definition map_bump :: "int \<Rightarrow> u64 \<Rightarrow> (int \<times> u64) list \<Rightarrow> (int \<times> u64) list" where
  "map_bump k c m = AList.update k ((case map_of m k of None \<Rightarrow> 0 | Some v \<Rightarrow> v) + c) m"

definition workload_cpu :: "float_ops \<Rightarrow> u16 \<Rightarrow> session_record \<Rightarrow> workload_aggregate \<Rightarrow> workload_aggregate" where
  "workload_cpu fo cpus r a =
     (case sr_cpu_percent r of
        None \<Rightarrow> a
      | Some p \<Rightarrow>
          if cpus > 0 then
            let v = fo_div_cpu fo p cpus in
            if \<not> is_nan v \<and> \<not> is_inf v \<and> f_leq (fint 0) v \<and> f_leq v (fint 100) then
              let b = fo_cpu_bin fo v;
                  bin = (if b < 0 then 0 else if b \<ge> int cpu_bins then cpu_bins - 1 else nat b)
              in a\<lparr>wa_cpu_sum := fo_add fo (wa_cpu_sum a) v,
                   wa_cpu_count := wa_cpu_count a + 1,
                   wa_cpu_hist := bump (wa_cpu_hist a) bin,
                   wa_ge5 := wa_ge5 a + (if f_leq (fint 5) v then 1 else 0),
                   wa_ge20 := wa_ge20 a + (if f_leq (fint 20) v then 1 else 0)\<rparr>
            else a
          else a)"

definition workload_memory :: "float_ops \<Rightarrow> session_record \<Rightarrow> workload_aggregate \<Rightarrow> workload_aggregate" where
  "workload_memory fo r a =
     (case sr_working_set r of
        None \<Rightarrow> a
      | Some w \<Rightarrow>
          let a1 = a\<lparr>wa_mem_sum := fo_add fo (wa_mem_sum a) (fo_of_u64 fo w),
                    wa_mem_count := wa_mem_count a + 1\<rparr>
          in if w = 0 then a1\<lparr>wa_mem_zero := wa_mem_zero a1 + 1\<rparr>
             else a1\<lparr>wa_mem_hist := map_bump (fo_mem_bin fo w) 1 (wa_mem_hist a1)\<rparr>)"

definition workload_session :: "float_ops \<Rightarrow> u16 \<Rightarrow> session_record \<Rightarrow> workload_aggregate \<Rightarrow> workload_aggregate" where
  "workload_session fo cpus r a =
     (if \<not> workload_eligible_state (sr_state r) then a
      else workload_memory fo r (workload_cpu fo cpus r a))"

definition calculate_session_workload :: "float_ops \<Rightarrow> session_snapshot \<Rightarrow> workload_aggregate" where
  "calculate_session_workload fo s =
     (if ss_collection_error s \<noteq> None then zero_aggregate\<lparr>wa_error := 1\<rparr>
      else fold (workload_session fo (ss_cpu_count s)) (ss_sessions s)
             (zero_aggregate\<lparr>wa_base := 1, wa_empty := (if ss_sessions s = [] then 1 else 0)\<rparr>))"

definition merge_workload :: "float_ops \<Rightarrow> workload_aggregate \<Rightarrow> workload_aggregate \<Rightarrow> workload_aggregate" where
  "merge_workload fo a b =
     \<lparr>wa_base = wa_base a + wa_base b, wa_empty = wa_empty a + wa_empty b,
      wa_error = wa_error a + wa_error b,
      wa_cpu_sum = fo_add fo (wa_cpu_sum a) (wa_cpu_sum b),
      wa_cpu_count = wa_cpu_count a + wa_cpu_count b,
      wa_cpu_hist = map2 (+) (wa_cpu_hist a) (wa_cpu_hist b),
      wa_ge5 = wa_ge5 a + wa_ge5 b, wa_ge20 = wa_ge20 a + wa_ge20 b,
      wa_mem_sum = fo_add fo (wa_mem_sum a) (wa_mem_sum b),
      wa_mem_count = wa_mem_count a + wa_mem_count b,
      wa_mem_zero = wa_mem_zero a + wa_mem_zero b,
      wa_mem_hist = fold (\<lambda>(k, c). map_bump k c) (wa_mem_hist b) (wa_mem_hist a)\<rparr>"

subsection \<open>Percentiles\<close>

definition percentile_rank :: "float_ops \<Rightarrow> u64 \<Rightarrow> float64 \<Rightarrow> u64" where
  "percentile_rank fo n q =
     (if f_leq q (fint 0) then 1 else if f_leq (fint 1) q then n else fo_rank fo q n)"

text \<open>The scan of the bins: the first whose running total reaches the rank.\<close>

fun rank_scan :: "u64 \<Rightarrow> u64 \<Rightarrow> ('k \<times> u64) list \<Rightarrow> 'k option" where
  "rank_scan seen rank [] = None"
| "rank_scan seen rank ((k, c) # bs) =
     (if seen + c \<ge> rank then Some k else rank_scan (seen + c) rank bs)"

text \<open>The bin index \<open>i\<close> stands for the value \<open>i * 0.5\<close>.\<close>

definition cpu_percentile :: "float_ops \<Rightarrow> workload_aggregate \<Rightarrow> float64 \<Rightarrow> nat option" where
  "cpu_percentile fo a q =
     (if wa_cpu_count a = 0 then None
      else rank_scan 0 (percentile_rank fo (wa_cpu_count a) q)
             (zip [0 ..< length (wa_cpu_hist a)] (wa_cpu_hist a)))"

definition sorted_bins :: "(int \<times> u64) list \<Rightarrow> (int \<times> u64) list" where
  "sorted_bins m = sort_key fst m"

text \<open>The zero bin is \<open>None\<close>; \<open>Some b\<close> stands for \<open>memoryBinValue(b)\<close>.\<close>

definition memory_percentile :: "float_ops \<Rightarrow> workload_aggregate \<Rightarrow> float64 \<Rightarrow> int option option" where
  "memory_percentile fo a q =
     (if wa_mem_count a = 0 then None
      else let rank = percentile_rank fo (wa_mem_count a) q in
           if rank \<le> wa_mem_zero a then Some None
           else map_option Some (rank_scan (wa_mem_zero a) rank (sorted_bins (wa_mem_hist a))))"

subsection \<open>Codecs\<close>

definition workload_codec :: char where "workload_codec = char_of (1 :: nat)"

definition encode_cpu_histogram :: "u64 list \<Rightarrow> string" where
  "encode_cpu_histogram h = workload_codec # put_uvarints h"

definition decode_cpu_histogram :: "string \<Rightarrow> u64 list option" where
  "decode_cpu_histogram data =
     (case data of [] \<Rightarrow> None
      | c # bs \<Rightarrow>
          if c \<noteq> workload_codec then None
          else (case read_uvarints cpu_bins bs of
                  None \<Rightarrow> None
                | Some (h, rest) \<Rightarrow> if rest \<noteq> [] then None else Some h))"

definition encode_count_series :: "u64 list \<Rightarrow> string" where
  "encode_count_series vs = workload_codec # put_uvarint (of_nat (length vs)) @ put_uvarints vs"

definition decode_count_series :: "string \<Rightarrow> u64 list option" where
  "decode_count_series data =
     (case data of [] \<Rightarrow> None
      | c # bs \<Rightarrow>
          if c \<noteq> workload_codec then None
          else (case uvarint bs of
                  None \<Rightarrow> None
                | Some (len, bs1) \<Rightarrow>
                    if len > 60 then None
                    else (case read_uvarints (unat len) bs1 of
                            None \<Rightarrow> None
                          | Some (vs, rest) \<Rightarrow> if rest \<noteq> [] then None else Some vs)))"

text \<open>\<open>int32\<close> values are integers; \<open>wrap32\<close> is the conversion to \<open>int32\<close>.\<close>

definition wrap32 :: "int \<Rightarrow> int" where
  "wrap32 i = (i + 2 ^ 31) mod 2 ^ 32 - 2 ^ 31"

fun encode_bins :: "int option \<Rightarrow> (int \<times> u64) list \<Rightarrow> string" where
  "encode_bins previous [] = []"
| "encode_bins previous ((b, c) # bs) =
     (let delta = (case previous of None \<Rightarrow> b | Some p \<Rightarrow> wrap32 (b - p))
      in put_uvarint (of_int delta) @ put_uvarint c @ encode_bins (Some b) bs)"

definition encode_memory_histogram :: "u64 \<Rightarrow> (int \<times> u64) list \<Rightarrow> string" where
  "encode_memory_histogram zero m =
     workload_codec # put_uvarint zero @ put_uvarint (of_nat (length m)) @ encode_bins None (sorted_bins m)"

fun decode_bins :: "nat \<Rightarrow> int option \<Rightarrow> (int \<times> u64) list \<Rightarrow> string \<Rightarrow> ((int \<times> u64) list \<times> string) option" where
  "decode_bins 0 previous m data = Some (m, data)"
| "decode_bins (Suc n) previous m data =
     (case uvarint data of
        None \<Rightarrow> None
      | Some (delta, data1) \<Rightarrow>
          if delta > 2147483647 then None
          else let b = (case previous of None \<Rightarrow> uint delta | Some p \<Rightarrow> wrap32 (p + uint delta)) in
               case uvarint data1 of
                 None \<Rightarrow> None
               | Some (c, data2) \<Rightarrow>
                   if c = 0 then None else decode_bins n (Some b) (AList.update b c m) data2)"

definition decode_memory_histogram :: "string \<Rightarrow> (u64 \<times> (int \<times> u64) list) option" where
  "decode_memory_histogram data =
     (case data of [] \<Rightarrow> None
      | ver # bs \<Rightarrow>
          if ver \<noteq> workload_codec then None
          else (case uvarint bs of
                  None \<Rightarrow> None
                | Some (zero, bs1) \<Rightarrow>
                    (case uvarint bs1 of
                       None \<Rightarrow> None
                     | Some (len, bs2) \<Rightarrow>
                         if len > 10000 then None
                         else (case decode_bins (unat len) None [] bs2 of
                                 None \<Rightarrow> None
                               | Some (m, rest) \<Rightarrow> if rest \<noteq> [] then None else Some (zero, m)))))"

interpretation cpu_histogram: codec encode_cpu_histogram decode_cpu_histogram
  "\<lambda>h. length h = cpu_bins"
proof unfold_locales
  fix h :: "u64 list" assume "length h = cpu_bins"
  then show "decode_cpu_histogram (encode_cpu_histogram h) = Some h"
    using read_put_uvarints [of h "[]"]
    by (simp add: decode_cpu_histogram_def encode_cpu_histogram_def)
next
  fix s h assume "decode_cpu_histogram s = Some h"
  then show "length h = cpu_bins"
    by (auto simp: decode_cpu_histogram_def split: list.splits if_splits option.splits
        dest: read_uvarints_length)
qed

lemma unat_of_nat_u64: "n < 2 ^ 64 \<Longrightarrow> unat (of_nat n :: u64) = n"
  by (simp add: unat_of_nat take_bit_nat_eq_self)

interpretation count_series: codec encode_count_series decode_count_series "\<lambda>vs. length vs \<le> 60"
proof unfold_locales
  fix vs :: "u64 list" assume l: "length vs \<le> 60"
  then have "unat (of_nat (length vs) :: u64) = length vs" by (intro unat_of_nat_u64) simp
  moreover from this have "\<not> (of_nat (length vs) :: u64) > 60"
    using l by (simp add: word_less_nat_alt)
  ultimately show "decode_count_series (encode_count_series vs) = Some vs"
    using read_put_uvarints [of vs "[]"]
    by (simp add: decode_count_series_def encode_count_series_def)
next
  fix s vs assume "decode_count_series s = Some vs"
  then show "length vs \<le> 60"
    by (auto simp: decode_count_series_def word_less_nat_alt split: list.splits if_splits option.splits
        dest!: read_uvarints_length)
qed

subsection \<open>Decoding a memory histogram\<close>

lemma wrap32_id: "- (2 ^ 31) \<le> i \<Longrightarrow> i < 2 ^ 31 \<Longrightarrow> wrap32 i = i"
  by (simp add: wrap32_def)

lemma small_u64: "0 \<le> d \<Longrightarrow> d < 2 ^ 31 \<Longrightarrow>
  uint (of_int d :: u64) = d \<and> \<not> (of_int d :: u64) > 2147483647"
  by (simp add: word_less_def uint_word_of_int)

lemma decode_encode_bins:
  assumes "sorted_wrt (<) (map fst bs)" and "\<forall>(b, c) \<in> set bs. 0 \<le> b \<and> b < 2 ^ 31 \<and> c \<noteq> 0"
    and "case prev of None \<Rightarrow> True | Some p \<Rightarrow> 0 \<le> p \<and> (\<forall>(b, c) \<in> set bs. p < b)"
  shows "decode_bins (length bs) prev m (encode_bins prev bs @ rest)
    = Some (fold (\<lambda>(b, c). AList.update b c) bs m, rest)"
  using assms
proof (induction bs arbitrary: prev m)
  case (Cons x bs)
  obtain b c where x: "x = (b, c)" by force
  have b: "0 \<le> b" "b < 2 ^ 31" "c \<noteq> 0" using Cons.prems(2) x by auto
  define d where "d = (case prev of None \<Rightarrow> b | Some p \<Rightarrow> wrap32 (b - p))"
  have d: "0 \<le> d \<and> d < 2 ^ 31 \<and> (case prev of None \<Rightarrow> d | Some p \<Rightarrow> wrap32 (p + d)) = b"
  proof (cases prev)
    case None
    with b show ?thesis by (simp add: d_def)
  next
    case (Some p)
    then have "0 \<le> p" "p < b" using Cons.prems(3) x by auto
    with b Some show ?thesis by (simp add: d_def wrap32_id)
  qed
  have "decode_bins (length bs) (Some b) (AList.update b c m) (encode_bins (Some b) bs @ rest)
      = Some (fold (\<lambda>(b, c). AList.update b c) bs (AList.update b c m), rest)"
    using Cons.prems x b by (intro Cons.IH) auto
  with d small_u64 [of d] b show ?case
    by (cases prev) (simp_all add: x d_def Let_def)
qed simp

lemma fold_update_map_of:
  "distinct (map fst bs) \<Longrightarrow> map_of (fold (\<lambda>(b, c). AList.update b c) bs m) = map_of m ++ map_of bs"
proof (induction bs arbitrary: m)
  case (Cons x bs)
  obtain b c where x: "x = (b, c)" by force
  then have "b \<notin> dom (map_of bs)" using Cons.prems by (auto simp: dom_map_of_conv_image_fst)
  with Cons x show ?case
    by (auto simp add: update_conv' map_add_def fun_eq_iff split: option.split)
qed simp

lemma map_of_sorted_bins: "distinct (map fst m) \<Longrightarrow> map_of (sorted_bins m) = map_of m"
  by (intro map_of_inject_set [THEN iffD2])
    (auto simp: sorted_bins_def distinct_map inj_on_def)

lemma sorted_bins_strict: "distinct (map fst m) \<Longrightarrow> sorted_wrt (<) (map fst (sorted_bins m))"
proof -
  assume d: "distinct (map fst m)"
  have "mset (map fst (sorted_bins m)) = mset (map fst m)" by (simp add: sorted_bins_def)
  then have "distinct (map fst (sorted_bins m))" using d by (metis mset_eq_imp_distinct_iff)
  then show ?thesis
    by (simp add: strict_sorted_iff sorted_bins_def)
qed

subsection \<open>Counting\<close>

lemma unat_add_u64: "unat (a :: u64) + unat b < 2 ^ 64 \<Longrightarrow> unat (a + b) = unat a + unat b"
  by (simp add: unat_word_ariths)

definition bin_total :: "u64 list \<Rightarrow> nat" where "bin_total h = sum_list (map unat h)"

lemma total_bump:
  assumes "i < length h" and "bin_total h + 1 < 2 ^ 64"
  shows "bin_total (bump h i) = bin_total h + 1" and "length (bump h i) = length h"
proof -
  have "unat (h ! i) \<le> bin_total h"
    using assms(1) by (simp add: bin_total_def member_le_sum_list)
  then have u: "unat (h ! i + 1) = unat (h ! i) + 1" using assms(2) by (subst unat_add_u64) simp_all
  have "bin_total (h[i := x]) + unat (h ! i) = bin_total h + unat x" for x
    using assms(1) by (induction h arbitrary: i) (auto simp: bin_total_def nth_Cons split: nat.split)
  from this [of "h ! i + 1"] u show "bin_total (bump h i) = bin_total h + 1" by (simp add: bump_def)
qed (simp add: bump_def)

definition map_total :: "(int \<times> u64) list \<Rightarrow> nat" where "map_total m = bin_total (map snd m)"

lemma update_total:
  "distinct (map fst m) \<Longrightarrow>
   map_total (AList.update k v m) + (case map_of m k of None \<Rightarrow> 0 | Some u \<Rightarrow> unat u)
     = map_total m + unat v"
proof (induction m)
  case (Cons x m)
  then show ?case
    by (cases x) (auto simp: map_total_def bin_total_def map_of_eq_None_iff rev_image_eqI
        split: option.split dest: map_of_SomeD)
qed (simp add: map_total_def bin_total_def)

lemma map_of_le_total: "map_of m k = Some u \<Longrightarrow> unat u \<le> map_total m"
  by (induction m) (auto simp: map_total_def bin_total_def split: if_splits)

lemma total_map_bump:
  assumes "distinct (map fst m)" and "map_total m + 1 < 2 ^ 64"
  shows "map_total (map_bump k 1 m) = map_total m + 1"
proof (cases "map_of m k")
  case None
  with update_total [OF assms(1), of k 1] show ?thesis by (simp add: map_bump_def)
next
  case (Some u)
  then have "unat (u + 1) = unat u + 1"
    using map_of_le_total [OF Some] assms(2) by (subst unat_add_u64) simp_all
  with Some update_total [OF assms(1), of k "u + 1"] show ?thesis by (simp add: map_bump_def)
qed

definition workload_ok :: "nat \<Rightarrow> workload_aggregate \<Rightarrow> bool" where
  "workload_ok n a \<longleftrightarrow>
     length (wa_cpu_hist a) = cpu_bins \<and> bin_total (wa_cpu_hist a) = unat (wa_cpu_count a)
     \<and> wa_ge20 a \<le> wa_ge5 a \<and> wa_ge5 a \<le> wa_cpu_count a \<and> unat (wa_cpu_count a) \<le> n
     \<and> distinct (map fst (wa_mem_hist a))
     \<and> unat (wa_mem_zero a) + map_total (wa_mem_hist a) = unat (wa_mem_count a)
     \<and> unat (wa_mem_count a) \<le> n"

lemma f_leq_trans: "f_leq x y \<Longrightarrow> f_leq y z \<Longrightarrow> f_leq x z"
  by (auto simp: f_leq_def f_eq_def dest: f_less_trans)

lemma f_leq_20_5: "f_leq (fint 20) v \<Longrightarrow> f_leq (fint 5) v"
  by (rule f_leq_trans [of _ "fint 20"]) (simp_all add: f_leq_def)

lemma workload_cpu_keeps:
  "wa_mem_hist (workload_cpu fo cpus r a) = wa_mem_hist a"
  "wa_mem_zero (workload_cpu fo cpus r a) = wa_mem_zero a"
  "wa_mem_count (workload_cpu fo cpus r a) = wa_mem_count a"
  by (simp_all add: workload_cpu_def Let_def split: option.split)

lemma workload_memory_keeps:
  "wa_cpu_hist (workload_memory fo r a) = wa_cpu_hist a"
  "wa_cpu_count (workload_memory fo r a) = wa_cpu_count a"
  "wa_ge5 (workload_memory fo r a) = wa_ge5 a"
  "wa_ge20 (workload_memory fo r a) = wa_ge20 a"
  by (simp_all add: workload_memory_def Let_def split: option.split)

lemma unat_add_1_u64: "unat (a :: u64) \<le> n \<Longrightarrow> n + 1 < 2 ^ 64 \<Longrightarrow> unat (a + 1) = unat a + 1"
  by (subst unat_add_u64) simp_all

lemma bin_index: "(if b < 0 then 0 else if b \<ge> int cpu_bins then cpu_bins - 1 else nat b) < cpu_bins"
  by (simp add: cpu_bins_def nat_less_iff)

lemma workload_cpu_ok:
  assumes ok: "workload_ok n a" and n: "n + 1 < 2 ^ 64"
  shows "workload_ok (n + 1) (workload_cpu fo cpus r a)"
proof (cases "workload_cpu fo cpus r a = a")
  case True
  with ok show ?thesis by (simp add: workload_ok_def)
next
  case False
  then obtain p v where v: "sr_cpu_percent r = Some p" "cpus > 0" "v = fo_div_cpu fo p cpus"
    "\<not> is_nan v" "\<not> is_inf v" "f_leq (fint 0) v" "f_leq v (fint 100)"
    by (auto simp: workload_cpu_def Let_def split: option.splits if_splits)
  define b where "b = fo_cpu_bin fo v"
  define i where "i = (if b < 0 then 0 else if b \<ge> int cpu_bins then cpu_bins - 1 else nat b)"
  define x5 :: u64 where "x5 = (if f_leq (fint 5) v then 1 else 0)"
  define x20 :: u64 where "x20 = (if f_leq (fint 20) v then 1 else 0)"
  have eq: "workload_cpu fo cpus r a
      = a\<lparr>wa_cpu_sum := fo_add fo (wa_cpu_sum a) v, wa_cpu_count := wa_cpu_count a + 1,
          wa_cpu_hist := bump (wa_cpu_hist a) i,
          wa_ge5 := wa_ge5 a + x5, wa_ge20 := wa_ge20 a + x20\<rparr>"
    using v by (simp add: workload_cpu_def Let_def b_def i_def x5_def x20_def)
  have i: "i < length (wa_cpu_hist a)"
    using ok bin_index [of b] by (simp add: workload_ok_def i_def)
  have le: "unat x20 \<le> unat x5" "unat x5 \<le> 1"
    using f_leq_20_5 [of v] by (auto simp: x5_def x20_def)
  have cnt: "unat (wa_cpu_count a) \<le> n" "unat (wa_ge5 a) \<le> n" "unat (wa_ge20 a) \<le> n"
    using ok by (auto simp: workload_ok_def word_le_nat_alt)
  then have sums: "unat (wa_cpu_count a + 1) = unat (wa_cpu_count a) + 1"
    "unat (wa_ge5 a + x5) = unat (wa_ge5 a) + unat x5"
    "unat (wa_ge20 a + x20) = unat (wa_ge20 a) + unat x20"
    using unat_add_1_u64 [OF cnt(1) n] unat_add_u64 [of "wa_ge5 a" x5]
      unat_add_u64 [of "wa_ge20 a" x20] n le by linarith+
  have "bin_total (wa_cpu_hist a) + 1 < 2 ^ 64" using ok n by (simp add: workload_ok_def)
  note b = total_bump [OF i this]
  show ?thesis
    using ok b sums le by (simp add: eq workload_ok_def word_le_nat_alt)
qed

lemma workload_memory_ok:
  assumes ok: "workload_ok n a" and n: "n + 1 < 2 ^ 64"
  shows "workload_ok (n + 1) (workload_memory fo r a)"
proof (cases "sr_working_set r")
  case None
  with ok show ?thesis by (simp add: workload_ok_def workload_memory_def)
next
  case (Some w)
  have c: "unat (wa_mem_count a) \<le> n" "unat (wa_mem_zero a) \<le> n" "map_total (wa_mem_hist a) \<le> n"
    using ok by (auto simp: workload_ok_def)
  have sums: "unat (wa_mem_count a + 1) = unat (wa_mem_count a) + 1"
    "unat (wa_mem_zero a + 1) = unat (wa_mem_zero a) + 1"
    using unat_add_1_u64 [OF c(1) n] unat_add_1_u64 [OF c(2) n] by simp_all
  have "distinct (map fst (wa_mem_hist a))" using ok by (simp add: workload_ok_def)
  moreover from this have "map_total (map_bump k 1 (wa_mem_hist a)) = map_total (wa_mem_hist a) + 1" for k
    using c(3) n by (intro total_map_bump) simp_all
  ultimately show ?thesis
    using ok sums Some
    by (simp add: workload_ok_def workload_memory_def Let_def map_bump_def distinct_update)
qed

lemma workload_ok_mono: "workload_ok m a \<Longrightarrow> m \<le> n \<Longrightarrow> workload_ok n a"
  by (auto simp: workload_ok_def)

text \<open>A session touches the two halves of the aggregate independently, so one observation is one count.\<close>

lemma workload_session_ok:
  assumes "workload_ok n a" and "n + 1 < 2 ^ 64"
  shows "workload_ok (n + 1) (workload_session fo cpus r a)"
proof (cases "workload_eligible_state (sr_state r)")
  case True
  note c = workload_cpu_ok [OF assms, of fo cpus r] and m = workload_memory_ok [OF assms, of fo r]
  have "workload_ok (n + 1) (workload_memory fo r (workload_cpu fo cpus r a))"
  proof -
    have eqs: "wa_mem_hist (workload_memory fo r (workload_cpu fo cpus r a)) = wa_mem_hist (workload_memory fo r a)"
      "wa_mem_zero (workload_memory fo r (workload_cpu fo cpus r a)) = wa_mem_zero (workload_memory fo r a)"
      "wa_mem_count (workload_memory fo r (workload_cpu fo cpus r a)) = wa_mem_count (workload_memory fo r a)"
      by (simp_all add: workload_memory_def Let_def workload_cpu_keeps split: option.split)
    show ?thesis
      using c m unfolding workload_ok_def workload_memory_keeps eqs by (simp add: workload_memory_keeps)
  qed
  with True show ?thesis by (simp add: workload_session_def)
next
  case False
  with assms show ?thesis by (simp add: workload_session_def workload_ok_mono [of n])
qed

lemma workload_fold_ok:
  "workload_ok n a \<Longrightarrow> n + length rs < 2 ^ 64 \<Longrightarrow>
   workload_ok (n + length rs) (fold (workload_session fo cpus) rs a)"
proof (induction rs arbitrary: n a)
  case (Cons r rs)
  have "workload_ok (n + 1) (workload_session fo cpus r a)"
    using Cons.prems by (intro workload_session_ok) simp_all
  from Cons.IH [OF this] Cons.prems(2) show ?case by simp
qed simp

lemma calculate_workload_ok:
  assumes "length (ss_sessions s) < 2 ^ 64"
  shows "workload_ok (length (ss_sessions s)) (calculate_session_workload fo s)"
proof -
  have z: "bin_total (replicate n 0) = 0" for n by (simp add: bin_total_def sum_list_replicate)
  have 0: "workload_ok 0 (zero_aggregate\<lparr>wa_base := b, wa_empty := e, wa_error := x\<rparr>)" for b e x
    by (simp add: workload_ok_def zero_aggregate_def z map_total_def bin_total_def cpu_bins_def)
  show ?thesis
  proof (cases "ss_collection_error s")
    case None
    from 0 have "workload_ok 0 (zero_aggregate\<lparr>wa_base := 1, wa_empty := e\<rparr>)" for e
      by (simp add: workload_ok_def zero_aggregate_def)
    from workload_fold_ok [OF this, of "ss_sessions s"] assms None show ?thesis
      by (simp add: calculate_session_workload_def)
  next
    case (Some code)
    from 0 have "workload_ok 0 (zero_aggregate\<lparr>wa_error := 1\<rparr>)"
      by (simp add: workload_ok_def zero_aggregate_def)
    with Some show ?thesis
      using workload_ok_mono [OF \<open>workload_ok 0 (zero_aggregate\<lparr>wa_error := 1\<rparr>)\<close> le0] by (simp add: calculate_session_workload_def)
  qed
qed

subsection \<open>The rank scan\<close>

lemma rank_scan_Some:
  "unat seen + bin_total (map snd bs) < 2 ^ 64 \<Longrightarrow> seen < rank \<Longrightarrow> rank_scan seen rank bs = Some k \<Longrightarrow>
   \<exists>xs c ys. bs = xs @ (k, c) # ys \<and> unat seen + bin_total (map snd xs) < unat rank
     \<and> unat rank \<le> unat seen + bin_total (map snd xs) + unat c"
proof (induction bs arbitrary: seen)
  case (Cons x bs)
  obtain j c where x: "x = (j, c)" by force
  have add: "unat (seen + c) = unat seen + unat c"
    using Cons.prems(1) by (intro unat_add_u64) (simp add: x bin_total_def)
  show ?case
  proof (cases "seen + c \<ge> rank")
    case True
    with Cons.prems(3) have "k = j" by (simp add: x)
    with True Cons.prems(2) add show ?thesis
      by (intro exI [of _ "[]"]) (simp add: x word_le_nat_alt word_less_nat_alt bin_total_def)
  next
    case False
    then have "rank_scan (seen + c) rank bs = Some k" "seen + c < rank" using Cons.prems(3) by (simp_all add: x)
    moreover have "unat (seen + c) + bin_total (map snd bs) < 2 ^ 64"
      using Cons.prems(1) add by (simp add: x bin_total_def)
    ultimately obtain xs d ys where IH: "bs = xs @ (k, d) # ys"
      "unat (seen + c) + bin_total (map snd xs) < unat rank"
      "unat rank \<le> unat (seen + c) + bin_total (map snd xs) + unat d"
      using Cons.IH by blast
    then show ?thesis
      using add by (intro exI [of _ "x # xs"] exI [of _ d] exI [of _ ys]) (simp add: x bin_total_def)
  qed
qed simp

lemma rank_scan_total:
  "unat seen + bin_total (map snd bs) < 2 ^ 64 \<Longrightarrow> seen < rank \<Longrightarrow>
   unat rank \<le> unat seen + bin_total (map snd bs) \<Longrightarrow> rank_scan seen rank bs \<noteq> None"
proof (induction bs arbitrary: seen)
  case (Cons x bs)
  obtain j c where x: "x = (j, c)" by force
  have add: "unat (seen + c) = unat seen + unat c"
    using Cons.prems(1) by (intro unat_add_u64) (simp add: x bin_total_def)
  then show ?case
    using Cons.IH [of "seen + c"] Cons.prems by (simp add: x bin_total_def)
qed (simp add: bin_total_def word_less_nat_alt)

lemma mem_total_sorted: "bin_total (map snd (sorted_bins m)) = map_total m"
proof -
  have "mset (map (unat \<circ> snd) (sorted_bins m)) = mset (map (unat \<circ> snd) m)"
    by (simp add: sorted_bins_def)
  then have "sum_list (map (unat \<circ> snd) (sorted_bins m)) = sum_list (map (unat \<circ> snd) m)"
    by (metis sum_mset_sum_list)
  then show ?thesis by (simp add: map_total_def bin_total_def comp_def)
qed

subsection \<open>Properties\<close>

text \<open>
  The aggregate of a snapshot counts exactly its observations. The CPU histogram sums to the
  number of CPU observations, the zero count and the memory bins to the number of memory
  observations, sessions at 20 percent are among those at 5 percent, and none of the 64-bit
  counters wraps, whatever the floating-point operations do.
\<close>

theorem workload_counts:
  assumes "length (ss_sessions s) \<le> 500"
  shows "let a = calculate_session_workload fo s in
     length (wa_cpu_hist a) = 201
     \<and> sum_list (map unat (wa_cpu_hist a)) = unat (wa_cpu_count a)
     \<and> unat (wa_mem_zero a) + sum_list (map (unat \<circ> snd) (wa_mem_hist a)) = unat (wa_mem_count a)
     \<and> wa_ge20 a \<le> wa_ge5 a \<and> wa_ge5 a \<le> wa_cpu_count a
     \<and> unat (wa_cpu_count a) \<le> length (ss_sessions s)
     \<and> unat (wa_mem_count a) \<le> length (ss_sessions s)"
  using calculate_workload_ok [of s fo] assms
  by (simp add: workload_ok_def Let_def bin_total_def map_total_def cpu_bins_def comp_def)

theorem workload_counts_witness:
  "unat (wa_cpu_count (calculate_session_workload
     example_float_ops example_snapshot)) \<le> 1"
  using workload_counts [of example_snapshot] by (simp add: example_snapshot_def Let_def)

text \<open>
  The reported CPU percentile is the order statistic. For a rank between 1 and the count, the
  scan of a histogram that sums to the count always answers, and the bin it answers is the first
  whose running total reaches the rank.
\<close>

theorem cpu_percentile_order_statistic:
  assumes "sum_list (map unat (wa_cpu_hist a)) = unat (wa_cpu_count a)"
    and "0 < percentile_rank fo (wa_cpu_count a) q"
    and "percentile_rank fo (wa_cpu_count a) q \<le> wa_cpu_count a"
  shows "\<exists>i < length (wa_cpu_hist a). cpu_percentile fo a q = Some i
     \<and> sum_list (map unat (take i (wa_cpu_hist a))) < unat (percentile_rank fo (wa_cpu_count a) q)
     \<and> unat (percentile_rank fo (wa_cpu_count a) q) \<le> sum_list (map unat (take (Suc i) (wa_cpu_hist a)))"
proof -
  define h where "h = wa_cpu_hist a"
  define rank where "rank = percentile_rank fo (wa_cpu_count a) q"
  define bs where "bs = zip [0 ..< length h] h"
  have snd: "map snd bs = h" and fst: "map fst bs = [0 ..< length h]" by (simp_all add: bs_def)
  have cnt: "wa_cpu_count a \<noteq> 0" using assms(2,3) by (auto simp: word_gt_0)
  have tot: "unat (0 :: u64) + bin_total (map snd bs) < 2 ^ 64"
    using assms(1) unat_u64 [of "wa_cpu_count a"] by (simp add: bin_total_def snd h_def)
  have le: "unat rank \<le> unat (0 :: u64) + bin_total (map snd bs)"
    using assms(1,3) by (simp add: bin_total_def snd h_def rank_def word_le_nat_alt)
  have pos: "0 < rank" using assms(2) by (simp add: rank_def)
  from rank_scan_total [OF tot pos le] obtain i where i: "rank_scan 0 rank bs = Some i" by blast
  from rank_scan_Some [OF tot pos i] obtain xs c ys where split: "bs = xs @ (i, c) # ys"
    "bin_total (map snd xs) < unat rank" "unat rank \<le> bin_total (map snd xs) + unat c" by auto
  have "[0 ..< length h] = map fst xs @ i # map fst ys" using fst split(1) by simp
  then have len: "i = length xs" "length xs < length h"
    by (metis add.left_neutral length_append length_map length_upt less_add_same_cancel1 list.size(4)
        nth_append_length nth_upt add_gr_0 zero_less_Suc diff_zero)+
  have "h = map snd xs @ c # map snd ys" using snd split(1) by (metis list.simps(9) map_append snd_conv)
  then have "take i h = map snd xs" "take (Suc i) h = map snd xs @ [c]" using len(1) by simp_all
  then have "sum_list (map unat (take i h)) < unat rank"
    "unat rank \<le> sum_list (map unat (take (Suc i) h))"
    using split(2,3) by (simp_all add: bin_total_def)
  moreover have "cpu_percentile fo a q = Some i"
    using i cnt by (simp add: cpu_percentile_def h_def rank_def bs_def)
  ultimately show ?thesis using len by (auto simp: h_def rank_def)
qed

theorem cpu_percentile_order_statistic_witness:
  "\<exists>i < 3. cpu_percentile
      example_float_ops
      (zero_aggregate\<lparr>wa_cpu_hist := [1, 0, 2], wa_cpu_count := 3\<rparr>) (fint 1) = Some i"
  using cpu_percentile_order_statistic
    [of "zero_aggregate\<lparr>wa_cpu_hist := [1, 0, 2], wa_cpu_count := 3\<rparr>"
      "example_float_ops" "fint 1"]
  by (auto simp: percentile_rank_def f_leq_def f_eq_def)

text \<open>
  C36: stored histograms read back. A CPU histogram of 201 bins and a count series of at most 60
  entries decode to what was encoded; a memory histogram with at most 10000 non-zero bins decodes
  to the same zero count and the same map, whatever the order of its bins.
\<close>

theorem workload_codecs_roundtrip:
  assumes "length h = 201" and "length vs \<le> 60"
    and "distinct (map fst m)" and "length m \<le> 10000"
    and "\<forall>(b, c) \<in> set m. 0 \<le> b \<and> b < 2 ^ 31 \<and> c \<noteq> 0"
  shows "decode_cpu_histogram (encode_cpu_histogram h) = Some h
    \<and> decode_count_series (encode_count_series vs) = Some vs
    \<and> (\<exists>m'. decode_memory_histogram (encode_memory_histogram zero m) = Some (zero, m')
            \<and> map_of m' = map_of m)"
proof -
  let ?m' = "fold (\<lambda>(b, c). AList.update b c) (sorted_bins m) []"
  have len: "unat (of_nat (length m) :: u64) = length m"
    using assms(4) by (intro unat_of_nat_u64) simp
  then have cap: "\<not> (of_nat (length m) :: u64) > 10000" using assms(4) by (simp add: word_less_nat_alt)
  have sl: "length (sorted_bins m) = length m" by (simp add: sorted_bins_def)
  have "\<forall>(b, c) \<in> set (sorted_bins m). 0 \<le> b \<and> b < 2 ^ 31 \<and> c \<noteq> 0"
    using assms(5) by (simp add: sorted_bins_def)
  from decode_encode_bins [OF sorted_bins_strict [OF assms(3)] this, of None "[]" "[]"]
  have "decode_bins (length m) None [] (encode_bins None (sorted_bins m)) = Some (?m', [])"
    by (simp add: sl)
  then have "decode_memory_histogram (encode_memory_histogram zero m) = Some (zero, ?m')"
    using cap len by (simp add: decode_memory_histogram_def encode_memory_histogram_def)
  moreover have "distinct (map fst (sorted_bins m))"
    using sorted_bins_strict [OF assms(3)] by (simp add: strict_sorted_iff)
  then have "map_of ?m' = map_of m"
    using fold_update_map_of [of "sorted_bins m" "[]"] map_of_sorted_bins [OF assms(3)] by simp
  ultimately show ?thesis
    using cpu_histogram.dec_enc [of h] count_series.dec_enc [of vs] assms(1,2)
    by (simp add: cpu_bins_def)
qed

theorem workload_codecs_roundtrip_witness:
  "decode_count_series (encode_count_series [300, 0, 7]) = Some [300, 0, 7]
   \<and> (\<exists>m'. decode_memory_histogram (encode_memory_histogram 2 [(900, 1), (420, 5)]) = Some (2, m')
           \<and> map_of m' = map_of [(900, 1), (420, 5)])"
  using workload_codecs_roundtrip [of "replicate 201 0" "[300, 0, 7]" "[(900, 1), (420, 5)]" 2]
  by simp

end
