(* ===== verification/SnapshotStore.thy ===== *)
theory SnapshotStore
  imports SessionProjection Workload
begin

unbundle bit_operations_syntax

text \<open>
  The durable side of session snapshots: generation reservation
  (\<open>internal/telemetry/session_generation.go\<close>), the snapshot store (\<open>session_store.go\<close>) and the
  workload upsert it performs (\<open>session_workload.go\<close>), over the tables of \<open>migrate_sessions.go\<close>.
  A table is a map from its primary key; a transaction is a function to an error or the next
  database, so an error leaves the database as it was; the tables' CHECK constraints are part of
  the model, a violated one is an error. Sequence numbers and JSON columns are kept decoded.
  Random bytes and the clock are arguments.
\<close>

subsection \<open>The next generation\<close>

text \<open>The carry loop over the listed byte positions: done (\<open>Inl\<close>) or carried out (\<open>Inr\<close>).\<close>

fun bump_bytes :: "nat list \<Rightarrow> uuidv7 \<Rightarrow> uuidv7 + uuidv7" where
  "bump_bytes [] v = Inr v"
| "bump_bytes (i # is) v =
     (if v ! i \<noteq> 0xff then Inl (v[i := v ! i + 1]) else bump_bytes is (v[i := 0]))"

definition next_session_uuidv7 :: "uuidv7 \<Rightarrow> uuidv7 option" where
  "next_session_uuidv7 value =
     (case bump_bytes [15, 14, 13, 12, 11, 10, 9] value of
        Inl r \<Rightarrow> Some r
      | Inr v1 \<Rightarrow>
          if v1 ! 8 AND 0x3f \<noteq> 0x3f then Some (v1[8 := v1 ! 8 + 1])
          else let v2 = v1[8 := 0x80] in
          if v2 ! 7 \<noteq> 0xff then Some (v2[7 := v2 ! 7 + 1])
          else let v3 = v2[7 := 0] in
          if v3 ! 6 AND 0x0f \<noteq> 0x0f then Some (v3[6 := v3 ! 6 + 1])
          else let v4 = v3[6 := 0x70] in
          (case bump_bytes [5, 4, 3, 2, 1, 0] v4 of Inl r \<Rightarrow> Some r | Inr _ \<Rightarrow> None))"

definition new_session_uuidv7 :: "uuidv7 \<Rightarrow> int \<Rightarrow> uuidv7 option" where
  "new_session_uuidv7 random milliseconds =
     (if milliseconds < 0 \<or> milliseconds \<ge> 2 ^ 48 then None
      else Some (map (\<lambda>k. of_int (milliseconds div 2 ^ k)) [40, 32, 24, 16, 8, 0]
             @ [(random ! 6 AND 0x0f) OR 0x70, random ! 7, (random ! 8 AND 0x3f) OR 0x80]
             @ map (\<lambda>i. random ! i) [9, 10, 11, 12, 13, 14, 15]))"

text \<open>Counting with a range of its own at every position, most significant first.\<close>

fun odometer :: "(u8 \<times> u8) list \<Rightarrow> u8 list \<Rightarrow> u8 list option" where
  "odometer ((lo, hi) # bs) (d # ds) =
     (case odometer bs ds of
        Some ds' \<Rightarrow> Some (d # ds')
      | None \<Rightarrow> if d \<noteq> hi then Some ((d + 1) # map fst bs) else None)"
| "odometer _ _ = None"

fun in_ranges :: "(u8 \<times> u8) list \<Rightarrow> u8 list \<Rightarrow> bool" where
  "in_ranges [] [] = True"
| "in_ranges ((lo, hi) # bs) (d # ds) = (lo \<le> d \<and> d \<le> hi \<and> in_ranges bs ds)"
| "in_ranges _ _ = False"

lemma in_ranges_lows: "\<forall>(lo, hi) \<in> set bs. lo \<le> hi \<Longrightarrow> in_ranges bs (map fst bs)"
  by (induction bs) auto

lemma in_ranges_least: "in_ranges bs u \<Longrightarrow> map fst bs \<le> u"
proof (induction bs u rule: in_ranges.induct)
  case (2 lo hi bs d ds)
  then show ?case by (cases "lo = d") auto
qed auto

lemma u8_succ:
  assumes "d \<noteq> hi" and "d \<le> (hi :: u8)"
  shows "d < d + 1" and "d + 1 \<le> hi" and "d < e \<Longrightarrow> d + 1 \<le> e"
proof -
  have "unat d < unat hi" using assms by (simp add: word_le_nat_alt word_unat_eq_iff order_less_le)
  then have "unat d + 1 < 256" using unat_u8 [of hi] by linarith
  then have "unat (d + 1) = unat d + 1" by (simp add: unat_word_ariths)
  with \<open>unat d < unat hi\<close> show "d < d + 1" "d + 1 \<le> hi" "d < e \<Longrightarrow> d + 1 \<le> e"
    by (simp_all add: word_le_nat_alt word_less_nat_alt)
qed

lemma odometer_None: "in_ranges bs ds \<Longrightarrow> odometer bs ds = None \<Longrightarrow> in_ranges bs u \<Longrightarrow> u \<le> ds"
proof (induction bs ds arbitrary: u rule: in_ranges.induct)
  case (2 lo hi bs d ds)
  then obtain e es where u: "u = e # es" by (cases u) auto
  from 2 have "odometer bs ds = None" "d = hi" by (auto split: option.splits if_splits)
  with 2 u show ?case by (cases "e = hi") auto
qed (auto elim: in_ranges.elims)

lemma odometer_Some:
  assumes "\<forall>(lo, hi) \<in> set bs. lo \<le> hi"
  shows "in_ranges bs ds \<Longrightarrow> odometer bs ds = Some es \<Longrightarrow>
     in_ranges bs es \<and> ds < es \<and> (\<forall>u. in_ranges bs u \<longrightarrow> ds < u \<longrightarrow> es \<le> u)"
  using assms
proof (induction bs ds arbitrary: es rule: in_ranges.induct)
  case (2 lo hi bs d ds)
  show ?case
  proof (cases "odometer bs ds")
    case (Some fs)
    with 2 have es: "es = d # fs" by simp
    have IH: "in_ranges bs fs \<and> ds < fs \<and> (\<forall>u. in_ranges bs u \<longrightarrow> ds < u \<longrightarrow> fs \<le> u)"
      using 2 Some by auto
    have "es \<le> u" if "in_ranges ((lo, hi) # bs) u" "d # ds < u" for u
      using that IH es by (cases u) auto
    with IH es 2 show ?thesis by auto
  next
    case None
    with 2 have es: "es = (d + 1) # map fst bs" and d: "d \<noteq> hi" "d \<le> hi"
      by (auto split: if_splits)
    have lows: "in_ranges bs (map fst bs)" using 2 by (intro in_ranges_lows) auto
    have "es \<le> u" if u: "in_ranges ((lo, hi) # bs) u" "d # ds < u" for u
    proof -
      obtain e us where e: "u = e # us" using u by (cases u) auto
      have "\<not> (e = d \<and> ds < us)"
        using odometer_None [OF _ None, of us] u e 2 by auto
      then have "d < e" using u e by auto
      then have "d + 1 \<le> e" by (rule u8_succ(3) [OF d])
      then show ?thesis using in_ranges_least [of bs us] u e es by (cases "d + 1 = e") auto
    qed
    with es lows u8_succ(1,2) [OF d] 2 show ?thesis by (auto intro: order_trans [of lo d])
  qed
qed auto

definition v7_ranges :: "(u8 \<times> u8) list" where
  "v7_ranges =
     [(0, 0xff), (0, 0xff), (0, 0xff), (0, 0xff), (0, 0xff), (0, 0xff), (0x70, 0x7f), (0, 0xff),
      (0x80, 0xbf), (0, 0xff), (0, 0xff), (0, 0xff), (0, 0xff), (0, 0xff), (0, 0xff), (0, 0xff)]"

lemma u8_version: "drop_bit 4 (b :: u8) = 7 \<longleftrightarrow> 0x70 \<le> b \<and> b \<le> 0x7f"
proof -
  have "drop_bit 4 b = 7 \<longleftrightarrow> unat (drop_bit 4 b) = unat (7 :: u8)" by (simp only: word_unat_eq_iff)
  also have "\<dots> \<longleftrightarrow> unat b div 16 = 7" by (simp add: drop_bit_eq_div unat_div)
  also have "\<dots> \<longleftrightarrow> 112 \<le> unat b \<and> unat b \<le> 127" by linarith
  finally show ?thesis by (simp add: word_le_nat_alt)
qed

lemma unat_low_bits: "unat (b AND 0x3f :: u8) = unat b mod 64" "unat (b AND 0x0f :: u8) = unat b mod 16"
proof -
  have "b AND 0x3f = take_bit 6 b" "b AND 0x0f = take_bit 4 b"
    by (simp_all add: take_bit_eq_mask mask_eq_exp_minus_1)
  then show "unat (b AND 0x3f :: u8) = unat b mod 64" "unat (b AND 0x0f :: u8) = unat b mod 16"
    by (simp_all add: take_bit_eq_mod unat_mod)
qed

lemma u8_variant: "(b :: u8) AND 0xc0 = 0x80 \<longleftrightarrow> 0x80 \<le> b \<and> b \<le> 0xbf"
proof -
  let ?c = "char_of (unat b) :: char"
  have o: "ord ?c = unat b" by (rule ord_char_of [OF unat_u8])
  have "of_char ?c = (of_nat (ord ?c) :: u8)" by (simp only: of_nat_of_char)
  also have "\<dots> = b" unfolding o by simp
  finally have "of_char ?c = b" .
  with is_continuation_iff [of ?c] o show ?thesis
    by (simp add: is_continuation_def word_le_nat_alt del: of_char_of)
qed

lemma mod_window: "c * w \<le> n \<Longrightarrow> n < c * w + w \<Longrightarrow> n mod w = n - c * (w :: nat)"
proof -
  assume "c * w \<le> n" "n < c * w + w"
  then obtain k where "n = c * w + k" "k < w" using le_Suc_ex by auto
  then show ?thesis by simp
qed

lemma u8_low_full:
  "0x80 \<le> b \<Longrightarrow> b \<le> 0xbf \<Longrightarrow> (b :: u8) AND 0x3f = 0x3f \<longleftrightarrow> b = 0xbf"
  "0x70 \<le> b \<Longrightarrow> b \<le> 0x7f \<Longrightarrow> (b :: u8) AND 0x0f = 0x0f \<longleftrightarrow> b = 0x7f"
proof -
  assume "0x80 \<le> b" "b \<le> 0xbf"
  then have "128 \<le> unat b" "unat b \<le> 191" by (simp_all add: word_le_nat_alt)
  with mod_window [of 2 64 "unat b"] have "unat b mod 64 = 63 \<longleftrightarrow> unat b = 191" by auto
  then show "b AND 0x3f = 0x3f \<longleftrightarrow> b = 0xbf" by (simp add: word_unat_eq_iff unat_low_bits)
next
  assume "0x70 \<le> b" "b \<le> 0x7f"
  then have "112 \<le> unat b" "unat b \<le> 127" by (simp_all add: word_le_nat_alt)
  with mod_window [of 7 16 "unat b"] have "unat b mod 16 = 15 \<longleftrightarrow> unat b = 127" by auto
  then show "b AND 0x0f = 0x0f \<longleftrightarrow> b = 0x7f" by (simp add: word_unat_eq_iff unat_low_bits)
qed

lemma u8_le_max: "(a :: u8) \<le> 255"
  using unat_u8 [of a] by (simp add: word_le_nat_alt)

lemma length_16:
  assumes "length v = 16"
  obtains a b c d e f g h i j k l m n p q where "v = [a, b, c, d, e, f, g, h, i, j, k, l, m, n, p, q]"
  using assms by (auto simp: length_Suc_conv eval_nat_numeral)

lemma in_ranges_length: "in_ranges bs ds \<Longrightarrow> length ds = length bs"
  by (induction bs ds rule: in_ranges.induct) auto

lemma uuid_v7_ranges: "uuid_v7 v \<longleftrightarrow> in_ranges v7_ranges v"
proof (cases "length v = 16")
  case True
  then obtain a b c d e f g h i j k l m n p q
    where "v = [a, b, c, d, e, f, g, h, i, j, k, l, m, n, p, q]" by (rule length_16)
  then show ?thesis
    by (simp add: uuid_v7_def v7_ranges_def u8_version u8_variant u8_le_max)
next
  case False
  then show ?thesis using in_ranges_length [of v7_ranges v] by (auto simp: uuid_v7_def v7_ranges_def)
qed

lemma next_session_odometer:
  assumes "uuid_v7 v" shows "next_session_uuidv7 v = odometer v7_ranges v"
proof -
  have "length v = 16" using assms by (simp add: uuid_v7_def)
  then obtain a b c d e f g h i j k l m n p q
    where v: "v = [a, b, c, d, e, f, g, h, i, j, k, l, m, n, p, q]" by (rule length_16)
  have r: "0x70 \<le> g" "g \<le> 0x7f" "0x80 \<le> i" "i \<le> 0xbf"
    using assms by (simp_all add: v uuid_v7_def u8_version u8_variant)
  show ?thesis
    by (simp add: v next_session_uuidv7_def v7_ranges_def u8_low_full r Let_def)
qed

text \<open>
  The successor keeps version and variant, is larger, and no valid identifier lies between; it
  fails only at the largest identifier.
\<close>

lemma v7_ranges_ok: "\<forall>(lo, hi) \<in> set v7_ranges. lo \<le> hi"
  by (simp add: v7_ranges_def)

lemma next_session_least:
  assumes "uuid_v7 v" and "next_session_uuidv7 v = Some w"
  shows "uuid_v7 w" and "v < w" and "uuid_v7 u \<Longrightarrow> v < u \<Longrightarrow> w \<le> u"
proof -
  have "in_ranges v7_ranges v" "odometer v7_ranges v = Some w"
    using assms by (simp_all add: uuid_v7_ranges next_session_odometer)
  from odometer_Some [OF v7_ranges_ok this]
  show "uuid_v7 w" "v < w" "uuid_v7 u \<Longrightarrow> v < u \<Longrightarrow> w \<le> u" by (auto simp: uuid_v7_ranges)
qed

lemma next_session_exhausted:
  "uuid_v7 v \<Longrightarrow> next_session_uuidv7 v = None \<Longrightarrow> uuid_v7 u \<Longrightarrow> u \<le> v"
  using odometer_None [of v7_ranges v u] by (simp add: uuid_v7_ranges next_session_odometer)

lemma new_session_v7: "new_session_uuidv7 random ms = Some v \<Longrightarrow> uuid_v7 v"
proof -
  have "drop_bit 4 ((g AND 0x0f) OR 0x70) = (7 :: u8)" for g :: u8
    by simp
  moreover have "((i AND 0x3f) OR 0x80) AND 0xc0 = (0x80 :: u8)" for i :: u8
    by (simp add: bit.conj_disj_distrib2 and.assoc)
  moreover assume "new_session_uuidv7 random ms = Some v"
  ultimately show "uuid_v7 v"
    by (auto simp: new_session_uuidv7_def uuid_v7_def split: if_splits)
qed

subsection \<open>Tables\<close>

record snapshot_row =
  sn_attempt_instance :: string
  sn_attempt_sequence :: u64
  sn_attempt_observed :: int
  sn_attempt_received :: int
  sn_success_instance :: "string option"
  sn_success_sequence :: "u64 option"
  sn_success_observed :: "int option"
  sn_success_received :: "int option"
  sn_aggregates :: "session_aggregates option"
  sn_collector_version :: "string option"
  sn_cpu_count :: "u16 option"
  sn_capabilities :: "session_capabilities option"
  sn_error_code :: "string option"

record workload_row =
  ww_base :: u64
  ww_empty :: u64
  ww_error :: u64
  ww_cpu_sum :: float64
  ww_cpu_count :: u64
  ww_cpu_histogram :: string
  ww_ge5 :: u64
  ww_ge20 :: u64
  ww_observed_series :: string
  ww_ge5_series :: string
  ww_ge20_series :: string
  ww_mem_sum :: float64
  ww_mem_count :: u64
  ww_mem_zero :: u64
  ww_mem_histogram :: string

record session_db =
  sdb_snapshots :: "string \<Rightarrow> snapshot_row option"
  sdb_latest :: "string \<times> u32 \<Rightarrow> session_record option"
  sdb_fence :: "string \<Rightarrow> uuidv7 option"
  sdb_workload :: "string \<times> int \<Rightarrow> workload_row option"

text \<open>The CHECK constraints of \<open>session_snapshots\<close> and \<open>session_latest\<close>.\<close>

definition check_count :: "nat \<Rightarrow> bool" where "check_count n \<longleftrightarrow> n \<le> 500"

definition check_aggregates :: "session_aggregates \<Rightarrow> bool" where
  "check_aggregates a \<longleftrightarrow>
     check_count (ag_sessions a) \<and> check_count (ag_active a) \<and> check_count (ag_idle a)
     \<and> check_count (ag_disconnected a) \<and> check_count (ag_users a)
     \<and> (case ag_last_activity a of None \<Rightarrow> True | Some t \<Rightarrow> t \<ge> 0)"

definition check_snapshot_row :: "snapshot_row \<Rightarrow> bool" where
  "check_snapshot_row r \<longleftrightarrow>
     sn_attempt_observed r \<ge> 0 \<and> sn_attempt_received r \<ge> 0
     \<and> (case sn_aggregates r of None \<Rightarrow> True | Some a \<Rightarrow> check_aggregates a)
     \<and> (case sn_cpu_count r of None \<Rightarrow> True | Some n \<Rightarrow> 1 \<le> n \<and> n \<le> 1024)
     \<and> (case sn_error_code r of None \<Rightarrow> True | Some c \<Rightarrow> is_safe_collection_error c)
     \<and> (sn_success_instance r = None \<longleftrightarrow> sn_success_sequence r = None)
     \<and> (sn_success_instance r = None \<longleftrightarrow> sn_success_observed r = None)
     \<and> (sn_success_instance r = None \<longleftrightarrow> sn_success_received r = None)
     \<and> (sn_success_instance r = None \<longleftrightarrow> sn_aggregates r = None)
     \<and> (sn_success_instance r = None \<longleftrightarrow> sn_collector_version r = None)
     \<and> (sn_success_instance r = None \<longleftrightarrow> sn_cpu_count r = None)
     \<and> (sn_success_instance r = None \<longleftrightarrow> sn_capabilities r = None)"

definition check_nonneg :: "int option \<Rightarrow> bool" where
  "check_nonneg v = (case v of None \<Rightarrow> True | Some t \<Rightarrow> t \<ge> 0)"

definition check_latest_row :: "session_record \<Rightarrow> bool" where
  "check_latest_row r \<longleftrightarrow>
     session_state_valid (sr_state r) \<and> check_nonneg (sr_logon_at r) \<and> check_nonneg (sr_connect_at r)
     \<and> check_nonneg (sr_disconnect_at r) \<and> check_nonneg (sr_idle_since r)
     \<and> (case sr_working_set r of None \<Rightarrow> True | Some w \<Rightarrow> w \<le> max_stored_bytes)"

subsection \<open>Applying a snapshot\<close>

datatype store_error =
    StoreSchema | StoreHost | StoreGeneration | StoreBounds | StoreFatal | StoreRow
  | StoreWorkingSet | StoreProcess | StoreFence | StoreConstraint | StoreDuplicateRow
  | StoreTimeRange | StoreExhausted | StoreRetentionRange

fun validate_rows_for_store :: "session_record list \<Rightarrow> store_error option" where
  "validate_rows_for_store [] = None"
| "validate_rows_for_store (r # rs) =
     (if \<not> session_state_valid (sr_state r) \<or> length (sr_processes r) > max_processes then Some StoreRow
      else if (case sr_working_set r of None \<Rightarrow> False | Some w \<Rightarrow> w > max_stored_bytes)
      then Some StoreWorkingSet
      else if list_ex (\<lambda>p. sp_pid p = 0 \<or> sp_working_set p > max_stored_bytes) (sr_processes r)
      then Some StoreProcess
      else validate_rows_for_store rs)"

definition validate_snapshot_for_store :: "session_snapshot \<Rightarrow> store_error option" where
  "validate_snapshot_for_store s =
     (if ss_schema s \<noteq> snapshot_schema then Some StoreSchema
      else if \<not> valid_canonical_host (ss_host s) then Some StoreHost
      else if parse_uuidv7 (ss_agent_instance s) = None then Some StoreGeneration
      else if ss_observed_at s < 0 \<or> ss_observed_at s > max_unix_millis
              \<or> length (ss_sessions s) > max_sessions then Some StoreBounds
      else if ss_collection_error s \<noteq> None then
        (if length (ss_sessions s) \<noteq> 0 \<or> cap_session_actions (ss_capabilities s)
            \<or> cap_processes (ss_capabilities s) \<or> cap_input_delay (ss_capabilities s)
            \<or> cap_remotefx (ss_capabilities s)
         then Some StoreFatal else None)
      else validate_rows_for_store (ss_sessions s))"

record apply_result =
  ar_accepted :: bool
  ar_received :: int
  ar_fatal :: bool
  ar_aggregates :: "session_aggregates option"

definition workload_bucket :: "int \<Rightarrow> int" where
  "workload_bucket received = received div 60000 * 60000"

definition workload_row_of :: "workload_aggregate \<Rightarrow> u64 list \<Rightarrow> u64 list \<Rightarrow> u64 list \<Rightarrow> workload_row" where
  "workload_row_of a observed ge5 ge20 =
     \<lparr>ww_base = wa_base a, ww_empty = wa_empty a, ww_error = wa_error a, ww_cpu_sum = wa_cpu_sum a,
      ww_cpu_count = wa_cpu_count a, ww_cpu_histogram = encode_cpu_histogram (wa_cpu_hist a),
      ww_ge5 = wa_ge5 a, ww_ge20 = wa_ge20 a,
      ww_observed_series = encode_count_series observed,
      ww_ge5_series = encode_count_series ge5, ww_ge20_series = encode_count_series ge20,
      ww_mem_sum = wa_mem_sum a, ww_mem_count = wa_mem_count a, ww_mem_zero = wa_mem_zero a,
      ww_mem_histogram = encode_memory_histogram (wa_mem_zero a) (wa_mem_hist a)\<rparr>"

definition upsert_session_workload :: "float_ops \<Rightarrow> session_snapshot \<Rightarrow> int \<Rightarrow> session_db \<Rightarrow> session_db" where
  "upsert_session_workload fo s received db =
     (let a = calculate_session_workload fo s in
      db\<lparr>sdb_workload := (sdb_workload db)
           ((canonical_hostname (ss_host s), workload_bucket received) \<mapsto>
              workload_row_of a [wa_cpu_count a] [wa_ge5 a] [wa_ge20 a])\<rparr>)"

definition fatal_row :: "session_snapshot \<Rightarrow> int \<Rightarrow> snapshot_row option \<Rightarrow> snapshot_row" where
  "fatal_row s received old =
     (case old of
        None \<Rightarrow> \<lparr>sn_attempt_instance = ss_agent_instance s, sn_attempt_sequence = ss_sequence s,
          sn_attempt_observed = ss_observed_at s, sn_attempt_received = received,
          sn_success_instance = None, sn_success_sequence = None, sn_success_observed = None,
          sn_success_received = None, sn_aggregates = None, sn_collector_version = None,
          sn_cpu_count = None, sn_capabilities = None, sn_error_code = ss_collection_error s\<rparr>
      | Some r \<Rightarrow> r\<lparr>sn_attempt_instance := ss_agent_instance s, sn_attempt_sequence := ss_sequence s,
          sn_attempt_observed := ss_observed_at s, sn_attempt_received := received,
          sn_error_code := ss_collection_error s\<rparr>)"

definition put_snapshot_row :: "string \<Rightarrow> snapshot_row \<Rightarrow> session_db \<Rightarrow> store_error + session_db" where
  "put_snapshot_row host row db =
     (if check_snapshot_row row then Inr (db\<lparr>sdb_snapshots := (sdb_snapshots db)(host \<mapsto> row)\<rparr>)
      else Inl StoreConstraint)"

definition apply_fatal :: "session_snapshot \<Rightarrow> int \<Rightarrow> session_db \<Rightarrow> store_error + session_db" where
  "apply_fatal s received db =
     put_snapshot_row (ss_host s) (fatal_row s received (sdb_snapshots db (ss_host s))) db"

text \<open>The seven RemoteFX columns are read back as metrics, all absent when there were none.\<close>

definition latest_columns :: "session_record \<Rightarrow> session_record" where
  "latest_columns r = r\<lparr>sr_remotefx := Some (case sr_remotefx r of
      Some m \<Rightarrow> m
    | None \<Rightarrow> \<lparr>rfx_fps = None, rfx_quality = None, rfx_encode_ms = None, rfx_rtt_ms = None,
              rfx_loss = None, rfx_server_skipped = None, rfx_network_skipped = None\<rparr>)\<rparr>"

definition insert_session_row :: "string \<Rightarrow> session_record \<Rightarrow> session_db \<Rightarrow> store_error + session_db" where
  "insert_session_row host r db =
     (if \<not> check_latest_row r then Inl StoreConstraint
      else if sdb_latest db (host, sr_session_id r) \<noteq> None then Inl StoreDuplicateRow
      else Inr (db\<lparr>sdb_latest := (sdb_latest db)((host, sr_session_id r) \<mapsto> latest_columns r)\<rparr>))"

fun insert_session_rows :: "string \<Rightarrow> session_record list \<Rightarrow> session_db \<Rightarrow> store_error + session_db" where
  "insert_session_rows host [] db = Inr db"
| "insert_session_rows host (r # rs) db =
     (case insert_session_row host r db of Inl e \<Rightarrow> Inl e | Inr db' \<Rightarrow> insert_session_rows host rs db')"

definition success_row :: "session_snapshot \<Rightarrow> int \<Rightarrow> session_aggregates \<Rightarrow> snapshot_row" where
  "success_row s received agg =
     \<lparr>sn_attempt_instance = ss_agent_instance s, sn_attempt_sequence = ss_sequence s,
      sn_attempt_observed = ss_observed_at s, sn_attempt_received = received,
      sn_success_instance = Some (ss_agent_instance s), sn_success_sequence = Some (ss_sequence s),
      sn_success_observed = Some (ss_observed_at s), sn_success_received = Some received,
      sn_aggregates = Some agg, sn_collector_version = Some (ss_collector_version s),
      sn_cpu_count = Some (ss_cpu_count s), sn_capabilities = Some (ss_capabilities s),
      sn_error_code = None\<rparr>"

text \<open>\<open>DELETE FROM session_latest WHERE canonical_host=?\<close>.\<close>

definition without_host ::
  "string \<Rightarrow> (string \<times> u32 \<Rightarrow> session_record option) \<Rightarrow> string \<times> u32 \<Rightarrow> session_record option" where
  "without_host host f = (\<lambda>k. if fst k = host then None else f k)"

definition apply_success ::
  "session_snapshot \<Rightarrow> int \<Rightarrow> session_aggregates \<Rightarrow> session_db \<Rightarrow> store_error + session_db" where
  "apply_success s received agg db =
     (case put_snapshot_row (ss_host s) (success_row s received agg) db of
        Inl e \<Rightarrow> Inl e
      | Inr db1 \<Rightarrow>
          insert_session_rows (ss_host s) (ss_sessions s)
            (db1\<lparr>sdb_latest := without_host (ss_host s) (sdb_latest db1)\<rparr>))"

text \<open>What \<open>Apply\<close> does once the attempt is known to be new.\<close>

definition record_attempt ::
  "float_ops \<Rightarrow> privacy_policy \<Rightarrow> int \<Rightarrow> session_snapshot \<Rightarrow> session_db
   \<Rightarrow> store_error + (session_db \<times> apply_result)" where
  "record_attempt fo privacy now s db =
     (if ss_collection_error s \<noteq> None then
        (case apply_fatal s now db of Inl e \<Rightarrow> Inl e | Inr db2 \<Rightarrow>
          Inr (upsert_session_workload fo s now db2,
               \<lparr>ar_accepted = True, ar_received = now, ar_fatal = True, ar_aggregates = None\<rparr>))
      else
        let agg = calculate_aggregates_for_identity (ss_sessions s) (pp_identity privacy);
            projected = project_snapshot s privacy
        in case apply_success projected now agg db of Inl e \<Rightarrow> Inl e | Inr db2 \<Rightarrow>
          Inr (upsert_session_workload fo s now db2,
               \<lparr>ar_accepted = True, ar_received = now, ar_fatal = False, ar_aggregates = Some agg\<rparr>))"

definition apply_snapshot ::
  "float_ops \<Rightarrow> privacy_policy \<Rightarrow> int \<Rightarrow> session_snapshot \<Rightarrow> session_db
   \<Rightarrow> store_error + (session_db \<times> apply_result)" where
  "apply_snapshot fo privacy now snapshot db =
     (case validate_snapshot_for_store snapshot of Some e \<Rightarrow> Inl e | None \<Rightarrow>
      case parse_uuidv7 (ss_agent_instance snapshot) of None \<Rightarrow> Inl StoreGeneration | Some instance \<Rightarrow>
      let s = snapshot\<lparr>ss_agent_instance := uuid_string instance\<rparr>;
          stale = Inr (db, \<lparr>ar_accepted = False, ar_received = now, ar_fatal = False,
                            ar_aggregates = None\<rparr>);
          fence = sdb_fence db (ss_host s)
      in
      if (case fence of None \<Rightarrow> False | Some m \<Rightarrow> parse_uuidv7 (uuid_string m) = None)
      then Inl StoreFence
      else if (case fence of None \<Rightarrow> False | Some m \<Rightarrow> compare_uuidv7 instance m = -1) then stale
      else
        let advance = (case fence of None \<Rightarrow> True | Some m \<Rightarrow> compare_uuidv7 instance m = 1) in
        if \<not> advance
           \<and> (case sdb_snapshots db (ss_host s) of
                None \<Rightarrow> False
              | Some row \<Rightarrow> sn_attempt_instance row = ss_agent_instance s
                            \<and> sn_attempt_sequence row \<ge> ss_sequence s)
        then stale
        else
          let db1 = (if advance then db\<lparr>sdb_fence := (sdb_fence db)(ss_host s \<mapsto> instance)\<rparr> else db)
          in record_attempt fo privacy now s db1)"

subsection \<open>Reservation and purging\<close>

definition reserve_session_instance ::
  "uuidv7 \<Rightarrow> int \<Rightarrow> string \<Rightarrow> session_db \<Rightarrow> store_error + (session_db \<times> string)" where
  "reserve_session_instance random now host db =
     (if \<not> valid_canonical_host host then Inl StoreHost
      else
        let maximum = sdb_fence db host in
        if (case maximum of None \<Rightarrow> False | Some m \<Rightarrow> parse_uuidv7 (uuid_string m) = None)
        then Inl StoreFence
        else
          case new_session_uuidv7 random now of None \<Rightarrow> Inl StoreTimeRange | Some fresh \<Rightarrow>
          (case (case maximum of
                   None \<Rightarrow> Some fresh
                 | Some m \<Rightarrow> if compare_uuidv7 fresh m \<le> 0 then next_session_uuidv7 m else Some fresh)
           of None \<Rightarrow> Inl StoreExhausted
            | Some candidate \<Rightarrow>
                Inr (db\<lparr>sdb_fence := (sdb_fence db)(host \<mapsto> candidate)\<rparr>, uuid_string candidate)))"

text \<open>\<open>DELETE FROM session_snapshots WHERE \<dots>\<close> with its cascade to \<open>session_latest\<close>.\<close>

definition delete_snapshots :: "(snapshot_row \<Rightarrow> bool) \<Rightarrow> session_db \<Rightarrow> session_db" where
  "delete_snapshots doomed db =
     (let gone = (\<lambda>h. case sdb_snapshots db h of None \<Rightarrow> False | Some r \<Rightarrow> doomed r)
      in db\<lparr>sdb_snapshots := (\<lambda>h. if gone h then None else sdb_snapshots db h),
            sdb_latest := (\<lambda>(h, i). if gone h then None else sdb_latest db (h, i))\<rparr>)"

definition purge_snapshots :: "int \<Rightarrow> int \<Rightarrow> session_db \<Rightarrow> store_error + session_db" where
  "purge_snapshots retention_hours now db =
     (if retention_hours < 1 \<or> retention_hours > 168 then Inl StoreRetentionRange
      else let cutoff = now - retention_hours * 3600000 in
        Inr (delete_snapshots
          (\<lambda>r. (case sn_success_received r of Some t \<Rightarrow> t | None \<Rightarrow> sn_attempt_received r) < cutoff) db))"

definition purge_for_privacy :: "session_db \<Rightarrow> session_db" where
  "purge_for_privacy db = delete_snapshots (\<lambda>_. True) db"

subsection \<open>Lemmas on the operations\<close>

lemma fence_readable: "uuid_v7 m \<Longrightarrow> parse_uuidv7 (uuid_string m) = Some m"
  by (rule uuid_text.dec_enc)

lemma parse_uuidv7_v7: "parse_uuidv7 t = Some v \<Longrightarrow> uuid_v7 v"
  by (rule uuid_text.dec_ok)

lemma put_snapshot_row_Inr:
  "put_snapshot_row h row db = Inr db' \<Longrightarrow>
   db' = db\<lparr>sdb_snapshots := (sdb_snapshots db)(h \<mapsto> row)\<rparr> \<and> check_snapshot_row row"
  by (simp add: put_snapshot_row_def split: if_splits)

definition latest_overlay ::
  "string \<Rightarrow> session_record list \<Rightarrow> (string \<times> u32 \<Rightarrow> session_record option)
   \<Rightarrow> string \<times> u32 \<Rightarrow> session_record option" where
  "latest_overlay host rs f =
     (\<lambda>(h, i). if h = host \<and> i \<in> sr_session_id ` set rs
               then map_of (map (\<lambda>r. (sr_session_id r, latest_columns r)) rs) i else f (h, i))"

lemma insert_session_rows_Inr:
  "insert_session_rows host rs db = Inr db' \<Longrightarrow>
   db' = db\<lparr>sdb_latest := latest_overlay host rs (sdb_latest db)\<rparr>
   \<and> distinct (map sr_session_id rs) \<and> (\<forall>r \<in> set rs. check_latest_row r)
   \<and> (\<forall>r \<in> set rs. sdb_latest db (host, sr_session_id r) = None)"
proof (induction rs arbitrary: db)
  case Nil
  then show ?case by (simp add: latest_overlay_def)
next
  case (Cons r rs)
  define db1 where "db1 = db\<lparr>sdb_latest := (sdb_latest db)((host, sr_session_id r) \<mapsto> latest_columns r)\<rparr>"
  have r: "check_latest_row r" "sdb_latest db (host, sr_session_id r) = None"
    and rest: "insert_session_rows host rs db1 = Inr db'"
    using Cons.prems by (auto simp: insert_session_row_def db1_def split: if_splits)
  from Cons.IH [OF rest] have IH:
    "db' = db1\<lparr>sdb_latest := latest_overlay host rs (sdb_latest db1)\<rparr>"
    "distinct (map sr_session_id rs)" "\<forall>q \<in> set rs. check_latest_row q"
    "\<forall>q \<in> set rs. sdb_latest db1 (host, sr_session_id q) = None" by auto
  have new: "sr_session_id r \<notin> sr_session_id ` set rs"
    using IH(4) by (auto simp: db1_def)
  have "latest_overlay host rs (sdb_latest db1) = latest_overlay host (r # rs) (sdb_latest db)"
    using new by (auto simp: latest_overlay_def db1_def fun_eq_iff)
  moreover have "\<forall>q \<in> set rs. sdb_latest db (host, sr_session_id q) = None"
    using IH(4) new by (auto simp: db1_def split: if_splits)
  ultimately show ?case
    using IH r new by (simp add: db1_def)
qed

lemma insert_session_rows_ok:
  "distinct (map sr_session_id rs) \<Longrightarrow> \<forall>r \<in> set rs. check_latest_row r \<Longrightarrow>
   \<forall>r \<in> set rs. sdb_latest db (host, sr_session_id r) = None \<Longrightarrow>
   \<exists>db'. insert_session_rows host rs db = Inr db'"
proof (induction rs arbitrary: db)
  case (Cons r rs)
  let ?db1 = "db\<lparr>sdb_latest := (sdb_latest db)((host, sr_session_id r) \<mapsto> latest_columns r)\<rparr>"
  have "\<exists>db'. insert_session_rows host rs ?db1 = Inr db'"
    using Cons.prems by (intro Cons.IH) (auto simp: image_iff)
  with Cons.prems show ?case by (auto simp: insert_session_row_def)
qed simp

lemma apply_success_Inr:
  assumes "apply_success s received agg db = Inr db'"
  shows "db' = db\<lparr>sdb_snapshots := (sdb_snapshots db)(ss_host s \<mapsto> success_row s received agg),
     sdb_latest := latest_overlay (ss_host s) (ss_sessions s)
       (without_host (ss_host s) (sdb_latest db))\<rparr>"
    and "distinct (map sr_session_id (ss_sessions s))"
proof -
  obtain db1 where db1: "db1 = db\<lparr>sdb_snapshots := (sdb_snapshots db)(ss_host s \<mapsto> success_row s received agg)\<rparr>"
    and ins: "insert_session_rows (ss_host s) (ss_sessions s)
        (db1\<lparr>sdb_latest := without_host (ss_host s) (sdb_latest db1)\<rparr>) = Inr db'"
    using assms by (auto simp: apply_success_def dest: put_snapshot_row_Inr split: sum.splits)
  from insert_session_rows_Inr [OF ins, unfolded db1]
  show "db' = db\<lparr>sdb_snapshots := (sdb_snapshots db)(ss_host s \<mapsto> success_row s received agg),
     sdb_latest := latest_overlay (ss_host s) (ss_sessions s)
       (without_host (ss_host s) (sdb_latest db))\<rparr>"
    and "distinct (map sr_session_id (ss_sessions s))" by simp_all
qed

lemma apply_success_check: "apply_success s t agg db = Inr db' \<Longrightarrow> check_snapshot_row (success_row s t agg)"
  by (auto simp: apply_success_def dest: put_snapshot_row_Inr split: sum.splits)

lemma apply_success_keeps:
  "apply_success s received agg db = Inr db' \<Longrightarrow> sdb_fence db' = sdb_fence db \<and> sdb_workload db' = sdb_workload db"
  by (auto dest!: apply_success_Inr(1))

lemma apply_fatal_Inr:
  "apply_fatal s received db = Inr db' \<Longrightarrow>
   db' = db\<lparr>sdb_snapshots := (sdb_snapshots db)(ss_host s \<mapsto>
            fatal_row s received (sdb_snapshots db (ss_host s)))\<rparr>
   \<and> check_snapshot_row (fatal_row s received (sdb_snapshots db (ss_host s)))"
  by (auto simp: apply_fatal_def dest: put_snapshot_row_Inr)

lemma upsert_keeps [simp]:
  "sdb_snapshots (upsert_session_workload fo s t db) = sdb_snapshots db"
  "sdb_latest (upsert_session_workload fo s t db) = sdb_latest db"
  "sdb_fence (upsert_session_workload fo s t db) = sdb_fence db"
  by (simp_all add: upsert_session_workload_def Let_def)

definition fences_valid :: "session_db \<Rightarrow> bool" where
  "fences_valid db \<longleftrightarrow> (\<forall>h m. sdb_fence db h = Some m \<longrightarrow> uuid_v7 m)"

text \<open>The outcomes of a successful \<open>Apply\<close>, with what each leaves behind.\<close>

lemma project_snapshot_fields [simp]:
  "ss_host (project_snapshot s p) = ss_host s"
  "ss_agent_instance (project_snapshot s p) = ss_agent_instance s"
  "ss_sequence (project_snapshot s p) = ss_sequence s"
  "ss_observed_at (project_snapshot s p) = ss_observed_at s"
  "ss_collector_version (project_snapshot s p) = ss_collector_version s"
  "ss_cpu_count (project_snapshot s p) = ss_cpu_count s"
  "ss_capabilities (project_snapshot s p) = ss_capabilities s"
  "ss_sessions (project_snapshot s p) = map (\<lambda>r. project_session r p) (ss_sessions s)"
  by (simp_all add: project_snapshot_def)

lemma success_row_project [simp]: "success_row (project_snapshot s p) t agg = success_row s t agg"
  by (simp add: success_row_def)

lemma map_ids_project [simp]:
  "map (sr_session_id \<circ> (\<lambda>r. project_session r p)) rs = map sr_session_id rs"
  by simp

lemma apply_snapshot_cases:
  assumes "apply_snapshot fo privacy now s db = Inr (db', r)" and "fences_valid db"
  obtains (stale) i where "parse_uuidv7 (ss_agent_instance s) = Some i" "db' = db" "\<not> ar_accepted r"
  | (fatal) i where "parse_uuidv7 (ss_agent_instance s) = Some i" "ss_collection_error s \<noteq> None"
      "ar_accepted r" "sdb_fence db' = (sdb_fence db)(ss_host s \<mapsto> i)"
      "case sdb_fence db (ss_host s) of None \<Rightarrow> True | Some m \<Rightarrow> m \<le> i"
      "sdb_snapshots db' = (sdb_snapshots db)(ss_host s \<mapsto>
         fatal_row (s\<lparr>ss_agent_instance := uuid_string i\<rparr>) now (sdb_snapshots db (ss_host s)))"
      "sdb_latest db' = sdb_latest db"
      "check_snapshot_row (fatal_row (s\<lparr>ss_agent_instance := uuid_string i\<rparr>) now
         (sdb_snapshots db (ss_host s)))"
  | (success) i where "parse_uuidv7 (ss_agent_instance s) = Some i" "ss_collection_error s = None"
      "ar_accepted r" "sdb_fence db' = (sdb_fence db)(ss_host s \<mapsto> i)"
      "case sdb_fence db (ss_host s) of None \<Rightarrow> True | Some m \<Rightarrow> m \<le> i"
      "sdb_snapshots db' = (sdb_snapshots db)(ss_host s \<mapsto>
         success_row (s\<lparr>ss_agent_instance := uuid_string i\<rparr>) now
           (calculate_aggregates_for_identity (ss_sessions s) (pp_identity privacy)))"
      "sdb_latest db' = latest_overlay (ss_host s)
         (map (\<lambda>q. project_session q privacy) (ss_sessions s))
         (without_host (ss_host s) (sdb_latest db))"
      "distinct (map sr_session_id (ss_sessions s))"
      "check_snapshot_row (success_row (s\<lparr>ss_agent_instance := uuid_string i\<rparr>) now
         (calculate_aggregates_for_identity (ss_sessions s) (pp_identity privacy)))"
proof -
  obtain i where i: "parse_uuidv7 (ss_agent_instance s) = Some i"
    using assms by (auto simp: apply_snapshot_def split: option.splits)
  define t where "t = s\<lparr>ss_agent_instance := uuid_string i\<rparr>"
  define adv where "adv = (case sdb_fence db (ss_host s) of None \<Rightarrow> True | Some m \<Rightarrow> compare_uuidv7 i m = 1)"
  define db1 where "db1 = (if adv then db\<lparr>sdb_fence := (sdb_fence db)(ss_host s \<mapsto> i)\<rparr> else db)"
  have vi: "uuid_v7 i" by (rule parse_uuidv7_v7 [OF i])
  have read: "\<not> (case sdb_fence db (ss_host s) of None \<Rightarrow> False | Some m \<Rightarrow> parse_uuidv7 (uuid_string m) = None)"
    using assms(2) fence_readable by (auto simp: fences_valid_def split: option.split)
  have fld: "ss_host t = ss_host s" "ss_sessions t = ss_sessions s" "ss_collection_error t = ss_collection_error s"
    by (simp_all add: t_def)
  show ?thesis
  proof (cases "(case sdb_fence db (ss_host s) of None \<Rightarrow> False | Some m \<Rightarrow> compare_uuidv7 i m = - 1)
      \<or> \<not> adv \<and> (case sdb_snapshots db (ss_host s) of None \<Rightarrow> False
            | Some row \<Rightarrow> sn_attempt_instance row = ss_agent_instance t \<and> sn_attempt_sequence row \<ge> ss_sequence t)")
    case True
    with assms(1) i read have "db' = db \<and> \<not> ar_accepted r"
      by (auto simp: apply_snapshot_def Let_def adv_def t_def split: option.splits if_splits)
    with stale i show ?thesis by blast
  next
    case False
    have ge: "case sdb_fence db (ss_host s) of None \<Rightarrow> True | Some m \<Rightarrow> m \<le> i"
      using False compare_uuidv7_order(1) [OF vi] assms(2)
      by (auto simp: fences_valid_def not_less split: option.splits)
    have fence: "(sdb_fence db1) = (sdb_fence db)(ss_host s \<mapsto> i)"
    proof (cases adv)
      case noadv: False
      then obtain m where m: "sdb_fence db (ss_host s) = Some m" "compare_uuidv7 i m \<noteq> 1"
        by (auto simp: adv_def split: option.splits)
      then have "i = m"
        using ge compare_uuidv7_order(3) [OF vi, of m] assms(2) by (auto simp: fences_valid_def)
      with m noadv show ?thesis by (simp add: db1_def fun_upd_idem)
    qed (simp add: db1_def)
    have same: "sdb_snapshots db1 = sdb_snapshots db" "sdb_latest db1 = sdb_latest db"
      by (simp_all add: db1_def)
    have run: "apply_snapshot fo privacy now s db = record_attempt fo privacy now t db1"
    proof -
      have "validate_snapshot_for_store s = None"
        using assms(1) by (auto simp: apply_snapshot_def split: option.splits)
      with False i read show ?thesis
        by (cases adv) (auto simp: apply_snapshot_def Let_def t_def [symmetric] adv_def [symmetric]
            db1_def fld)
    qed
    show ?thesis
    proof (cases "ss_collection_error s")
      case None
      then obtain db2 where db2: "apply_success (project_snapshot t privacy) now
          (calculate_aggregates_for_identity (ss_sessions s) (pp_identity privacy)) db1 = Inr db2"
        and db': "db' = upsert_session_workload fo t now db2" "ar_accepted r"
        using assms(1) by (auto simp: run record_attempt_def Let_def fld split: sum.splits)
      note eq = apply_success_Inr [OF db2] apply_success_check [OF db2]
      show ?thesis
        by (rule success [OF i None]) (use eq db' fence same ge in \<open>simp_all add: fld t_def\<close>)
    next
      case (Some code)
      then obtain db2 where db2: "apply_fatal t now db1 = Inr db2"
        and db': "db' = upsert_session_workload fo t now db2" "ar_accepted r"
        using assms(1) by (auto simp: run record_attempt_def Let_def fld split: sum.splits)
      show ?thesis
        by (rule fatal [OF i])
          (use Some apply_fatal_Inr [OF db2] db' fence same ge in \<open>simp_all add: t_def\<close>)
    qed
  qed
qed

lemma delete_keeps_fence [simp]: "sdb_fence (delete_snapshots d db) = sdb_fence db"
  by (simp add: delete_snapshots_def Let_def)

lemma reserve_cases:
  assumes "reserve_session_instance random now h db = Inr (db', t)" and "fences_valid db"
  obtains v where "uuid_v7 v" "t = uuid_string v" "db' = db\<lparr>sdb_fence := (sdb_fence db)(h \<mapsto> v)\<rparr>"
    "\<forall>m. sdb_fence db h = Some m \<longrightarrow> m < v"
proof -
  obtain fresh where f: "new_session_uuidv7 random now = Some fresh"
    using assms(1) by (auto simp: reserve_session_instance_def Let_def split: option.splits if_splits)
  note vf = new_session_v7 [OF f]
  show ?thesis
  proof (cases "sdb_fence db h")
    case None
    with assms(1) f vf show ?thesis
      by (intro that [of fresh]) (auto simp: reserve_session_instance_def Let_def split: if_splits)
  next
    case (Some m)
    then have m: "uuid_v7 m" using assms(2) by (simp add: fences_valid_def)
    show ?thesis
    proof (cases "compare_uuidv7 fresh m \<le> 0")
      case True
      then obtain w where w: "next_session_uuidv7 m = Some w"
        using assms(1) f Some
        by (auto simp: reserve_session_instance_def Let_def split: option.splits if_splits)
      with assms(1) f Some True next_session_least [OF m w] show ?thesis
        by (intro that [of w]) (auto simp: reserve_session_instance_def Let_def split: if_splits)
    next
      case False
      then have "m < fresh"
        using compare_uuidv7_order [OF vf m] linorder_less_linear [of m fresh] by auto
      with assms(1) f vf Some False show ?thesis
        by (intro that [of fresh]) (auto simp: reserve_session_instance_def Let_def split: if_splits)
    qed
  qed
qed

subsection \<open>Histories of the store\<close>

datatype session_op =
    OpApply privacy_policy int session_snapshot
  | OpReserve uuidv7 int string
  | OpPurge int int
  | OpPrivacyPurge

text \<open>A failed operation leaves the database alone.\<close>

definition session_step :: "float_ops \<Rightarrow> session_op \<Rightarrow> session_db \<Rightarrow> session_db" where
  "session_step fo op db =
     (case op of
        OpApply p now s \<Rightarrow> (case apply_snapshot fo p now s db of Inl _ \<Rightarrow> db | Inr (db', _) \<Rightarrow> db')
      | OpReserve random now h \<Rightarrow>
          (case reserve_session_instance random now h db of Inl _ \<Rightarrow> db | Inr (db', _) \<Rightarrow> db')
      | OpPurge hours now \<Rightarrow> (case purge_snapshots hours now db of Inl _ \<Rightarrow> db | Inr db' \<Rightarrow> db')
      | OpPrivacyPurge \<Rightarrow> purge_for_privacy db)"

definition empty_session_db :: session_db where
  "empty_session_db = \<lparr>sdb_snapshots = (\<lambda>_. None), sdb_latest = (\<lambda>_. None), sdb_fence = (\<lambda>_. None),
     sdb_workload = (\<lambda>_. None)\<rparr>"

definition fence_at_least :: "string \<Rightarrow> uuidv7 \<Rightarrow> session_db \<Rightarrow> bool" where
  "fence_at_least h m db \<longleftrightarrow> fences_valid db \<and> (\<exists>k. sdb_fence db h = Some k \<and> m \<le> k)"

lemma step_fences_valid: "fences_valid db \<Longrightarrow> fences_valid (session_step fo op db)"
proof (cases op)
  case (OpApply p now s)
  moreover assume v: "fences_valid db"
  moreover have "fences_valid db'" if "apply_snapshot fo p now s db = Inr (db', r)" for db' r
    using that v by (rule apply_snapshot_cases) (use v in \<open>auto simp: fences_valid_def dest: parse_uuidv7_v7\<close>)
  ultimately show ?thesis by (simp add: session_step_def split: sum.split prod.split)
next
  case (OpReserve random now h)
  moreover assume v: "fences_valid db"
  moreover have "fences_valid db'" if "reserve_session_instance random now h db = Inr (db', t)" for db' t
    using that v by (rule reserve_cases) (use v in \<open>auto simp: fences_valid_def\<close>)
  ultimately show ?thesis by (simp add: session_step_def split: sum.split prod.split)
qed (auto simp: session_step_def purge_snapshots_def purge_for_privacy_def fences_valid_def
    split: sum.splits if_splits)

lemma step_fence_at_least:
  assumes at: "fence_at_least h m db" shows "fence_at_least h m (session_step fo op db)"
proof -
  have v: "fences_valid db" using at by (simp add: fence_at_least_def)
  obtain k where k: "sdb_fence db h = Some k" "m \<le> k" using at by (auto simp: fence_at_least_def)
  have "\<exists>k'. sdb_fence (session_step fo op db) h = Some k' \<and> m \<le> k'"
  proof (cases op)
    case (OpApply p now s)
    have "\<exists>k'. sdb_fence db' h = Some k' \<and> m \<le> k'"
      if "apply_snapshot fo p now s db = Inr (db', r)" for db' r
      using that v
      by (rule apply_snapshot_cases) (use k in \<open>auto intro: order_trans split: if_splits\<close>)
    with OpApply k show ?thesis by (simp add: session_step_def split: sum.split prod.split)
  next
    case (OpReserve random now g)
    have "\<exists>k'. sdb_fence db' h = Some k' \<and> m \<le> k'"
      if "reserve_session_instance random now g db = Inr (db', t)" for db' t
      using that v by (rule reserve_cases) (use k in \<open>auto intro: order_trans less_imp_le\<close>)
    with OpReserve k show ?thesis by (simp add: session_step_def split: sum.split prod.split)
  qed (use k in \<open>auto simp: session_step_def purge_snapshots_def purge_for_privacy_def
      split: sum.splits if_splits\<close>)
  with step_fences_valid [OF v] show ?thesis by (simp add: fence_at_least_def)
qed

interpretation fence_floor: step_invariant "session_step fo" "fence_at_least h m" for fo h m
  by unfold_locales (rule step_fence_at_least)

lemma empty_fences: "fences_valid empty_session_db"
  by (simp add: fences_valid_def empty_session_db_def)

definition rows_valid :: "session_db \<Rightarrow> bool" where
  "rows_valid db \<longleftrightarrow> (\<forall>h r. sdb_snapshots db h = Some r \<longrightarrow> check_snapshot_row r)"

lemma step_rows_valid:
  assumes v: "fences_valid db" and ok: "rows_valid db"
  shows "rows_valid (session_step fo op db)"
proof (cases op)
  case (OpApply p now s)
  have "rows_valid db'" if "apply_snapshot fo p now s db = Inr (db', r)" for db' r
    using that v by (rule apply_snapshot_cases) (use ok in \<open>auto simp: rows_valid_def\<close>)
  with OpApply ok show ?thesis by (simp add: session_step_def split: sum.split prod.split)
next
  case (OpReserve random now h)
  have "rows_valid db'" if "reserve_session_instance random now h db = Inr (db', t)" for db' t
    using that v by (rule reserve_cases) (use ok in \<open>auto simp: rows_valid_def\<close>)
  with OpReserve ok show ?thesis by (simp add: session_step_def split: sum.split prod.split)
qed (use ok in \<open>auto simp: session_step_def purge_snapshots_def purge_for_privacy_def rows_valid_def
      delete_snapshots_def Let_def split: sum.splits if_splits\<close>)

definition session_db_ok :: "session_db \<Rightarrow> bool" where
  "session_db_ok db \<longleftrightarrow> fences_valid db \<and> rows_valid db"

interpretation session_db: step_invariant "session_step fo" session_db_ok for fo
  by unfold_locales (simp add: session_db_ok_def step_fences_valid step_rows_valid)

lemma empty_db_ok: "session_db_ok empty_session_db"
  by (simp add: session_db_ok_def fences_valid_def rows_valid_def empty_session_db_def)

lemma aggregates_check:
  assumes "length ss \<le> 500" and "\<forall>r \<in> set ss. validate_session obs n r = None"
  shows "check_aggregates (calculate_aggregates_for_identity ss v)"
proof -
  let ?U = "{k. \<exists>r \<in> set ss. user_key r = Some k}"
  have "?U \<subseteq> (the \<circ> user_key) ` set ss" by (force simp: image_iff)
  then have "card ?U \<le> card ((the \<circ> user_key) ` set ss)" by (intro card_mono) auto
  also have "\<dots> \<le> length ss" by (meson card_image_le card_length finite_set order_trans)
  finally have users: "card ?U \<le> 500" using assms(1) by simp
  have len: "length (filter P ss) \<le> 500" for P using assms(1) length_filter_le [of P ss] by linarith
  have last: "t \<ge> 0" if "ag_last_activity (calculate_aggregates ss) = Some t" for t
  proof -
    have "Some t \<in> set (concat (map (\<lambda>r. [sr_idle_since r, sr_connect_at r, sr_logon_at r]) ss))"
      using that by (simp add: calculate_aggregates_def fold_aggregate foldl_later)
    then obtain r where r: "r \<in> set ss" "Some t \<in> {sr_idle_since r, sr_connect_at r, sr_logon_at r}"
      by auto
    then show ?thesis using validate_session_times [of obs n r t] assms(2) by (metis empty_iff insert_iff)
  qed
  then have "case ag_last_activity (calculate_aggregates ss) of None \<Rightarrow> True | Some t \<Rightarrow> t \<ge> 0"
    by (simp split: option.split)
  then show ?thesis
    using users len assms(1)
    by (simp add: check_aggregates_def check_count_def calculate_aggregates_for_identity_def
        calculate_aggregates_def fold_aggregate Let_def)
qed

lemma project_session_columns [simp]:
  "sr_connect_at (project_session r p) = sr_connect_at r"
  "sr_disconnect_at (project_session r p) = sr_disconnect_at r"
  "sr_idle_since (project_session r p) = sr_idle_since r"
  by (simp_all add: project_session_def Let_def)

lemma validated_row_check:
  "validate_session obs n r = None \<Longrightarrow> check_latest_row (project_session r p)"
  by (auto simp: validate_session_def check_latest_row_def check_nonneg_def valid_nullable_timestamp_def
      valid_timestamp_def not_less split: option.splits)

lemma validated_rows_for_store:
  "\<forall>r \<in> set rs. validate_session obs n r = None \<Longrightarrow> validate_rows_for_store rs = None"
proof (induction rs)
  case (Cons r rs)
  then have v: "validate_session obs n r = None" by simp
  have "\<not> list_ex (\<lambda>p. sp_pid p = 0 \<or> sp_working_set p > max_stored_bytes) (sr_processes r)"
    using validate_session_processes(3) [OF v] by (auto simp: list_ex_iff not_less)
  with v Cons validate_session_processes(1) [OF v] show ?case
    by (auto simp: validate_session_def split: option.splits)
qed simp

lemma validated_for_store:
  assumes "validate_snapshot s = None" shows "validate_snapshot_for_store s = None"
proof (cases "ss_collection_error s")
  case None
  with validate_snapshot_header [OF assms] validate_snapshot_sessions(2) [OF assms]
    validated_rows_for_store [of "ss_sessions s" "ss_observed_at s" "ss_cpu_count s"]
  show ?thesis by (simp add: validate_snapshot_for_store_def valid_timestamp_def)
next
  case (Some code)
  with validate_snapshot_header [OF assms] validate_snapshot_fatal [OF assms Some]
  show ?thesis
    by (simp add: validate_snapshot_for_store_def valid_timestamp_def no_capabilities_def)
qed

lemma validated_success_row:
  assumes "validate_snapshot s = None" and "0 \<le> now" and "ss_collection_error s = None"
  shows "check_snapshot_row (success_row (s\<lparr>ss_agent_instance := x\<rparr>) now
           (calculate_aggregates_for_identity (ss_sessions s) v))"
proof -
  have "check_aggregates (calculate_aggregates_for_identity (ss_sessions s) v)"
    using validate_snapshot_header(5) [OF assms(1)] validate_snapshot_sessions(2) [OF assms(1)]
    by (intro aggregates_check) (auto simp: max_sessions_def)
  moreover have "1 \<le> ss_cpu_count s"
    using validate_snapshot_header(6) [OF assms(1)] by (simp add: word_le_nat_alt Suc_le_eq unat_gt_0)
  ultimately show ?thesis
    using validate_snapshot_header [OF assms(1)] assms(2)
    by (simp add: check_snapshot_row_def success_row_def valid_timestamp_def)
qed

lemma validated_fatal_row:
  assumes "validate_snapshot s = None" and "0 \<le> now" and "ss_collection_error s = Some code"
    and "\<And>r. old = Some r \<Longrightarrow> check_snapshot_row r"
  shows "check_snapshot_row (fatal_row (s\<lparr>ss_agent_instance := x\<rparr>) now old)"
  using validate_snapshot_header(4) [OF assms(1)] validate_snapshot_fatal(1) [OF assms(1,3)] assms(2-4)
  by (cases old) (auto simp: check_snapshot_row_def fatal_row_def valid_timestamp_def)

lemma validated_record:
  assumes "validate_snapshot s = None" and "0 \<le> now" and "rows_valid db"
  shows "\<exists>db' r. record_attempt fo p now (s\<lparr>ss_agent_instance := x\<rparr>) db = Inr (db', r)"
proof (cases "ss_collection_error s")
  case None
  let ?t = "s\<lparr>ss_agent_instance := x\<rparr>"
  let ?agg = "calculate_aggregates_for_identity (ss_sessions s) (pp_identity p)"
  have "\<exists>db'. apply_success (project_snapshot ?t p) now ?agg db = Inr db'"
  proof -
    have "\<exists>db'. insert_session_rows h (map (\<lambda>r. project_session r p) (ss_sessions s))
        (db1\<lparr>sdb_latest := without_host h f\<rparr>) = Inr db'" for db1 h f
      using validate_snapshot_sessions(1) [OF assms(1)]
        validated_row_check [OF validate_snapshot_sessions(2) [OF assms(1)]]
      by (intro insert_session_rows_ok) (auto simp: without_host_def comp_def)
    then show ?thesis
      using validated_success_row [OF assms(1,2) None, of x "pp_identity p"]
      by (simp add: apply_success_def put_snapshot_row_def)
  qed
  with None show ?thesis by (auto simp: record_attempt_def Let_def)
next
  case (Some code)
  then show ?thesis
    using validated_fatal_row [OF assms(1,2) Some, of "sdb_snapshots db (ss_host s)" x] assms(3)
    by (auto simp: record_attempt_def apply_fatal_def put_snapshot_row_def rows_valid_def)
qed

subsection \<open>Properties\<close>

text \<open>
  C25: \<open>nextSessionUUIDv7\<close> is the successor function on version-7 identifiers: the result is a
  valid identifier, larger than the argument in the order the fence compares by, with no valid
  identifier between; it reports exhaustion only at the largest identifier.
\<close>

theorem next_generation_is_successor:
  assumes "uuid_v7 v"
  shows "case next_session_uuidv7 v of
      Some w \<Rightarrow> uuid_v7 w \<and> compare_uuidv7 w v = 1
              \<and> (\<forall>u. uuid_v7 u \<and> compare_uuidv7 u v = 1 \<longrightarrow> compare_uuidv7 u w \<noteq> - 1)
    | None \<Rightarrow> (\<forall>u. uuid_v7 u \<longrightarrow> compare_uuidv7 u v \<noteq> 1)"
proof (cases "next_session_uuidv7 v")
  case None
  with next_session_exhausted [OF assms None] compare_uuidv7_order(3) [OF _ assms] show ?thesis
    by (auto simp: not_less [symmetric])
next
  case (Some w)
  note w = next_session_least [OF assms Some]
  then show ?thesis
    using Some compare_uuidv7_order(3) [OF _ assms] compare_uuidv7_order(1) [OF _ w(1)]
    by (auto simp: not_less [symmetric])
qed

theorem next_generation_is_successor_witness:
  "next_session_uuidv7 example_uuid \<noteq> None
   \<and> uuid_v7 (the (next_session_uuidv7 example_uuid))"
proof -
  have n: "next_session_uuidv7 example_uuid = Some (example_uuid[15 := 240])"
    by (simp add: next_session_uuidv7_def example_uuid_def)
  with next_generation_is_successor [OF example_uuid_v7] show ?thesis by simp
qed

text \<open>
  C4: the generation fence of a host never moves back. After any further sequence of applied
  snapshots, reservations and purges (failed ones included) the stored maximum is a valid
  identifier at least as large as before, and a snapshot of an older generation is then refused
  without changing the database.
\<close>

theorem fence_never_regresses:
  assumes "fences_valid db" and "sdb_fence db h = Some m"
    and "parse_uuidv7 (ss_agent_instance s) = Some i" and "ss_host s = h" and "i < m"
  shows "(\<exists>m'. sdb_fence (fold (session_step fo) ops db) h = Some m' \<and> uuid_v7 m' \<and> m \<le> m')
    \<and> (\<forall>db' r. apply_snapshot fo p now s (fold (session_step fo) ops db) = Inr (db', r) \<longrightarrow>
           db' = fold (session_step fo) ops db \<and> \<not> ar_accepted r)"
proof -
  let ?db = "fold (session_step fo) ops db"
  have "fence_at_least h m ?db"
    by (rule fence_floor.inv_run) (use assms(1,2) in \<open>auto simp: fence_at_least_def\<close>)
  then obtain m' where v: "fences_valid ?db" and m': "sdb_fence ?db h = Some m'" "m \<le> m'"
    by (auto simp: fence_at_least_def)
  then have "\<exists>m'. sdb_fence ?db h = Some m' \<and> uuid_v7 m' \<and> m \<le> m'"
    by (auto simp: fences_valid_def)
  moreover have "i < m'" using assms(5) m'(2) by (rule order_less_le_trans)
  have "\<forall>db' r. apply_snapshot fo p now s ?db = Inr (db', r) \<longrightarrow> db' = ?db \<and> \<not> ar_accepted r"
  proof (intro allI impI)
    fix db' r assume "apply_snapshot fo p now s ?db = Inr (db', r)"
    then show "db' = ?db \<and> \<not> ar_accepted r"
      using v by (rule apply_snapshot_cases)
        (use assms(3,4) m'(1) \<open>i < m'\<close> in \<open>auto simp: not_less [symmetric]\<close>)
  qed
  ultimately show ?thesis by blast
qed

theorem fence_never_regresses_witness:
  "\<exists>m'. sdb_fence (fold (session_step example_float_ops) [OpPrivacyPurge, OpReserve (replicate 16 0) 5 ''a'']
        (empty_session_db\<lparr>sdb_fence := [ss_host example_snapshot \<mapsto> example_uuid[15 := 240]]\<rparr>))
      (ss_host example_snapshot) = Some m'"
proof -
  have v: "uuid_v7 (example_uuid[15 := 240])" by (simp add: uuid_v7_def example_uuid_def)
  have p: "parse_uuidv7 (ss_agent_instance example_snapshot) = Some example_uuid"
    using uuid_text.dec_enc [OF example_uuid_v7] by (simp add: example_snapshot_def)
  have less: "example_uuid < example_uuid[15 := 240]" by (simp add: example_uuid_def)
  have "fences_valid (empty_session_db\<lparr>sdb_fence := [ss_host example_snapshot \<mapsto> example_uuid[15 := 240]]\<rparr>)"
    using v by (simp add: fences_valid_def)
  moreover have "sdb_fence (empty_session_db\<lparr>sdb_fence := [ss_host example_snapshot \<mapsto> example_uuid[15 := 240]]\<rparr>)
      (ss_host example_snapshot) = Some (example_uuid[15 := 240])" by simp
  ultimately show ?thesis using fence_never_regresses [OF _ _ p refl less, of _ example_float_ops] by blast
qed

text \<open>
  What an accepted attempt leaves behind for its host: the fence is at its generation or above, and as
  long as it is at it, the row names an attempt of that generation with at least its sequence number.
\<close>

definition attempt_recorded :: "string \<Rightarrow> uuidv7 \<Rightarrow> u64 \<Rightarrow> session_db \<Rightarrow> bool" where
  "attempt_recorded h i n db \<longleftrightarrow> fences_valid db
     \<and> (\<exists>m. sdb_fence db h = Some m \<and> i \<le> m
          \<and> (m = i \<longrightarrow> (\<exists>row. sdb_snapshots db h = Some row \<and> sn_attempt_instance row = uuid_string i
                \<and> n \<le> sn_attempt_sequence row)))"

lemma recorded_is_stale:
  assumes "attempt_recorded (ss_host s) i n db" and "parse_uuidv7 (ss_agent_instance s) = Some i"
    and "ss_sequence s \<le> n" and "validate_snapshot_for_store s = None"
  shows "apply_snapshot fo p now s db = Inr (db, \<lparr>ar_accepted = False, ar_received = now,
           ar_fatal = False, ar_aggregates = None\<rparr>)"
proof -
  obtain m where m: "sdb_fence db (ss_host s) = Some m" "i \<le> m" "uuid_v7 m"
    and row: "m = i \<longrightarrow> (\<exists>row. sdb_snapshots db (ss_host s) = Some row \<and> sn_attempt_instance row = uuid_string i
        \<and> n \<le> sn_attempt_sequence row)"
    using assms(1) by (auto simp: attempt_recorded_def fences_valid_def)
  have v: "uuid_v7 i" by (rule parse_uuidv7_v7 [OF assms(2)])
  show ?thesis
  proof (cases "m = i")
    case True
    then obtain r where r: "sdb_snapshots db (ss_host s) = Some r" "sn_attempt_instance r = uuid_string i"
        "n \<le> sn_attempt_sequence r" using row by blast
    have "compare_uuidv7 i i = 0" using v compare_uuidv7_order(2) by blast
    moreover have "ss_sequence s \<le> sn_attempt_sequence r" using assms(3) r(3) by (rule order_trans)
    ultimately show ?thesis
      using r(1,2) m(1) True fence_readable [OF v] assms(2,4) by (simp add: apply_snapshot_def Let_def)
  next
    case False
    then have "compare_uuidv7 i m = - 1" using m(2,3) v compare_uuidv7_order(1) by force
    then show ?thesis
      using m(1) fence_readable [OF m(3)] assms(2,4) by (simp add: apply_snapshot_def Let_def)
  qed
qed

lemma accepted_is_recorded:
  assumes "fences_valid db" and "apply_snapshot fo p now s db = Inr (db', r)" and "ar_accepted r"
    and "parse_uuidv7 (ss_agent_instance s) = Some i"
  shows "attempt_recorded (ss_host s) i (ss_sequence s) db'"
  using assms(2,1)
  by (rule apply_snapshot_cases)
    (use assms(1,3,4) parse_uuidv7_v7 [OF assms(4)] in
      \<open>auto simp: attempt_recorded_def fences_valid_def success_row_def fatal_row_def split: option.split\<close>)

lemma apply_other_host:
  assumes "apply_snapshot fo p now s db = Inr (db', r)" and "fences_valid db" and "ss_host s \<noteq> h"
  shows "sdb_fence db' h = sdb_fence db h" and "sdb_snapshots db' h = sdb_snapshots db h"
  using assms(1,2) by (rule apply_snapshot_cases; use assms(3) in simp)+

lemma apply_keeps_recorded:
  assumes rec: "attempt_recorded h i n db" and run: "apply_snapshot fo p now s db = Inr (db', r)"
  shows "attempt_recorded h i n db'"
proof -
  have v: "fences_valid db" using rec by (simp add: attempt_recorded_def)
  have v': "fences_valid db'"
    using step_fences_valid [OF v, of fo "OpApply p now s"] run by (simp add: session_step_def)
  obtain k where k: "parse_uuidv7 (ss_agent_instance s) = Some k" and valid: "validate_snapshot_for_store s = None"
    using run by (auto simp: apply_snapshot_def split: option.splits)
  consider "\<not> ar_accepted r" | "ss_host s \<noteq> h" | "ar_accepted r" "ss_host s = h" by blast
  then show ?thesis
  proof cases
    case 1
    then have "db' = db" using run v by (rule_tac apply_snapshot_cases) auto
    with rec show ?thesis by simp
  next
    case 2
    with apply_other_host [OF run v] rec v' show ?thesis by (simp add: attempt_recorded_def)
  next
    case 3
    have new: "attempt_recorded h k (ss_sequence s) db'" using accepted_is_recorded [OF v run 3(1) k] 3(2) by simp
    have fence: "sdb_fence db' h = Some k" and ge: "case sdb_fence db h of None \<Rightarrow> True | Some m \<Rightarrow> m \<le> k"
      using run v by (rule apply_snapshot_cases; use 3 k in simp)+
    then have "i \<le> k" using rec by (auto simp: attempt_recorded_def)
    moreover have "n \<le> ss_sequence s" if "k = i"
      using recorded_is_stale [of s i n db fo p now] rec 3 k valid that run by (force simp: not_le [symmetric])
    ultimately show ?thesis
      using new v' fence by (auto simp: attempt_recorded_def intro: order_trans)
  qed
qed

lemma step_keeps_recorded:
  assumes rec: "attempt_recorded h i n db" and row: "sdb_snapshots (session_step fo op db) h \<noteq> None"
  shows "attempt_recorded h i n (session_step fo op db)"
proof (cases op)
  case (OpApply p now s)
  then show ?thesis
    using rec apply_keeps_recorded [OF rec] by (simp add: session_step_def split: sum.split prod.split)
next
  case (OpReserve random now g)
  have v: "fences_valid db" using rec by (simp add: attempt_recorded_def)
  have "attempt_recorded h i n db'" if "reserve_session_instance random now g db = Inr (db', t)" for db' t
    using that v
    by (rule reserve_cases) (use rec in \<open>force simp: attempt_recorded_def fences_valid_def\<close>)
  then show ?thesis using OpReserve rec by (simp add: session_step_def split: sum.split prod.split)
next
  case (OpPurge hours now)
  have "attempt_recorded h i n (delete_snapshots d db)" if "sdb_snapshots (delete_snapshots d db) h \<noteq> None" for d
    using rec that by (auto simp: attempt_recorded_def fences_valid_def delete_snapshots_def Let_def split: if_splits)
  then show ?thesis using OpPurge rec row by (auto simp: session_step_def purge_snapshots_def split: if_splits)
next
  case OpPrivacyPurge
  then show ?thesis
    using rec row by (auto simp: session_step_def purge_for_privacy_def delete_snapshots_def Let_def split: option.splits)
qed

lemma run_keeps_recorded:
  "attempt_recorded h i n db \<Longrightarrow> \<forall>k \<le> length ops. sdb_snapshots (fold (session_step fo) (take k ops) db) h \<noteq> None \<Longrightarrow>
   attempt_recorded h i n (fold (session_step fo) ops db)"
proof (induction ops arbitrary: db)
  case (Cons op ops)
  have row: "sdb_snapshots (fold (session_step fo) (take k ops) (session_step fo op db)) h \<noteq> None"
    if "k \<le> length ops" for k using Cons.prems(2) [rule_format, of "Suc k"] that by simp
  then have "attempt_recorded h i n (session_step fo op db)"
    using step_keeps_recorded [OF Cons.prems(1)] row [of 0] by simp
  then show ?case using Cons.IH row by simp
qed simp

text \<open>
  C11: an accepted snapshot cannot be replayed. Once \<open>Apply\<close> has accepted a snapshot, and through any
  further snapshots, reservations and purges during which the row of the host is never purged, a snapshot
  of the same host and generation whose sequence number is not larger either fails validation or is
  answered as stale, at any time and under any privacy policy, and the database stays as it is. (After a
  purge of the row only the fence is left, so the same generation may be stored again.)
\<close>

theorem replay_rejected:
  assumes "fences_valid db" and "apply_snapshot fo p now s db = Inr (db', r)" and "ar_accepted r"
    and "\<forall>k \<le> length ops. sdb_snapshots (fold (session_step fo) (take k ops) db') (ss_host s) \<noteq> None"
    and "ss_host s' = ss_host s" and "ss_sequence s' \<le> ss_sequence s"
    and "parse_uuidv7 (ss_agent_instance s') = parse_uuidv7 (ss_agent_instance s)"
    and "validate_snapshot_for_store s' = None"
  shows "apply_snapshot fo p' now' s' (fold (session_step fo) ops db') =
     Inr (fold (session_step fo) ops db', \<lparr>ar_accepted = False, ar_received = now',
           ar_fatal = False, ar_aggregates = None\<rparr>)"
proof -
  obtain i where i: "parse_uuidv7 (ss_agent_instance s) = Some i"
    using assms(2) by (auto simp: apply_snapshot_def split: option.splits)
  have "attempt_recorded (ss_host s') i (ss_sequence s) (fold (session_step fo) ops db')"
    using run_keeps_recorded [OF accepted_is_recorded [OF assms(1-3) i] assms(4)] assms(5) by simp
  then show ?thesis using recorded_is_stale assms(6-8) i by simp
qed

lemma example_accepted:
  "\<exists>db' r. apply_snapshot fo p 2000 example_snapshot empty_session_db = Inr (db', r) \<and> ar_accepted r"
proof -
  have i: "parse_uuidv7 (ss_agent_instance example_snapshot) = Some example_uuid"
    using uuid_text.dec_enc [OF example_uuid_v7] by (simp add: example_snapshot_def)
  have "rows_valid (empty_session_db\<lparr>sdb_fence := x\<rparr>)" for x
    by (simp add: rows_valid_def empty_session_db_def)
  from validated_record [OF example_snapshot_valid _ this [of "[ss_host example_snapshot \<mapsto> example_uuid]"],
      of 2000 fo p "uuid_string example_uuid"]
  obtain db' r where "record_attempt fo p 2000 (example_snapshot\<lparr>ss_agent_instance := uuid_string example_uuid\<rparr>)
      (empty_session_db\<lparr>sdb_fence := [ss_host example_snapshot \<mapsto> example_uuid]\<rparr>) = Inr (db', r)" by auto
  moreover from this have "ar_accepted r"
    by (auto simp: record_attempt_def Let_def split: sum.splits if_splits)
  ultimately show ?thesis
    using i validated_for_store [OF example_snapshot_valid]
    by (simp add: apply_snapshot_def Let_def empty_session_db_def)
qed

theorem replay_rejected_witness:
  "\<exists>db'. sdb_snapshots db' (ss_host example_snapshot) \<noteq> None
     \<and> apply_snapshot example_float_ops example_policy 4000 example_snapshot
         (fold (session_step example_float_ops) [OpReserve (replicate 16 0) 3000 ''a''] db')
       = Inr (fold (session_step example_float_ops) [OpReserve (replicate 16 0) 3000 ''a''] db',
           \<lparr>ar_accepted = False, ar_received = 4000, ar_fatal = False, ar_aggregates = None\<rparr>)"
proof -
  obtain db' r where a: "apply_snapshot example_float_ops example_policy 2000 example_snapshot empty_session_db = Inr (db', r)"
    "ar_accepted r" using example_accepted by blast
  have v: "fences_valid empty_session_db" using empty_db_ok by (simp add: session_db_ok_def)
  have row: "sdb_snapshots db' (ss_host example_snapshot) \<noteq> None"
    using a(1) v by (rule apply_snapshot_cases) (use a(2) in simp_all)
  have "\<forall>k \<le> length [OpReserve (replicate 16 0) 3000 ''a'']. sdb_snapshots (fold (session_step example_float_ops)
      (take k [OpReserve (replicate 16 0) 3000 ''a'']) db') (ss_host example_snapshot) \<noteq> None"
    using row by (auto simp: le_Suc_eq session_step_def reserve_session_instance_def Let_def
        split: sum.split option.split prod.split)
  from replay_rejected [OF v a this refl order_refl refl validated_for_store [OF example_snapshot_valid]] row
  show ?thesis by blast
qed

lemma project_latest: "project_session (latest_columns r) p = latest_columns (project_session r p)"
  by (simp add: latest_columns_def project_session_def Let_def)

text \<open>
  The stored view of a host is the projection of the last accepted snapshot. After \<open>Apply\<close>
  accepts a successful snapshot, the session rows of its host are exactly the projected sessions of
  the snapshot by id (no row of the earlier snapshot survives), the rows of other hosts and their
  snapshots are untouched, and projecting a stored row again changes nothing.
\<close>

theorem stored_view_is_projection:
  assumes "fences_valid db" and "apply_snapshot fo p now s db = Inr (db', r)" and "ar_accepted r"
    and "ss_collection_error s = None"
  shows "sdb_latest db' (ss_host s, i)
      = map_of (map (\<lambda>q. (sr_session_id q, latest_columns (project_session q p))) (ss_sessions s)) i
    \<and> (h \<noteq> ss_host s \<longrightarrow> sdb_latest db' (h, i) = sdb_latest db (h, i)
           \<and> sdb_snapshots db' h = sdb_snapshots db h)
    \<and> (\<forall>row. sdb_latest db' (ss_host s, i) = Some row \<longrightarrow> project_session row p = row)"
proof -
  have lat: "sdb_latest db' = latest_overlay (ss_host s)
         (map (\<lambda>q. project_session q p) (ss_sessions s)) (without_host (ss_host s) (sdb_latest db))
      \<and> (\<exists>x. sdb_snapshots db' = (sdb_snapshots db)(ss_host s \<mapsto> x))"
    using assms(2,1) by (rule apply_snapshot_cases) (use assms(3,4) in auto)
  have view: "sdb_latest db' (ss_host s, i)
      = map_of (map (\<lambda>q. (sr_session_id q, latest_columns (project_session q p))) (ss_sessions s)) i" for i
  proof (cases "i \<in> sr_session_id ` set (ss_sessions s)")
    case False
    then have "map_of (map (\<lambda>q. (sr_session_id q, latest_columns (project_session q p))) (ss_sessions s)) i = None"
      by (auto simp: map_of_eq_None_iff)
    with lat False show ?thesis by (auto simp: latest_overlay_def without_host_def image_iff)
  next
    case True
    with lat show ?thesis by (simp add: latest_overlay_def image_image comp_def)
  qed
  moreover have "h \<noteq> ss_host s \<longrightarrow> sdb_latest db' (h, i) = sdb_latest db (h, i)
      \<and> sdb_snapshots db' h = sdb_snapshots db h"
    using lat by (auto simp: latest_overlay_def without_host_def)
  moreover have "project_session row p = row" if "sdb_latest db' (ss_host s, i) = Some row" for row
  proof -
    have "(i, row) \<in> set (map (\<lambda>q. (sr_session_id q, latest_columns (project_session q p))) (ss_sessions s))"
      by (rule map_of_SomeD [OF that [unfolded view]])
    then obtain q where "row = latest_columns (project_session q p)" by auto
    then show ?thesis
      by (simp add: project_latest project_session_idem)
  qed
  ultimately show ?thesis by blast
qed

theorem stored_view_is_projection_witness:
  "\<exists>db' r. apply_snapshot example_float_ops example_policy 2000 example_snapshot empty_session_db = Inr (db', r)
     \<and> sdb_latest db' (ss_host example_snapshot, 2)
         = Some (latest_columns (project_session example_session example_policy))"
proof -
  obtain db' r where a: "apply_snapshot example_float_ops example_policy 2000 example_snapshot empty_session_db = Inr (db', r)"
    "ar_accepted r" using example_accepted by blast
  have f: "fences_valid empty_session_db" using empty_db_ok by (simp add: session_db_ok_def)
  have "ss_collection_error example_snapshot = None" by (simp add: example_snapshot_def)
  from stored_view_is_projection [OF f a this, of 2, THEN conjunct1]
  have "sdb_latest db' (ss_host example_snapshot, 2) = map_of (map (\<lambda>q.
      (sr_session_id q, latest_columns (project_session q example_policy))) (ss_sessions example_snapshot)) 2" .
  also have "ss_sessions example_snapshot = [example_session]" by (simp add: example_snapshot_def)
  also have "map_of (map (\<lambda>q. (sr_session_id q, latest_columns (project_session q example_policy))) [example_session]) 2
      = Some (latest_columns (project_session example_session example_policy))"
    by (simp add: example_session_def)
  finally show ?thesis using a by blast
qed

text \<open>
  What the agent's validation accepts, the store can hold. In a database reachable from the
  empty one by any sequence of operations, \<open>Apply\<close> of a snapshot that passes \<open>Validate\<close> never fails:
  no CHECK constraint, key conflict or unreadable fence stops it.
\<close>

theorem validated_snapshot_is_stored:
  assumes "validate_snapshot s = None" and "0 \<le> now"
  shows "\<exists>db' r. apply_snapshot fo p now s (fold (session_step fo) ops empty_session_db) = Inr (db', r)"
proof -
  let ?db = "fold (session_step fo) ops empty_session_db"
  have ok: "session_db_ok ?db" by (rule session_db.inv_run [OF empty_db_ok])
  obtain i where i: "parse_uuidv7 (ss_agent_instance s) = Some i"
    using validate_snapshot_header(3) [OF assms(1)] by blast
  have "rows_valid ?db" "rows_valid (?db\<lparr>sdb_fence := f\<rparr>)" for f
    using ok by (simp_all add: session_db_ok_def rows_valid_def)
  then have "\<exists>db' r. record_attempt fo p now (s\<lparr>ss_agent_instance := uuid_string i\<rparr>) ?db = Inr (db', r)"
    "\<exists>db' r. record_attempt fo p now (s\<lparr>ss_agent_instance := uuid_string i\<rparr>) (?db\<lparr>sdb_fence := f\<rparr>) = Inr (db', r)" for f
    using validated_record [OF assms] by blast+
  moreover have "\<not> (case sdb_fence ?db (ss_host s) of None \<Rightarrow> False | Some m \<Rightarrow> parse_uuidv7 (uuid_string m) = None)"
    using ok fence_readable by (auto simp: session_db_ok_def fences_valid_def split: option.split)
  ultimately show ?thesis
    using i validated_for_store [OF assms(1)] by (auto simp: apply_snapshot_def Let_def)
qed

theorem validated_snapshot_is_stored_witness:
  "\<exists>db' r. apply_snapshot example_float_ops example_policy 2000 example_snapshot
     (fold (session_step example_float_ops) [OpReserve (replicate 16 0) 5 (ss_host example_snapshot)] empty_session_db)
   = Inr (db', r)"
  by (rule validated_snapshot_is_stored [OF example_snapshot_valid]) simp

end
