(* ===== verification/ActionRequests.thy ===== *)
theory ActionRequests
  imports SessionProjection
begin

text \<open>
  Session action requests (\<open>internal/sessiondata/model.go\<close> and \<open>action_command.go\<close>): normalising
  a dashboard request, its fingerprint payload, the validation of the commands and reports that
  travel between dashboard and agent; and the shadow protocol URI (\<open>shadow_protocol.go\<close>). The
  acceptance test of \<open>github.com/google/uuid\<close>'s \<open>Parse\<close> and SHA-256 are arguments.
\<close>

subsection \<open>Normalising a request\<close>

definition valid_action_type :: "string \<Rightarrow> bool" where
  "valid_action_type t \<longleftrightarrow> t = ''logoff'' \<or> t = ''message'' \<or> t = ''disconnect''"

record action_request =
  rq_type :: string
  rq_logon :: int
  rq_message :: "string option"

record normalized_request =
  nr_type :: string
  nr_logon :: int
  nr_message :: string

datatype request_error =
    RequestLogon | RequestMessageNotEmpty | RequestMessageMissing | RequestMessageInvalid | RequestType

definition normalize_action_request :: "action_request \<Rightarrow> request_error + normalized_request" where
  "normalize_action_request q =
     (if rq_logon q < 0 \<or> rq_logon q > max_unix_millis then Inl RequestLogon
      else if rq_type q = ''logoff'' \<or> rq_type q = ''disconnect'' then
        (if rq_message q \<noteq> None \<and> rq_message q \<noteq> Some [] then Inl RequestMessageNotEmpty
         else Inr \<lparr>nr_type = rq_type q, nr_logon = rq_logon q, nr_message = []\<rparr>)
      else if rq_type q = ''message'' then
        (case rq_message q of
           None \<Rightarrow> Inl RequestMessageMissing
         | Some m \<Rightarrow>
             if \<not> valid_action_message (trim_space m) then Inl RequestMessageInvalid
             else Inr \<lparr>nr_type = rq_type q, nr_logon = rq_logon q, nr_message = trim_space m\<rparr>)
      else Inl RequestType)"

text \<open>The payload of \<open>Fingerprint\<close>: every field behind its length in four big-endian bytes.\<close>

definition put_uint32 :: "nat \<Rightarrow> string" where
  "put_uint32 n = map (\<lambda>k. char_of (n div 256 ^ k mod 256)) [3, 2, 1, 0]"

definition format_int :: "int \<Rightarrow> string" where
  "format_int i = (if i < 0 then CHR ''-'' # format_uint (nat (- i)) else format_uint (nat i))"

definition fingerprint_payload :: "normalized_request \<Rightarrow> string" where
  "fingerprint_payload q =
     concat (map (\<lambda>v. put_uint32 (length v) @ v) [nr_type q, format_int (nr_logon q), nr_message q])"

definition fingerprint :: "(string \<Rightarrow> string) \<Rightarrow> normalized_request \<Rightarrow> string" where
  "fingerprint sha256 q = sha256 (fingerprint_payload q)"

subsection \<open>Commands and reports\<close>

definition max_session_action_commands :: nat where "max_session_action_commands = 20"

record pending_action =
  pa_id :: string
  pa_type :: string
  pa_session :: u32
  pa_logon :: int
  pa_expires :: int
  pa_message :: "string option"

record completed_action =
  ca_id :: string
  ca_outcome :: string

definition valid_pending_action :: "(string \<Rightarrow> bool) \<Rightarrow> pending_action \<Rightarrow> bool" where
  "valid_pending_action uuid_ok a \<longleftrightarrow>
     uuid_ok (pa_id a) \<and> valid_timestamp (pa_logon a) \<and> valid_timestamp (pa_expires a)
     \<and> \<not> pa_expires a < pa_logon a
     \<and> (if pa_type a = ''logoff'' \<or> pa_type a = ''disconnect''
        then \<not> (pa_message a \<noteq> None \<and> pa_message a \<noteq> Some [])
        else if pa_type a = ''message''
        then (case pa_message a of None \<Rightarrow> False | Some m \<Rightarrow> valid_action_message m)
        else False)"

definition valid_completed_action :: "(string \<Rightarrow> bool) \<Rightarrow> completed_action \<Rightarrow> bool" where
  "valid_completed_action uuid_ok a \<longleftrightarrow> uuid_ok (ca_id a) \<and> outcome_valid (ca_outcome a)"

definition valid_pending_actions :: "(string \<Rightarrow> bool) \<Rightarrow> pending_action list \<Rightarrow> bool" where
  "valid_pending_actions uuid_ok as \<longleftrightarrow>
     \<not> length as > max_session_action_commands \<and> list_all (valid_pending_action uuid_ok) as"

definition valid_completed_actions :: "(string \<Rightarrow> bool) \<Rightarrow> completed_action list \<Rightarrow> bool" where
  "valid_completed_actions uuid_ok as \<longleftrightarrow>
     \<not> length as > max_session_action_commands \<and> list_all (valid_completed_action uuid_ok) as"

definition valid_acknowledged_ids :: "(string \<Rightarrow> bool) \<Rightarrow> string list \<Rightarrow> bool" where
  "valid_acknowledged_ids uuid_ok ids \<longleftrightarrow>
     \<not> length ids > max_session_action_commands \<and> list_all uuid_ok ids"

subsection \<open>Shadow targets\<close>

definition shadow_command :: "string \<Rightarrow> u32 \<Rightarrow> string option" where
  "shadow_command host session =
     (if valid_canonical_host host
      then Some (''mstsc.exe /v:'' @ host @ '' /shadow:'' @ format_uint (unat session) @ '' /control'')
      else None)"

abbreviation "shadow_prefix \<equiv> ''drainctl-shadow://shadow?''"

definition shadow_uri :: "string \<Rightarrow> u32 \<Rightarrow> string option" where
  "shadow_uri host session =
     (if valid_canonical_host host
      then Some (''drainctl-shadow'' @ ''://shadow?host='' @ host @ ''&session=''
                 @ format_uint (unat session))
      else None)"

definition parse_shadow_uri :: "string \<Rightarrow> (string \<times> u32) option" where
  "parse_shadow_uri raw =
     (if length raw = 0 \<or> length raw > 2048 then None
      else if CHR ''%'' \<in> set raw then None
      else if \<not> has_prefix raw shadow_prefix then None
      else let query = trim_prefix raw shadow_prefix in
      if query = [] \<or> contains_any query ''#/;'' then None
      else let parts = split_on (CHR ''&'') query in
      if length parts \<noteq> 2 \<or> \<not> has_prefix (parts ! 0) ''host='' \<or> \<not> has_prefix (parts ! 1) ''session=''
      then None
      else let host = trim_prefix (parts ! 0) ''host='';
               session = trim_prefix (parts ! 1) ''session='' in
      if host = [] \<or> session = [] then None
      else if \<not> valid_canonical_host host then None
      else case parse_uint 32 session of None \<Rightarrow> None | Some n \<Rightarrow>
        if session \<noteq> format_uint n then None else Some (host, of_nat n))"

lemma unat_u32: "unat (d :: u32) < 2 ^ 32"
  by (rule order_less_le_trans [OF unsigned_less]) simp

lemma format_uint_length: "n < 10 ^ k \<Longrightarrow> 0 < k \<Longrightarrow> length (format_uint n) \<le> k"
proof (induction k arbitrary: n)
  case (Suc k)
  show ?case
  proof (cases "n < 10")
    case False
    then have "0 < k" using Suc.prems(1) by (cases k) auto
    with Suc.IH [of "n div 10"] Suc.prems(1) False show ?thesis
      by (subst format_uint.simps) auto
  qed (simp add: format_uint.simps)
qed simp

lemma format_uint_set: "set (format_uint n) \<inter> set ''%&=#/;:? '' = {}"
proof (rule ccontr)
  assume "\<not> ?thesis"
  then obtain c where "c \<in> set (format_uint n)" "c \<in> set ''%&=#/;:? ''" by blast
  with format_uint_digits [of n] show False by (auto simp: list_all_iff is_digit_def)
qed

lemma shadow_uri_parse:
  assumes "shadow_uri host session = Some raw"
  shows "parse_shadow_uri raw = Some (host, session)"
proof -
  define ds where "ds = format_uint (unat session)"
  have h: "valid_canonical_host host" and raw: "raw = shadow_prefix @ ''host='' @ host @ ''&session='' @ ds"
    using assms by (auto simp: shadow_uri_def ds_def split: if_splits)
  have len: "length host \<le> 253" using h by (simp add: valid_canonical_host_def)
  have "length ds \<le> 10"
    using format_uint_length [of "unat session" 10] unat_u32 [of session] by (simp add: ds_def)
  note free = valid_host_free [OF h] format_uint_set [of "unat session", folded ds_def]
  have amp: "CHR ''&'' \<notin> set (''host='' @ host)" "CHR ''&'' \<notin> set (''session='' @ ds)"
    using free by auto
  have q: "split_on (CHR ''&'') (''host='' @ host @ ''&session='' @ ds) = [''host='' @ host, ''session='' @ ds]"
    using split_on_append [OF amp(1), of "''session='' @ ds"] split_on_none [OF amp(2)] by simp
  have "trim_prefix raw shadow_prefix = ''host='' @ host @ ''&session='' @ ds"
    unfolding raw by (rule trim_prefix_append)
  moreover have "has_prefix raw shadow_prefix" unfolding raw by (rule has_prefix_append)
  moreover have "has_prefix (''host='' @ host) ''host=''" "trim_prefix (''host='' @ host) ''host='' = host"
    "has_prefix (''session='' @ ds) ''session=''" "trim_prefix (''session='' @ ds) ''session='' = ds"
    by (rule has_prefix_append trim_prefix_append)+
  moreover have "\<not> contains_any (''host='' @ host @ ''&session='' @ ds) ''#/;''"
    using free by (auto simp: contains_any_iff)
  moreover have "CHR ''%'' \<notin> set raw" using free by (auto simp: raw)
  moreover have "parse_uint 32 ds = Some (unat session)"
    unfolding ds_def by (rule parse_format_uint [OF unat_u32])
  moreover have "ds \<noteq> []" "host \<noteq> []" using valid_host_nonempty [OF h] by (simp_all add: ds_def)
  moreover have "\<not> (length raw = 0 \<or> length raw > 2048)"
    using len \<open>length ds \<le> 10\<close> by (simp add: raw)
  ultimately show ?thesis
    using h q by (simp add: parse_shadow_uri_def Let_def ds_def del: append.simps)
qed

lemma parse_shadow_uri_Some:
  assumes "parse_shadow_uri raw = Some (host, session)"
  shows "shadow_uri host session = Some raw"
proof -
  define query where "query = trim_prefix raw shadow_prefix"
  define parts where "parts = split_on (CHR ''&'') query"
  have p: "has_prefix raw shadow_prefix" "length parts = 2"
    "has_prefix (parts ! 0) ''host=''" "has_prefix (parts ! 1) ''session=''"
    "host = trim_prefix (parts ! 0) ''host=''" "valid_canonical_host host"
    using assms by (auto simp: parse_shadow_uri_def Let_def query_def parts_def
        split: if_split_asm option.split_asm)
  obtain n where n: "parse_uint 32 (trim_prefix (parts ! 1) ''session='') = Some n"
    "trim_prefix (parts ! 1) ''session='' = format_uint n" "session = of_nat n"
    using assms by (auto simp: parse_shadow_uri_def Let_def query_def parts_def
        split: if_split_asm option.split_asm)
  have "n < 2 ^ 32" using n(1) by (auto simp: parse_uint_def Let_def split: if_split_asm)
  then have un: "unat session = n" by (simp add: n(3) unat_of_nat take_bit_nat_eq_self)
  obtain a b where ab: "parts = [a, b]" using p(2) by (auto simp: length_Suc_conv eval_nat_numeral)
  have "query = join_with (CHR ''&'') parts" by (simp add: parts_def join_split)
  also have "\<dots> = a @ CHR ''&'' # b" by (simp add: ab)
  finally have "raw = shadow_prefix @ a @ CHR ''&'' # b"
    using has_prefix_split [OF p(1)] by (simp add: query_def)
  moreover have "a = ''host='' @ host" "b = ''session='' @ format_uint n"
    using has_prefix_split [OF p(3)] has_prefix_split [OF p(4)] p(5) n(2) by (simp_all add: ab)
  ultimately show ?thesis using p(6) un by (simp add: shadow_uri_def)
qed

definition print_shadow :: "string \<times> u32 \<Rightarrow> string" where
  "print_shadow t = the (shadow_uri (fst t) (snd t))"

interpretation shadow: canonical_codec print_shadow parse_shadow_uri "\<lambda>t. valid_canonical_host (fst t)"
proof unfold_locales
  fix t :: "string \<times> u32" assume "valid_canonical_host (fst t)"
  then obtain raw where "shadow_uri (fst t) (snd t) = Some raw" by (simp add: shadow_uri_def)
  then show "parse_shadow_uri (print_shadow t) = Some t"
    by (simp add: print_shadow_def shadow_uri_parse)
next
  fix s and t :: "string \<times> u32" assume "parse_shadow_uri s = Some t"
  then have "shadow_uri (fst t) (snd t) = Some s" by (intro parse_shadow_uri_Some) simp
  then show "valid_canonical_host (fst t)" "print_shadow t = s"
    by (simp_all add: print_shadow_def shadow_uri_def split: if_splits)
qed

subsection \<open>The fingerprint payload\<close>

lemma length_put_uint32 [simp]: "length (put_uint32 n) = 4"
  by (simp add: put_uint32_def)

lemma char_of_inject_byte: "m < 256 \<Longrightarrow> n < 256 \<Longrightarrow> char_of m = (char_of n :: char) \<longleftrightarrow> m = (n :: nat)"
  by (metis ord_char_of)

lemma bytes_sum:
  assumes "m < (2 :: nat) ^ 32"
  shows "m = m mod 256 + 256 * (m div 256 ^ 1 mod 256) + 65536 * (m div 256 ^ 2 mod 256)
    + 16777216 * (m div 256 ^ 3 mod 256)"
proof -
  define m1 m2 m3 where "m1 = m div 256" and "m2 = m1 div 256" and "m3 = m2 div 256"
  have "m3 < 256" using assms by (simp add: m1_def m2_def m3_def div_mult2_eq [symmetric])
  define r0 r1 r2 where "r0 = m mod 256" and "r1 = m1 mod 256" and "r2 = m2 mod 256"
  have "m = 256 * m1 + r0" "m1 = 256 * m2 + r1" "m2 = 256 * m3 + r2"
    by (simp_all add: m1_def m2_def m3_def r0_def r1_def r2_def)
  then have "m = r0 + 256 * r1 + 65536 * r2 + 16777216 * m3" by linarith
  moreover have "m mod 256 = r0" "m div 256 ^ 1 mod 256 = r1" "m div 256 ^ 2 mod 256 = r2"
    "m div 256 ^ 3 mod 256 = m3"
    using \<open>m3 < 256\<close> by (simp_all add: m1_def m2_def m3_def r0_def r1_def r2_def div_mult2_eq [symmetric])
  ultimately show ?thesis by simp
qed

lemma put_uint32_inject:
  assumes "put_uint32 m = put_uint32 n" and "m < 2 ^ 32" and "n < 2 ^ 32"
  shows "m = n"
proof -
  have eq: "m div 256 ^ k mod 256 = n div 256 ^ k mod 256" if "k \<in> {0, 1, 2, 3}" for k
  proof -
    have "\<forall>k \<in> set [3, 2, 1, 0]. char_of (m div 256 ^ k mod 256) = (char_of (n div 256 ^ k mod 256) :: char)"
      using assms(1) unfolding put_uint32_def map_eq_conv .
    then have "char_of (m div 256 ^ k mod 256) = (char_of (n div 256 ^ k mod 256) :: char)"
      by (rule bspec) (use that in auto)
    then show ?thesis by (subst (asm) char_of_inject_byte) simp_all
  qed
  show ?thesis
    by (subst bytes_sum [OF assms(2)], subst bytes_sum [OF assms(3)])
      (use eq [of 0] eq [of 1] eq [of 2] eq [of 3] in simp)
qed

lemma field_inject:
  assumes "put_uint32 (length v) @ v @ r = put_uint32 (length w) @ w @ s"
    and "length v < 2 ^ 32" and "length w < 2 ^ 32"
  shows "v = w \<and> r = s"
proof -
  have "put_uint32 (length v) = put_uint32 (length w)" "v @ r = w @ s"
    using assms(1) by (simp_all add: append_eq_append_conv)
  then show ?thesis using put_uint32_inject [OF _ assms(2,3)] by simp
qed

lemma rune_at_width: "rune_at r bs n \<Longrightarrow> n \<le> 4"
  by (induction rule: rune_at.induct) auto

lemma sum_length_bound:
  "\<forall>c \<in> set cs. length (snd c) \<le> n \<Longrightarrow> sum_list (map (length \<circ> snd) cs) \<le> n * length cs"
  by (induction cs) auto

lemma valid_text_length: "utf8_valid s \<Longrightarrow> length s \<le> 4 * length (runes s)"
proof -
  assume v: "utf8_valid s"
  have "length bs \<le> 4" if "(r, bs) \<in> set (utf8_chunks s)" for r bs
    using rune_at_width [OF valid_chunks [OF v that]] .
  then have "\<forall>c \<in> set (utf8_chunks s). length (snd c) \<le> 4" by auto
  then have "sum_list (map (length \<circ> snd) (utf8_chunks s)) \<le> 4 * length (utf8_chunks s)"
    by (rule sum_length_bound)
  moreover have "length s = sum_list (map (length \<circ> snd) (utf8_chunks s))"
    using arg_cong [OF concat_utf8_chunks [of s], of length] by (simp add: length_concat comp_def)
  ultimately show ?thesis by (simp add: runes_def)
qed

lemma normalized_lengths:
  assumes "normalize_action_request q = Inr n"
  shows "length (nr_type n) < 2 ^ 32" and "length (format_int (nr_logon n)) < 2 ^ 32"
    and "length (nr_message n) < 2 ^ 32" and "0 \<le> nr_logon n"
proof -
  show "0 \<le> nr_logon n" and "length (nr_type n) < 2 ^ 32"
    using assms by (auto simp: normalize_action_request_def split: if_splits option.splits)
  have "nr_logon n \<le> max_unix_millis"
    using assms by (auto simp: normalize_action_request_def split: if_splits option.splits)
  then have "length (format_uint (nat (nr_logon n))) \<le> 15"
    by (intro format_uint_length) (simp_all add: max_unix_millis_def)
  then show "length (format_int (nr_logon n)) < 2 ^ 32"
    using \<open>0 \<le> nr_logon n\<close> by (simp add: format_int_def)
  have "nr_message n = [] \<or> valid_action_message (nr_message n)"
    using assms by (auto simp: normalize_action_request_def split: if_splits option.splits)
  then show "length (nr_message n) < 2 ^ 32"
    using valid_text_length [of "nr_message n"] by (auto simp: valid_action_message_def)
qed

subsection \<open>Properties\<close>

text \<open>
  The shadow URI is canonical. \<open>ParseShadowURI\<close> accepts a text and returns a target exactly
  when \<open>ShadowURI\<close> prints that text for that target, so every accepted activation names one valid
  host and one 32-bit session id and no other spelling of it is accepted.
\<close>

theorem shadow_uri_canonical:
  "parse_shadow_uri raw = Some (host, session) \<longleftrightarrow> shadow_uri host session = Some raw"
  using shadow.dec_iff [of raw "(host, session)"]
  by (auto simp: print_shadow_def shadow_uri_def split: if_splits)

text \<open>
  Distinct requests have distinct fingerprint payloads. Two requests that normalise and have
  the same payload (the SHA-256 input of the idempotency check) agree on type, expected logon time
  and message, whatever bytes the messages hold.
\<close>

theorem fingerprint_payload_injective:
  assumes "normalize_action_request a = Inr x" and "normalize_action_request b = Inr y"
    and "fingerprint_payload x = fingerprint_payload y"
  shows "x = y"
proof -
  note lx = normalized_lengths [OF assms(1)] and ly = normalized_lengths [OF assms(2)]
  have e: "put_uint32 (length (nr_type x)) @ nr_type x @ put_uint32 (length (format_int (nr_logon x)))
        @ format_int (nr_logon x) @ put_uint32 (length (nr_message x)) @ nr_message x @ []
      = put_uint32 (length (nr_type y)) @ nr_type y @ put_uint32 (length (format_int (nr_logon y)))
        @ format_int (nr_logon y) @ put_uint32 (length (nr_message y)) @ nr_message y @ []"
    using assms(3) by (simp add: fingerprint_payload_def)
  from field_inject [OF e lx(1) ly(1)] have t: "nr_type x = nr_type y"
    and e2: "put_uint32 (length (format_int (nr_logon x))) @ format_int (nr_logon x)
        @ put_uint32 (length (nr_message x)) @ nr_message x @ []
      = put_uint32 (length (format_int (nr_logon y))) @ format_int (nr_logon y)
        @ put_uint32 (length (nr_message y)) @ nr_message y @ []" by simp_all
  from field_inject [OF e2 lx(2) ly(2)] have l: "format_int (nr_logon x) = format_int (nr_logon y)"
    and e3: "put_uint32 (length (nr_message x)) @ nr_message x @ []
      = put_uint32 (length (nr_message y)) @ nr_message y @ []" by simp_all
  from field_inject [OF e3 lx(3) ly(3)] have "nr_message x = nr_message y" by simp
  moreover have "nr_logon x = nr_logon y"
    using l lx(4) ly(4) by (simp add: format_int_def format_uint_inject eq_nat_nat_iff)
  ultimately show ?thesis using t by simp
qed

theorem fingerprint_payload_injective_witness:
  "fingerprint_payload \<lparr>nr_type = ''logoff'', nr_logon = 12, nr_message = []\<rparr>
     \<noteq> fingerprint_payload \<lparr>nr_type = ''disconnect'', nr_logon = 12, nr_message = []\<rparr>"
  using fingerprint_payload_injective
    [of "\<lparr>rq_type = ''logoff'', rq_logon = 12, rq_message = None\<rparr>"
      "\<lparr>nr_type = ''logoff'', nr_logon = 12, nr_message = []\<rparr>"
      "\<lparr>rq_type = ''disconnect'', rq_logon = 12, rq_message = None\<rparr>"
      "\<lparr>nr_type = ''disconnect'', nr_logon = 12, nr_message = []\<rparr>"]
  by (auto simp: normalize_action_request_def max_unix_millis_def)

end
