(* ===== verification/ActionStore.thy ===== *)
theory ActionStore
  imports SnapshotStore ActionRequests
begin

text \<open>
  The dashboard's durable action outbox with its audit trail
  (\<open>internal/telemetry/session_action_store.go\<close>, tables of \<open>migrate_sessions.go\<close>): enqueueing
  with idempotent replay, delivery, completion, expiry, privacy cancellation, retention. The
  outbox is a list of rows in the order of insertion; \<open>LIMIT\<close>ed selections sort as the queries do.
  A transaction that violates a CHECK constraint, a primary key or the idempotency index is an
  error and leaves the database as it was. The clock (in milliseconds) and the source of fresh
  event ids are arguments; the \<open>n\<close>-th event of a transaction gets the \<open>n\<close>-th id.
\<close>

subsection \<open>Rows\<close>

record session_action =
  sa_id :: string
  sa_host :: string
  sa_session :: u32
  sa_logon :: int
  sa_type :: string
  sa_state :: string
  sa_created :: int
  sa_expires :: int
  sa_requested_by :: string
  sa_key :: string
  sa_fingerprint :: string

record outbox_row =
  ob_action :: session_action
  ob_ciphertext :: "string option"
  ob_protection :: "string option"
  ob_endpoint :: string
  ob_delivered :: "int option"
  ob_completed :: "int option"
  ob_result :: "string option"

record audit_event =
  ev_id :: string
  ev_at :: int
  ev_action :: string
  ev_type :: string
  ev_host :: string
  ev_session :: u32
  ev_logon :: int
  ev_transition :: string
  ev_result :: "string option"
  ev_requested_by :: "string option"

record action_status =
  st_id :: string
  st_type :: string
  st_host :: string
  st_session :: u32
  st_logon :: int
  st_state :: string
  st_created :: int
  st_expires :: int
  st_completed :: "int option"
  st_result :: "string option"

record action_db =
  adb_outbox :: "outbox_row list"
  adb_audit :: "audit_event list"
  adb_sessions :: session_db

definition active_state :: "string \<Rightarrow> bool" where
  "active_state s \<longleftrightarrow> s = ''queued'' \<or> s = ''delivered''"

abbreviation "row_id r \<equiv> sa_id (ob_action r)"
abbreviation "row_state r \<equiv> sa_state (ob_action r)"
abbreviation "row_active r \<equiv> active_state (row_state r)"

definition idempotency_key :: "outbox_row \<Rightarrow> string \<times> string \<times> string" where
  "idempotency_key r = (sa_requested_by (ob_action r), ob_endpoint r, sa_key (ob_action r))"

subsection \<open>Constraints\<close>

definition check_outbox_row :: "outbox_row \<Rightarrow> bool" where
  "check_outbox_row r \<longleftrightarrow>
     (let a = ob_action r in
      sa_logon a \<ge> 0 \<and> valid_action_type (sa_type a) \<and> sa_created a \<ge> 0 \<and> sa_expires a \<ge> 0
      \<and> action_state_valid (sa_state a)
      \<and> (case ob_delivered r of None \<Rightarrow> True | Some t \<Rightarrow> t \<ge> 0)
      \<and> (case ob_completed r of None \<Rightarrow> True | Some t \<Rightarrow> t \<ge> 0)
      \<and> sa_expires a = sa_created a + 300000
      \<and> ((sa_state a = ''queued'') = (ob_delivered r = None))
      \<and> (active_state (sa_state a) = (ob_completed r = None))
      \<and> (active_state (sa_state a) = (ob_result r = None))
      \<and> (sa_type a = ''message'' \<or> ob_ciphertext r = None \<and> ob_protection r = None)
      \<and> (sa_type a \<noteq> ''message''
         \<or> active_state (sa_state a) \<and> ob_ciphertext r \<noteq> None \<and> ob_protection r \<noteq> None
         \<or> \<not> active_state (sa_state a) \<and> (ob_ciphertext r = None) = (ob_protection r = None)))"

definition valid_transition :: "string \<Rightarrow> bool" where
  "valid_transition t \<longleftrightarrow> action_state_valid t \<or> t = ''protocol_invalid''"

definition check_audit_event :: "audit_event \<Rightarrow> bool" where
  "check_audit_event e \<longleftrightarrow>
     ev_at e \<ge> 0 \<and> valid_action_type (ev_type e) \<and> ev_logon e \<ge> 0 \<and> valid_transition (ev_transition e)
     \<and> ((ev_transition e = ''queued'') = (ev_requested_by e \<noteq> None))
     \<and> (active_state (ev_transition e) = (ev_result e = None))"

definition action_db_ok :: "action_db \<Rightarrow> bool" where
  "action_db_ok db \<longleftrightarrow>
     list_all check_outbox_row (adb_outbox db) \<and> list_all check_audit_event (adb_audit db)
     \<and> distinct (map row_id (adb_outbox db)) \<and> distinct (map idempotency_key (adb_outbox db))
     \<and> distinct (map ev_id (adb_audit db))"

subsection \<open>Helpers of the source\<close>

datatype action_error =
    ActionInvalid | ActionIdempotencyData | ActionMessageMissing | ActionMessageUnexpected
  | ActionIdempotencyConflict | ActionDisabled | ActionSnapshotNotFound | ActionHostNotFresh
  | ActionUnsupported | ActionSessionNotFound | ActionIdentityChanged | ActionProtocolInvalid
  | ActionConstraint | ActionRetentionLimit | ActionNotFound

definition valid_action :: "session_action \<Rightarrow> bool" where
  "valid_action a \<longleftrightarrow>
     \<not> (sa_id a = [] \<or> sa_host a = [] \<or> sa_requested_by a = [] \<or> sa_key a = []
        \<or> (sa_type a \<noteq> ''disconnect'' \<and> sa_type a \<noteq> ''logoff'' \<and> sa_type a \<noteq> ''message'')
        \<or> sa_state a \<noteq> ''queued'' \<or> sa_logon a < 0 \<or> sa_created a < 0
        \<or> sa_expires a \<noteq> sa_created a + 300000)"

definition action_status_of :: "session_action \<Rightarrow> int option \<Rightarrow> string option \<Rightarrow> action_status" where
  "action_status_of a completed result =
     \<lparr>st_id = sa_id a, st_type = sa_type a, st_host = sa_host a, st_session = sa_session a,
      st_logon = sa_logon a, st_state = sa_state a, st_created = sa_created a,
      st_expires = sa_expires a, st_completed = completed, st_result = result\<rparr>"

definition row_status :: "outbox_row \<Rightarrow> action_status" where
  "row_status r = action_status_of (ob_action r) (ob_completed r) (ob_result r)"

definition action_audit_from ::
  "string \<Rightarrow> session_action \<Rightarrow> string \<Rightarrow> string option \<Rightarrow> string option \<Rightarrow> audit_event" where
  "action_audit_from event_id a transition code requested_by =
     \<lparr>ev_id = event_id, ev_at = sa_created a, ev_action = sa_id a, ev_type = sa_type a,
      ev_host = sa_host a, ev_session = sa_session a, ev_logon = sa_logon a,
      ev_transition = transition, ev_result = code, ev_requested_by = requested_by\<rparr>"

definition append_action_audit :: "audit_event \<Rightarrow> action_db \<Rightarrow> action_db" where
  "append_action_audit e db = db\<lparr>adb_audit := adb_audit db @ [e]\<rparr>"

text \<open>\<open>UPDATE session_action_outbox SET \<dots> WHERE action_id = ?\<close>.\<close>

definition update_row :: "string \<Rightarrow> (outbox_row \<Rightarrow> outbox_row) \<Rightarrow> action_db \<Rightarrow> action_db" where
  "update_row i f db = db\<lparr>adb_outbox := map (\<lambda>r. if row_id r = i then f r else r) (adb_outbox db)\<rparr>"

text \<open>Commit: the constraints hold or the transaction is rolled back.\<close>

definition commit_action :: "action_db \<Rightarrow> 'a \<Rightarrow> action_error + (action_db \<times> 'a)" where
  "commit_action db x = (if action_db_ok db then Inr (db, x) else Inl ActionConstraint)"

definition nullable :: "string \<Rightarrow> string option" where
  "nullable b = (if b = [] then None else Some b)"

definition validate_action_target :: "session_action \<Rightarrow> int \<Rightarrow> session_db \<Rightarrow> action_error option" where
  "validate_action_target a fresh_since sdb =
     (case sdb_snapshots sdb (sa_host a) of None \<Rightarrow> Some ActionSnapshotNotFound | Some s \<Rightarrow>
      if sn_error_code s \<noteq> None
         \<or> (case sn_success_received s of None \<Rightarrow> True | Some t \<Rightarrow> t < fresh_since)
      then Some ActionHostNotFresh
      else if \<not> (case sn_capabilities s of None \<Rightarrow> False | Some c \<Rightarrow> cap_session_actions c)
      then Some ActionUnsupported
      else (case sdb_latest sdb (sa_host a, sa_session a) of
              None \<Rightarrow> Some ActionSessionNotFound
            | Some r \<Rightarrow> if sr_logon_at r \<noteq> Some (sa_logon a) then Some ActionIdentityChanged else None))"

subsection \<open>Enqueueing\<close>

record action_enqueue =
  en_action :: session_action
  en_endpoint :: string
  en_ciphertext :: string
  en_protection :: string
  en_validate_target :: bool
  en_enabled :: bool
  en_fresh_since :: int

definition find_row :: "(outbox_row \<Rightarrow> bool) \<Rightarrow> action_db \<Rightarrow> outbox_row option" where
  "find_row P db = List.find P (adb_outbox db)"

definition enqueue_action ::
  "(nat \<Rightarrow> string) \<Rightarrow> action_enqueue \<Rightarrow> action_db \<Rightarrow> action_error + (action_db \<times> action_status \<times> bool)" where
  "enqueue_action ids input db =
     (let a = en_action input in
      if \<not> valid_action a then Inl ActionInvalid
      else if en_endpoint input = [] \<or> sa_fingerprint a = [] then Inl ActionIdempotencyData
      else if sa_type a = ''message'' \<and> (en_ciphertext input = [] \<or> en_protection input = [])
      then Inl ActionMessageMissing
      else if sa_type a \<noteq> ''message'' \<and> (en_ciphertext input \<noteq> [] \<or> en_protection input \<noteq> [])
      then Inl ActionMessageUnexpected
      else
        case find_row (\<lambda>r. idempotency_key r = (sa_requested_by a, en_endpoint input, sa_key a)) db of
          Some existing \<Rightarrow>
            if sa_fingerprint (ob_action existing) \<noteq> sa_fingerprint a then Inl ActionIdempotencyConflict
            else Inr (db, row_status existing, True)
        | None \<Rightarrow>
            (case (if en_validate_target input
                   then (if \<not> en_enabled input then Some ActionDisabled
                         else validate_action_target a (en_fresh_since input) (adb_sessions db))
                   else None) of
               Some e \<Rightarrow> Inl e
             | None \<Rightarrow>
                 let row = \<lparr>ob_action = a, ob_ciphertext = nullable (en_ciphertext input),
                            ob_protection = nullable (en_protection input),
                            ob_endpoint = en_endpoint input, ob_delivered = None,
                            ob_completed = None, ob_result = None\<rparr>;
                     db1 = db\<lparr>adb_outbox := adb_outbox db @ [row]\<rparr>;
                     db2 = append_action_audit
                       (action_audit_from (ids 0) a ''queued'' None (Some (sa_requested_by a))) db1
                 in commit_action db2 (action_status_of a None None, False)))"

subsection \<open>Expiry and cancellation\<close>

definition finish_row :: "int \<Rightarrow> string \<Rightarrow> string \<Rightarrow> outbox_row \<Rightarrow> outbox_row" where
  "finish_row now state code r =
     r\<lparr>ob_action := (ob_action r)\<lparr>sa_state := state\<rparr>,
       ob_delivered := (case ob_delivered r of None \<Rightarrow> Some now | Some t \<Rightarrow> Some t),
       ob_completed := Some now, ob_result := Some code, ob_ciphertext := None,
       ob_protection := None\<rparr>"

text \<open>The loop over the selected rows: update, audit, collect the status.\<close>

fun finish_rows ::
  "(nat \<Rightarrow> string) \<Rightarrow> nat \<Rightarrow> int \<Rightarrow> string \<Rightarrow> string \<Rightarrow> outbox_row list \<Rightarrow> action_db
   \<Rightarrow> action_db \<times> action_status list" where
  "finish_rows ids n now state code [] db = (db, [])"
| "finish_rows ids n now state code (r # rs) db =
     (let db1 = update_row (row_id r) (finish_row now state code) db;
          a = (ob_action r)\<lparr>sa_state := state\<rparr>;
          e = (action_audit_from (ids n) a state (Some code) None)\<lparr>ev_at := now\<rparr>;
          db2 = append_action_audit e db1
      in case finish_rows ids (Suc n) now state code rs db2 of
           (db3, ss) \<Rightarrow> (db3, action_status_of a (Some now) (Some code) # ss))"

definition transition_matching_active ::
  "(nat \<Rightarrow> string) \<Rightarrow> int \<Rightarrow> string \<Rightarrow> string \<Rightarrow> bool \<Rightarrow> action_db \<Rightarrow> action_db \<times> action_status list" where
  "transition_matching_active ids now state code expired_only db =
     finish_rows ids 0 now state code
       (filter (\<lambda>r. row_active r \<and> (expired_only \<longrightarrow> sa_expires (ob_action r) \<le> now)) (adb_outbox db)) db"

definition expire_actions :: "(nat \<Rightarrow> string) \<Rightarrow> int \<Rightarrow> action_db \<Rightarrow> action_db \<times> action_status list" where
  "expire_actions ids now db = transition_matching_active ids now ''expired'' ''expired'' True db"

definition expire :: "(nat \<Rightarrow> string) \<Rightarrow> int \<Rightarrow> action_db \<Rightarrow> action_error + (action_db \<times> action_status list)" where
  "expire ids now db =
     (case transition_matching_active ids now ''expired'' ''expired'' True db of
        (db', ss) \<Rightarrow> commit_action db' ss)"

definition cancel_for_privacy ::
  "(nat \<Rightarrow> string) \<Rightarrow> int \<Rightarrow> action_db \<Rightarrow> action_error + (action_db \<times> action_status list)" where
  "cancel_for_privacy ids now db =
     (case transition_matching_active ids now ''expired'' ''privacy_policy_changed'' False db of
        (db', ss) \<Rightarrow> commit_action db' ss)"

definition purge_snapshots_for_privacy ::
  "(nat \<Rightarrow> string) \<Rightarrow> int \<Rightarrow> action_db \<Rightarrow> action_error + (action_db \<times> action_status list)" where
  "purge_snapshots_for_privacy ids now db =
     (case transition_matching_active ids now ''expired'' ''privacy_policy_changed'' False
             (db\<lparr>adb_sessions := delete_snapshots (\<lambda>_. True) (adb_sessions db)\<rparr>) of
        (db', ss) \<Rightarrow> commit_action db' ss)"

subsection \<open>Delivery\<close>

definition session_action_delivery_limit :: nat where "session_action_delivery_limit = 20"

record action_delivery =
  dl_action :: session_action
  dl_ciphertext :: string
  dl_protection :: string

definition row_delivery :: "outbox_row \<Rightarrow> action_delivery" where
  "row_delivery r =
     \<lparr>dl_action = ob_action r,
      dl_ciphertext = (case ob_ciphertext r of None \<Rightarrow> [] | Some c \<Rightarrow> c),
      dl_protection = (case ob_protection r of None \<Rightarrow> [] | Some p \<Rightarrow> p)\<rparr>"

definition delivery_order :: "outbox_row \<Rightarrow> int \<times> string" where
  "delivery_order r = (sa_created (ob_action r), row_id r)"

definition deliverable :: "string \<Rightarrow> int \<Rightarrow> outbox_row \<Rightarrow> bool" where
  "deliverable host now r \<longleftrightarrow>
     sa_host (ob_action r) = host \<and> row_active r \<and> sa_expires (ob_action r) > now"

definition select_deliverable :: "string \<Rightarrow> int \<Rightarrow> action_db \<Rightarrow> outbox_row list" where
  "select_deliverable host now db =
     take session_action_delivery_limit
       (sort_key delivery_order (filter (deliverable host now) (adb_outbox db)))"

definition mark_row :: "int \<Rightarrow> outbox_row \<Rightarrow> outbox_row" where
  "mark_row now r = r\<lparr>ob_action := (ob_action r)\<lparr>sa_state := ''delivered''\<rparr>, ob_delivered := Some now\<rparr>"

fun mark_delivered ::
  "(nat \<Rightarrow> string) \<Rightarrow> nat \<Rightarrow> int \<Rightarrow> action_delivery list \<Rightarrow> action_db \<Rightarrow> action_db \<times> action_delivery list" where
  "mark_delivered ids n now [] db = (db, [])"
| "mark_delivered ids n now (d # ds) db =
     (if sa_state (dl_action d) \<noteq> ''queued'' then
        (case mark_delivered ids n now ds db of (db', ds') \<Rightarrow> (db', d # ds'))
      else
        let a = dl_action d;
            db1 = update_row (sa_id a)
                    (\<lambda>r. if row_state r = ''queued'' then mark_row now r else r) db;
            a' = a\<lparr>sa_state := ''delivered''\<rparr>;
            e = (action_audit_from (ids n) a' ''delivered'' None None)\<lparr>ev_at := now\<rparr>;
            db2 = append_action_audit e db1
        in case mark_delivered ids (Suc n) now ds db2 of
             (db', ds') \<Rightarrow> (db', d\<lparr>dl_action := a'\<rparr> # ds'))"

definition deliver ::
  "(nat \<Rightarrow> string) \<Rightarrow> string \<Rightarrow> int \<Rightarrow> action_db \<Rightarrow> action_error + (action_db \<times> action_delivery list)" where
  "deliver ids host now db =
     (case expire_actions ids now db of
        (db1, ss) \<Rightarrow>
          (case mark_delivered ids (length ss) now (map row_delivery (select_deliverable host now db1)) db1 of
             (db2, result) \<Rightarrow> commit_action db2 result))"

subsection \<open>Completion\<close>

text \<open>
  A refused report commits too: expiry and the \<open>protocol_invalid\<close> audit event stay, and the
  answer is an error. The result carries the database with a status or the error.
\<close>

definition complete_action ::
  "(nat \<Rightarrow> string) \<Rightarrow> string \<Rightarrow> string \<Rightarrow> string \<Rightarrow> int \<Rightarrow> action_db
   \<Rightarrow> action_error + (action_db \<times> (action_error + action_status))" where
  "complete_action ids host i outcome now db =
     (case expire_actions ids now db of (db1, ss) \<Rightarrow>
      let n = length ss in
      case find_row (\<lambda>r. row_id r = i) db1 of
        None \<Rightarrow> Inl ActionProtocolInvalid
      | Some row \<Rightarrow>
          if sa_host (ob_action row) = host \<and> outcome_valid outcome
             \<and> row_state row \<noteq> ''queued'' \<and> row_state row \<noteq> ''delivered''
          then commit_action db1 (Inr (row_status row))
          else if sa_host (ob_action row) \<noteq> host \<or> \<not> outcome_valid outcome
                  \<or> outcome = ''duplicate'' \<or> row_state row \<noteq> ''delivered''
          then
            let e = (action_audit_from (ids n) (ob_action row) ''protocol_invalid''
                       (Some ''protocol_invalid'') None)\<lparr>ev_at := now\<rparr>
            in commit_action (append_action_audit e db1) (Inl ActionProtocolInvalid)
          else
            let db2 = update_row i (\<lambda>r. r\<lparr>ob_action := (ob_action r)\<lparr>sa_state := outcome\<rparr>,
                        ob_completed := Some now, ob_result := Some outcome,
                        ob_ciphertext := None, ob_protection := None\<rparr>) db1;
                a = (ob_action row)\<lparr>sa_state := outcome\<rparr>;
                e = (action_audit_from (ids n) a outcome (Some outcome) None)\<lparr>ev_at := now\<rparr>
            in commit_action (append_action_audit e db2)
                 (Inr (action_status_of a (Some now) (Some outcome))))"

subsection \<open>Status and retention\<close>

definition status_of_action :: "string \<Rightarrow> action_db \<Rightarrow> action_error + action_status" where
  "status_of_action i db =
     (case find_row (\<lambda>r. row_id r = i) db of None \<Rightarrow> Inl ActionNotFound | Some r \<Rightarrow> Inr (row_status r))"

definition retain_actions ::
  "int \<Rightarrow> int \<Rightarrow> int \<Rightarrow> action_db \<Rightarrow> action_error + (action_db \<times> nat \<times> nat)" where
  "retain_actions terminal_before audit_before limit db =
     (if limit \<le> 0 then Inl ActionRetentionLimit
      else
        let old = take (nat limit) (sort_key (\<lambda>r. (the (ob_completed r), row_id r))
              (filter (\<lambda>r. \<not> row_active r
                 \<and> (case ob_completed r of None \<Rightarrow> False | Some t \<Rightarrow> t < terminal_before)) (adb_outbox db)));
            gone = take (nat limit) (sort_key (\<lambda>e. (ev_at e, ev_id e))
              (filter (\<lambda>e. ev_at e < audit_before) (adb_audit db)));
            db' = db\<lparr>adb_outbox := filter (\<lambda>r. row_id r \<notin> set (map row_id old)) (adb_outbox db),
                     adb_audit := filter (\<lambda>e. ev_id e \<notin> set (map ev_id gone)) (adb_audit db)\<rparr>
        in commit_action db' (length old, length gone))"

subsection \<open>What the loops do to the tables\<close>

lemma commit_Inr: "commit_action db x = Inr (db', y) \<longleftrightarrow> db' = db \<and> y = x \<and> action_db_ok db"
  by (auto simp: commit_action_def)

lemma row_id_finish [simp]: "row_id (finish_row now st code r) = row_id r"
  by (simp add: finish_row_def)

lemma finish_row_twice [simp]:
  "finish_row now st code (finish_row now st code r) = finish_row now st code r"
  by (cases r) (simp add: finish_row_def split: option.split)

fun finish_events ::
  "(nat \<Rightarrow> string) \<Rightarrow> nat \<Rightarrow> int \<Rightarrow> string \<Rightarrow> string \<Rightarrow> outbox_row list \<Rightarrow> audit_event list" where
  "finish_events ids n now st code [] = []"
| "finish_events ids n now st code (r # rs) =
     (action_audit_from (ids n) ((ob_action r)\<lparr>sa_state := st\<rparr>) st (Some code) None)\<lparr>ev_at := now\<rparr>
       # finish_events ids (Suc n) now st code rs"

lemma finish_rows_effect:
  "adb_outbox (fst (finish_rows ids n now st code rs db))
     = map (\<lambda>r. if row_id r \<in> set (map row_id rs) then finish_row now st code r else r) (adb_outbox db)
   \<and> adb_audit (fst (finish_rows ids n now st code rs db)) = adb_audit db @ finish_events ids n now st code rs
   \<and> adb_sessions (fst (finish_rows ids n now st code rs db)) = adb_sessions db
   \<and> snd (finish_rows ids n now st code rs db)
       = map (\<lambda>r. action_status_of ((ob_action r)\<lparr>sa_state := st\<rparr>) (Some now) (Some code)) rs"
proof (induction rs arbitrary: n db)
  case (Cons r rs)
  define db2 where "db2 = append_action_audit
    ((action_audit_from (ids n) ((ob_action r)\<lparr>sa_state := st\<rparr>) st (Some code) None)\<lparr>ev_at := now\<rparr>)
    (update_row (row_id r) (finish_row now st code) db)"
  have step: "finish_rows ids n now st code (r # rs) db =
      (fst (finish_rows ids (Suc n) now st code rs db2),
       action_status_of ((ob_action r)\<lparr>sa_state := st\<rparr>) (Some now) (Some code)
         # snd (finish_rows ids (Suc n) now st code rs db2))"
    by (simp add: Let_def case_prod_beta db2_def)
  have tables: "adb_outbox db2 = map (\<lambda>q. if row_id q = row_id r then finish_row now st code q else q) (adb_outbox db)"
    "adb_audit db2 = adb_audit db @ [(action_audit_from (ids n) ((ob_action r)\<lparr>sa_state := st\<rparr>) st
       (Some code) None)\<lparr>ev_at := now\<rparr>]"
    "adb_sessions db2 = adb_sessions db"
    by (simp_all add: db2_def append_action_audit_def update_row_def)
  show ?case
    unfolding step using Cons.IH [of "Suc n" db2] by (auto simp: tables)
qed simp

lemma select_by_id:
  assumes "distinct (map row_id rs)" and "r \<in> set rs"
  shows "row_id r \<in> set (map row_id (filter P rs)) \<longleftrightarrow> P r"
proof
  assume "row_id r \<in> set (map row_id (filter P rs))"
  then obtain q where "q \<in> set rs" "P q" "row_id q = row_id r" by auto
  with assms show "P r" by (auto simp: distinct_map dest: inj_onD)
qed (use assms(2) in auto)

definition due :: "int \<Rightarrow> bool \<Rightarrow> outbox_row \<Rightarrow> bool" where
  "due now expired_only r \<longleftrightarrow> row_active r \<and> (expired_only \<longrightarrow> sa_expires (ob_action r) \<le> now)"

lemma transition_effect:
  assumes "distinct (map row_id (adb_outbox db))"
    and "transition_matching_active ids now st code eo db = (db', ss)"
  shows "adb_outbox db' = map (\<lambda>r. if due now eo r then finish_row now st code r else r) (adb_outbox db)"
    and "adb_audit db' = adb_audit db @ finish_events ids 0 now st code (filter (due now eo) (adb_outbox db))"
    and "adb_sessions db' = adb_sessions db"
    and "ss = map (\<lambda>r. action_status_of ((ob_action r)\<lparr>sa_state := st\<rparr>) (Some now) (Some code))
                (filter (due now eo) (adb_outbox db))"
  using finish_rows_effect [of ids 0 now st code "filter (due now eo) (adb_outbox db)" db] assms
    select_by_id [OF assms(1), of _ "due now eo"]
  by (auto simp: transition_matching_active_def due_def [abs_def])

lemma action_ids_ok: "action_db_ok db \<Longrightarrow> distinct (map row_id (adb_outbox db))"
  by (simp add: action_db_ok_def)

fun delivery_events :: "(nat \<Rightarrow> string) \<Rightarrow> nat \<Rightarrow> int \<Rightarrow> action_delivery list \<Rightarrow> audit_event list" where
  "delivery_events ids n now [] = []"
| "delivery_events ids n now (d # ds) =
     (if sa_state (dl_action d) \<noteq> ''queued'' then delivery_events ids n now ds
      else (action_audit_from (ids n) ((dl_action d)\<lparr>sa_state := ''delivered''\<rparr>) ''delivered'' None None)
             \<lparr>ev_at := now\<rparr> # delivery_events ids (Suc n) now ds)"

definition mark_delivery :: "action_delivery \<Rightarrow> action_delivery" where
  "mark_delivery d =
     (if sa_state (dl_action d) \<noteq> ''queued'' then d
      else d\<lparr>dl_action := (dl_action d)\<lparr>sa_state := ''delivered''\<rparr>\<rparr>)"

definition queued_ids :: "action_delivery list \<Rightarrow> string set" where
  "queued_ids ds = {sa_id (dl_action d) | d. d \<in> set ds \<and> sa_state (dl_action d) = ''queued''}"

lemma mark_delivered_effect:
  "adb_outbox (fst (mark_delivered ids n now ds db))
     = map (\<lambda>r. if row_id r \<in> queued_ids ds \<and> row_state r = ''queued'' then mark_row now r else r) (adb_outbox db)
   \<and> adb_audit (fst (mark_delivered ids n now ds db)) = adb_audit db @ delivery_events ids n now ds
   \<and> adb_sessions (fst (mark_delivered ids n now ds db)) = adb_sessions db
   \<and> snd (mark_delivered ids n now ds db) = map mark_delivery ds"
proof (induction ds arbitrary: n db)
  case Nil
  then show ?case by (simp add: queued_ids_def)
next
  case (Cons d ds)
  show ?case
  proof (cases "sa_state (dl_action d) = ''queued''")
    case False
    then have "queued_ids (d # ds) = queued_ids ds" by (auto simp: queued_ids_def)
    with False Cons.IH [of n db] show ?thesis by (simp add: case_prod_beta mark_delivery_def)
  next
    case True
    define db2 where "db2 = append_action_audit
      ((action_audit_from (ids n) ((dl_action d)\<lparr>sa_state := ''delivered''\<rparr>) ''delivered'' None None)\<lparr>ev_at := now\<rparr>)
      (update_row (sa_id (dl_action d)) (\<lambda>r. if row_state r = ''queued'' then mark_row now r else r) db)"
    have step: "mark_delivered ids n now (d # ds) db =
        (fst (mark_delivered ids (Suc n) now ds db2),
         mark_delivery d # snd (mark_delivered ids (Suc n) now ds db2))"
      using True by (simp add: Let_def case_prod_beta db2_def mark_delivery_def)
    have q: "queued_ids (d # ds) = insert (sa_id (dl_action d)) (queued_ids ds)"
      using True by (auto simp: queued_ids_def)
    have tables: "adb_outbox db2 = map (\<lambda>r. if row_id r = sa_id (dl_action d) then
          (if row_state r = ''queued'' then mark_row now r else r) else r) (adb_outbox db)"
      "adb_audit db2 = adb_audit db @ [(action_audit_from (ids n) ((dl_action d)\<lparr>sa_state := ''delivered''\<rparr>)
         ''delivered'' None None)\<lparr>ev_at := now\<rparr>]"
      "adb_sessions db2 = adb_sessions db"
      by (simp_all add: db2_def append_action_audit_def update_row_def)
    have m: "row_state (mark_row now r) = ''delivered''" "row_id (mark_row now r) = row_id r" for r
      by (simp_all add: mark_row_def)
    show ?thesis
      unfolding step using Cons.IH [of "Suc n" db2] True by (auto simp: tables q m)
  qed
qed

subsection \<open>How rows evolve\<close>

text \<open>An active row keeps its identity; a terminal row keeps everything.\<close>

definition row_evolves :: "outbox_row \<Rightarrow> outbox_row \<Rightarrow> bool" where
  "row_evolves r q \<longleftrightarrow>
     (ob_action q)\<lparr>sa_state := ''queued''\<rparr> = (ob_action r)\<lparr>sa_state := ''queued''\<rparr>
     \<and> ob_endpoint q = ob_endpoint r \<and> (row_active r \<or> q = r)"

lemma row_evolves_refl [simp]: "row_evolves r r"
  by (simp add: row_evolves_def)

lemma row_evolves_trans: "row_evolves r q \<Longrightarrow> row_evolves q p \<Longrightarrow> row_evolves r p"
  by (auto simp: row_evolves_def)

lemma action_same_identity:
  assumes "a\<lparr>sa_state := x\<rparr> = (b\<lparr>sa_state := x\<rparr> :: session_action)"
  shows "sa_id a = sa_id b" and "sa_host a = sa_host b" and "sa_requested_by a = sa_requested_by b"
    and "sa_key a = sa_key b" and "sa_fingerprint a = sa_fingerprint b" and "sa_type a = sa_type b"
    and "sa_expires a = sa_expires b" and "sa_created a = sa_created b"
  using assms by (cases a; cases b; simp)+

lemma row_evolves_same:
  assumes "row_evolves r q"
  shows "row_id q = row_id r" and "idempotency_key q = idempotency_key r"
    and "sa_fingerprint (ob_action q) = sa_fingerprint (ob_action r)"
    and "sa_host (ob_action q) = sa_host (ob_action r)"
  using assms action_same_identity [where x = "''queued''" and a = "ob_action q" and b = "ob_action r"]
  by (auto simp: row_evolves_def idempotency_key_def)

lemma finish_evolves: "row_active r \<Longrightarrow> row_evolves r (finish_row now st code r)"
  by (simp add: row_evolves_def finish_row_def)

lemma mark_evolves: "row_state r = ''queued'' \<Longrightarrow> row_evolves r (mark_row now r)"
  by (simp add: row_evolves_def mark_row_def active_state_def)

definition rows_evolve :: "action_db \<Rightarrow> action_db \<Rightarrow> bool" where
  "rows_evolve db db' \<longleftrightarrow> (\<forall>r \<in> set (adb_outbox db). \<exists>q \<in> set (adb_outbox db'). row_evolves r q)"

lemma rows_evolve_refl: "rows_evolve db db"
  unfolding rows_evolve_def using row_evolves_refl by blast

lemma rows_evolve_trans: "rows_evolve a b \<Longrightarrow> rows_evolve b c \<Longrightarrow> rows_evolve a c"
  unfolding rows_evolve_def by (meson row_evolves_trans)

lemma rows_evolve_map:
  "adb_outbox db' = map f (adb_outbox db) @ extra \<Longrightarrow>
   (\<And>r. r \<in> set (adb_outbox db) \<Longrightarrow> row_evolves r (f r)) \<Longrightarrow> rows_evolve db db'"
  by (auto simp: rows_evolve_def)

lemma transition_evolves:
  assumes "action_db_ok db" and "transition_matching_active ids now st code eo db = (db', ss)"
  shows "rows_evolve db db'"
  by (rule rows_evolve_map [where extra = "[]" and
        f = "\<lambda>r. if due now eo r then finish_row now st code r else r"])
    (use transition_effect(1) [OF action_ids_ok [OF assms(1)] assms(2)]
      in \<open>auto simp: due_def finish_evolves\<close>)

text \<open>Expiring keeps the ids, so the row lookups after it see the same actions.\<close>

lemma transition_ids:
  assumes "action_db_ok db" and "transition_matching_active ids now st code eo db = (db', ss)"
  shows "map row_id (adb_outbox db') = map row_id (adb_outbox db)"
  using transition_effect(1) [OF action_ids_ok [OF assms(1)] assms(2)] by simp

lemma enqueue_cases:
  assumes "enqueue_action ids input db = Inr (db', st, replay)"
  obtains (replay) r where "r \<in> set (adb_outbox db)" "db' = db" "replay" "st = row_status r"
      "idempotency_key r = (sa_requested_by (en_action input), en_endpoint input, sa_key (en_action input))"
      "sa_fingerprint (ob_action r) = sa_fingerprint (en_action input)"
  | (new) row where "\<not> replay" "adb_outbox db' = adb_outbox db @ [row]" "ob_action row = en_action input"
      "ob_endpoint row = en_endpoint input" "row_state row = ''queued''"
      "adb_audit db' = adb_audit db @ [action_audit_from (ids 0) (en_action input) ''queued'' None
         (Some (sa_requested_by (en_action input)))]"
      "adb_sessions db' = adb_sessions db" "action_db_ok db'" "valid_action (en_action input)"
      "st = row_status row"
proof (cases "find_row (\<lambda>r. idempotency_key r =
    (sa_requested_by (en_action input), en_endpoint input, sa_key (en_action input))) db")
  case None
  define row where "row = \<lparr>ob_action = en_action input, ob_ciphertext = nullable (en_ciphertext input),
    ob_protection = nullable (en_protection input), ob_endpoint = en_endpoint input,
    ob_delivered = None, ob_completed = None, ob_result = None\<rparr>"
  have "\<not> replay \<and> action_db_ok db' \<and> valid_action (en_action input)
      \<and> db' = append_action_audit (action_audit_from (ids 0) (en_action input) ''queued'' None
          (Some (sa_requested_by (en_action input)))) (db\<lparr>adb_outbox := adb_outbox db @ [row]\<rparr>)
      \<and> st = action_status_of (en_action input) None None"
    using assms None unfolding enqueue_action_def Let_def row_def [symmetric]
    by (auto simp: commit_Inr split: if_split_asm option.split_asm)
  then show ?thesis
    by (intro new [of row])
      (auto simp: row_def append_action_audit_def valid_action_def row_status_def)
next
  case (Some r)
  then have "r \<in> set (adb_outbox db)"
    "idempotency_key r = (sa_requested_by (en_action input), en_endpoint input, sa_key (en_action input))"
    by (auto simp: find_row_def find_Some_iff)
  moreover have "db' = db \<and> replay \<and> st = row_status r
      \<and> sa_fingerprint (ob_action r) = sa_fingerprint (en_action input)"
    using assms Some unfolding enqueue_action_def Let_def by (auto split: if_split_asm)
  ultimately show ?thesis by (intro replay [of r]) auto
qed

definition delivered_view :: "action_db \<Rightarrow> string \<Rightarrow> int \<Rightarrow> outbox_row \<Rightarrow> outbox_row" where
  "delivered_view db host now r =
     (if due now True r then finish_row now ''expired'' ''expired'' r
      else if row_id r \<in> queued_ids (map row_delivery (take 20 (sort_key delivery_order
             (filter (deliverable host now) (adb_outbox db))))) \<and> row_state r = ''queued''
      then mark_row now r else r)"

text \<open>The tables that \<open>Deliver\<close> commits.\<close>

lemma deliver_tables:
  assumes ok: "action_db_ok db"
  obtains db2 es ds where
    "deliver ids host now db = commit_action db2 ds"
    "adb_outbox db2 = map (delivered_view db host now) (adb_outbox db)"
    "adb_audit db2 = adb_audit db
       @ finish_events ids 0 now ''expired'' ''expired'' (filter (due now True) (adb_outbox db))
       @ delivery_events ids (length (filter (due now True) (adb_outbox db))) now
           (map row_delivery (take 20 (sort_key delivery_order (filter (deliverable host now) (adb_outbox db)))))"
    "ds = map (mark_delivery \<circ> row_delivery)
       (take 20 (sort_key delivery_order (filter (deliverable host now) (adb_outbox db))))"
    "adb_sessions db2 = adb_sessions db"
proof -
  obtain db1 ss where e: "expire_actions ids now db = (db1, ss)" by force
  note t = transition_effect [OF action_ids_ok [OF ok] e [unfolded expire_actions_def]]
  have nd: "\<not> due now True r" if "deliverable host now r" for r
    using that by (auto simp: deliverable_def due_def)
  have "filter (deliverable host now) (adb_outbox db1) = filter (deliverable host now) (adb_outbox db)"
  proof -
    have "deliverable host now (if due now True r then finish_row now ''expired'' ''expired'' r else r)
        \<longleftrightarrow> deliverable host now r" for r
      using nd [of r] by (auto simp: deliverable_def finish_row_def active_state_def)
    then show ?thesis
      using nd by (auto simp: t(1) filter_map comp_def intro!: map_idI cong: filter_cong)
  qed
  then have sel: "select_deliverable host now db1
      = take 20 (sort_key delivery_order (filter (deliverable host now) (adb_outbox db)))"
    by (simp add: select_deliverable_def session_action_delivery_limit_def)
  note m = mark_delivered_effect [of ids "length ss" now "map row_delivery (select_deliverable host now db1)" db1]
  obtain db2 ds where d: "mark_delivered ids (length ss) now
      (map row_delivery (select_deliverable host now db1)) db1 = (db2, ds)" by force
  show ?thesis
  proof (rule that)
    show "deliver ids host now db = commit_action db2 ds" using e d by (simp add: deliver_def)
    show "adb_outbox db2 = map (delivered_view db host now) (adb_outbox db)"
      using m d by (auto simp: sel t(1) finish_row_def delivered_view_def)
  qed (use m d t(2-4) in \<open>simp_all add: sel\<close>)
qed

lemma deliver_effect:
  assumes "action_db_ok db" and "deliver ids host now db = Inr (db', ds)"
  shows "action_db_ok db'"
    and "adb_outbox db' = map (delivered_view db host now) (adb_outbox db)"
    and "ds = map (mark_delivery \<circ> row_delivery)
           (take 20 (sort_key delivery_order (filter (deliverable host now) (adb_outbox db))))"
    and "adb_sessions db' = adb_sessions db"
  using deliver_tables [OF assms(1), of ids host now] assms(2) by (metis commit_Inr)+

definition complete_row :: "int \<Rightarrow> string \<Rightarrow> outbox_row \<Rightarrow> outbox_row" where
  "complete_row now outcome r =
     r\<lparr>ob_action := (ob_action r)\<lparr>sa_state := outcome\<rparr>, ob_completed := Some now,
       ob_result := Some outcome, ob_ciphertext := None, ob_protection := None\<rparr>"

lemma find_row_unique:
  assumes "distinct (map row_id rs)" and "r \<in> set rs"
  shows "List.find (\<lambda>q. row_id q = row_id r) rs = Some r"
  using assms by (induction rs) (auto simp: image_iff)

lemma find_row_Some: "find_row P db = Some r \<Longrightarrow> r \<in> set (adb_outbox db) \<and> P r"
  by (auto simp: find_row_def find_Some_iff)

text \<open>
  The expired view of a row, and the three ways a report ends: a known terminal state, a refusal
  with its audit event, a completion.
\<close>

definition expired_view :: "int \<Rightarrow> outbox_row \<Rightarrow> outbox_row" where
  "expired_view now r = (if due now True r then finish_row now ''expired'' ''expired'' r else r)"

lemma expired_view_id [simp]: "row_id (expired_view now r) = row_id r"
  by (simp add: expired_view_def)

lemma complete_cases:
  assumes ok: "action_db_ok db" and run: "complete_action ids host i outcome now db = Inr (db', res)"
  obtains (replay) r where "r \<in> set (adb_outbox db)" "row_id r = i"
      "sa_host (ob_action (expired_view now r)) = host" "outcome_valid outcome"
      "\<not> row_active (expired_view now r)"
      "res = Inr (row_status (expired_view now r))"
      "adb_outbox db' = map (expired_view now) (adb_outbox db)" "adb_sessions db' = adb_sessions db"
      "action_db_ok db'"
  | (refused) r where "r \<in> set (adb_outbox db)" "row_id r = i" "res = Inl ActionProtocolInvalid"
      "adb_outbox db' = map (expired_view now) (adb_outbox db)" "adb_sessions db' = adb_sessions db"
      "sa_host (ob_action r) \<noteq> host \<or> \<not> outcome_valid outcome
         \<or> row_active (expired_view now r) \<and> (outcome = ''duplicate'' \<or> row_state r \<noteq> ''delivered'')"
      "action_db_ok db'"
  | (finished) r where "r \<in> set (adb_outbox db)" "row_id r = i" "row_state r = ''delivered''"
      "\<not> due now True r" "sa_host (ob_action r) = host" "outcome_valid outcome" "outcome \<noteq> ''duplicate''"
      "res = Inr (row_status (complete_row now outcome r))"
      "adb_outbox db' = map (\<lambda>q. if row_id q = i then complete_row now outcome q else expired_view now q)
         (adb_outbox db)" "adb_sessions db' = adb_sessions db"
      "action_db_ok db'"
proof -
  obtain db1 ss where e: "expire_actions ids now db = (db1, ss)" by force
  note t = transition_effect [OF action_ids_ok [OF ok] e [unfolded expire_actions_def], folded expired_view_def]
  obtain row where row: "find_row (\<lambda>r. row_id r = i) db1 = Some row"
    using run e by (auto simp: complete_action_def Let_def split: option.splits)
  have "row \<in> set (map (expired_view now) (adb_outbox db))" and i: "row_id row = i"
    using find_row_Some [OF row] unfolding t(1) by simp_all
  then obtain r where r: "r \<in> set (adb_outbox db)" "row = expired_view now r" by auto
  with i have r3: "row_id r = i" by simp
  have hosts: "sa_host (ob_action (expired_view now r)) = sa_host (ob_action r)"
    by (simp add: expired_view_def finish_row_def)
  have q: "row_active x \<longleftrightarrow> row_state x = ''queued'' \<or> row_state x = ''delivered''" for x :: outbox_row
    by (simp add: active_state_def)
  show ?thesis
  proof (cases "sa_host (ob_action row) = host \<and> outcome_valid outcome \<and> \<not> row_active row")
    case True
    then have "db' = db1 \<and> res = Inr (row_status row) \<and> action_db_ok db'"
      using run e row by (auto simp: complete_action_def Let_def commit_Inr q)
    with True r(2) t(1,3) show ?thesis by (intro replay [OF r(1) r3]) auto
  next
    case no_replay: False
    show ?thesis
    proof (cases "sa_host (ob_action row) \<noteq> host \<or> \<not> outcome_valid outcome
        \<or> outcome = ''duplicate'' \<or> row_state row \<noteq> ''delivered''")
      case True
      obtain ev where "db' = append_action_audit ev db1 \<and> res = Inl ActionProtocolInvalid \<and> action_db_ok db'"
        using run e row True no_replay by (auto simp: complete_action_def Let_def commit_Inr q)
      moreover have "sa_host (ob_action r) \<noteq> host \<or> \<not> outcome_valid outcome
         \<or> row_active (expired_view now r) \<and> (outcome = ''duplicate'' \<or> row_state r \<noteq> ''delivered'')"
        using True no_replay r(2) hosts
        by (auto simp: q expired_view_def due_def finish_row_def split: if_splits)
      ultimately show ?thesis
        using t(1,3) by (elim conjE) (rule refused [OF r(1) r3], simp_all add: append_action_audit_def)
    next
      case False
      have nd: "\<not> due now True r" using False r(2) by (auto simp: expired_view_def finish_row_def)
      then have rr: "row = r" using r(2) by (simp add: expired_view_def)
      have "\<exists>ev. db' = append_action_audit ev (update_row i (complete_row now outcome) db1)
          \<and> res = Inr (row_status (complete_row now outcome row)) \<and> action_db_ok db'"
        using run e row False
        by (auto simp: complete_action_def Let_def commit_Inr q complete_row_def [abs_def] row_status_def)
      moreover have "(if row_id (expired_view now q) = i then complete_row now outcome (expired_view now q)
          else expired_view now q) = (if row_id q = i then complete_row now outcome q else expired_view now q)"
        if "q \<in> set (adb_outbox db)" for q
      proof (cases "row_id q = i")
        case True
        then have "q = r" using that r(1) r3 action_ids_ok [OF ok] by (auto simp: distinct_map dest: inj_onD)
        with nd show ?thesis by (simp add: expired_view_def)
      qed simp
      ultimately show ?thesis
        using finished [OF r(1) r3] False nd rr t(1,3)
        by (auto simp: append_action_audit_def update_row_def)
    qed
  qed
qed

lemma complete_row_evolves: "row_state r = ''delivered'' \<Longrightarrow> row_evolves r (complete_row now outcome r)"
  by (simp add: row_evolves_def complete_row_def active_state_def)

lemma expired_view_evolves: "row_evolves r (expired_view now r)"
  by (auto simp: expired_view_def due_def intro: finish_evolves)

lemma deliver_evolves:
  assumes "action_db_ok db" and "deliver ids host now db = Inr (db', ds)"
  shows "rows_evolve db db'"
  by (rule rows_evolve_map [where extra = "[]" and f = "delivered_view db host now"])
    (simp_all add: deliver_effect(2) [OF assms] delivered_view_def due_def finish_evolves mark_evolves)

lemma complete_evolves:
  assumes ok: "action_db_ok db" and run: "complete_action ids host i outcome now db = Inr (db', res)"
  shows "rows_evolve db db'"
  using ok run
proof (cases rule: complete_cases)
  case (finished r)
  show ?thesis
  proof (rule rows_evolve_map [where extra = "[]"])
    show "adb_outbox db' = map (\<lambda>q. if row_id q = i then complete_row now outcome q else expired_view now q)
        (adb_outbox db) @ []" using finished by simp
    fix q assume q: "q \<in> set (adb_outbox db)"
    have "q = r" if "row_id q = i"
      using q finished(1,2) that action_ids_ok [OF ok] by (auto simp: distinct_map dest: inj_onD)
    then show "row_evolves q (if row_id q = i then complete_row now outcome q else expired_view now q)"
      using complete_row_evolves [OF finished(3)] expired_view_evolves by auto
  qed
qed (auto intro!: rows_evolve_map [where extra = "[]" and f = "expired_view now"] expired_view_evolves)

subsection \<open>Histories\<close>

datatype action_op =
    ActEnqueue "nat \<Rightarrow> string" action_enqueue
  | ActDeliver "nat \<Rightarrow> string" string int
  | ActComplete "nat \<Rightarrow> string" string string string int
  | ActExpire "nat \<Rightarrow> string" int
  | ActCancel "nat \<Rightarrow> string" int
  | ActPrivacyPurge "nat \<Rightarrow> string" int
  | ActRetain int int int
  | ActSession float_ops session_op

definition action_step :: "action_op \<Rightarrow> action_db \<Rightarrow> action_db" where
  "action_step op db =
     (case op of
        ActEnqueue ids input \<Rightarrow> (case enqueue_action ids input db of Inl _ \<Rightarrow> db | Inr (db', _) \<Rightarrow> db')
      | ActDeliver ids host now \<Rightarrow> (case deliver ids host now db of Inl _ \<Rightarrow> db | Inr (db', _) \<Rightarrow> db')
      | ActComplete ids host i outcome now \<Rightarrow>
          (case complete_action ids host i outcome now db of Inl _ \<Rightarrow> db | Inr (db', _) \<Rightarrow> db')
      | ActExpire ids now \<Rightarrow> (case expire ids now db of Inl _ \<Rightarrow> db | Inr (db', _) \<Rightarrow> db')
      | ActCancel ids now \<Rightarrow> (case cancel_for_privacy ids now db of Inl _ \<Rightarrow> db | Inr (db', _) \<Rightarrow> db')
      | ActPrivacyPurge ids now \<Rightarrow>
          (case purge_snapshots_for_privacy ids now db of Inl _ \<Rightarrow> db | Inr (db', _) \<Rightarrow> db')
      | ActRetain terminal audit limit \<Rightarrow>
          (case retain_actions terminal audit limit db of Inl _ \<Rightarrow> db | Inr (db', _) \<Rightarrow> db')
      | ActSession fo sop \<Rightarrow> db\<lparr>adb_sessions := session_step fo sop (adb_sessions db)\<rparr>)"

fun is_retain :: "action_op \<Rightarrow> bool" where
  "is_retain (ActRetain _ _ _) = True"
| "is_retain _ = False"

definition empty_action_db :: action_db where
  "empty_action_db = \<lparr>adb_outbox = [], adb_audit = [], adb_sessions = empty_session_db\<rparr>"

lemma step_db_ok: "action_db_ok db \<Longrightarrow> action_db_ok (action_step op db)"
proof (cases op)
  case (ActComplete ids host i outcome now)
  assume ok: "action_db_ok db"
  have "action_db_ok db'" if "complete_action ids host i outcome now db = Inr (db', r)" for db' r
    using ok that by (cases rule: complete_cases) auto
  with ActComplete ok show ?thesis by (simp add: action_step_def split: sum.split prod.split)
next
  case (ActEnqueue ids input)
  assume ok: "action_db_ok db"
  have "action_db_ok db'" if "enqueue_action ids input db = Inr (db', st, r)" for db' st r
    using that by (cases rule: enqueue_cases) (use ok in auto)
  with ActEnqueue ok show ?thesis by (auto simp add: action_step_def split: sum.split prod.split)
next
  case (ActSession fo sop)
  assume "action_db_ok db"
  with ActSession show ?thesis by (simp add: action_step_def action_db_ok_def)
qed (auto simp: action_step_def deliver_def expire_def cancel_for_privacy_def
    purge_snapshots_for_privacy_def retain_actions_def Let_def commit_Inr
    split: sum.splits prod.splits if_splits)

lemma step_evolves:
  assumes ok: "action_db_ok db" and r: "\<not> is_retain op"
  shows "rows_evolve db (action_step op db)"
proof (cases op)
  case (ActEnqueue ids input)
  have "rows_evolve db db'" if "enqueue_action ids input db = Inr (db', st, r)" for db' st r
    using that
    by (cases rule: enqueue_cases)
      (auto simp: rows_evolve_refl intro!: rows_evolve_map [where f = "\<lambda>r. r"])
  with ActEnqueue show ?thesis
    by (auto simp: action_step_def rows_evolve_refl split: sum.split prod.split)
next
  case (ActDeliver ids host now)
  with deliver_evolves [OF ok] show ?thesis
    by (auto simp: action_step_def rows_evolve_refl split: sum.split prod.split)
next
  case (ActComplete ids host i outcome now)
  with complete_evolves [OF ok] show ?thesis
    by (auto simp: action_step_def rows_evolve_refl split: sum.split prod.split)
next
  case (ActExpire ids now)
  with transition_evolves [OF ok] show ?thesis
    by (auto simp: action_step_def expire_def commit_Inr rows_evolve_refl split: sum.split prod.splits)
next
  case (ActCancel ids now)
  with transition_evolves [OF ok] show ?thesis
    by (auto simp: action_step_def cancel_for_privacy_def commit_Inr rows_evolve_refl
        split: sum.split prod.splits)
next
  case (ActPrivacyPurge ids now)
  let ?db = "db\<lparr>adb_sessions := delete_snapshots (\<lambda>_. True) (adb_sessions db)\<rparr>"
  have "action_db_ok ?db" using ok by (simp add: action_db_ok_def)
  from transition_evolves [OF this] have "rows_evolve db db'"
    if "transition_matching_active ids now ''expired'' ''privacy_policy_changed'' False ?db = (db', ss)" for db' ss
    using that by (auto simp: rows_evolve_def)
  with ActPrivacyPurge show ?thesis
    by (auto simp: action_step_def purge_snapshots_for_privacy_def commit_Inr rows_evolve_refl
        split: sum.split prod.splits)
next
  case (ActSession fo sop)
  then show ?thesis
    using rows_evolve_refl [of db] by (simp add: action_step_def rows_evolve_def)
qed (use r in auto)

text \<open>Terminal rows hold no message.\<close>

definition messages_erased :: "action_db \<Rightarrow> bool" where
  "messages_erased db \<longleftrightarrow>
     (\<forall>r \<in> set (adb_outbox db). \<not> row_active r \<longrightarrow> ob_ciphertext r = None \<and> ob_protection r = None)"

lemma erased_map:
  assumes "messages_erased db" and "set (adb_outbox db') \<subseteq> f ` set (adb_outbox db) \<union> {r. row_active r}"
    and "\<And>r. f r = r \<or> row_active (f r) \<or> ob_ciphertext (f r) = None \<and> ob_protection (f r) = None"
  shows "messages_erased db'"
  unfolding messages_erased_def
proof (intro ballI impI)
  fix q assume "q \<in> set (adb_outbox db')" and n: "\<not> row_active q"
  then obtain r where "r \<in> set (adb_outbox db)" "q = f r" using assms(2) by blast
  with assms(1) assms(3) [of r] n show "ob_ciphertext q = None \<and> ob_protection q = None"
    by (auto simp: messages_erased_def)
qed

lemma finish_erases: "ob_ciphertext (finish_row now st code r) = None \<and> ob_protection (finish_row now st code r) = None"
  by (simp add: finish_row_def)

lemma mark_active: "row_active (mark_row now r)"
  by (simp add: mark_row_def active_state_def)

lemma step_erased:
  assumes ok: "action_db_ok db" and er: "messages_erased db"
  shows "messages_erased (action_step op db)"
proof -
  have trans: "messages_erased db'"
    if "transition_matching_active ids now st code eo d = (db', ss)" "adb_outbox d = adb_outbox db"
    for ids now st code eo d db' ss
  proof -
    have "distinct (map row_id (adb_outbox d))" using ok that(2) by (simp add: action_db_ok_def)
    from transition_effect(1) [OF this that(1)] that(2) show ?thesis
      by (intro erased_map [OF er, where f = "\<lambda>r. if due now eo r then finish_row now st code r else r"])
        (auto simp: finish_erases)
  qed
  show ?thesis
  proof (cases op)
    case (ActEnqueue ids input)
    have "messages_erased db'" if "enqueue_action ids input db = Inr (db', st, r)" for db' st r
      using that er
      by (cases rule: enqueue_cases) (auto simp: messages_erased_def active_state_def)
    with ActEnqueue er show ?thesis by (auto simp: action_step_def split: sum.split prod.split)
  next
    case (ActDeliver ids host now)
    have "messages_erased db'" if "deliver ids host now db = Inr (db', ds)" for db' ds
      using deliver_effect(2) [OF ok that]
      by (intro erased_map [OF er, where f = "delivered_view db host now"])
        (auto simp: delivered_view_def finish_erases mark_active)
    with ActDeliver er show ?thesis by (auto simp: action_step_def split: sum.split prod.split)
  next
    case (ActComplete ids host i outcome now)
    have "messages_erased db'" if "complete_action ids host i outcome now db = Inr (db', res)" for db' res
      using ok that
    proof (cases rule: complete_cases)
      case (finished r)
      then show ?thesis
        by (intro erased_map [OF er, where
              f = "\<lambda>q. if row_id q = i then complete_row now outcome q else expired_view now q"])
          (auto simp: complete_row_def expired_view_def finish_erases)
    qed (auto intro!: erased_map [OF er, where f = "expired_view now"] simp: expired_view_def finish_erases)
    with ActComplete er show ?thesis by (auto simp: action_step_def split: sum.split prod.split)
  next
    case (ActExpire ids now)
    with trans [of ids now _ _ _ db] er show ?thesis
      by (auto simp: action_step_def expire_def commit_Inr split: sum.split prod.splits)
  next
    case (ActCancel ids now)
    with trans [of ids now _ _ _ db] er show ?thesis
      by (auto simp: action_step_def cancel_for_privacy_def commit_Inr split: sum.split prod.splits)
  next
    case (ActPrivacyPurge ids now)
    with trans [of ids now _ _ _ "db\<lparr>adb_sessions := delete_snapshots (\<lambda>_. True) (adb_sessions db)\<rparr>"] er
    show ?thesis
      by (auto simp: action_step_def purge_snapshots_for_privacy_def commit_Inr split: sum.split prod.splits)
  next
    case (ActRetain terminal audit limit)
    with er show ?thesis
      by (auto simp: action_step_def retain_actions_def Let_def commit_Inr messages_erased_def
          split: sum.split if_splits)
  next
    case (ActSession fo sop)
    with er show ?thesis by (simp add: action_step_def messages_erased_def)
  qed
qed

definition action_inv :: "action_db \<Rightarrow> bool" where
  "action_inv db \<longleftrightarrow> action_db_ok db \<and> messages_erased db"

interpretation actions: step_invariant action_step action_inv
  by unfold_locales (simp add: action_inv_def step_db_ok step_erased)

lemma empty_action_inv: "action_inv empty_action_db"
  by (simp add: action_inv_def action_db_ok_def messages_erased_def empty_action_db_def)

lemma run_evolves:
  "action_db_ok db \<Longrightarrow> \<forall>op \<in> set ops. \<not> is_retain op \<Longrightarrow>
   action_db_ok (fold action_step ops db) \<and> rows_evolve db (fold action_step ops db)"
proof (induction ops arbitrary: db)
  case (Cons op ops)
  then have "action_db_ok (action_step op db)" "rows_evolve db (action_step op db)"
    by (simp_all add: step_db_ok step_evolves)
  with Cons.IH [of "action_step op db"] Cons.prems(2) show ?case by (auto intro: rows_evolve_trans)
qed (simp add: rows_evolve_refl)

subsection \<open>The transactions respect the schema\<close>

definition fresh_ids :: "(nat \<Rightarrow> string) \<Rightarrow> action_db \<Rightarrow> bool" where
  "fresh_ids ids db \<longleftrightarrow> inj ids \<and> (\<forall>n. \<forall>e \<in> set (adb_audit db). ids n \<noteq> ev_id e)"

lemma finish_events_ids:
  "map ev_id (finish_events ids n now st code rs) = map ids [n ..< n + length rs]"
proof (induction rs arbitrary: n)
  case (Cons r rs)
  have "[n ..< n + length (r # rs)] = n # [Suc n ..< Suc n + length rs]"
    by (subst upt_conv_Cons) simp_all
  with Cons.IH [of "Suc n"] show ?case by (simp add: action_audit_from_def del: upt_Suc)
qed simp

lemma delivery_events_ids:
  "\<exists>m. map ev_id (delivery_events ids n now ds) = map ids [n ..< m] \<and> n \<le> m"
proof (induction ds arbitrary: n)
  case (Cons d ds)
  show ?case
  proof (cases "sa_state (dl_action d) = ''queued''")
    case True
    obtain m where "map ev_id (delivery_events ids (Suc n) now ds) = map ids [Suc n ..< m]" "Suc n \<le> m"
      using Cons.IH [of "Suc n"] by blast
    with True show ?thesis
      by (intro exI [of _ m]) (simp add: action_audit_from_def upt_conv_Cons)
  next
    case False
    with Cons.IH [of n] show ?thesis by simp
  qed
qed auto

lemma finish_check:
  "check_outbox_row r \<Longrightarrow> 0 \<le> now \<Longrightarrow> check_outbox_row (finish_row now ''expired'' code r)"
  by (auto simp: check_outbox_row_def finish_row_def Let_def active_state_def action_state_valid_def
      split: option.split)

lemma mark_check:
  "check_outbox_row r \<Longrightarrow> row_state r = ''queued'' \<Longrightarrow> 0 \<le> now \<Longrightarrow> check_outbox_row (mark_row now r)"
  by (auto simp: check_outbox_row_def mark_row_def Let_def active_state_def action_state_valid_def)

lemma transition_event_check:
  assumes "valid_action_type (sa_type a)" and "0 \<le> sa_logon a" and "0 \<le> now"
    and "transition \<noteq> ''queued''" and "valid_transition transition"
    and "active_state transition = (code = None)"
  shows "check_audit_event ((action_audit_from i a transition code None)\<lparr>ev_at := now\<rparr>)"
  using assms by (simp add: check_audit_event_def action_audit_from_def)

lemma expired_transition: "valid_transition ''expired''" "\<not> active_state ''expired''"
    and delivered_transition: "valid_transition ''delivered''" "active_state ''delivered''"
  by (simp_all add: valid_transition_def action_state_valid_def active_state_def)

lemma row_check_action:
  "check_outbox_row r \<Longrightarrow> valid_action_type (sa_type (ob_action r)) \<and> 0 \<le> sa_logon (ob_action r)"
  by (simp add: check_outbox_row_def Let_def)

lemma finish_events_check:
  "\<forall>r \<in> set rs. check_outbox_row r \<Longrightarrow> 0 \<le> now \<Longrightarrow>
   list_all check_audit_event (finish_events ids n now ''expired'' code rs)"
proof (induction rs arbitrary: n)
  case (Cons r rs)
  have "check_audit_event ((action_audit_from (ids n) ((ob_action r)\<lparr>sa_state := ''expired''\<rparr>) ''expired''
      (Some code) None)\<lparr>ev_at := now\<rparr>)"
    using Cons.prems row_check_action [of r] expired_transition by (intro transition_event_check) simp_all
  with Cons show ?case by simp
qed simp

lemma delivery_events_check:
  "\<forall>d \<in> set ds. valid_action_type (sa_type (dl_action d)) \<and> 0 \<le> sa_logon (dl_action d) \<Longrightarrow> 0 \<le> now \<Longrightarrow>
   list_all check_audit_event (delivery_events ids n now ds)"
proof (induction ds arbitrary: n)
  case (Cons d ds)
  have "check_audit_event ((action_audit_from (ids n) ((dl_action d)\<lparr>sa_state := ''delivered''\<rparr>) ''delivered''
      None None)\<lparr>ev_at := now\<rparr>)"
    using Cons.prems delivered_transition by (intro transition_event_check) simp_all
  with Cons show ?case by simp
qed simp

lemma idempotency_finish [simp]: "idempotency_key (finish_row now st code r) = idempotency_key r"
  by (simp add: idempotency_key_def finish_row_def)

lemma idempotency_mark [simp]: "idempotency_key (mark_row now r) = idempotency_key r"
  by (simp add: idempotency_key_def mark_row_def)

lemma row_id_mark [simp]: "row_id (mark_row now r) = row_id r"
  by (simp add: mark_row_def)

end
