(* ===== verification/ActionLifecycle.thy ===== *)
theory ActionLifecycle
  imports ActionStore
begin

text \<open>
  What the action outbox promises its callers, over any history of transactions: the lifecycle
  transactions never trip over the schema, the first outcome of an action stays, an expiry wins
  against a late report, a terminal action holds no message, a delivery hands out the oldest
  commands of its host, and an idempotency key answers every later request.
\<close>

subsection \<open>Commits succeed\<close>

lemma commits:
  assumes ok: "action_db_ok db" and fresh: "fresh_ids ids db"
    and outbox: "adb_outbox db' = map f (adb_outbox db)"
    and keeps: "\<And>r. row_id (f r) = row_id r" "\<And>r. idempotency_key (f r) = idempotency_key r"
    and checks: "\<And>r. r \<in> set (adb_outbox db) \<Longrightarrow> check_outbox_row (f r)"
    and audit: "adb_audit db' = adb_audit db @ es" "map ev_id es = map ids [0 ..< m]"
      "list_all check_audit_event es"
  shows "action_db_ok db'"
proof -
  have "distinct (map ids [0 ..< m])"
    using fresh by (auto simp: fresh_ids_def distinct_map inj_on_def inj_def)
  moreover have "ev_id ` set es = ids ` {0 ..< m}"
    using arg_cong [OF audit(2), of set] by simp
  then have "ev_id ` set (adb_audit db) \<inter> ev_id ` set es = {}"
    using fresh by (auto simp: fresh_ids_def image_iff) metis
  moreover have "map row_id (adb_outbox db') = map row_id (adb_outbox db)"
    "map idempotency_key (adb_outbox db') = map idempotency_key (adb_outbox db)"
    by (simp_all add: outbox keeps)
  moreover have "list_all check_outbox_row (adb_outbox db')"
    using checks by (auto simp: outbox list_all_iff)
  ultimately show ?thesis
    using ok audit by (simp add: action_db_ok_def flip: set_map)
qed

lemma action_rows_ok: "action_db_ok db \<Longrightarrow> r \<in> set (adb_outbox db) \<Longrightarrow> check_outbox_row r"
  by (simp add: action_db_ok_def list_all_iff)

lemma expiring_commits:
  assumes ok: "action_db_ok db" and fresh: "fresh_ids ids db" and now: "0 \<le> now"
    and run: "transition_matching_active ids now ''expired'' code eo db = (db', ss)"
  shows "action_db_ok db'"
proof (rule commits [OF ok fresh transition_effect(1) [OF action_ids_ok [OF ok] run] _ _ _
      transition_effect(2) [OF action_ids_ok [OF ok] run] finish_events_ids [where n = 0, simplified]])
  show "list_all check_audit_event (finish_events ids 0 now ''expired'' code (filter (due now eo) (adb_outbox db)))"
    using action_rows_ok [OF ok] now by (intro finish_events_check) auto
qed (use action_rows_ok [OF ok] now in \<open>auto simp: finish_check\<close>)

lemma append_events:
  "map ev_id es = map ids [0 ..< m] \<Longrightarrow> map ev_id fs = map ids [m ..< k] \<Longrightarrow> m \<le> k \<Longrightarrow>
   map ev_id (es @ fs) = map ids [0 ..< k]"
  by (metis append_Nil le_add_diff_inverse map_append plus_nat.add_0 upt_add_eq_append zero_le)

lemma delivered_view_keys:
  "row_id (delivered_view db host now r) = row_id r"
  "idempotency_key (delivered_view db host now r) = idempotency_key r"
  by (simp_all add: delivered_view_def)

lemma deliver_commits:
  assumes ok: "action_db_ok db" and fresh: "fresh_ids ids db" and now: "0 \<le> now"
  shows "\<exists>db' ds. deliver ids host now db = Inr (db', ds)"
proof -
  obtain db2 es ds where d: "deliver ids host now db = commit_action db2 ds"
    "adb_outbox db2 = map (delivered_view db host now) (adb_outbox db)"
    "adb_audit db2 = adb_audit db
       @ finish_events ids 0 now ''expired'' ''expired'' (filter (due now True) (adb_outbox db))
       @ delivery_events ids (length (filter (due now True) (adb_outbox db))) now
           (map row_delivery (take 20 (sort_key delivery_order (filter (deliverable host now) (adb_outbox db)))))"
    using deliver_tables [OF ok] by metis
  let ?due = "filter (due now True) (adb_outbox db)"
  let ?ds = "map row_delivery (take 20 (sort_key delivery_order (filter (deliverable host now) (adb_outbox db))))"
  obtain m where m: "map ev_id (delivery_events ids (length ?due) now ?ds) = map ids [length ?due ..< m]"
    "length ?due \<le> m"
    using delivery_events_ids by blast
  have sel: "\<forall>d \<in> set ?ds. valid_action_type (sa_type (dl_action d)) \<and> 0 \<le> sa_logon (dl_action d)"
    using action_rows_ok [OF ok] by (auto simp: row_delivery_def row_check_action dest!: in_set_takeD)
  have "action_db_ok db2"
  proof (rule commits [OF ok fresh d(2) delivered_view_keys _ d(3)])
    show "map ev_id (finish_events ids 0 now ''expired'' ''expired'' ?due
        @ delivery_events ids (length ?due) now ?ds) = map ids [0 ..< m]"
      by (rule append_events [OF _ m]) (simp add: finish_events_ids)
    show "list_all check_audit_event (finish_events ids 0 now ''expired'' ''expired'' ?due
        @ delivery_events ids (length ?due) now ?ds)"
      using finish_events_check [of ?due now] delivery_events_check [OF sel now] action_rows_ok [OF ok] now
      by simp
    show "check_outbox_row (delivered_view db host now r)" if "r \<in> set (adb_outbox db)" for r
      using action_rows_ok [OF ok that] now
      by (simp add: delivered_view_def finish_check mark_check)
  qed
  with d(1) show ?thesis by (simp add: commit_action_def)
qed

lemma outcome_finishes:
  assumes "outcome_valid outcome" and "outcome \<noteq> ''duplicate''"
  shows "action_state_valid outcome" and "\<not> active_state outcome" and "outcome \<noteq> ''queued''"
  using assms by (auto simp: outcome_valid_def is_safe_action_result_def action_state_valid_def active_state_def)

lemma complete_check:
  assumes "check_outbox_row r" and "row_state r = ''delivered''" and "0 \<le> now"
    and "action_state_valid outcome" and "\<not> active_state outcome"
  shows "check_outbox_row (complete_row now outcome r)"
proof -
  have "active_state ''delivered''" "outcome \<noteq> ''queued''" using assms(5) by (auto simp: active_state_def)
  with assms show ?thesis by (simp add: check_outbox_row_def complete_row_def Let_def)
qed

lemma expired_view_keys: "idempotency_key (expired_view now r) = idempotency_key r"
  by (simp add: expired_view_def)

lemma complete_row_keys [simp]:
  "row_id (complete_row now outcome r) = row_id r"
  "idempotency_key (complete_row now outcome r) = idempotency_key r"
  by (simp_all add: complete_row_def idempotency_key_def)

lemma expired_view_check: "check_outbox_row r \<Longrightarrow> 0 \<le> now \<Longrightarrow> check_outbox_row (expired_view now r)"
  by (simp add: expired_view_def finish_check)

text \<open>Expiry, then at most one more row and one more event.\<close>

lemma expiry_and_one_event_commit:
  assumes ok: "action_db_ok db" and fresh: "fresh_ids ids db" and now: "0 \<le> now"
    and outbox: "adb_outbox db' = map f (adb_outbox db)"
    and keys: "\<And>r. row_id (f r) = row_id r" "\<And>r. idempotency_key (f r) = idempotency_key r"
    and checks: "\<And>r. r \<in> set (adb_outbox db) \<Longrightarrow> check_outbox_row (f r)"
    and audit: "adb_audit db' = adb_audit db
       @ finish_events ids 0 now ''expired'' ''expired'' (filter (due now True) (adb_outbox db)) @ [e]"
    and e: "ev_id e = ids (length (filter (due now True) (adb_outbox db)))" "check_audit_event e"
  shows "action_db_ok db'"
proof (rule commits [OF ok fresh outbox keys checks audit])
  let ?due = "filter (due now True) (adb_outbox db)"
  show "map ev_id (finish_events ids 0 now ''expired'' ''expired'' ?due @ [e]) = map ids [0 ..< Suc (length ?due)]"
    by (rule append_events [where m = "length ?due"]) (simp_all add: finish_events_ids e(1) del: upt_Suc, simp)
  show "list_all check_audit_event (finish_events ids 0 now ''expired'' ''expired'' ?due @ [e])"
    using finish_events_check [of ?due now] action_rows_ok [OF ok] now e(2) by simp
qed

lemma complete_commits:
  assumes ok: "action_db_ok db" and fresh: "fresh_ids ids db" and now: "0 \<le> now"
    and r: "r \<in> set (adb_outbox db)"
  shows "\<exists>db' res. complete_action ids host (row_id r) outcome now db = Inr (db', res)"
proof -
  obtain db1 ss where e: "expire_actions ids now db = (db1, ss)" by force
  note run = e [unfolded expire_actions_def]
  note t = transition_effect [OF action_ids_ok [OF ok] run, folded expired_view_def]
  let ?row = "expired_view now r"
  have "distinct (map row_id (adb_outbox db1))"
    using action_ids_ok [OF ok] transition_ids [OF ok run] by simp
  from find_row_unique [OF this, of ?row] have f: "find_row (\<lambda>q. row_id q = row_id r) db1 = Some ?row"
    using r by (simp add: find_row_def t(1))
  have ok1: "action_db_ok db1" by (rule expiring_commits [OF ok fresh now run])
  have tl: "valid_action_type (sa_type (ob_action ?row)) \<and> 0 \<le> sa_logon (ob_action ?row)"
    using row_check_action [OF expired_view_check [OF action_rows_ok [OF ok r] now]] .
  have n: "length ss = length (filter (due now True) (adb_outbox db))" by (simp add: t(4))
  define refusal where "refusal = (action_audit_from (ids (length ss)) (ob_action ?row) ''protocol_invalid''
    (Some ''protocol_invalid'') None)\<lparr>ev_at := now\<rparr>"
  define outcome_event where "outcome_event = (action_audit_from (ids (length ss)) ((ob_action ?row)\<lparr>sa_state := outcome\<rparr>) outcome
    (Some outcome) None)\<lparr>ev_at := now\<rparr>"
  show ?thesis
  proof (cases "sa_host (ob_action ?row) = host \<and> outcome_valid outcome \<and> \<not> row_active ?row")
    case True
    then have "complete_action ids host (row_id r) outcome now db = commit_action db1 (Inr (row_status ?row))"
      using e f by (simp add: complete_action_def active_state_def)
    with ok1 show ?thesis by (simp add: commit_action_def)
  next
    case no_replay: False
    show ?thesis
    proof (cases "sa_host (ob_action ?row) \<noteq> host \<or> \<not> outcome_valid outcome
        \<or> outcome = ''duplicate'' \<or> row_state ?row \<noteq> ''delivered''")
      case True
      then have "complete_action ids host (row_id r) outcome now db
          = commit_action (append_action_audit refusal db1) (Inl ActionProtocolInvalid)"
        using e f no_replay by (auto simp: complete_action_def active_state_def refusal_def Let_def)
      moreover have "action_db_ok (append_action_audit refusal db1)"
      proof (rule expiry_and_one_event_commit [OF ok fresh now, where f = "expired_view now"])
        show "check_audit_event refusal"
          unfolding refusal_def using tl now
          by (intro transition_event_check) (simp_all add: valid_transition_def active_state_def)
        show "ev_id refusal = ids (length (filter (due now True) (adb_outbox db)))"
          by (simp add: refusal_def n action_audit_from_def)
      qed (use t(1,2) action_rows_ok [OF ok] now
            in \<open>simp_all add: append_action_audit_def expired_view_check expired_view_keys\<close>)
      ultimately show ?thesis by (simp add: commit_action_def)
    next
      case False
      then have st: "row_state ?row = ''delivered''" "outcome_valid outcome" "outcome \<noteq> ''duplicate''"
        by simp_all
      define final where "final = append_action_audit outcome_event (update_row (row_id r) (complete_row now outcome) db1)"
      have "complete_action ids host (row_id r) outcome now db
          = commit_action final (Inr (action_status_of ((ob_action ?row)\<lparr>sa_state := outcome\<rparr>) (Some now) (Some outcome)))"
        using e f no_replay False
        by (simp add: complete_action_def active_state_def outcome_event_def final_def Let_def complete_row_def [abs_def])
      moreover have "action_db_ok final"
      proof (rule expiry_and_one_event_commit [OF ok fresh now])
        let ?f = "\<lambda>q. if row_id q = row_id r then complete_row now outcome (expired_view now q)
            else expired_view now q"
        show "adb_outbox final = map ?f (adb_outbox db)"
          by (simp add: final_def append_action_audit_def update_row_def t(1))
        show "check_outbox_row (?f q)" if q: "q \<in> set (adb_outbox db)" for q
        proof (cases "row_id q = row_id r")
          case True
          then have "q = r" using q r action_ids_ok [OF ok] by (auto simp: distinct_map dest: inj_onD)
          with st outcome_finishes(1,2) [OF st(2,3)] now action_rows_ok [OF ok r] show ?thesis
            by (simp add: complete_check expired_view_check)
        qed (use action_rows_ok [OF ok q] now in \<open>simp add: expired_view_check\<close>)
        show "check_audit_event outcome_event"
          unfolding outcome_event_def using tl now outcome_finishes [OF st(2,3)]
          by (intro transition_event_check) (simp_all add: valid_transition_def)
        show "ev_id outcome_event = ids (length (filter (due now True) (adb_outbox db)))"
          by (simp add: outcome_event_def n action_audit_from_def)
      qed (simp_all add: final_def append_action_audit_def update_row_def t(2) expired_view_keys)
      ultimately show ?thesis by (simp add: commit_action_def)
    qed
  qed
qed

lemma find_by_key:
  "distinct (map f xs) \<Longrightarrow> x \<in> set xs \<Longrightarrow> List.find (\<lambda>y. f y = f x) xs = Some x"
  by (induction xs) (auto simp: image_iff)

subsection \<open>Properties\<close>

text \<open>C27: The schema never stands in the way of the lifecycle: from a consistent outbox, with
  fresh event ids and a clock at or after the epoch, every expiry, privacy cancellation, privacy
  purge and delivery commits, and so does the completion report of every action in the outbox
  (its refusal included).\<close>

theorem lifecycle_commits:
  assumes "action_db_ok db" and "fresh_ids ids db" and "0 \<le> now"
  shows "(\<exists>x. expire ids now db = Inr x) \<and> (\<exists>x. cancel_for_privacy ids now db = Inr x)
     \<and> (\<exists>x. purge_snapshots_for_privacy ids now db = Inr x) \<and> (\<exists>x. deliver ids host now db = Inr x)
     \<and> (\<forall>r \<in> set (adb_outbox db). \<exists>x. complete_action ids host (row_id r) outcome now db = Inr x)"
proof -
  let ?purged = "db\<lparr>adb_sessions := delete_snapshots (\<lambda>_. True) (adb_sessions db)\<rparr>"
  have "action_db_ok ?purged" "fresh_ids ids ?purged"
    using assms(1,2) by (simp_all add: action_db_ok_def fresh_ids_def)
  then have "\<exists>x. purge_snapshots_for_privacy ids now db = Inr x"
    using expiring_commits [of ?purged ids now] assms(3)
    by (auto simp: purge_snapshots_for_privacy_def commit_action_def split: prod.split)
  moreover have "\<exists>x. expire ids now db = Inr x" "\<exists>x. cancel_for_privacy ids now db = Inr x"
    using expiring_commits [OF assms]
    by (auto simp: expire_def cancel_for_privacy_def commit_action_def split: prod.split)
  moreover have "\<exists>x. deliver ids host now db = Inr x"
    using deliver_commits [OF assms] by blast
  moreover have "\<forall>r \<in> set (adb_outbox db). \<exists>x. complete_action ids host (row_id r) outcome now db = Inr x"
    using complete_commits [OF assms] by blast
  ultimately show ?thesis by blast
qed

text \<open>C2: The first outcome of an action is authoritative: once a row is terminal, whatever
  transactions follow (short of retention, which deletes old finished rows), the row is still there
  unchanged, and a report of a valid outcome from its host, if its transaction commits, is answered with
  that first outcome and leaves the row as it is.\<close>

theorem first_outcome_stays:
  assumes "action_inv db" and "r \<in> set (adb_outbox db)" and "\<not> row_active r"
    and "\<forall>op \<in> set ops. \<not> is_retain op" and "outcome_valid outcome"
    and "complete_action ids (sa_host (ob_action r)) (row_id r) outcome now (fold action_step ops db) = Inr (db', res)"
  shows "r \<in> set (adb_outbox (fold action_step ops db)) \<and> r \<in> set (adb_outbox db')
     \<and> res = Inr (row_status r)"
proof -
  let ?db = "fold action_step ops db"
  have ok: "action_db_ok ?db" and ev: "rows_evolve db ?db"
    using run_evolves [of db ops] assms(1,4) by (auto simp: action_inv_def)
  have stays: "r \<in> set (adb_outbox d)" if "rows_evolve db d" for d
    using that assms(2,3) unfolding rows_evolve_def row_evolves_def by metis
  have r: "r \<in> set (adb_outbox ?db)" using stays [OF ev] .
  have here: "q = r" if "q \<in> set (adb_outbox ?db)" "row_id q = row_id r" for q
    using that r action_ids_ok [OF ok] by (auto simp: distinct_map dest: inj_onD)
  have v: "expired_view now r = r" using assms(3) by (simp add: expired_view_def due_def)
  have "res = Inr (row_status r)"
    using ok assms(6)
  proof (cases rule: complete_cases)
    case (replay q)
    with here [of q] v show ?thesis by simp
  next
    case (refused q)
    with here [of q] v assms(3,5) show ?thesis by simp
  next
    case (finished q)
    with here [of q] assms(3) show ?thesis by (simp add: active_state_def)
  qed
  with r stays [OF rows_evolve_trans [OF ev complete_evolves [OF ok assms(6)]]] show ?thesis by simp
qed

text \<open>Expiry wins against a late report: a report for an action whose five minutes are over
  never completes it; the action is (or is already) terminal with its own state, and if it was
  still active it is recorded as expired.\<close>

theorem expiry_wins:
  assumes "action_db_ok db" and "r \<in> set (adb_outbox db)" and "row_active r"
    and "sa_expires (ob_action r) \<le> now"
    and "complete_action ids host (row_id r) outcome now db = Inr (db', res)"
  shows "finish_row now ''expired'' ''expired'' r \<in> set (adb_outbox db')
     \<and> res = (if sa_host (ob_action r) = host \<and> outcome_valid outcome
              then Inr (row_status (finish_row now ''expired'' ''expired'' r))
              else Inl ActionProtocolInvalid)"
proof -
  have due: "due now True r" using assms(3,4) by (simp add: due_def)
  then have v: "expired_view now r = finish_row now ''expired'' ''expired'' r" by (simp add: expired_view_def)
  have here: "q = r" if "q \<in> set (adb_outbox db)" "row_id q = row_id r" for q
    using that assms(2) action_ids_ok [OF assms(1)] by (auto simp: distinct_map dest: inj_onD)
  show ?thesis
    using assms(1,5)
  proof (cases rule: complete_cases)
    case (replay q)
    then have q: "q = r" using here by simp
    have "expired_view now r \<in> set (adb_outbox db')" using replay(7) assms(2) by simp
    with replay q v show ?thesis by (simp add: finish_row_def)
  next
    case (refused q)
    then have q: "q = r" using here by simp
    have "expired_view now r \<in> set (adb_outbox db')" using refused(4) assms(2) by simp
    moreover have "\<not> row_active (expired_view now r)" by (simp add: v finish_row_def active_state_def)
    ultimately show ?thesis using refused(3,6) q v by simp
  next
    case (finished q)
    with here [of q] due show ?thesis by simp
  qed
qed

text \<open>C10: The message text of a finished action is gone: whatever the history of transactions
  from an empty outbox, no row in a terminal state holds a ciphertext or its protection tag, and
  the tables satisfy every constraint.\<close>

theorem finished_messages_erased:
  "let db = fold action_step ops empty_action_db in
   action_db_ok db \<and> messages_erased db"
  using actions.inv_run [OF empty_action_inv, of ops] by (simp add: action_inv_def Let_def)

text \<open>C34: A delivery hands out at most twenty commands: those of the polling host that are active
  and not expired, oldest first, all marked delivered; if fewer than twenty come out, none of the
  host's commands is left behind; and every row not handed out is either unchanged or was due and
  is expired.\<close>

theorem delivery_contract:
  assumes "action_db_ok db" and "deliver ids host now db = Inr (db', ds)"
  shows "length ds \<le> 20
     \<and> sorted (map (\<lambda>d. (sa_created (dl_action d), sa_id (dl_action d))) ds)
     \<and> (\<forall>d \<in> set ds. sa_host (dl_action d) = host \<and> sa_state (dl_action d) = ''delivered''
          \<and> now < sa_expires (dl_action d)
          \<and> (\<exists>r \<in> set (adb_outbox db'). ob_action r = dl_action d))
     \<and> (length ds < 20 \<longrightarrow>
          (\<forall>r \<in> set (adb_outbox db). deliverable host now r \<longrightarrow> row_id r \<in> (\<lambda>d. sa_id (dl_action d)) ` set ds))
     \<and> (\<forall>r \<in> set (adb_outbox db). row_id r \<notin> (\<lambda>d. sa_id (dl_action d)) ` set ds \<longrightarrow>
          r \<in> set (adb_outbox db')
          \<or> due now True r \<and> finish_row now ''expired'' ''expired'' r \<in> set (adb_outbox db'))"
  (is "?bound \<and> ?sorted \<and> ?each \<and> ?all \<and> ?rest")
proof (intro conjI)
  let ?sel = "take 20 (sort_key delivery_order (filter (deliverable host now) (adb_outbox db)))"
  note eff = deliver_effect [OF assms]
  have key: "(\<lambda>d. (sa_created (dl_action d), sa_id (dl_action d))) \<circ> (mark_delivery \<circ> row_delivery) = delivery_order"
    by (auto simp: mark_delivery_def row_delivery_def delivery_order_def fun_eq_iff)
  show ?bound by (simp add: eff(3))
  show ?sorted by (simp add: eff(3) key sorted_wrt_take flip: take_map)
  have sub: "r \<in> set (adb_outbox db) \<and> deliverable host now r" if "r \<in> set ?sel" for r
    using in_set_takeD [OF that] by simp
  show ?each
  proof
    fix d assume "d \<in> set ds"
    then obtain r where r: "r \<in> set ?sel" "d = mark_delivery (row_delivery r)" by (auto simp: eff(3))
    have d: "dl_action d = (ob_action r)\<lparr>sa_state := ''delivered''\<rparr>"
      using r(2) sub [OF r(1)]
      by (cases "ob_action r") (auto simp: mark_delivery_def row_delivery_def deliverable_def active_state_def)
    have "ob_action (delivered_view db host now r) = dl_action d"
    proof (cases "row_state r = ''queued''")
      case True
      then have "row_id r \<in> queued_ids (map row_delivery ?sel)"
        using r(1) by (force simp: queued_ids_def row_delivery_def)
      with True d sub [OF r(1)] show ?thesis
        by (auto simp: delivered_view_def due_def deliverable_def mark_row_def)
    next
      case False
      with sub [OF r(1)] d show ?thesis
        by (cases "ob_action r") (auto simp: delivered_view_def due_def deliverable_def active_state_def)
    qed
    then have "\<exists>r \<in> set (adb_outbox db'). ob_action r = dl_action d"
      using sub [OF r(1)] by (auto simp: eff(2))
    with d sub [OF r(1)] show "sa_host (dl_action d) = host \<and> sa_state (dl_action d) = ''delivered''
        \<and> now < sa_expires (dl_action d) \<and> (\<exists>r \<in> set (adb_outbox db'). ob_action r = dl_action d)"
      by (simp add: deliverable_def)
  qed
  show ?all
  proof (intro impI ballI)
    fix r assume "length ds < 20" and r: "r \<in> set (adb_outbox db)" "deliverable host now r"
    then have "?sel = sort_key delivery_order (filter (deliverable host now) (adb_outbox db))"
      by (simp add: eff(3))
    with r have "r \<in> set ?sel" by simp
    then have "mark_delivery (row_delivery r) \<in> set ds" by (simp add: eff(3))
    moreover have "sa_id (dl_action (mark_delivery (row_delivery r))) = row_id r"
      by (simp add: mark_delivery_def row_delivery_def)
    ultimately show "row_id r \<in> (\<lambda>d. sa_id (dl_action d)) ` set ds" by (metis image_eqI)
  qed
  have ids: "(\<lambda>d. sa_id (dl_action d)) ` set ds = row_id ` set ?sel"
    unfolding eff(3) set_map image_image by (rule image_cong) (simp_all add: mark_delivery_def row_delivery_def)
  show ?rest
  proof (intro ballI impI)
    fix r assume r: "r \<in> set (adb_outbox db)" "row_id r \<notin> (\<lambda>d. sa_id (dl_action d)) ` set ds"
    then have "row_id r \<notin> queued_ids (map row_delivery ?sel)"
      unfolding ids by (auto simp: queued_ids_def row_delivery_def)
    then have "delivered_view db host now r = (if due now True r then finish_row now ''expired'' ''expired'' r else r)"
      by (simp add: delivered_view_def)
    moreover have "delivered_view db host now r \<in> set (adb_outbox db')" using r(1) by (simp add: eff(2))
    ultimately show "r \<in> set (adb_outbox db')
        \<or> due now True r \<and> finish_row now ''expired'' ''expired'' r \<in> set (adb_outbox db')"
      by (simp split: if_splits)
  qed
qed

text \<open>C9: An idempotency key is answered once and for all: after an action was enqueued, and
  whatever transactions follow (short of retention, after which the key is free again), a well-formed
  request with the same
  requester, endpoint and key creates nothing: it is answered with the status of the first action when the fingerprints agree and refused as a conflict when they differ.\<close>

theorem idempotency_key_answers:
  assumes "action_inv db" and "enqueue_action ids input db = Inr (db1, st, False)"
    and "\<forall>op \<in> set ops. \<not> is_retain op"
    and "sa_requested_by (en_action again) = sa_requested_by (en_action input)"
    and "en_endpoint again = en_endpoint input" and "sa_key (en_action again) = sa_key (en_action input)"
    and "valid_action (en_action again)" and "sa_fingerprint (en_action again) \<noteq> []"
    and "en_endpoint again \<noteq> []"
    and "if sa_type (en_action again) = ''message'' then en_ciphertext again \<noteq> [] \<and> en_protection again \<noteq> []
         else en_ciphertext again = [] \<and> en_protection again = []"
  shows "if sa_fingerprint (en_action again) = sa_fingerprint (en_action input)
     then \<exists>s. enqueue_action ids' again (fold action_step ops db1) = Inr (fold action_step ops db1, s, True)
            \<and> st_id s = sa_id (en_action input) \<and> st_host s = sa_host (en_action input)
     else enqueue_action ids' again (fold action_step ops db1) = Inl ActionIdempotencyConflict"
proof -
  let ?d = "fold action_step ops db1"
  obtain row where row: "row \<in> set (adb_outbox db1)" "ob_action row = en_action input"
      "ob_endpoint row = en_endpoint input" and ok1: "action_db_ok db1"
    using assms(2) by (cases rule: enqueue_cases) auto
  have ok: "action_db_ok ?d" and ev: "rows_evolve db1 ?d"
    using run_evolves [OF ok1 assms(3)] by auto
  obtain q where q: "q \<in> set (adb_outbox ?d)" "row_evolves row q"
    using ev row(1) by (auto simp: rows_evolve_def)
  note same = row_evolves_same [OF q(2)]
  have "distinct (map idempotency_key (adb_outbox ?d))" using ok by (simp add: action_db_ok_def)
  moreover have key: "idempotency_key q = (sa_requested_by (en_action again), en_endpoint again, sa_key (en_action again))"
    using same(2) row(2,3) assms(4-6) by (simp add: idempotency_key_def)
  ultimately have "List.find (\<lambda>r. idempotency_key r = idempotency_key q) (adb_outbox ?d) = Some q"
    using q(1) by (intro find_by_key)
  then have "find_row (\<lambda>r. idempotency_key r =
      (sa_requested_by (en_action again), en_endpoint again, sa_key (en_action again))) ?d = Some q"
    by (simp add: find_row_def key)
  then have "enqueue_action ids' again ?d =
     (if sa_fingerprint (ob_action q) \<noteq> sa_fingerprint (en_action again) then Inl ActionIdempotencyConflict
      else Inr (?d, row_status q, True))"
    using assms(7-10) by (simp add: enqueue_action_def Let_def split: if_splits)
  with same row(2) show ?thesis by (simp add: row_status_def action_status_of_def)
qed

subsection \<open>Witnesses\<close>

definition example_command :: session_action where
  "example_command =
     \<lparr>sa_id = ''a1'', sa_host = ''HOST1'', sa_session = 2, sa_logon = 1000, sa_type = ''disconnect'',
      sa_state = ''queued'', sa_created = 5000, sa_expires = 305000, sa_requested_by = ''admin'',
      sa_key = ''k1'', sa_fingerprint = ''f1''\<rparr>"

definition example_enqueue :: action_enqueue where
  "example_enqueue =
     \<lparr>en_action = example_command, en_endpoint = ''disconnect'', en_ciphertext = [], en_protection = [],
      en_validate_target = False, en_enabled = True, en_fresh_since = 0\<rparr>"

definition example_ids :: "nat \<Rightarrow> string" where
  "example_ids n = replicate (Suc n) CHR ''e''"

definition example_outbox :: "string \<Rightarrow> action_db" where
  "example_outbox state =
     \<lparr>adb_outbox = [\<lparr>ob_action = example_command\<lparr>sa_state := state\<rparr>, ob_ciphertext = None,
         ob_protection = None, ob_endpoint = ''disconnect'',
         ob_delivered = (if state = ''queued'' then None else Some 6000),
         ob_completed = (if active_state state then None else Some 7000),
         ob_result = (if active_state state then None else Some state)\<rparr>],
      adb_audit = [], adb_sessions = empty_session_db\<rparr>"

lemma example_outbox_inv:
  "action_state_valid state \<Longrightarrow> action_inv (example_outbox state)"
  by (auto simp: action_inv_def action_db_ok_def messages_erased_def example_outbox_def example_command_def
      check_outbox_row_def Let_def valid_action_type_def active_state_def)

lemma example_states: "action_state_valid ''queued''" "action_state_valid ''delivered''"
    "action_state_valid ''completed''"
  by (simp_all add: action_state_valid_def)

lemma example_fresh: "fresh_ids example_ids (example_outbox state)" "fresh_ids example_ids empty_action_db"
  by (auto simp: fresh_ids_def example_outbox_def example_ids_def empty_action_db_def inj_def
      dest: arg_cong [where f = length])

lemmas example_action_simps = example_outbox_def example_command_def example_ids_def example_enqueue_def

lemma lifecycle_commits_witness:
  "\<exists>x. deliver example_ids ''HOST1'' 6000 (example_outbox ''queued'') = Inr x"
  using lifecycle_commits [of "example_outbox ''queued''" example_ids 6000 "''HOST1''" "''completed''"]
    example_outbox_inv [OF example_states(1)] example_fresh(1)
  by (simp add: action_inv_def)

lemma first_outcome_stays_witness:
  "\<exists>db' res. complete_action example_ids ''HOST1'' ''a1'' ''failed'' 8000
     (fold action_step [ActExpire example_ids 7500] (example_outbox ''completed'')) = Inr (db', res)
     \<and> res = Inr (row_status (hd (adb_outbox (example_outbox ''completed''))))"
proof -
  have run: "fold action_step [ActExpire example_ids 7500] (example_outbox ''completed'') = example_outbox ''completed''"
    by (simp add: action_step_def expire_def transition_matching_active_def example_action_simps
        commit_action_def active_state_def)
  have r: "hd (adb_outbox (example_outbox ''completed'')) \<in> set (adb_outbox (example_outbox ''completed''))"
    by (simp add: example_action_simps)
  have ids: "sa_host (ob_action (hd (adb_outbox (example_outbox ''completed'')))) = ''HOST1''"
    "row_id (hd (adb_outbox (example_outbox ''completed''))) = ''a1''"
    "\<not> row_active (hd (adb_outbox (example_outbox ''completed'')))"
    by (simp_all add: example_action_simps active_state_def)
  obtain db' res where c: "complete_action example_ids ''HOST1'' ''a1'' ''failed'' 8000 (example_outbox ''completed'')
      = Inr (db', res)"
    using complete_commits [OF _ example_fresh(1) _ r, of 8000 "''HOST1''" "''failed''"]
      example_outbox_inv [OF example_states(3)] ids(2) by (auto simp: action_inv_def)
  have "res = Inr (row_status (hd (adb_outbox (example_outbox ''completed''))))"
    using first_outcome_stays [OF example_outbox_inv [OF example_states(3)] r ids(3),
        of "[ActExpire example_ids 7500]" "''failed''" example_ids 8000 db' res] c ids(1,2) run
    by (simp add: outcome_valid_def is_safe_action_result_def)
  with c run show ?thesis by simp
qed

lemma expiry_wins_witness:
  "\<exists>db' res. complete_action example_ids ''HOST1'' ''a1'' ''completed'' 305000 (example_outbox ''delivered'')
     = Inr (db', Inr res) \<and> st_state res = ''expired''"
proof -
  let ?r = "hd (adb_outbox (example_outbox ''delivered''))"
  have r: "?r \<in> set (adb_outbox (example_outbox ''delivered''))" "row_active ?r" "row_id ?r = ''a1''"
    "sa_host (ob_action ?r) = ''HOST1''" "sa_expires (ob_action ?r) \<le> 305000"
    by (simp_all add: example_action_simps active_state_def)
  have ok: "action_db_ok (example_outbox ''delivered'')"
    using example_outbox_inv [OF example_states(2)] by (simp add: action_inv_def)
  obtain db' res where c: "complete_action example_ids ''HOST1'' ''a1'' ''completed'' 305000
      (example_outbox ''delivered'') = Inr (db', res)"
    using complete_commits [OF ok example_fresh(1) _ r(1), of 305000 "''HOST1''" "''completed''"] r(3) by auto
  from expiry_wins [OF ok r(1,2,5), of example_ids "''HOST1''" "''completed''" db' res] c r(3,4)
  show ?thesis
    by (auto simp: outcome_valid_def is_safe_action_result_def row_status_def action_status_of_def finish_row_def)
qed

lemma delivery_contract_witness:
  "\<exists>db' ds. deliver example_ids ''HOST1'' 6000 (example_outbox ''queued'') = Inr (db', ds) \<and> length ds = 1
     \<and> (\<forall>d \<in> set ds. sa_state (dl_action d) = ''delivered'')"
proof -
  have ok: "action_db_ok (example_outbox ''queued'')"
    using example_outbox_inv [OF example_states(1)] by (simp add: action_inv_def)
  obtain db' ds where d: "deliver example_ids ''HOST1'' 6000 (example_outbox ''queued'') = Inr (db', ds)"
    using deliver_commits [OF ok example_fresh(1), of 6000 "''HOST1''"] by auto
  have "length ds = 1"
    unfolding deliver_effect(3) [OF ok d]
    by (simp add: example_outbox_def deliverable_def example_command_def active_state_def)
  with delivery_contract [OF ok d] d show ?thesis by blast
qed

lemma idempotency_key_answers_witness:
  "\<exists>db1 st s. enqueue_action example_ids example_enqueue empty_action_db = Inr (db1, st, False)
     \<and> enqueue_action example_ids example_enqueue db1 = Inr (db1, s, True) \<and> st_id s = ''a1''"
proof -
  have "\<exists>db1 st. enqueue_action example_ids example_enqueue empty_action_db = Inr (db1, st, False)"
    by (simp add: enqueue_action_def Let_def example_action_simps valid_action_def find_row_def empty_action_db_def
        commit_action_def action_db_ok_def append_action_audit_def check_outbox_row_def check_audit_event_def
        action_audit_from_def valid_action_type_def active_state_def action_state_valid_def valid_transition_def
        nullable_def)
  then obtain db1 st where e: "enqueue_action example_ids example_enqueue empty_action_db = Inr (db1, st, False)"
    by blast
  from idempotency_key_answers [OF empty_action_inv e, of "[]" example_enqueue example_ids]
  have "\<exists>s. enqueue_action example_ids example_enqueue db1 = Inr (db1, s, True) \<and> st_id s = ''a1''"
    by (auto simp: example_action_simps valid_action_def)
  with e show ?thesis by blast
qed

end
