(* ===== verification/ActionLedger.thy ===== *)
theory ActionLedger
  imports ActionRequests
begin

text \<open>
  The agent's durable ledger of session actions (\<open>internal/telemetry/session_action_ledger.go\<close>,
  table of \<open>migrate_sessions.go\<close>). An action is claimed before anything is done about it; its
  first terminal outcome is kept until the dashboard acknowledges it or the row outlives the
  retention. Times are nanoseconds as \<open>time.Time\<close> has them, columns are milliseconds.
\<close>

subsection \<open>The table\<close>

record ledger_entry =
  le_id :: string
  le_state :: string
  le_outcome :: "string option"
  le_claimed :: int
  le_completed :: "int option"
  le_expires :: int

type_synonym ledger = "ledger_entry list"

definition ledger_outcome :: "string \<Rightarrow> bool" where
  "ledger_outcome outcome \<longleftrightarrow>
     outcome = ''completed'' \<or> outcome = ''failed'' \<or> outcome = ''expired''
     \<or> outcome = ''session_changed'' \<or> outcome = ''unsupported'' \<or> outcome = ''duplicate''"

definition check_ledger_row :: "ledger_entry \<Rightarrow> bool" where
  "check_ledger_row e \<longleftrightarrow>
     (le_state e = ''claimed'' \<or> le_state e = ''terminal'')
     \<and> (case le_outcome e of None \<Rightarrow> True | Some outcome \<Rightarrow> ledger_outcome outcome)
     \<and> le_claimed e \<ge> 0
     \<and> (case le_completed e of None \<Rightarrow> True | Some t \<Rightarrow> t \<ge> 0)
     \<and> le_expires e \<ge> 0
     \<and> (le_state e = ''claimed'' \<and> le_outcome e = None \<and> le_completed e = None
        \<or> le_state e = ''terminal'' \<and> le_outcome e \<noteq> None \<and> le_completed e \<noteq> None)"

definition ledger_ok :: "ledger \<Rightarrow> bool" where
  "ledger_ok l \<longleftrightarrow> list_all check_ledger_row l \<and> distinct (map le_id l)"

subsection \<open>Operations\<close>

datatype ledger_error = LedgerInvalid | LedgerConstraint | LedgerNoRow | LedgerMissing | LedgerDriver

definition ledger_entry_of :: "ledger \<Rightarrow> string \<Rightarrow> ledger_error + ledger_entry" where
  "ledger_entry_of l i = (case List.find (\<lambda>e. le_id e = i) l of None \<Rightarrow> Inl LedgerNoRow | Some e \<Rightarrow> Inr e)"

definition claim_ledger ::
  "string \<Rightarrow> int \<Rightarrow> int \<Rightarrow> ledger \<Rightarrow> ledger_error + (bool \<times> ledger_entry \<times> ledger)" where
  "claim_ledger i expires_at claimed_at l =
     (if i = [] \<or> unix_milli expires_at < 0 \<or> unix_milli claimed_at < 0 then Inl LedgerInvalid
      else
        let e = \<lparr>le_id = i, le_state = ''claimed'', le_outcome = None,
                 le_claimed = unix_milli claimed_at, le_completed = None,
                 le_expires = unix_milli expires_at\<rparr>
        in if i \<notin> set (map le_id l)
           then (if check_ledger_row e then Inr (True, e, l @ [e]) else Inl LedgerConstraint)
           else (case ledger_entry_of l i of Inl x \<Rightarrow> Inl x | Inr known \<Rightarrow> Inr (False, known, l)))"

definition complete_entry :: "string \<Rightarrow> int \<Rightarrow> ledger_entry \<Rightarrow> ledger_entry" where
  "complete_entry outcome at_ms e =
     e\<lparr>le_state := ''terminal'', le_outcome := Some outcome, le_completed := Some at_ms\<rparr>"

definition complete_ledger :: "string \<Rightarrow> string \<Rightarrow> int \<Rightarrow> ledger \<Rightarrow> ledger_error + ledger" where
  "complete_ledger i outcome completed_at l =
     (if i = [] \<or> \<not> outcome_valid outcome \<or> unix_milli completed_at < 0 then Inl LedgerInvalid
      else
        let hit = (\<lambda>e. le_id e = i \<and> le_state e = ''claimed'');
            l' = map (\<lambda>e. if hit e then complete_entry outcome (unix_milli completed_at) e else e) l
        in if \<not> list_all check_ledger_row l' then Inl LedgerConstraint
           else if list_ex hit l then Inr l'
           else (case ledger_entry_of l' i of
                   Inl x \<Rightarrow> Inl x
                 | Inr e \<Rightarrow> if le_state e = ''terminal'' then Inr l' else Inl LedgerMissing))"

definition acknowledge_ledger :: "string \<Rightarrow> ledger \<Rightarrow> ledger" where
  "acknowledge_ledger i l = filter (\<lambda>e. \<not> (le_id e = i \<and> le_state e = ''terminal'')) l"

definition cleanup_ledger :: "int \<Rightarrow> int \<Rightarrow> int \<Rightarrow> ledger \<Rightarrow> ledger_error + (nat \<times> ledger)" where
  "cleanup_ledger now retention limit l =
     (if limit \<le> 0 \<or> retention < 0 then Inl LedgerInvalid
      else
        let cutoff = unix_milli (now - retention);
            gone = take (nat limit) (sort_key (\<lambda>e. (le_expires e, le_id e))
                     (filter (\<lambda>e. le_expires e \<le> cutoff) l))
        in Inr (length gone, filter (\<lambda>e. le_id e \<notin> set (map le_id gone)) l))"

subsection \<open>Lemmas\<close>

definition ledger_ids :: "ledger \<Rightarrow> string set" where
  "ledger_ids l = le_id ` set l"

lemma claim_cases:
  assumes "claim_ledger i x t l = Inr (c, e, l')"
  obtains (new) "c" "i \<notin> ledger_ids l" "l' = l @ [e]" "check_ledger_row e" "le_id e = i"
      "le_expires e = unix_milli x" "le_state e = ''claimed''"
  | (known) "\<not> c" "i \<in> ledger_ids l" "l' = l" "e \<in> set l" "le_id e = i"
proof (cases "i \<in> ledger_ids l")
  case True
  then obtain k where k: "List.find (\<lambda>e. le_id e = i) l = Some k"
    by (cases "List.find (\<lambda>e. le_id e = i) l") (auto simp: ledger_ids_def find_None_iff)
  then have "ledger_entry_of l i = Inr k" by (simp add: ledger_entry_of_def)
  moreover have "k \<in> set l" "le_id k = i" using k by (auto simp: find_Some_iff)
  ultimately have k: "ledger_entry_of l i = Inr k" "k \<in> set l" "le_id k = i" by simp_all
  with assms True show ?thesis
    by (intro known) (auto simp: claim_ledger_def Let_def ledger_ids_def split: if_splits)
next
  case False
  with assms show ?thesis
    by (intro new) (auto simp: claim_ledger_def Let_def ledger_ids_def split: if_splits)
qed

lemma claim_ok: "ledger_ok l \<Longrightarrow> claim_ledger i x t l = Inr (c, e, l') \<Longrightarrow> ledger_ok l'"
  by (erule claim_cases) (auto simp: ledger_ok_def ledger_ids_def)

lemma complete_ledger_result:
  "complete_ledger i outcome t l = Inr l' \<Longrightarrow>
   l' = map (\<lambda>e. if le_id e = i \<and> le_state e = ''claimed''
               then complete_entry outcome (unix_milli t) e else e) l
   \<and> list_all check_ledger_row l'"
  by (auto simp: complete_ledger_def Let_def split: if_splits sum.splits)

lemma complete_ids: "complete_ledger i outcome t l = Inr l' \<Longrightarrow> map le_id l' = map le_id l"
  by (drule complete_ledger_result) (auto simp: complete_entry_def)

lemma complete_ok: "ledger_ok l \<Longrightarrow> complete_ledger i outcome t l = Inr l' \<Longrightarrow> ledger_ok l'"
  by (simp add: ledger_ok_def complete_ids) (simp add: complete_ledger_result)

lemma distinct_map_filter_id: "distinct (map f xs) \<Longrightarrow> distinct (map f (filter P xs))"
  by (induction xs) auto

lemma acknowledge_ok: "ledger_ok l \<Longrightarrow> ledger_ok (acknowledge_ledger i l)"
  by (auto simp: ledger_ok_def acknowledge_ledger_def list_all_iff distinct_map_filter_id)

lemma cleanup_ok: "ledger_ok l \<Longrightarrow> cleanup_ledger now r n l = Inr (k, l') \<Longrightarrow> ledger_ok l'"
  by (auto simp: ledger_ok_def cleanup_ledger_def Let_def list_all_iff distinct_map_filter_id split: if_splits)

text \<open>Cleanup drops only rows past the cutoff.\<close>

lemma cleanup_keeps:
  assumes ok: "ledger_ok l" and run: "cleanup_ledger now r n l = Inr (k, l')"
    and e: "e \<in> set l" "unix_milli (now - r) < le_expires e"
  shows "e \<in> set l'"
proof -
  define gone where "gone = take (nat n) (sort_key (\<lambda>e. (le_expires e, le_id e))
    (filter (\<lambda>e. le_expires e \<le> unix_milli (now - r)) l))"
  have l': "l' = filter (\<lambda>e. le_id e \<notin> set (map le_id gone)) l"
    using run by (simp add: cleanup_ledger_def Let_def gone_def split: if_splits)
  have "le_id e \<notin> set (map le_id gone)"
  proof
    assume "le_id e \<in> set (map le_id gone)"
    then obtain g where "g \<in> set gone" "le_id g = le_id e" by auto
    moreover have "g \<in> set l" "le_expires g \<le> unix_milli (now - r)" if "g \<in> set gone" for g
      using in_set_takeD [OF that [unfolded gone_def]] by simp_all
    ultimately have "g = e" "le_expires e \<le> unix_milli (now - r)"
      using ok e(1) by (auto simp: ledger_ok_def distinct_map dest: inj_onD)
    with e(2) show False by simp
  qed
  with e(1) l' show ?thesis by simp
qed

lemma cleanup_subset: "cleanup_ledger now r n l = Inr (k, l') \<Longrightarrow> set l' \<subseteq> set l"
  by (auto simp: cleanup_ledger_def Let_def split: if_splits)

end
