(* ===== verification/ActionExecutor.thy ===== *)
theory ActionExecutor
  imports ActionLedger
begin

text \<open>
  The agent's executor of session actions (\<open>sessions_actions_windows.go\<close>) and the part of
  the session runtime that drives it (\<open>internal/svc/check.go\<close>). The executor works on any ledger
  behind the interface \<open>SessionActionLedger\<close>; its laws are the locale \<open>action_ledger\<close>, which
  the durable ledger satisfies however its driver fails. The calls into the terminal services are
  an effect: the executor returns the list of the calls it made.
\<close>

subsection \<open>The ledger interface\<close>

record 's ledger_ops =
  lo_claim :: "string \<Rightarrow> int \<Rightarrow> int \<Rightarrow> 's \<Rightarrow> ledger_error + (bool \<times> 's)"
  lo_complete :: "string \<Rightarrow> string \<Rightarrow> int \<Rightarrow> 's \<Rightarrow> ledger_error + 's"
  lo_entry :: "'s \<Rightarrow> string \<Rightarrow> ledger_error + ledger_entry"

subsection \<open>Execution\<close>

datatype wts_call = WtsDisconnect u32 | WtsLogoff u32 | WtsMessage u32 string

text \<open>
  What the executor meets: its successive clock readings, the answer of the session lookup (an
  error, no session or no logon time, a logon time) and whether a call into the terminal services
  succeeds.
\<close>

record action_env =
  env_now :: "nat \<Rightarrow> int"
  env_lookup :: "u32 \<Rightarrow> int option option"
  env_wts_ok :: "wts_call \<Rightarrow> bool"

datatype execute_error = ClaimFailed | CompleteFailed

definition record_terminal ::
  "'s ledger_ops \<Rightarrow> int \<Rightarrow> string \<Rightarrow> string \<Rightarrow> 's \<Rightarrow> 's \<times> (execute_error + completed_action)" where
  "record_terminal ops now i outcome s =
     (case lo_complete ops i outcome now s of
        Inl _ \<Rightarrow> (s, Inl CompleteFailed)
      | Inr s' \<Rightarrow> (s', Inr \<lparr>ca_id = i, ca_outcome = outcome\<rparr>))"

text \<open>The last check of the deadline, the call and the terminal outcome.\<close>

definition call_wts ::
  "'s ledger_ops \<Rightarrow> action_env \<Rightarrow> pending_action \<Rightarrow> wts_call \<Rightarrow> 's
   \<Rightarrow> 's \<times> wts_call list \<times> (execute_error + completed_action)" where
  "call_wts ops env a call s =
     (if unix_milli (env_now env 1) \<ge> pa_expires a
      then (case record_terminal ops (env_now env 2) (pa_id a) ''expired'' s of (s', r) \<Rightarrow> (s', [], r))
      else
        (case record_terminal ops (env_now env 2) (pa_id a)
                (if env_wts_ok env call then ''completed'' else ''failed'') s of
           (s', r) \<Rightarrow> (s', [call], r)))"

definition execute_action ::
  "'s ledger_ops \<Rightarrow> action_env \<Rightarrow> pending_action \<Rightarrow> 's
   \<Rightarrow> 's \<times> wts_call list \<times> (execute_error + completed_action)" where
  "execute_action ops env a s =
     (let now = env_now env 0;
          finish = (\<lambda>outcome s. case record_terminal ops (env_now env 1) (pa_id a) outcome s of
                      (s', r) \<Rightarrow> (s', [], r))
      in case lo_claim ops (pa_id a) (pa_expires a * 1000000) now s of
           Inl _ \<Rightarrow> (s, [], Inl ClaimFailed)
         | Inr (False, s1) \<Rightarrow>
             (s1, [], Inr \<lparr>ca_id = pa_id a, ca_outcome =
                (case lo_entry ops s1 (pa_id a) of
                   Inl _ \<Rightarrow> ''duplicate''
                 | Inr e \<Rightarrow> if le_state e = ''terminal'' then
                      (case le_outcome e of None \<Rightarrow> ''duplicate'' | Some outcome \<Rightarrow> outcome)
                     else ''duplicate'')\<rparr>)
         | Inr (True, s1) \<Rightarrow>
             if unix_milli now \<ge> pa_expires a then finish ''expired'' s1
             else
               (case env_lookup env (pa_session a) of
                  None \<Rightarrow> finish ''failed'' s1
                | Some None \<Rightarrow> finish ''failed'' s1
                | Some (Some logon) \<Rightarrow>
                    if logon \<noteq> pa_logon a then finish ''session_changed'' s1
                    else if pa_type a = ''disconnect'' then call_wts ops env a (WtsDisconnect (pa_session a)) s1
                    else if pa_type a = ''logoff'' then call_wts ops env a (WtsLogoff (pa_session a)) s1
                    else if pa_type a = ''message'' then
                      (case pa_message a of
                         None \<Rightarrow> finish ''unsupported'' s1
                       | Some m \<Rightarrow> call_wts ops env a (WtsMessage (pa_session a) m) s1)
                    else finish ''unsupported'' s1))"

subsection \<open>What a ledger promises\<close>

locale action_ledger =
  fixes ops :: "'s ledger_ops" and known :: "'s \<Rightarrow> (string \<times> int) set" and ok :: "'s \<Rightarrow> bool"
  assumes claim_law: "lo_claim ops i expires now s = Inr (c, s') \<Longrightarrow>
      (c \<longleftrightarrow> i \<notin> fst ` known s) \<and> known s' = (if c then insert (i, unix_milli expires) (known s) else known s)"
    and complete_law: "lo_complete ops i outcome now s = Inr s' \<Longrightarrow> known s' = known s"
    and claim_ok: "ok s \<Longrightarrow> lo_claim ops i expires now s = Inr (c, s') \<Longrightarrow> ok s'"
    and complete_ok: "ok s \<Longrightarrow> lo_complete ops i outcome now s = Inr s' \<Longrightarrow> ok s'"
begin

lemma record_terminal_keeps:
  "record_terminal ops now i outcome s = (s', r) \<Longrightarrow> known s' = known s \<and> (ok s \<longrightarrow> ok s')"
  by (auto simp: record_terminal_def complete_law intro: complete_ok split: sum.splits)

lemma call_wts_keeps:
  "call_wts ops env a w s = (s', calls, r) \<Longrightarrow> known s' = known s \<and> (ok s \<longrightarrow> ok s')
   \<and> length calls \<le> 1 \<and> (calls \<noteq> [] \<longrightarrow> unix_milli (env_now env 1) < pa_expires a)"
  by (auto simp: call_wts_def split: if_splits prod.splits dest!: record_terminal_keeps)

text \<open>A call is made only for an action the ledger did not know, before its deadline.\<close>

lemma execute_effect:
  assumes "execute_action ops env a s = (s', calls, r)"
  shows "(known s' = known s \<or> pa_id a \<notin> fst ` known s \<and> known s' = insert (pa_id a, pa_expires a) (known s))
     \<and> (ok s \<longrightarrow> ok s') \<and> length calls \<le> 1
     \<and> (calls \<noteq> [] \<longrightarrow> pa_id a \<notin> fst ` known s \<and> (pa_id a, pa_expires a) \<in> known s'
          \<and> unix_milli (env_now env 0) < pa_expires a \<and> unix_milli (env_now env 1) < pa_expires a
          \<and> env_lookup env (pa_session a) = Some (Some (pa_logon a)))"
proof (cases "lo_claim ops (pa_id a) (pa_expires a * 1000000) (env_now env 0) s")
  case (Inl e)
  with assms show ?thesis by (auto simp: execute_action_def Let_def)
next
  case (Inr cs)
  obtain c s1 where cs: "cs = (c, s1)" by force
  have k: "known s1 = (if c then insert (pa_id a, pa_expires a) (known s) else known s)"
    "c \<longleftrightarrow> pa_id a \<notin> fst ` known s" "ok s \<longrightarrow> ok s1"
    using claim_law [OF Inr [unfolded cs]] claim_ok [OF _ Inr [unfolded cs]]
    by (simp_all add: unix_milli_def)
  show ?thesis
  proof (cases c)
    case False
    with assms Inr cs k show ?thesis by (auto simp: execute_action_def Let_def)
  next
    case True
    have "known s' = known s1 \<and> (ok s1 \<longrightarrow> ok s') \<and> length calls \<le> 1
      \<and> (calls \<noteq> [] \<longrightarrow> unix_milli (env_now env 0) < pa_expires a \<and> unix_milli (env_now env 1) < pa_expires a
           \<and> env_lookup env (pa_session a) = Some (Some (pa_logon a)))"
      using assms Inr cs True
      by (auto simp: execute_action_def Let_def split: if_splits option.splits prod.splits
          dest!: record_terminal_keeps call_wts_keeps)
    with k True show ?thesis by auto
  qed
qed

end

subsection \<open>The durable ledger behind the interface\<close>

text \<open>The driver may fail in each operation; a failed operation leaves the table as it was.\<close>

record ledger_faults =
  lf_claim :: bool
  lf_complete :: bool
  lf_entry :: bool

definition ledger_store :: "ledger_faults \<Rightarrow> ledger ledger_ops" where
  "ledger_store f =
     \<lparr>lo_claim = (\<lambda>i expires now l.
        if lf_claim f then Inl LedgerDriver
        else case claim_ledger i expires now l of Inl e \<Rightarrow> Inl e | Inr (c, e, l') \<Rightarrow> Inr (c, l')),
      lo_complete = (\<lambda>i outcome now l.
        if lf_complete f then Inl LedgerDriver else complete_ledger i outcome now l),
      lo_entry = (\<lambda>l i. if lf_entry f then Inl LedgerDriver else ledger_entry_of l i)\<rparr>"

definition ledger_known :: "ledger \<Rightarrow> (string \<times> int) set" where
  "ledger_known l = (\<lambda>e. (le_id e, le_expires e)) ` set l"

lemma ledger_known_ids: "fst ` ledger_known l = ledger_ids l"
  by (force simp: ledger_known_def ledger_ids_def)

lemma claim_known:
  "claim_ledger i x t l = Inr (c, e, l') \<Longrightarrow>
   (c \<longleftrightarrow> i \<notin> ledger_ids l)
   \<and> ledger_known l' = (if c then insert (i, unix_milli x) (ledger_known l) else ledger_known l)"
  by (erule claim_cases) (auto simp: ledger_known_def)

lemma complete_known:
  assumes "complete_ledger i outcome t l = Inr l'"
  shows "ledger_known l' = ledger_known l"
proof -
  have "map (\<lambda>e. (le_id e, le_expires e)) l' = map (\<lambda>e. (le_id e, le_expires e)) l"
    using complete_ledger_result [OF assms] by (auto simp: complete_entry_def)
  from arg_cong [OF this, of set] show ?thesis by (simp add: ledger_known_def)
qed

lemma store_claim:
  "lo_claim (ledger_store f) i expires now l = Inr (c, l') \<Longrightarrow>
   \<exists>e. claim_ledger i expires now l = Inr (c, e, l')"
  by (auto simp: ledger_store_def split: if_splits sum.splits)

lemma store_complete:
  "lo_complete (ledger_store f) i outcome now l = Inr l' \<Longrightarrow> complete_ledger i outcome now l = Inr l'"
  by (auto simp: ledger_store_def split: if_splits)

interpretation durable: action_ledger "ledger_store f" ledger_known ledger_ok for f
proof (unfold_locales, goal_cases)
  case (1 i expires now s c s')
  from store_claim [OF this] claim_known show ?case by (force simp: ledger_known_ids)
next
  case (2 i outcome now s s')
  from store_complete [OF this] show ?case by (rule complete_known)
next
  case (3 s i expires now c s')
  from store_claim [OF 3(2)] 3(1) show ?case by (blast intro: claim_ok)
next
  case (4 s i outcome now s')
  from store_complete [OF this(2)] show ?case by (rule complete_ok [OF 4(1)])
qed

subsection \<open>The runtime\<close>

text \<open>
  The completions wait in memory until the dashboard acknowledges them; a restart forgets them,
  the ledger survives. \<open>rt_calls\<close> is the trace of the calls into the terminal services.
\<close>

record session_runtime =
  rt_completions :: "completed_action list"
  rt_ledger :: ledger
  rt_retention_hours :: int
  rt_calls :: "(string \<times> wts_call) list"

fun remove_completion :: "string \<Rightarrow> completed_action list \<Rightarrow> completed_action list" where
  "remove_completion i [] = []"
| "remove_completion i (c # cs) = (if ca_id c = i then cs else c # remove_completion i cs)"

text \<open>Each id comes with whether the local delete fails.\<close>

fun acknowledge_completions :: "(string \<times> bool) list \<Rightarrow> session_runtime \<Rightarrow> session_runtime" where
  "acknowledge_completions [] rt = rt"
| "acknowledge_completions ((i, delete_fails) # ids) rt =
     (if delete_fails then acknowledge_completions ids rt
      else acknowledge_completions ids
        (rt\<lparr>rt_ledger := acknowledge_ledger i (rt_ledger rt),
            rt_completions := remove_completion i (rt_completions rt)\<rparr>))"

type_synonym delivery_attempt = "pending_action \<times> action_env \<times> ledger_faults"

fun execute_deliveries :: "delivery_attempt list \<Rightarrow> int \<Rightarrow> session_runtime \<Rightarrow> session_runtime" where
  "execute_deliveries [] available rt = rt"
| "execute_deliveries ((a, env, f) # rest) available rt =
     (if available = 0 then rt
      else
        (case execute_action (ledger_store f) env a (rt_ledger rt) of (l', calls, res) \<Rightarrow>
         let rt1 = rt\<lparr>rt_ledger := l', rt_calls := rt_calls rt @ map (Pair (pa_id a)) calls\<rparr>
         in case res of
              Inl _ \<Rightarrow> execute_deliveries rest available rt1
            | Inr c \<Rightarrow>
                if ca_id c = [] then execute_deliveries rest available rt1
                else if list_ex (\<lambda>q. ca_id q = ca_id c) (rt_completions rt1)
                then execute_deliveries rest available rt1
                else execute_deliveries rest (available - 1)
                       (rt1\<lparr>rt_completions := rt_completions rt1 @ [c]\<rparr>)))"

definition execute_pending_actions :: "delivery_attempt list \<Rightarrow> session_runtime \<Rightarrow> session_runtime" where
  "execute_pending_actions actions rt =
     execute_deliveries actions
       (int max_session_action_commands - int (length (rt_completions rt))) rt"

definition apply_remote_actions ::
  "((string \<times> bool) list \<times> delivery_attempt list) option \<Rightarrow> session_runtime \<Rightarrow> session_runtime" where
  "apply_remote_actions report rt =
     (case report of None \<Rightarrow> rt
      | Some (acknowledged, pending) \<Rightarrow>
          execute_pending_actions pending (acknowledge_completions acknowledged rt))"

definition cleanup_actions :: "int \<Rightarrow> bool \<Rightarrow> session_runtime \<Rightarrow> session_runtime" where
  "cleanup_actions now delete_fails rt =
     (if rt_retention_hours rt \<le> 0 then rt
      else if delete_fails then rt
      else case cleanup_ledger now (rt_retention_hours rt * hour) (int max_session_action_commands) (rt_ledger rt) of
             Inl _ \<Rightarrow> rt
           | Inr (n, l') \<Rightarrow> rt\<lparr>rt_ledger := l'\<rparr>)"

datatype runtime_event =
    RtReport "((string \<times> bool) list \<times> delivery_attempt list) option"
  | RtCleanup int bool
  | RtConfig int
  | RtRestart

definition runtime_step :: "runtime_event \<Rightarrow> session_runtime \<Rightarrow> session_runtime" where
  "runtime_step e rt =
     (case e of
        RtReport report \<Rightarrow> apply_remote_actions report rt
      | RtCleanup now fails \<Rightarrow> cleanup_actions now fails rt
      | RtConfig hours \<Rightarrow> rt\<lparr>rt_retention_hours := hours\<rparr>
      | RtRestart \<Rightarrow> rt\<lparr>rt_completions := []\<rparr>)"

definition fresh_runtime :: "int \<Rightarrow> session_runtime" where
  "fresh_runtime hours = \<lparr>rt_completions = [], rt_ledger = [], rt_retention_hours = hours, rt_calls = []\<rparr>"

subsection \<open>At most one call\<close>

definition calls_of :: "string \<Rightarrow> session_runtime \<Rightarrow> nat" where
  "calls_of i rt = length (filter (\<lambda>c. fst c = i) (rt_calls rt))"

text \<open>
  The invariant at a time not before any reading so far: the action was called for at most once,
  and once it was, either the ledger knows it or its deadline has passed.
\<close>

definition called_once :: "string \<Rightarrow> int \<Rightarrow> int \<Rightarrow> session_runtime \<Rightarrow> bool" where
  "called_once i deadline time rt \<longleftrightarrow>
     ledger_ok (rt_ledger rt) \<and> calls_of i rt \<le> 1
     \<and> (calls_of i rt = 0 \<or> (i, deadline) \<in> ledger_known (rt_ledger rt) \<or> deadline \<le> unix_milli time)"

lemma called_once_later: "called_once i d s rt \<Longrightarrow> s \<le> t \<Longrightarrow> called_once i d t rt"
  using unix_milli_mono [of s t] by (auto simp: called_once_def)

lemma called_once_ledger:
  "called_once i d t rt \<Longrightarrow> called_once i d t (rt\<lparr>rt_completions := cs\<rparr>)"
  by (simp add: called_once_def calls_of_def)

lemma acknowledge_known:
  "i \<noteq> j \<Longrightarrow> (i, d) \<in> ledger_known l \<Longrightarrow> (i, d) \<in> ledger_known (acknowledge_ledger j l)"
  by (force simp: ledger_known_def acknowledge_ledger_def)

lemma acknowledge_once:
  "called_once i d t rt \<Longrightarrow> i \<notin> fst ` set ids \<Longrightarrow> called_once i d t (acknowledge_completions ids rt)"
proof (induction ids arbitrary: rt)
  case (Cons x ids)
  obtain j fails where x: "x = (j, fails)" by force
  have "called_once i d t (rt\<lparr>rt_ledger := acknowledge_ledger j (rt_ledger rt),
      rt_completions := remove_completion j (rt_completions rt)\<rparr>)"
    using Cons.prems x acknowledge_known [of i j d "rt_ledger rt"]
    by (auto simp: called_once_def calls_of_def acknowledge_ok)
  with Cons x show ?case by auto
qed simp

lemma execute_once:
  assumes inv: "called_once i d t rt" and t: "t \<le> env_now env 0"
    and d: "pa_id a = i \<Longrightarrow> pa_expires a = d"
    and run: "execute_action (ledger_store f) env a (rt_ledger rt) = (l', calls, r)"
  shows "called_once i d t (rt\<lparr>rt_ledger := l', rt_calls := rt_calls rt @ map (Pair (pa_id a)) calls\<rparr>)"
    (is "called_once i d t ?rt")
proof -
  note e = durable.execute_effect [OF run]
  have known: "ledger_known (rt_ledger rt) \<subseteq> ledger_known l'" and ok: "ledger_ok l'"
    using e inv by (auto simp: called_once_def)
  have count: "calls_of i ?rt = calls_of i rt + (if pa_id a = i then length calls else 0)"
    by (simp add: calls_of_def comp_def)
  show ?thesis
  proof (cases "pa_id a = i \<and> calls \<noteq> []")
    case True
    with e d have "i \<notin> fst ` ledger_known (rt_ledger rt)" "(i, d) \<in> ledger_known l'"
      "unix_milli (env_now env 0) < d" by auto
    moreover from this(3) t have "\<not> d \<le> unix_milli t" using unix_milli_mono [of t "env_now env 0"] by simp
    ultimately have "calls_of i rt = 0" using inv by (force simp: called_once_def)
    with True e ok count \<open>(i, d) \<in> ledger_known l'\<close> show ?thesis by (simp add: called_once_def)
  next
    case False
    then have "calls_of i ?rt = calls_of i rt" using count by auto
    with inv known ok show ?thesis by (auto simp: called_once_def)
  qed
qed

definition attempt_ok :: "string \<Rightarrow> int \<Rightarrow> int \<Rightarrow> delivery_attempt \<Rightarrow> bool" where
  "attempt_ok i d t x \<longleftrightarrow>
     t \<le> env_now (fst (snd x)) 0 \<and> (pa_id (fst x) = i \<longrightarrow> pa_expires (fst x) = d)"

lemma deliveries_once:
  assumes "called_once i d t rt" and "list_all (attempt_ok i d t) xs"
  shows "called_once i d t (execute_deliveries xs n rt)"
  using assms
proof (induction xs arbitrary: n rt)
  case (Cons x rest)
  obtain a env f where x: "x = (a, env, f)" by (metis prod_cases3)
  obtain l' calls r where run: "execute_action (ledger_store f) env a (rt_ledger rt) = (l', calls, r)"
    by (metis prod_cases3)
  define rt1 where "rt1 = rt\<lparr>rt_ledger := l', rt_calls := rt_calls rt @ map (Pair (pa_id a)) calls\<rparr>"
  have now: "t \<le> env_now env 0" "pa_id a = i \<Longrightarrow> pa_expires a = d"
    and rest: "list_all (attempt_ok i d t) rest"
    using Cons.prems(2) x attempt_ok_def [of i d t x] by simp_all
  have once: "called_once i d t rt1"
    unfolding rt1_def using execute_once [OF Cons.prems(1) now(1) _ run] now(2) by simp
  note rec = Cons.IH [OF once rest, of n]
    Cons.IH [OF called_once_ledger [OF once] rest, of "n - 1"]
  have "execute_deliveries (x # rest) n rt =
     (if n = 0 then rt
      else case r of
        Inl _ \<Rightarrow> execute_deliveries rest n rt1
      | Inr c \<Rightarrow> if ca_id c = [] \<or> list_ex (\<lambda>q. ca_id q = ca_id c) (rt_completions rt1)
                 then execute_deliveries rest n rt1
                 else execute_deliveries rest (n - 1) (rt1\<lparr>rt_completions := rt_completions rt1 @ [c]\<rparr>))"
    unfolding x execute_deliveries.simps run by (simp add: Let_def rt1_def split: sum.split)
  with rec Cons.prems(1) show ?case by (simp split: sum.split)
qed simp

lemma cleanup_once:
  assumes "called_once i d t rt" and "t \<le> now"
  shows "called_once i d now (cleanup_actions now fails rt)"
proof (cases "rt_retention_hours rt \<le> 0 \<or> fails
    \<or> (\<exists>e. cleanup_ledger now (rt_retention_hours rt * hour) (int max_session_action_commands) (rt_ledger rt) = Inl e)")
  case True
  with called_once_later [OF assms] show ?thesis by (auto simp: cleanup_actions_def)
next
  case False
  then obtain n l' where
    run: "cleanup_ledger now (rt_retention_hours rt * hour) (int max_session_action_commands) (rt_ledger rt) = Inr (n, l')"
    by (metis old.sum.exhaust surj_pair)
  have ok: "ledger_ok (rt_ledger rt)" using assms(1) by (simp add: called_once_def)
  have "deadline \<le> unix_milli now \<or> (i, deadline) \<in> ledger_known l'"
    if known: "(i, deadline) \<in> ledger_known (rt_ledger rt)" for deadline
  proof -
    obtain e where e: "e \<in> set (rt_ledger rt)" "le_id e = i" "le_expires e = deadline"
      using known by (auto simp: ledger_known_def)
    have "unix_milli (now - rt_retention_hours rt * hour) \<le> unix_milli now"
      using False by (intro unix_milli_mono) (simp add: hour_def minute_def second_def)
    with cleanup_keeps [OF ok run e(1)] e show ?thesis
      by (cases "unix_milli (now - rt_retention_hours rt * hour) < le_expires e") (auto simp: ledger_known_def)
  qed
  moreover have "cleanup_actions now fails rt = rt\<lparr>rt_ledger := l'\<rparr>"
    using False run by (auto simp: cleanup_actions_def)
  ultimately show ?thesis
    using called_once_later [OF assms] cleanup_ok [OF ok run] by (auto simp: called_once_def calls_of_def)
qed

text \<open>The clock readings of an event, what it acknowledges and what it delivers.\<close>

fun event_times :: "runtime_event \<Rightarrow> int list" where
  "event_times (RtReport (Some (acks, xs))) =
     concat (map (\<lambda>(a, env, f). [env_now env 0, env_now env 1, env_now env 2]) xs)"
| "event_times (RtCleanup now fails) = [now]"
| "event_times e = []"

fun event_acks :: "runtime_event \<Rightarrow> string set" where
  "event_acks (RtReport (Some (acks, xs))) = fst ` set acks"
| "event_acks e = {}"

fun event_actions :: "runtime_event \<Rightarrow> pending_action set" where
  "event_actions (RtReport (Some (acks, xs))) = fst ` set xs"
| "event_actions e = {}"

lemma runtime_step_once:
  assumes once: "called_once i d t rt" and later: "\<forall>s \<in> set (event_times e). t \<le> s"
    and acks: "i \<notin> event_acks e" and d: "\<forall>a \<in> event_actions e. pa_id a = i \<longrightarrow> pa_expires a = d"
  shows "\<exists>s. (s = t \<or> s \<in> set (event_times e)) \<and> called_once i d s (runtime_step e rt)"
proof (cases e)
  case (RtReport report)
  show ?thesis
  proof (cases report)
    case None
    with RtReport once show ?thesis by (auto simp: runtime_step_def apply_remote_actions_def)
  next
    case (Some p)
    obtain ids xs where p: "p = (ids, xs)" by force
    have "called_once i d t (acknowledge_completions ids rt)"
      using acks RtReport Some p by (intro acknowledge_once [OF once]) simp
    moreover have "list_all (attempt_ok i d t) xs"
      using later d RtReport Some p by (fastforce simp: list_all_iff attempt_ok_def)
    ultimately have "called_once i d t (runtime_step e rt)"
      using deliveries_once RtReport Some p
      by (simp add: runtime_step_def apply_remote_actions_def execute_pending_actions_def)
    then show ?thesis by blast
  qed
next
  case (RtCleanup now fails)
  with cleanup_once [OF once, of now fails] later show ?thesis by (auto simp: runtime_step_def)
qed (use once in \<open>auto simp: runtime_step_def called_once_def calls_of_def\<close>)

lemma run_once:
  assumes "called_once i d t rt" and "\<forall>s \<in> set (concat (map event_times es)). t \<le> s"
    and "sorted (concat (map event_times es))"
    and "\<forall>e \<in> set es. i \<notin> event_acks e"
    and "\<forall>e \<in> set es. \<forall>a \<in> event_actions e. pa_id a = i \<longrightarrow> pa_expires a = d"
  shows "\<exists>s. called_once i d s (fold runtime_step es rt)"
  using assms
proof (induction es arbitrary: t rt)
  case (Cons e es)
  obtain s where s: "s = t \<or> s \<in> set (event_times e)" "called_once i d s (runtime_step e rt)"
    using runtime_step_once [OF Cons.prems(1), of e] Cons.prems by fastforce
  have "\<forall>u \<in> set (concat (map event_times es)). s \<le> u"
    using s(1) Cons.prems(2,3) by (auto simp: sorted_append)
  with Cons.IH [OF s(2)] Cons.prems show ?case by (simp add: sorted_append)
qed auto

text \<open>C1: A session action is carried out at most once. Over any history of reports, restarts,
  cleanups and configuration changes of the agent, with any failures of the ledger's driver and
  any redeliveries by the dashboard, at most one call into the terminal services is made for an
  action id, provided that the clock does not run backwards, the action always comes with the same
  deadline and the dashboard does not acknowledge it within that history: an acknowledgement removes
  the entry from the ledger, and a later redelivery would be carried out again.\<close>

theorem called_at_most_once:
  assumes "sorted (concat (map event_times es))" and "\<forall>e \<in> set es. i \<notin> event_acks e"
    and "\<forall>e \<in> set es. \<forall>a \<in> event_actions e. pa_id a = i \<longrightarrow> pa_expires a = deadline"
  shows "length (filter (\<lambda>c. fst c = i) (rt_calls (fold runtime_step es (fresh_runtime hours)))) \<le> 1"
proof -
  have "\<exists>t. \<forall>s \<in> set ts. t \<le> s" if "sorted ts" for ts :: "int list"
    using that by (cases ts) auto
  from this [OF assms(1)] obtain t where "\<forall>s \<in> set (concat (map event_times es)). t \<le> s"
    by blast
  moreover have "called_once i deadline t (fresh_runtime hours)"
    by (simp add: called_once_def fresh_runtime_def calls_of_def ledger_ok_def)
  ultimately show ?thesis
    using run_once [of i deadline t "fresh_runtime hours" es] assms
    by (auto simp: called_once_def calls_of_def)
qed

subsection \<open>What is reported\<close>

lemma find_ledger:
  "distinct (map le_id l) \<Longrightarrow> e \<in> set l \<Longrightarrow> List.find (\<lambda>q. le_id q = le_id e) l = Some e"
  by (induction l) (auto simp: image_iff)

lemma terminal_outcome_valid:
  "check_ledger_row e \<Longrightarrow> le_outcome e = Some outcome \<Longrightarrow> outcome_valid outcome"
  by (auto simp: check_ledger_row_def ledger_outcome_def outcome_valid_def is_safe_action_result_def)

lemma ledger_entry_of_Inr: "ledger_entry_of l i = Inr e \<Longrightarrow> e \<in> set l \<and> le_id e = i"
  by (auto simp: ledger_entry_of_def find_Some_iff split: option.splits)

lemma record_terminal_result:
  "record_terminal ops now i outcome s = (s', Inr c) \<Longrightarrow> c = \<lparr>ca_id = i, ca_outcome = outcome\<rparr>"
  by (auto simp: record_terminal_def split: sum.splits)

lemma call_wts_result:
  "call_wts ops env a w s = (s', calls, Inr c) \<Longrightarrow>
   ca_id c = pa_id a \<and> outcome_valid (ca_outcome c)"
  by (auto simp: call_wts_def outcome_valid_def is_safe_action_result_def split: if_splits prod.splits
      dest!: record_terminal_result)

lemma store_entry:
  "lo_entry (ledger_store f) l i = Inr e \<Longrightarrow> e \<in> set l \<and> le_id e = i"
  by (auto simp: ledger_store_def split: if_splits dest: ledger_entry_of_Inr)

lemma execute_result:
  assumes ok: "ledger_ok l" and run: "execute_action (ledger_store f) env a l = (l', calls, Inr c)"
  shows "ca_id c = pa_id a \<and> outcome_valid (ca_outcome c)"
proof (cases "lo_claim (ledger_store f) (pa_id a) (pa_expires a * 1000000) (env_now env 0) l")
  case (Inl e)
  with run show ?thesis by (simp add: execute_action_def Let_def)
next
  case (Inr cs)
  obtain k l1 where cs: "cs = (k, l1)" by force
  have ok1: "ledger_ok l1" using durable.claim_ok [OF ok Inr [unfolded cs]] .
  have dup: "outcome_valid ''duplicate''" "outcome_valid ''expired''" "outcome_valid ''failed''"
    "outcome_valid ''session_changed''" "outcome_valid ''unsupported''"
    by (simp_all add: outcome_valid_def is_safe_action_result_def)
  show ?thesis
  proof (cases k)
    case True
    with run Inr cs dup show ?thesis
      by (auto simp: execute_action_def Let_def split: if_splits option.splits prod.splits
          dest!: record_terminal_result call_wts_result)
  next
    case False
    have "outcome_valid outcome" if "lo_entry (ledger_store f) l1 (pa_id a) = Inr e" "le_outcome e = Some outcome" for e outcome
      using store_entry [OF that(1)] ok1 that(2) terminal_outcome_valid [of e outcome]
      by (auto simp: ledger_ok_def list_all_iff)
    with run Inr cs False dup show ?thesis
      by (auto simp: execute_action_def Let_def split: sum.splits option.splits)
  qed
qed

definition completions_ok :: "(string \<Rightarrow> bool) \<Rightarrow> session_runtime \<Rightarrow> bool" where
  "completions_ok uuid_ok rt \<longleftrightarrow>
     ledger_ok (rt_ledger rt) \<and> valid_completed_actions uuid_ok (rt_completions rt)
     \<and> distinct (map ca_id (rt_completions rt))"

lemma remove_completion_sub:
  "set (remove_completion i cs) \<subseteq> set cs \<and> length (remove_completion i cs) \<le> length cs
   \<and> (distinct (map ca_id cs) \<longrightarrow> distinct (map ca_id (remove_completion i cs)))"
  by (induction cs) auto

lemma remove_completion_ok:
  "valid_completed_actions u cs \<Longrightarrow> valid_completed_actions u (remove_completion i cs)"
  using remove_completion_sub [of i cs] by (auto simp: valid_completed_actions_def list_all_iff)

lemma acknowledge_completions_ok:
  "completions_ok u rt \<Longrightarrow> completions_ok u (acknowledge_completions ids rt)"
proof (induction ids arbitrary: rt)
  case (Cons x ids)
  obtain j fails where x: "x = (j, fails)" by force
  have "completions_ok u (rt\<lparr>rt_ledger := acknowledge_ledger j (rt_ledger rt),
      rt_completions := remove_completion j (rt_completions rt)\<rparr>)"
    using Cons.prems remove_completion_sub [of j "rt_completions rt"] remove_completion_ok
    by (auto simp: completions_ok_def acknowledge_ok)
  with Cons x show ?case by auto
qed simp

lemma deliveries_ok:
  assumes "completions_ok u rt" and "n = int max_session_action_commands - int (length (rt_completions rt))"
    and "\<forall>x \<in> set xs. u (pa_id (fst x))"
  shows "completions_ok u (execute_deliveries xs n rt)"
  using assms
proof (induction xs arbitrary: n rt)
  case (Cons x rest)
  obtain a env f where x: "x = (a, env, f)" by (metis prod_cases3)
  obtain l' calls r where run: "execute_action (ledger_store f) env a (rt_ledger rt) = (l', calls, r)"
    by (metis prod_cases3)
  define rt1 where "rt1 = rt\<lparr>rt_ledger := l', rt_calls := rt_calls rt @ map (Pair (pa_id a)) calls\<rparr>"
  have ok: "ledger_ok (rt_ledger rt)" using Cons.prems(1) by (simp add: completions_ok_def)
  have rt1: "completions_ok u rt1" "rt_completions rt1 = rt_completions rt"
    using Cons.prems(1) durable.execute_effect [OF run] by (auto simp: completions_ok_def rt1_def)
  have step: "execute_deliveries (x # rest) n rt =
     (if n = 0 then rt
      else case r of
        Inl _ \<Rightarrow> execute_deliveries rest n rt1
      | Inr c \<Rightarrow> if ca_id c = [] \<or> list_ex (\<lambda>q. ca_id q = ca_id c) (rt_completions rt1)
                 then execute_deliveries rest n rt1
                 else execute_deliveries rest (n - 1) (rt1\<lparr>rt_completions := rt_completions rt1 @ [c]\<rparr>))"
    unfolding x execute_deliveries.simps run by (simp add: Let_def rt1_def split: sum.split)
  have same: "completions_ok u (execute_deliveries rest n rt1)"
    using Cons.IH [OF rt1(1), of n] rt1(2) Cons.prems(2,3) by simp
  have more: "completions_ok u (execute_deliveries rest (n - 1) (rt1\<lparr>rt_completions := rt_completions rt1 @ [c]\<rparr>))"
    if c: "r = Inr c" "\<not> list_ex (\<lambda>q. ca_id q = ca_id c) (rt_completions rt1)" "n \<noteq> 0" for c
  proof (rule Cons.IH)
    have "valid_completed_action u c"
      using execute_result [OF ok run [unfolded c(1)]] Cons.prems(3) by (simp add: valid_completed_action_def x)
    moreover have "length (rt_completions rt) \<le> max_session_action_commands"
      using Cons.prems(1) by (simp add: completions_ok_def valid_completed_actions_def)
    ultimately show "completions_ok u (rt1\<lparr>rt_completions := rt_completions rt1 @ [c]\<rparr>)"
      using rt1 c(2,3) Cons.prems(2)
      by (auto simp: completions_ok_def valid_completed_actions_def list_ex_iff)
  qed (use Cons.prems rt1(2) in auto)
  show ?case
    unfolding step using Cons.prems(1) same more by (auto split: sum.split)
qed simp

lemma runtime_step_ok:
  assumes "completions_ok u rt" and "\<forall>a \<in> event_actions e. u (pa_id a)"
  shows "completions_ok u (runtime_step e rt)"
proof (cases e)
  case (RtReport report)
  show ?thesis
  proof (cases report)
    case None
    with RtReport assms(1) show ?thesis by (simp add: runtime_step_def apply_remote_actions_def)
  next
    case (Some p)
    obtain ids xs where p: "p = (ids, xs)" by force
    have "\<forall>x \<in> set xs. u (pa_id (fst x))" using assms(2) RtReport Some p by auto
    from deliveries_ok [OF acknowledge_completions_ok [OF assms(1)] refl this] show ?thesis
      using RtReport Some p by (simp add: runtime_step_def apply_remote_actions_def execute_pending_actions_def)
  qed
next
  case (RtCleanup now fails)
  with assms(1) cleanup_ok show ?thesis
    by (auto simp: runtime_step_def cleanup_actions_def completions_ok_def split: sum.split)
qed (use assms(1) in \<open>auto simp: runtime_step_def completions_ok_def valid_completed_actions_def\<close>)

text \<open>A redelivered action that the agent already finished is answered from the ledger: no call
  is made, the ledger stays as it is and the report carries the first outcome, whatever the
  session or the clock are by then.\<close>

theorem redelivery_reports_first_outcome:
  assumes "ledger_ok l" and "e \<in> set l" and "le_state e = ''terminal''" and "le_id e = pa_id a"
    and "pa_id a \<noteq> []" and "0 \<le> pa_expires a" and "0 \<le> env_now env 0"
    and "\<not> lf_claim f" and "\<not> lf_entry f"
  shows "\<exists>outcome. le_outcome e = Some outcome
     \<and> execute_action (ledger_store f) env a l = (l, [], Inr \<lparr>ca_id = pa_id a, ca_outcome = outcome\<rparr>)"
proof -
  have known: "pa_id a \<in> set (map le_id l)" using assms(2,4) by force
  have "List.find (\<lambda>q. le_id q = pa_id a) l = Some e"
    using assms(1,2,4) find_ledger [of l e] by (simp add: ledger_ok_def)
  then have e: "ledger_entry_of l (pa_id a) = Inr e" by (simp add: ledger_entry_of_def)
  have "check_ledger_row e" using assms(1,2) by (simp add: ledger_ok_def list_all_iff)
  then obtain outcome where "le_outcome e = Some outcome"
    using assms(3) by (auto simp: check_ledger_row_def)
  moreover have "lo_claim (ledger_store f) (pa_id a) (pa_expires a * 1000000) (env_now env 0) l = Inr (False, l)"
    using known e assms(5-8) unix_milli_nonneg [of "env_now env 0"]
    by (auto simp: ledger_store_def claim_ledger_def Let_def unix_milli_def)
  ultimately show ?thesis
    using e assms(3,9) by (simp add: execute_action_def Let_def ledger_store_def)
qed

text \<open>What the agent reports is always acceptable: over any history in which the delivered
  action ids are well formed, at most twenty completions wait, each with a well-formed id and an
  outcome of the closed vocabulary, no id twice, so the dashboard's validation of the completed
  actions of a report accepts them.\<close>

theorem reported_completions_valid:
  assumes "\<forall>e \<in> set es. \<forall>a \<in> event_actions e. uuid_ok (pa_id a)"
  shows "let cs = rt_completions (fold runtime_step es (fresh_runtime hours)) in
     valid_completed_actions uuid_ok cs \<and> length cs \<le> 20 \<and> distinct (map ca_id cs)"
proof -
  have "completions_ok uuid_ok (fold runtime_step es rt)" if "completions_ok uuid_ok rt" for rt
    using that assms
    by (induction es arbitrary: rt) (auto intro: runtime_step_ok)
  from this [of "fresh_runtime hours"]
  have "completions_ok uuid_ok (fold runtime_step es (fresh_runtime hours))"
    by (simp add: completions_ok_def fresh_runtime_def ledger_ok_def valid_completed_actions_def)
  then show ?thesis
    by (simp add: completions_ok_def Let_def valid_completed_actions_def max_session_action_commands_def)
qed

subsection \<open>Witnesses\<close>

definition example_attempt :: "int \<Rightarrow> delivery_attempt" where
  "example_attempt now =
     (\<lparr>pa_id = ''a1'', pa_type = ''logoff'', pa_session = 2, pa_logon = 1000, pa_expires = 300000,
       pa_message = None\<rparr>,
      \<lparr>env_now = (\<lambda>_. now), env_lookup = (\<lambda>_. Some (Some 1000)), env_wts_ok = (\<lambda>_. True)\<rparr>,
      \<lparr>lf_claim = False, lf_complete = True, lf_entry = False\<rparr>)"

definition example_history :: "runtime_event list" where
  "example_history =
     [RtReport (Some ([], [example_attempt 5000000])), RtRestart,
      RtReport (Some ([], [example_attempt 6000000]))]"

lemma example_history_calls:
  "rt_calls (fold runtime_step example_history (fresh_runtime 24)) = [(''a1'', WtsLogoff 2)]"
  by (simp add: example_history_def example_attempt_def runtime_step_def apply_remote_actions_def
      execute_pending_actions_def fresh_runtime_def max_session_action_commands_def execute_action_def
      ledger_store_def claim_ledger_def ledger_entry_of_def call_wts_def record_terminal_def
      check_ledger_row_def unix_milli_def Let_def)

lemma called_at_most_once_witness:
  "length (filter (\<lambda>c. fst c = ''a1'') (rt_calls (fold runtime_step example_history (fresh_runtime 24)))) \<le> 1
   \<and> (''a1'', WtsLogoff 2) \<in> set (rt_calls (fold runtime_step example_history (fresh_runtime 24)))"
proof (rule conjI)
  show "length (filter (\<lambda>c. fst c = ''a1'') (rt_calls (fold runtime_step example_history (fresh_runtime 24)))) \<le> 1"
    by (rule called_at_most_once [where deadline = 300000])
      (simp_all add: example_history_def example_attempt_def)
qed (simp add: example_history_calls)

lemma reported_completions_valid_witness:
  "length (rt_completions (fold runtime_step example_history (fresh_runtime 24))) \<le> 20"
  using reported_completions_valid [of example_history "\<lambda>i. i = ''a1''" 24]
  by (simp add: example_history_def example_attempt_def Let_def)

lemma redelivery_reports_first_outcome_witness:
  "fst (snd (execute_action (ledger_store \<lparr>lf_claim = False, lf_complete = False, lf_entry = False\<rparr>)
      (fst (snd (example_attempt 400000000000))) (fst (example_attempt 0))
      [\<lparr>le_id = ''a1'', le_state = ''terminal'', le_outcome = Some ''completed'', le_claimed = 1,
        le_completed = Some 2, le_expires = 300000\<rparr>])) = []"
proof -
  let ?e = "\<lparr>le_id = ''a1'', le_state = ''terminal'', le_outcome = Some ''completed'', le_claimed = 1,
        le_completed = Some 2, le_expires = 300000\<rparr>"
  have "ledger_ok [?e]" by (simp add: ledger_ok_def check_ledger_row_def ledger_outcome_def)
  from redelivery_reports_first_outcome [OF this, of ?e "fst (example_attempt 0)"
      "fst (snd (example_attempt 400000000000))" "\<lparr>lf_claim = False, lf_complete = False, lf_entry = False\<rparr>"]
  show ?thesis by (auto simp: example_attempt_def)
qed

end
