(* ===== verification/ProcessHeap.thy ===== *)
theory ProcessHeap
  imports SessionModel
begin

text \<open>
  The bounded selection of a session's top processes (\<open>internal/sessiondata/process_heap.go\<close>):
  a binary heap in a slice whose root is the worst process kept. \<open>strings.ToLower\<close> is the
  argument \<open>lower\<close>. Without NaN among the CPU shares the order of the source is the linear order
  of \<open>process_key\<close>, and the heap answers what sorting all processes would.
\<close>

subsection \<open>The order\<close>

definition process_better :: "(string \<Rightarrow> string) \<Rightarrow> session_process \<Rightarrow> session_process \<Rightarrow> bool" where
  "process_better lower l r =
     (let rest =
        (if sp_working_set l \<noteq> sp_working_set r then sp_working_set l > sp_working_set r
         else if lower (sp_image_name l) \<noteq> lower (sp_image_name r)
         then lower (sp_image_name l) < lower (sp_image_name r)
         else sp_pid l < sp_pid r)
      in case (sp_cpu_percent l, sp_cpu_percent r) of
           (Some x, Some y) \<Rightarrow> if \<not> f_eq x y then f_less y x else rest
         | (Some x, None) \<Rightarrow> True
         | (None, Some y) \<Rightarrow> False
         | (None, None) \<Rightarrow> rest)"

definition process_worse :: "(string \<Rightarrow> string) \<Rightarrow> session_process \<Rightarrow> session_process \<Rightarrow> bool" where
  "process_worse lower l r = process_better lower r l"

subsection \<open>The heap\<close>

record process_heap =
  ph_limit :: nat
  ph_items :: "session_process list"

definition new_process_heap :: "int \<Rightarrow> process_heap" where
  "new_process_heap limit =
     (let l1 = (if limit < 0 then 0 else limit); l2 = (if l1 > 5 then 5 else l1)
      in \<lparr>ph_limit = nat l2, ph_items = []\<rparr>)"

definition swap_items :: "'a list \<Rightarrow> nat \<Rightarrow> nat \<Rightarrow> 'a list" where
  "swap_items xs i j = xs[i := xs ! j, j := xs ! i]"

lemma length_swap [simp]: "length (swap_items xs i j) = length xs"
  by (simp add: swap_items_def)

function heap_up :: "(string \<Rightarrow> string) \<Rightarrow> session_process list \<Rightarrow> nat \<Rightarrow> session_process list" where
  "heap_up lower items index =
     (if index > 0 then
        let parent = (index - 1) div 2 in
        if \<not> process_worse lower (items ! index) (items ! parent) then items
        else heap_up lower (swap_items items index parent) parent
      else items)"
  by pat_completeness auto
termination by (relation "measure (\<lambda>(lower, items, index). index)") auto

definition worst_child :: "(string \<Rightarrow> string) \<Rightarrow> session_process list \<Rightarrow> nat \<Rightarrow> nat" where
  "worst_child lower items index =
     (let left = 2 * index + 1; right = left + 1
      in if right < length items \<and> process_worse lower (items ! right) (items ! left) then right else left)"

function heap_down :: "(string \<Rightarrow> string) \<Rightarrow> session_process list \<Rightarrow> nat \<Rightarrow> session_process list" where
  "heap_down lower items index =
     (if 2 * index + 1 \<ge> length items then items
      else
        let worst = worst_child lower items index in
        if \<not> process_worse lower (items ! worst) (items ! index) then items
        else heap_down lower (swap_items items index worst) worst)"
  by pat_completeness auto
termination
  by (relation "measure (\<lambda>(lower, items, index). length items - index)")
    (auto simp: worst_child_def Let_def)

declare heap_up.simps [simp del] heap_down.simps [simp del]

definition heap_push :: "(string \<Rightarrow> string) \<Rightarrow> session_process \<Rightarrow> process_heap \<Rightarrow> process_heap" where
  "heap_push lower p h =
     (if ph_limit h = 0 then h
      else if length (ph_items h) < ph_limit h
      then h\<lparr>ph_items := heap_up lower (ph_items h @ [p]) (length (ph_items h))\<rparr>
      else if process_better lower p (ph_items h ! 0)
      then h\<lparr>ph_items := heap_down lower ((ph_items h)[0 := p]) 0\<rparr>
      else h)"

text \<open>The insertion sort of \<open>Processes\<close>: the inner loop shifts the element to its place.\<close>

fun shift_left :: "(string \<Rightarrow> string) \<Rightarrow> session_process \<Rightarrow> session_process list \<Rightarrow> session_process list" where
  "shift_left lower p [] = [p]"
| "shift_left lower p (q # rev_prefix) =
     (if process_better lower p q then q # shift_left lower p rev_prefix else p # q # rev_prefix)"

definition heap_processes :: "(string \<Rightarrow> string) \<Rightarrow> process_heap \<Rightarrow> session_process list" where
  "heap_processes lower h = rev (fold (shift_left lower) (ph_items h) [])"

subsection \<open>Keys\<close>

fun cpu_rank :: "float64 option \<Rightarrow> nat \<times> rat" where
  "cpu_rank None = (3, 0)"
| "cpu_rank (Some NegInf) = (2, 0)"
| "cpu_rank (Some (Fin r)) = (1, - r)"
| "cpu_rank (Some PosInf) = (0, 0)"
| "cpu_rank (Some NaN) = (4, 0)"

type_synonym process_key = "(nat \<times> rat) \<times> int \<times> string \<times> nat"

definition process_key :: "(string \<Rightarrow> string) \<Rightarrow> session_process \<Rightarrow> process_key" where
  "process_key lower p =
     (cpu_rank (sp_cpu_percent p), - uint (sp_working_set p), lower (sp_image_name p), unat (sp_pid p))"

definition cpu_number :: "session_process \<Rightarrow> bool" where
  "cpu_number p \<longleftrightarrow> sp_cpu_percent p \<noteq> Some NaN"

lemma better_key:
  assumes "cpu_number l" and "cpu_number r"
  shows "process_better lower l r \<longleftrightarrow> process_key lower l < process_key lower r"
proof -
  have ws: "sp_working_set l > sp_working_set r \<longleftrightarrow> - uint (sp_working_set l) < - uint (sp_working_set r)"
    "sp_working_set l = sp_working_set r \<longleftrightarrow> uint (sp_working_set l) = uint (sp_working_set r)"
    by (simp_all add: word_less_def) (metis word_uint_eqI)
  have pid: "sp_pid l < sp_pid r \<longleftrightarrow> unat (sp_pid l) < unat (sp_pid r)" by (simp add: word_less_nat_alt)
  show ?thesis
  proof (cases "sp_cpu_percent l")
    case None
    then show ?thesis
      using assms ws pid
      by (cases "sp_cpu_percent r"; cases "the (sp_cpu_percent r)")
        (auto simp: process_better_def process_key_def cpu_number_def Let_def less_prod_def')
  next
    case (Some x)
    show ?thesis
    proof (cases "sp_cpu_percent r")
      case None
      with Some show ?thesis
        using assms by (cases x) (auto simp: process_better_def process_key_def cpu_number_def less_prod_def')
    next
      case (Some y)
      with \<open>sp_cpu_percent l = Some x\<close> show ?thesis
        using assms ws pid
        by (cases x; cases y)
          (auto simp: process_better_def process_key_def cpu_number_def Let_def less_prod_def' f_eq_def)
    qed
  qed
qed

subsection \<open>The heap order\<close>

abbreviation parent_of :: "nat \<Rightarrow> nat" where "parent_of j \<equiv> (j - 1) div 2"

definition heap_ordered :: "('a \<Rightarrow> 'k::linorder) \<Rightarrow> 'a list \<Rightarrow> bool" where
  "heap_ordered k xs \<longleftrightarrow> (\<forall>j. 0 < j \<and> j < length xs \<longrightarrow> k (xs ! j) \<le> k (xs ! parent_of j))"

text \<open>Ordered but for the entry at \<open>i\<close>, which may exceed its parent, or fall below a child.\<close>

definition heap_up_inv :: "('a \<Rightarrow> 'k::linorder) \<Rightarrow> 'a list \<Rightarrow> nat \<Rightarrow> bool" where
  "heap_up_inv k xs i \<longleftrightarrow>
     (\<forall>j. 0 < j \<and> j < length xs \<and> j \<noteq> i \<longrightarrow> k (xs ! j) \<le> k (xs ! parent_of j))
     \<and> (\<forall>j. 0 < j \<and> j < length xs \<and> parent_of j = i \<and> 0 < i \<longrightarrow> k (xs ! j) \<le> k (xs ! parent_of i))"

definition heap_down_inv :: "('a \<Rightarrow> 'k::linorder) \<Rightarrow> 'a list \<Rightarrow> nat \<Rightarrow> bool" where
  "heap_down_inv k xs i \<longleftrightarrow>
     (\<forall>j. 0 < j \<and> j < length xs \<and> parent_of j \<noteq> i \<longrightarrow> k (xs ! j) \<le> k (xs ! parent_of j))
     \<and> (\<forall>j. 0 < j \<and> j < length xs \<and> parent_of j = i \<and> 0 < i \<longrightarrow> k (xs ! j) \<le> k (xs ! parent_of i))"

lemma swap_nth:
  "i < length xs \<Longrightarrow> j < length xs \<Longrightarrow> n < length xs \<Longrightarrow>
   swap_items xs i j ! n = (if n = j then xs ! i else if n = i then xs ! j else xs ! n)"
  by (simp add: swap_items_def nth_list_update)

lemma mset_swap_items: "i < length xs \<Longrightarrow> j < length xs \<Longrightarrow> mset (swap_items xs i j) = mset xs"
  by (simp add: swap_items_def mset_swap)

lemma parent_less: "0 < j \<Longrightarrow> parent_of j < j"
  by (simp add: div_less_dividend le_less_trans)

lemma up_step:
  assumes inv: "heap_up_inv k xs i" and i: "0 < i" "i < length xs"
    and lt: "k (xs ! parent_of i) < k (xs ! i)"
  shows "heap_up_inv k (swap_items xs i (parent_of i)) (parent_of i)"
proof -
  let ?p = "parent_of i" let ?ys = "swap_items xs i ?p"
  have p: "?p < i" "?p < length xs" using parent_less [OF i(1)] i(2) by simp_all
  have nth: "?ys ! n = (if n = ?p then xs ! i else if n = i then xs ! ?p else xs ! n)" if "n < length xs" for n
    using swap_nth [OF i(2) p(2) that] .
  have par: "parent_of j < length xs" if "0 < j" "j < length xs" for j
    using parent_less [OF that(1)] that(2) by simp
  have 1: "k (xs ! j) \<le> k (xs ! parent_of j)" if "0 < j" "j < length xs" "j \<noteq> i" for j
    using inv that by (simp add: heap_up_inv_def)
  have 2: "k (xs ! j) \<le> k (xs ! ?p)" if "0 < j" "j < length xs" "parent_of j = i" for j
    using inv that i by (simp add: heap_up_inv_def)
  show ?thesis
    unfolding heap_up_inv_def length_swap
  proof (intro conjI allI impI; elim conjE)
    fix j assume j: "0 < j" "j < length xs" "j \<noteq> ?p"
    show "k (?ys ! j) \<le> k (?ys ! parent_of j)"
      unfolding nth [OF j(2)] nth [OF par [OF j(1,2)]]
      using 1 [OF j(1,2)] 2 [OF j(1,2)] lt j(3) p(1) by auto
  next
    fix j assume j: "0 < j" "j < length xs" "parent_of j = ?p" "0 < ?p"
    have "k (xs ! ?p) \<le> k (xs ! parent_of ?p)" using 1 [OF j(4) p(2)] p(1) by simp
    moreover have pp: "parent_of ?p \<noteq> ?p" "parent_of ?p \<noteq> i" "parent_of ?p < length xs"
      using parent_less [OF j(4)] p by simp_all
    moreover have "j \<noteq> ?p" using parent_less [OF j(1)] j(3) by simp
    moreover have "k (xs ! j) \<le> k (xs ! ?p)" if "j \<noteq> i" using 1 [OF j(1,2) that] unfolding j(3) .
    ultimately show "k (?ys ! j) \<le> k (?ys ! parent_of ?p)"
      unfolding nth [OF j(2)] nth [OF pp(3)] by (auto intro: order_trans)
  qed
qed

lemma down_step:
  assumes inv: "heap_down_inv k xs i" and c: "0 < c" "c < length xs" "parent_of c = i"
    and most: "\<And>j. 0 < j \<Longrightarrow> j < length xs \<Longrightarrow> parent_of j = i \<Longrightarrow> k (xs ! j) \<le> k (xs ! c)"
    and lt: "k (xs ! i) < k (xs ! c)"
  shows "heap_down_inv k (swap_items xs i c) c"
proof -
  let ?ys = "swap_items xs i c"
  have i: "i < c" "i < length xs" using parent_less [OF c(1)] c(2,3) by simp_all
  have nth: "?ys ! n = (if n = c then xs ! i else if n = i then xs ! c else xs ! n)" if "n < length xs" for n
    using swap_nth [OF i(2) c(2) that] .
  have par: "parent_of j < length xs" if "0 < j" "j < length xs" for j
    using parent_less [OF that(1)] that(2) by simp
  have 1: "k (xs ! j) \<le> k (xs ! parent_of j)" if "0 < j" "j < length xs" "parent_of j \<noteq> i" for j
    using inv that by (simp add: heap_down_inv_def)
  have 2: "k (xs ! j) \<le> k (xs ! parent_of i)" if "0 < j" "j < length xs" "parent_of j = i" "0 < i" for j
    using inv that by (simp add: heap_down_inv_def)
  show ?thesis
    unfolding heap_down_inv_def length_swap
  proof (intro conjI allI impI; elim conjE)
    fix j assume j: "0 < j" "j < length xs" "parent_of j \<noteq> c"
    show "k (?ys ! j) \<le> k (?ys ! parent_of j)"
      unfolding nth [OF j(2)] nth [OF par [OF j(1,2)]]
      using 1 [OF j(1,2)] 2 [OF c(1,2,3)] most [OF j(1,2)] lt j c parent_less [OF j(1)]
      by auto
  next
    fix j assume j: "0 < j" "j < length xs" "parent_of j = c" "0 < c"
    have "j \<noteq> c" "j \<noteq> i" using parent_less [OF j(1)] j(3) i(1) by simp_all
    with 1 [OF j(1,2)] j i c(2,3) show "k (?ys ! j) \<le> k (?ys ! parent_of c)" by (auto simp: nth)
  qed
qed

lemma heap_up_correct:
  assumes "heap_up_inv (process_key lower) items i" and "i < length items" and "list_all cpu_number items"
  shows "heap_ordered (process_key lower) (heap_up lower items i) \<and> mset (heap_up lower items i) = mset items"
  using assms
proof (induction lower items i rule: heap_up.induct)
  case (1 lower items i)
  let ?k = "process_key lower"
  show ?case
  proof (cases "0 < i \<and> process_worse lower (items ! i) (items ! parent_of i)")
    case True
    then have i: "0 < i" and p: "parent_of i < length items"
      using parent_less [of i] 1(3) by simp_all
    have "?k (items ! parent_of i) < ?k (items ! i)"
      using True 1(3,4) p better_key by (auto simp: process_worse_def list_all_length)
    note inv = up_step [OF 1(2) i 1(3) this]
    have m: "mset (swap_items items i (parent_of i)) = mset items" by (rule mset_swap_items [OF 1(3) p])
    have "list_all cpu_number (swap_items items i (parent_of i))"
      using 1(4) mset_eq_setD [OF m] by (simp add: list_all_iff)
    with 1(1) [OF i refl] True inv p m show ?thesis
      by (subst (1 2) heap_up.simps) (simp add: Let_def)
  next
    case False
    have "?k (items ! i) \<le> ?k (items ! parent_of i)" if "0 < i"
      using False that 1(3,4) parent_less [OF that] better_key
      by (auto simp: process_worse_def list_all_length not_less)
    with 1(2) have "heap_ordered ?k items" by (auto simp: heap_up_inv_def heap_ordered_def)
    with False show ?thesis by (subst (1 2) heap_up.simps) auto
  qed
qed

lemma child_iff: "0 < j \<and> parent_of j = i \<longleftrightarrow> j = 2 * i + 1 \<or> j = 2 * i + 2" for j :: nat
  by auto

lemma heap_down_correct:
  assumes "heap_down_inv (process_key lower) items i" and "i < length items" and "list_all cpu_number items"
  shows "heap_ordered (process_key lower) (heap_down lower items i)
     \<and> mset (heap_down lower items i) = mset items"
  using assms
proof (induction lower items i rule: heap_down.induct)
  case (1 lower items i)
  let ?k = "process_key lower"
  have worse: "process_worse lower (items ! a) (items ! b) \<longleftrightarrow> ?k (items ! b) < ?k (items ! a)"
    if "a < length items" "b < length items" for a b
    using that 1(4) better_key by (auto simp: process_worse_def list_all_length)
  show ?case
  proof (cases "2 * i + 1 \<ge> length items")
    case True
    then have "parent_of j \<noteq> i" if "0 < j" "j < length items" for j
      using child_iff [of j i] that by linarith
    then have "heap_ordered ?k items"
      using 1(2) by (simp add: heap_down_inv_def heap_ordered_def)
    with True show ?thesis by (subst (1 2) heap_down.simps) simp
  next
    case False
    define c where "c = worst_child lower items i"
    have c: "0 < c" "c < length items" "parent_of c = i"
      using False by (auto simp: c_def worst_child_def Let_def)
    have most: "?k (items ! j) \<le> ?k (items ! c)" if "0 < j" "j < length items" "parent_of j = i" for j
      using that False child_iff [of j i] worse [of "2 * i + 2" "2 * i + 1"]
      by (auto simp: c_def worst_child_def Let_def not_less)
    show ?thesis
    proof (cases "process_worse lower (items ! c) (items ! i)")
      case True
      then have lt: "?k (items ! i) < ?k (items ! c)" using worse c(2) 1(3) by simp
      note inv = down_step [OF 1(2) c most lt]
      have m: "mset (swap_items items i c) = mset items" by (rule mset_swap_items [OF 1(3) c(2)])
      have "list_all cpu_number (swap_items items i c)"
        using 1(4) mset_eq_setD [OF m] by (simp add: list_all_iff)
      with 1(1) [OF False c_def] True inv c(2) m False show ?thesis
        by (subst (1 2) heap_down.simps) (simp add: Let_def c_def)
    next
      case no: False
      then have top: "?k (items ! c) \<le> ?k (items ! i)" using worse c(2) 1(3) by (simp add: not_less)
      have "?k (items ! j) \<le> ?k (items ! parent_of j)" if "0 < j" "j < length items" for j
        using 1(2) most [OF that] top that by (cases "parent_of j = i") (auto simp: heap_down_inv_def)
      then have "heap_ordered ?k items" by (simp add: heap_ordered_def)
      with no False show ?thesis by (subst (1 2) heap_down.simps) (simp add: Let_def c_def)
    qed
  qed
qed

text \<open>The root of an ordered heap has the greatest key.\<close>

lemma heap_root: "heap_ordered k xs \<Longrightarrow> j < length xs \<Longrightarrow> k (xs ! j) \<le> k (xs ! 0)"
proof (induction j rule: less_induct)
  case (less j)
  show ?case
  proof (cases "j = 0")
    case False
    then have "parent_of j < j" "0 < j" using parent_less [of j] by simp_all
    then have "k (xs ! parent_of j) \<le> k (xs ! 0)" "k (xs ! j) \<le> k (xs ! parent_of j)"
      using less.IH [of "parent_of j"] less.prems unfolding heap_ordered_def by simp_all
    then show ?thesis by (rule order_trans [rotated])
  qed simp
qed

subsection \<open>The best keys\<close>

lemma mset_take_insort:
  fixes k :: "'k::linorder"
  assumes "sorted ys" and "0 < n" and "n \<le> length ys"
  shows "mset (take n (insort k ys)) =
     (if k < ys ! (n - 1) then add_mset k (mset (take n ys) - {#ys ! (n - 1)#}) else mset (take n ys))"
  using assms
proof (induction ys arbitrary: n)
  case (Cons y ys)
  show ?case
  proof (cases "k \<le> y")
    case True
    obtain m where n: "n = Suc m" using Cons.prems(2) by (cases n) auto
    have last: "take (Suc m) (y # ys) = take m (y # ys) @ [(y # ys) ! m]"
      using Cons.prems(3) n by (intro take_Suc_conv_app_nth) simp
    have le: "y \<le> (y # ys) ! m" using Cons.prems(1,3) n by (cases m) auto
    have "mset (take n (insort k (y # ys))) = add_mset k (mset (take m (y # ys)))"
      using True n by simp
    moreover have "mset (take n (y # ys)) = add_mset ((y # ys) ! m) (mset (take m (y # ys)))"
      unfolding n last by simp
    ultimately show ?thesis
      using le True n by auto
  next
    case False
    show ?thesis
    proof (cases "n = 1")
      case True
      with False show ?thesis by (auto simp: not_le dest: less_asym)
    next
      case n: False
      then obtain m where m: "n = Suc m" "0 < m" using Cons.prems(2) by (cases n) auto
      have IH: "mset (take m (insort k ys)) =
          (if k < ys ! (m - 1) then add_mset k (mset (take m ys) - {#ys ! (m - 1)#}) else mset (take m ys))"
        using Cons.IH [of m] Cons.prems m by simp
      have mem: "ys ! (m - 1) \<in># mset (take m ys)"
        using m Cons.prems(3) by (metis One_nat_def Suc_le_mono diff_less in_multiset_in_set length_Cons
            length_take less_Suc_eq_le min.absorb2 nth_mem nth_take zero_less_one le_imp_less_Suc diff_Suc_less)
      from False m IH mem show ?thesis by (auto simp: nth_Cons')
    qed
  qed
qed simp

lemma sort_snoc: "sort (xs @ [x]) = insort x (sort xs)"
  by (rule properties_for_sort) (simp_all add: sorted_insort)

subsection \<open>The heap holds the best\<close>

definition heap_holds :: "(string \<Rightarrow> string) \<Rightarrow> session_process list \<Rightarrow> process_heap \<Rightarrow> bool" where
  "heap_holds lower xs h \<longleftrightarrow>
     list_all cpu_number (ph_items h) \<and> heap_ordered (process_key lower) (ph_items h)
     \<and> mset (ph_items h) \<subseteq># mset xs
     \<and> mset (map (process_key lower) (ph_items h))
         = mset (take (ph_limit h) (sort (map (process_key lower) xs)))"

lemma greatest_unique:
  fixes a b :: "'k::linorder"
  shows "a \<in># M \<Longrightarrow> b \<in># M \<Longrightarrow> \<forall>x \<in># M. x \<le> a \<Longrightarrow> \<forall>x \<in># M. x \<le> b \<Longrightarrow> a = b"
  by (simp add: antisym)

lemma last_taken_greatest:
  assumes "sorted ys" and "0 < n" and "n \<le> length ys"
  shows "ys ! (n - 1) \<in># mset (take n ys) \<and> (\<forall>x \<in># mset (take n ys). x \<le> ys ! (n - 1))"
proof (intro conjI ballI)
  have "take n ys ! (n - 1) \<in> set (take n ys)" using assms by (intro nth_mem) simp
  with assms show "ys ! (n - 1) \<in># mset (take n ys)" by simp
  fix x assume "x \<in># mset (take n ys)"
  then obtain j where "j < n" "j < length ys" "x = ys ! j" by (auto simp: in_set_conv_nth)
  with assms show "x \<le> ys ! (n - 1)" by (auto intro: sorted_nth_mono)
qed

lemma push_holds:
  assumes h: "heap_holds lower xs h" and x: "cpu_number x"
  shows "heap_holds lower (xs @ [x]) (heap_push lower x h)"
proof -
  let ?k = "process_key lower" let ?n = "ph_limit h" let ?items = "ph_items h"
  define ks where "ks = sort (map ?k xs)"
  have ks: "sort (map ?k xs @ [?k x]) = insort (?k x) ks" "sorted ks"
    by (simp_all add: ks_def sort_snoc)
  have num: "list_all cpu_number ?items" and ord: "heap_ordered ?k ?items" and sub: "mset ?items \<subseteq># mset xs"
    and best: "mset (map ?k ?items) = mset (take ?n ks)"
    using h by (simp_all add: heap_holds_def ks_def)
  have sub1: "mset ?items \<subseteq># add_mset x (mset xs)"
    using sub by (rule subset_mset.order_trans) simp
  have len: "length ?items = min (length ks) ?n"
    using arg_cong [OF best, of size] by simp
  consider (none) "?n = 0" | (room) "?n \<noteq> 0" "length ?items < ?n" | (full) "?n \<noteq> 0" "length ?items = ?n" "?n \<le> length ks"
    using len by linarith
  then show ?thesis
  proof cases
    case none
    with num ord best sub1 show ?thesis by (simp add: heap_holds_def heap_push_def)
  next
    case room
    let ?new = "?items @ [x]"
    have "heap_up_inv ?k ?new (length ?items)"
      unfolding heap_up_inv_def
    proof (intro conjI allI impI; elim conjE)
      fix j assume "0 < j" "j < length ?new" "j \<noteq> length ?items"
      then show "?k (?new ! j) \<le> ?k (?new ! parent_of j)"
        using ord parent_less [of j] by (simp add: heap_ordered_def nth_append)
    next
      fix j assume "0 < j" "j < length ?new" "parent_of j = length ?items"
      with parent_less [of j] show "?k (?new ! j) \<le> ?k (?new ! parent_of (length ?items))" by simp
    qed
    from heap_up_correct [OF this] num x
    have up: "heap_ordered ?k (heap_up lower ?new (length ?items))"
      "mset (heap_up lower ?new (length ?items)) = add_mset x (mset ?items)" by simp_all
    have "list_all cpu_number (heap_up lower ?new (length ?items))"
      using num x mset_eq_setD [of "heap_up lower ?new (length ?items)" "x # ?items"] up(2)
      by (simp add: list_all_iff)
    moreover have "mset (map ?k (heap_up lower ?new (length ?items))) = add_mset (?k x) (mset ks)"
      using arg_cong [OF up(2), of "image_mset ?k"] best len room(2) by (simp add: min_def split: if_splits)
    ultimately show ?thesis
      using up sub room len
      by (auto simp: heap_holds_def heap_push_def ks(1) ks_def [symmetric] min_def split: if_splits)
  next
    case full
    define root where "root = ?items ! 0"
    have r: "root \<in> set ?items" using full by (simp add: root_def)
    have "?k root = ks ! (?n - 1)"
    proof (rule greatest_unique)
      show "?k root \<in># mset (take ?n ks)"
        using r unfolding best [symmetric] by simp
      show "\<forall>y \<in># mset (take ?n ks). y \<le> ?k root"
        using heap_root [OF ord] unfolding best [symmetric] root_def by (auto simp: in_set_conv_nth)
    qed (use last_taken_greatest [OF ks(2) _ full(3)] full(1) in auto)
    moreover have "process_better lower x root \<longleftrightarrow> ?k x < ?k root"
      using r num x by (intro better_key) (auto simp: list_all_iff)
    moreover note take = mset_take_insort [OF ks(2) _ full(3), of "?k x"]
    ultimately show ?thesis
    proof (cases "?k x < ?k root")
      case False
      with \<open>process_better lower x root \<longleftrightarrow> ?k x < ?k root\<close> \<open>?k root = ks ! (?n - 1)\<close> take full num ord best sub1
      show ?thesis
        by (simp add: heap_holds_def heap_push_def root_def ks(1))
    next
      case True
      let ?new = "?items[0 := x]"
      have "heap_down_inv ?k ?new 0"
        using ord by (auto simp: heap_down_inv_def heap_ordered_def nth_list_update)
      from heap_down_correct [OF this] num x full
      have down: "heap_ordered ?k (heap_down lower ?new 0)" "mset (heap_down lower ?new 0) = mset ?new"
        by (auto simp: list_all_iff dest!: set_update_subset_insert [THEN subsetD])
      have upd: "mset ?new = add_mset x (mset ?items - {#root#})"
        using full unfolding root_def by (intro mset_update) simp
      have "list_all cpu_number (heap_down lower ?new 0)"
        using num x mset_eq_setD [OF down(2)]
        by (auto simp: list_all_iff dest!: set_update_subset_insert [THEN subsetD])
      moreover have "mset (map ?k (heap_down lower ?new 0)) = mset (take ?n (insort (?k x) ks))"
        using arg_cong [OF down(2) [unfolded upd], of "image_mset ?k"] r take full(1) True best
          \<open>?k root = ks ! (?n - 1)\<close>
        by (simp add: image_mset_Diff)
      moreover have "mset (heap_down lower ?new 0) \<subseteq># mset (xs @ [x])"
        unfolding down(2) upd
        using subset_mset.order_trans [OF sub, of "add_mset root (mset xs)"] by (simp add: subset_eq_diff_conv)
      ultimately show ?thesis
        using down(1) True full \<open>process_better lower x root \<longleftrightarrow> ?k x < ?k root\<close>
        by (simp add: heap_holds_def heap_push_def root_def ks(1) ks_def [symmetric])
    qed
  qed
qed

subsection \<open>Wire order\<close>

lemma mset_shift_left: "mset (shift_left lower p acc) = add_mset p (mset acc)"
  by (induction acc) auto

text \<open>The reversed prefix descends.\<close>

lemma shift_left_sorted:
  "cpu_number p \<Longrightarrow> list_all cpu_number acc \<Longrightarrow>
   sorted_wrt (\<lambda>a b. b \<le> a) (map (process_key lower) acc) \<Longrightarrow>
   sorted_wrt (\<lambda>a b. b \<le> a) (map (process_key lower) (shift_left lower p acc))"
proof (induction acc)
  case (Cons q acc)
  have "process_better lower p q \<longleftrightarrow> process_key lower p < process_key lower q"
    using Cons.prems by (intro better_key) simp_all
  moreover have "set (shift_left lower p acc) = insert p (set acc)"
    using arg_cong [OF mset_shift_left, of set_mset lower p acc] by simp
  ultimately show ?case
    using Cons by (auto simp: not_less intro: order_trans)
qed simp

lemma heap_processes_sorted:
  assumes "list_all cpu_number (ph_items h)"
  shows "map (process_key lower) (heap_processes lower h) = sort (map (process_key lower) (ph_items h))
     \<and> mset (heap_processes lower h) = mset (ph_items h)"
proof -
  have "mset (fold (shift_left lower) xs acc) = mset xs + mset acc
     \<and> sorted_wrt (\<lambda>a b. b \<le> a) (map (process_key lower) (fold (shift_left lower) xs acc))"
    if "list_all cpu_number xs" "list_all cpu_number acc"
      "sorted_wrt (\<lambda>a b. b \<le> a) (map (process_key lower) acc)" for xs acc
    using that
  proof (induction xs arbitrary: acc)
    case (Cons x xs)
    have "list_all cpu_number (shift_left lower x acc)"
      using Cons.prems mset_eq_setD [of "shift_left lower x acc" "x # acc"] mset_shift_left [of lower x acc]
      by (simp add: list_all_iff)
    with Cons shift_left_sorted [of x acc lower] show ?case by (simp add: mset_shift_left)
  qed simp
  from this [OF assms, of "[]"]
  have m: "mset (heap_processes lower h) = mset (ph_items h)"
    and s: "sorted (map (process_key lower) (heap_processes lower h))"
    by (simp_all add: heap_processes_def rev_map [symmetric] sorted_wrt_rev)
  have "mset (map (process_key lower) (heap_processes lower h)) = mset (map (process_key lower) (ph_items h))"
    using m by simp
  from properties_for_sort [OF this s] m show ?thesis by simp
qed

text \<open>C33: The bounded heap answers what sorting everything would. However many processes are pushed
  into a heap of limit \<open>n\<close> (clamped to 0..5), \<open>Processes\<close> returns processes of the input, as
  many as it has up to the limit, whose keys in wire order (CPU share descending with unknown
  shares last, working set descending, lower-cased image name, process id) are the first of the
  sorted keys of all of them.\<close>

theorem heap_is_top_of_sort:
  assumes "list_all cpu_number xs"
  shows "let result = heap_processes lower (fold (heap_push lower) xs (new_process_heap n)) in
     map (process_key lower) result = take (nat (min 5 n)) (sort (map (process_key lower) xs))
     \<and> mset result \<subseteq># mset xs"
proof -
  have limit: "ph_limit (fold (heap_push lower) ys h) = ph_limit h" for ys h
    by (induction ys arbitrary: h) (simp_all add: heap_push_def)
  have "heap_holds lower (ys @ zs) (fold (heap_push lower) zs h)"
    if "heap_holds lower ys h" "list_all cpu_number zs" for ys zs h
    using that
  proof (induction zs arbitrary: ys h)
    case (Cons z zs)
    with Cons.IH [OF push_holds [OF Cons.prems(1)], of z] show ?case by simp
  qed simp
  from this [of "[]" "new_process_heap n" xs] assms
  have holds: "heap_holds lower xs (fold (heap_push lower) xs (new_process_heap n))"
    by (simp add: heap_holds_def heap_ordered_def new_process_heap_def Let_def)
  let ?h = "fold (heap_push lower) xs (new_process_heap n)"
  have n: "ph_limit ?h = nat (min 5 n)" by (simp add: limit) (simp add: new_process_heap_def Let_def)
  have "sort (map (process_key lower) (ph_items ?h)) = take (nat (min 5 n)) (sort (map (process_key lower) xs))"
    using holds n by (intro properties_for_sort) (simp_all add: heap_holds_def sorted_wrt_take)
  moreover have "list_all cpu_number (ph_items ?h)" "mset (ph_items ?h) \<subseteq># mset xs"
    using holds by (simp_all add: heap_holds_def)
  ultimately show ?thesis
    using heap_processes_sorted [of ?h lower] by (simp add: Let_def)
qed

definition example_processes :: "session_process list" where
  "example_processes =
     [\<lparr>sp_pid = 4, sp_image_name = ''b.exe'', sp_cpu_percent = None, sp_working_set = 7\<rparr>,
      \<lparr>sp_pid = 8, sp_image_name = ''a.exe'', sp_cpu_percent = Some (Fin 3), sp_working_set = 1\<rparr>,
      \<lparr>sp_pid = 12, sp_image_name = ''c.exe'', sp_cpu_percent = Some (Fin 5), sp_working_set = 1\<rparr>]"

theorem heap_is_top_of_sort_witness:
  "map (process_key id) (heap_processes id (fold (heap_push id) example_processes (new_process_heap 2)))
   = take 2 (sort (map (process_key id) example_processes))"
  using heap_is_top_of_sort [of example_processes id 2]
  by (simp add: example_processes_def cpu_number_def Let_def del: sort_key_simps)

end
