(* ===== verification/Roster.thy ===== *)
theory Roster
  imports Identifiers
begin

text \<open>
  The dashboard's roster of servers (\<open>internal/telemetry/servers.go\<close>), the tombstones of
  permanently removed ones (\<open>exclusions.go\<close>) and the freshness state that makes the offline
  notification a one-shot (\<open>freshness.go\<close>). The three tables are lists of rows; every lookup
  ignores ASCII case, as \<open>COLLATE NOCASE\<close> does. Failures of the driver are not modelled: they
  leave the tables unchanged.
\<close>

subsection \<open>Tables\<close>

record server_row =
  sv_host :: string
  sv_registered :: int
  sv_seen :: int
  sv_result :: "string option"

record tombstone =
  tb_host :: string
  tb_at :: int
  tb_by :: string
  tb_reason :: string

record fresh_row =
  fr_host :: string
  fr_epoch :: int
  fr_offline :: "int option"

record roster_db =
  rd_servers :: "server_row list"
  rd_exclusions :: "tombstone list"
  rd_fresh :: "fresh_row list"

definition nocase :: "string \<Rightarrow> string \<Rightarrow> bool" where
  "nocase a b \<longleftrightarrow> to_upper a = to_upper b"

lemma nocase_refl [simp]: "nocase a a"
  by (simp add: nocase_def)

lemma nocase_sym: "nocase a b \<longleftrightarrow> nocase b a"
  by (auto simp: nocase_def)

lemma nocase_trans: "nocase a b \<Longrightarrow> nocase b c \<Longrightarrow> nocase a c"
  by (simp add: nocase_def)

definition server_known :: "string \<Rightarrow> roster_db \<Rightarrow> bool" where
  "server_known h db \<longleftrightarrow> list_ex (\<lambda>r. nocase (sv_host r) h) (rd_servers db)"

definition host_excluded :: "string \<Rightarrow> roster_db \<Rightarrow> bool" where
  "host_excluded h db \<longleftrightarrow> list_ex (\<lambda>r. nocase (tb_host r) h) (rd_exclusions db)"

subsection \<open>The roster\<close>

text \<open>\<open>INSERT \<dots> SELECT \<dots> WHERE NOT EXISTS\<close>, shared by both registrations.\<close>

definition insert_server :: "string \<Rightarrow> int \<Rightarrow> roster_db \<Rightarrow> roster_db" where
  "insert_server h now db =
     (if server_known h db then db
      else db\<lparr>rd_servers := rd_servers db @
        [\<lparr>sv_host = h, sv_registered = unix_milli now, sv_seen = 0, sv_result = None\<rparr>]\<rparr>)"

definition register_server :: "string \<Rightarrow> instant \<Rightarrow> roster_db \<Rightarrow> roster_db" where
  "register_server hostname now db = insert_server (canonical_hostname hostname) now db"

definition delete_server :: "string \<Rightarrow> roster_db \<Rightarrow> roster_db" where
  "delete_server h db = db\<lparr>rd_servers := filter (\<lambda>r. \<not> nocase (sv_host r) h) (rd_servers db)\<rparr>"

definition remove_server :: "string \<Rightarrow> roster_db \<Rightarrow> roster_db \<times> bool" where
  "remove_server hostname db =
     (let h = canonical_hostname hostname in (delete_server h db, server_known h db))"

definition is_registered :: "string \<Rightarrow> roster_db \<Rightarrow> bool" where
  "is_registered hostname db = server_known (canonical_hostname hostname) db"

definition touch_server :: "(server_row \<Rightarrow> server_row) \<Rightarrow> string \<Rightarrow> roster_db \<Rightarrow> roster_db" where
  "touch_server f h db =
     db\<lparr>rd_servers := map (\<lambda>r. if nocase (sv_host r) h then f r else r) (rd_servers db)\<rparr>"

definition update_server :: "string \<Rightarrow> string \<Rightarrow> instant \<Rightarrow> roster_db \<Rightarrow> roster_db \<times> bool" where
  "update_server hostname result now db =
     (let h = canonical_hostname hostname in
      (touch_server (\<lambda>r. r\<lparr>sv_seen := unix_milli now, sv_result := Some result\<rparr>) h db, server_known h db))"

definition backdate_last_seen :: "string \<Rightarrow> instant \<Rightarrow> roster_db \<Rightarrow> roster_db" where
  "backdate_last_seen hostname t db =
     touch_server (\<lambda>r. r\<lparr>sv_seen := unix_milli t\<rparr>) (canonical_hostname hostname) db"

text \<open>What callers see: no time for a server that never reported, no text for a missing result.\<close>

record server_info =
  si_host :: string
  si_registered :: int
  si_seen :: "int option"
  si_result :: string

definition optional_time :: "int \<Rightarrow> int option" where
  "optional_time ms = (if ms = 0 then None else Some ms)"

definition info_of :: "server_row \<Rightarrow> server_info" where
  "info_of r =
     \<lparr>si_host = sv_host r, si_registered = sv_registered r, si_seen = optional_time (sv_seen r),
      si_result = (case sv_result r of None \<Rightarrow> [] | Some t \<Rightarrow> t)\<rparr>"

definition get_server :: "string \<Rightarrow> roster_db \<Rightarrow> server_info option" where
  "get_server hostname db =
     map_option info_of (List.find (\<lambda>r. nocase (sv_host r) (canonical_hostname hostname)) (rd_servers db))"

definition all_servers :: "roster_db \<Rightarrow> server_info list" where
  "all_servers db = map info_of (sort_key sv_host (rd_servers db))"

text \<open>\<open>INSERT OR IGNORE\<close>: only the exact spelling of the primary key conflicts.\<close>

fun import_rows :: "server_row list \<Rightarrow> roster_db \<Rightarrow> roster_db \<times> nat" where
  "import_rows [] db = (db, 0)"
| "import_rows (r # rs) db =
     (let row = r\<lparr>sv_host := canonical_hostname (sv_host r),
                  sv_result := (case sv_result r of None \<Rightarrow> None | Some t \<Rightarrow> if t = [] then None else Some t)\<rparr>
      in if list_ex (\<lambda>q. sv_host q = sv_host row) (rd_servers db) then import_rows rs db
         else (case import_rows rs (db\<lparr>rd_servers := rd_servers db @ [row]\<rparr>) of (db', n) \<Rightarrow> (db', Suc n)))"

definition import_servers :: "server_row list \<Rightarrow> roster_db \<Rightarrow> roster_db \<times> nat" where
  "import_servers infos db = import_rows infos db"

subsection \<open>Tombstones\<close>

definition put_tombstone :: "string \<Rightarrow> instant \<Rightarrow> string \<Rightarrow> string \<Rightarrow> roster_db \<Rightarrow> roster_db" where
  "put_tombstone h now by_user reason db =
     db\<lparr>rd_exclusions := filter (\<lambda>r. \<not> nocase (tb_host r) h) (rd_exclusions db) @
       [\<lparr>tb_host = h, tb_at = unix_milli now, tb_by = by_user, tb_reason = reason\<rparr>]\<rparr>"

definition exclude_host :: "string \<Rightarrow> instant \<Rightarrow> string \<Rightarrow> string \<Rightarrow> roster_db \<Rightarrow> roster_db" where
  "exclude_host hostname now by_user reason db =
     put_tombstone (canonical_hostname hostname) now by_user reason db"

definition restore_host :: "string \<Rightarrow> roster_db \<Rightarrow> roster_db \<times> bool" where
  "restore_host hostname db =
     (let h = canonical_hostname hostname in
      (db\<lparr>rd_exclusions := filter (\<lambda>r. \<not> nocase (tb_host r) h) (rd_exclusions db)\<rparr>, host_excluded h db))"

definition is_excluded :: "string \<Rightarrow> roster_db \<Rightarrow> bool" where
  "is_excluded hostname db = host_excluded (canonical_hostname hostname) db"

definition permanent_remove :: "string \<Rightarrow> instant \<Rightarrow> string \<Rightarrow> string \<Rightarrow> roster_db \<Rightarrow> roster_db" where
  "permanent_remove hostname now by_user reason db =
     (let h = canonical_hostname hostname
      in put_tombstone h now by_user reason (delete_server h db))"

definition register_if_not_excluded :: "string \<Rightarrow> instant \<Rightarrow> roster_db \<Rightarrow> roster_db \<times> bool \<times> bool" where
  "register_if_not_excluded hostname now db =
     (let h = canonical_hostname hostname
      in if host_excluded h db then (db, False, True) else (insert_server h now db, True, False))"

definition all_excluded :: "roster_db \<Rightarrow> tombstone list" where
  "all_excluded db = sort_key (\<lambda>r. (- tb_at r, tb_host r)) (rd_exclusions db)"

subsection \<open>Freshness\<close>

definition put_fresh :: "string \<Rightarrow> int \<Rightarrow> int option \<Rightarrow> roster_db \<Rightarrow> roster_db" where
  "put_fresh h epoch offline db =
     db\<lparr>rd_fresh := map (\<lambda>r. if nocase (fr_host r) h
        then r\<lparr>fr_host := h, fr_epoch := epoch, fr_offline := offline\<rparr> else r) (rd_fresh db)\<rparr>"

definition freshness_transition :: "string \<Rightarrow> int \<Rightarrow> int \<Rightarrow> bool \<Rightarrow> roster_db \<Rightarrow> roster_db \<times> bool" where
  "freshness_transition hostname epoch offline_at offline db =
     (let h = canonical_hostname hostname in
      case List.find (\<lambda>r. nocase (sv_host r) h) (rd_servers db) of
        None \<Rightarrow> (db, False)
      | Some server \<Rightarrow>
          if offline \<and> sv_seen server \<noteq> epoch then (db, False)
          else
            (case List.find (\<lambda>r. nocase (fr_host r) h) (rd_fresh db) of
               None \<Rightarrow>
                 (db\<lparr>rd_fresh := rd_fresh db @
                    [\<lparr>fr_host = h, fr_epoch = epoch,
                      fr_offline = (if offline then Some offline_at else None)\<rparr>]\<rparr>, offline)
             | Some row \<Rightarrow>
                 if epoch < fr_epoch row then (db, False)
                 else if offline then
                   (if epoch = fr_epoch row \<and> fr_offline row \<noteq> None then (db, False)
                    else (put_fresh h epoch (Some offline_at) db, True))
                 else
                   (let recovered = fr_offline row \<noteq> None
                    in if epoch = fr_epoch row \<and> \<not> recovered then (db, False)
                       else (put_fresh h epoch None db, recovered))))"

definition mark_offline :: "string \<Rightarrow> instant \<Rightarrow> instant \<Rightarrow> roster_db \<Rightarrow> roster_db \<times> bool" where
  "mark_offline host epoch now db = freshness_transition host (unix_milli epoch) (unix_milli now) True db"

definition mark_fresh :: "string \<Rightarrow> instant \<Rightarrow> roster_db \<Rightarrow> roster_db \<times> bool" where
  "mark_fresh host epoch db = freshness_transition host (unix_milli epoch) 0 False db"

definition remove_freshness :: "string \<Rightarrow> roster_db \<Rightarrow> roster_db \<times> bool" where
  "remove_freshness hostname db =
     (let h = canonical_hostname hostname in
      (db\<lparr>rd_fresh := filter (\<lambda>r. \<not> nocase (fr_host r) h) (rd_fresh db)\<rparr>,
       list_ex (\<lambda>r. nocase (fr_host r) h) (rd_fresh db)))"

subsection \<open>Histories\<close>

datatype roster_op =
    RoRegister string instant
  | RoRemove string
  | RoUpdate string string instant
  | RoBackdate string instant
  | RoImport "server_row list"
  | RoExclude string instant string string
  | RoRestore string
  | RoPermanentRemove string instant string string
  | RoGuardedRegister string instant
  | RoOffline string instant instant
  | RoFresh string instant
  | RoForget string

definition roster_step :: "roster_op \<Rightarrow> roster_db \<Rightarrow> roster_db" where
  "roster_step op db =
     (case op of
        RoRegister h now \<Rightarrow> register_server h now db
      | RoRemove h \<Rightarrow> fst (remove_server h db)
      | RoUpdate h result now \<Rightarrow> fst (update_server h result now db)
      | RoBackdate h t \<Rightarrow> backdate_last_seen h t db
      | RoImport rows \<Rightarrow> fst (import_servers rows db)
      | RoExclude h now u why \<Rightarrow> exclude_host h now u why db
      | RoRestore h \<Rightarrow> fst (restore_host h db)
      | RoPermanentRemove h now u why \<Rightarrow> permanent_remove h now u why db
      | RoGuardedRegister h now \<Rightarrow> fst (register_if_not_excluded h now db)
      | RoOffline h epoch now \<Rightarrow> fst (mark_offline h epoch now db)
      | RoFresh h epoch \<Rightarrow> fst (mark_fresh h epoch db)
      | RoForget h \<Rightarrow> fst (remove_freshness h db))"

definition empty_roster :: roster_db where
  "empty_roster = \<lparr>rd_servers = [], rd_exclusions = [], rd_fresh = []\<rparr>"

lemma upper_canonical [simp]: "to_upper (canonical_hostname h) = canonical_hostname h"
  by (simp add: canonical_hostname_def)

lemma nocase_canonical [simp]:
  "nocase (canonical_hostname a) (canonical_hostname b) \<longleftrightarrow> canonical_hostname a = canonical_hostname b"
  by (simp add: nocase_def)

lemma nocase_upper: "to_upper a = a \<Longrightarrow> nocase a (canonical_hostname b) \<longleftrightarrow> a = canonical_hostname b"
  by (simp add: nocase_def)

text \<open>What the operations do to the tables they do not own.\<close>

lemma insert_server_other [simp]:
  "rd_exclusions (insert_server h now db) = rd_exclusions db" "rd_fresh (insert_server h now db) = rd_fresh db"
  by (simp_all add: insert_server_def)

lemma delete_server_other [simp]:
  "rd_exclusions (delete_server h db) = rd_exclusions db" "rd_fresh (delete_server h db) = rd_fresh db"
  by (simp_all add: delete_server_def)

lemma touch_server_other [simp]:
  "rd_exclusions (touch_server f h db) = rd_exclusions db" "rd_fresh (touch_server f h db) = rd_fresh db"
  by (simp_all add: touch_server_def)

lemma put_tombstone_other [simp]:
  "rd_servers (put_tombstone h now u why db) = rd_servers db"
  "rd_fresh (put_tombstone h now u why db) = rd_fresh db"
  by (simp_all add: put_tombstone_def)

lemma put_fresh_other [simp]:
  "rd_servers (put_fresh h e x db) = rd_servers db" "rd_exclusions (put_fresh h e x db) = rd_exclusions db"
  by (simp_all add: put_fresh_def)

lemma import_other:
  "rd_exclusions (fst (import_rows rs db)) = rd_exclusions db \<and> rd_fresh (fst (import_rows rs db)) = rd_fresh db"
  by (induction rs db rule: import_rows.induct) (simp_all add: Let_def case_prod_beta)

lemma freshness_other:
  "rd_servers (fst (freshness_transition h e t x db)) = rd_servers db
   \<and> rd_exclusions (fst (freshness_transition h e t x db)) = rd_exclusions db"
  by (simp add: freshness_transition_def Let_def split: option.split)

lemmas roster_ops = register_server_def remove_server_def update_server_def backdate_last_seen_def
  import_servers_def exclude_host_def restore_host_def permanent_remove_def register_if_not_excluded_def
  mark_offline_def mark_fresh_def remove_freshness_def

subsection \<open>One row per host\<close>

definition roster_ok :: "roster_db \<Rightarrow> bool" where
  "roster_ok db \<longleftrightarrow>
     distinct (map (to_upper \<circ> sv_host) (rd_servers db)) \<and> list_all (\<lambda>r. to_upper (sv_host r) = sv_host r) (rd_servers db)
     \<and> distinct (map (to_upper \<circ> tb_host) (rd_exclusions db))
     \<and> distinct (map (to_upper \<circ> fr_host) (rd_fresh db))"

lemma distinct_filter_map: "distinct (map f xs) \<Longrightarrow> distinct (map f (filter P xs))"
  by (induction xs) auto

lemma distinct_snoc_fresh:
  "distinct (map f xs) \<Longrightarrow> \<not> list_ex (\<lambda>r. f r = f x) xs \<Longrightarrow> distinct (map f (xs @ [x]))"
  by (auto simp: list_ex_iff)

lemma import_ok: "roster_ok db \<Longrightarrow> roster_ok (fst (import_rows rs db))"
proof (induction rs db rule: import_rows.induct)
  case (2 r rs db)
  define row where "row = r\<lparr>sv_host := canonical_hostname (sv_host r),
    sv_result := (case sv_result r of None \<Rightarrow> None | Some t \<Rightarrow> if t = [] then None else Some t)\<rparr>"
  have up: "to_upper (sv_host row) = sv_host row" by (simp add: row_def)
  show ?case
  proof (cases "list_ex (\<lambda>q. sv_host q = sv_host row) (rd_servers db)")
    case True
    with 2 show ?thesis by (simp add: row_def Let_def)
  next
    case False
    have "roster_ok (db\<lparr>rd_servers := rd_servers db @ [row]\<rparr>)"
      using 2(3) False up by (auto simp: roster_ok_def list_ex_iff list_all_iff)
    with 2(2) [OF row_def False] False show ?thesis
      by (simp add: row_def [symmetric] Let_def case_prod_beta)
  qed
qed simp

lemma insert_ok: "roster_ok db \<Longrightarrow> roster_ok (insert_server (canonical_hostname h) now db)"
  by (auto simp: roster_ok_def insert_server_def server_known_def list_ex_iff nocase_def)

lemma delete_ok: "roster_ok db \<Longrightarrow> roster_ok (delete_server h db)"
  by (auto simp: roster_ok_def delete_server_def distinct_filter_map list_all_iff)

lemma touch_ok: "roster_ok db \<Longrightarrow> (\<And>r. sv_host (f r) = sv_host r) \<Longrightarrow> roster_ok (touch_server f h db)"
proof -
  assume ok: "roster_ok db" and f: "\<And>r. sv_host (f r) = sv_host r"
  have "to_upper \<circ> sv_host \<circ> (\<lambda>r. if nocase (sv_host r) h then f r else r) = to_upper \<circ> sv_host"
    by (auto simp: f)
  with ok f show ?thesis by (auto simp: roster_ok_def list_all_iff touch_server_def)
qed

lemma tombstone_ok: "roster_ok db \<Longrightarrow> roster_ok (put_tombstone h now u why db)"
  by (auto simp: roster_ok_def put_tombstone_def distinct_filter_map nocase_def)

lemma put_fresh_ok: "roster_ok db \<Longrightarrow> roster_ok (put_fresh h e x db)"
proof -
  assume ok: "roster_ok db"
  have "map (to_upper \<circ> fr_host) (rd_fresh (put_fresh h e x db)) = map (to_upper \<circ> fr_host) (rd_fresh db)"
    by (auto simp: put_fresh_def nocase_def)
  with ok show ?thesis by (simp add: roster_ok_def)
qed

lemma find_None_list_ex: "List.find P xs = None \<longleftrightarrow> \<not> list_ex P xs"
  by (auto simp: find_None_iff list_ex_iff)

text \<open>The three ends of a transition: nothing, a new row, a rewritten row.\<close>

lemma freshness_cases:
  obtains (same) "freshness_transition i e t offline db = (db, False)"
  | (new) "List.find (\<lambda>r. nocase (fr_host r) (canonical_hostname i)) (rd_fresh db) = None"
      "freshness_transition i e t offline db =
         (db\<lparr>rd_fresh := rd_fresh db @ [\<lparr>fr_host = canonical_hostname i, fr_epoch = e,
            fr_offline = (if offline then Some t else None)\<rparr>]\<rparr>, offline)"
  | (put) row where "List.find (\<lambda>r. nocase (fr_host r) (canonical_hostname i)) (rd_fresh db) = Some row"
      "fr_epoch row \<le> e" "e = fr_epoch row \<Longrightarrow> offline \<longleftrightarrow> fr_offline row = None"
      "freshness_transition i e t offline db =
         (put_fresh (canonical_hostname i) e (if offline then Some t else None) db,
          offline \<or> fr_offline row \<noteq> None)"
proof (cases "List.find (\<lambda>r. nocase (sv_host r) (canonical_hostname i)) (rd_servers db)")
  case None
  then show ?thesis by (intro same) (simp add: freshness_transition_def Let_def)
next
  case (Some server)
  note server = Some
  show ?thesis
  proof (cases "offline \<and> sv_seen server \<noteq> e")
    case True
    with server show ?thesis by (intro same) (simp add: freshness_transition_def Let_def)
  next
    case False
    note seen = False
    show ?thesis
    proof (cases "List.find (\<lambda>r. nocase (fr_host r) (canonical_hostname i)) (rd_fresh db)")
      case None
      with server seen show ?thesis by (intro new) (auto simp: freshness_transition_def Let_def)
    next
      case (Some row)
      show ?thesis
      proof (cases "e < fr_epoch row \<or> e = fr_epoch row \<and> offline = (fr_offline row \<noteq> None)")
        case True
        with server seen Some show ?thesis by (intro same) (auto simp: freshness_transition_def Let_def)
      next
        case False
        with server seen Some show ?thesis
          by (intro put [of row]) (auto simp: freshness_transition_def Let_def)
      qed
    qed
  qed
qed

lemma freshness_ok: "roster_ok db \<Longrightarrow> roster_ok (fst (freshness_transition h e t x db))"
proof (cases rule: freshness_cases [of h e t x db])
  case new
  assume "roster_ok db"
  with new show ?thesis by (auto simp: roster_ok_def find_None_iff nocase_def)
qed (simp_all add: put_fresh_ok)

lemma filter_exclusions_ok: "roster_ok db \<Longrightarrow> roster_ok (db\<lparr>rd_exclusions := filter P (rd_exclusions db)\<rparr>)"
  and filter_fresh_ok: "roster_ok db \<Longrightarrow> roster_ok (db\<lparr>rd_fresh := filter Q (rd_fresh db)\<rparr>)"
  by (simp_all add: roster_ok_def distinct_filter_map)

interpretation roster: step_invariant roster_step roster_ok
  by unfold_locales
    (auto simp: roster_step_def roster_ops Let_def insert_ok delete_ok touch_ok import_ok tombstone_ok
      freshness_ok filter_exclusions_ok filter_fresh_ok split: roster_op.split)

lemma empty_roster_ok: "roster_ok empty_roster"
  by (simp add: roster_ok_def empty_roster_def)

text \<open>A host is one row, however its name is spelled: over any history of registrations,
  imports, reports, removals and freshness updates, the listed servers are sorted, no two share a
  name up to case, and looking a host up under any spelling finds exactly the listed server that
  bears its canonical name.\<close>

theorem one_row_per_host:
  "let db = fold roster_step ops empty_roster in
   sorted (map si_host (all_servers db)) \<and> distinct (map (to_upper \<circ> si_host) (all_servers db))
   \<and> (\<forall>h s. get_server h db = Some s \<longleftrightarrow> s \<in> set (all_servers db) \<and> si_host s = canonical_hostname h)"
proof -
  define db where "db = fold roster_step ops empty_roster"
  have ok: "roster_ok db" unfolding db_def by (rule roster.inv_run [OF empty_roster_ok])
  have host: "si_host \<circ> info_of = sv_host" by (simp add: fun_eq_iff info_of_def)
  then have host': "to_upper \<circ> si_host \<circ> info_of = to_upper \<circ> sv_host" by (simp add: comp_assoc)
  have "sorted (map si_host (all_servers db))"
    by (simp add: all_servers_def host)
  moreover have "distinct (map (to_upper \<circ> si_host) (all_servers db))"
    using ok by (simp add: all_servers_def host' roster_ok_def distinct_map)
  moreover have "get_server h db = Some s \<longleftrightarrow> s \<in> set (all_servers db) \<and> si_host s = canonical_hostname h" for h s
  proof
    assume "get_server h db = Some s"
    then obtain r where r: "List.find (\<lambda>r. nocase (sv_host r) (canonical_hostname h)) (rd_servers db) = Some r"
      "s = info_of r" by (auto simp: get_server_def)
    then have "r \<in> set (rd_servers db)" "nocase (sv_host r) (canonical_hostname h)" by (auto simp: find_Some_iff)
    moreover from this(1) ok have "to_upper (sv_host r) = sv_host r" by (auto simp: roster_ok_def list_all_iff)
    ultimately show "s \<in> set (all_servers db) \<and> si_host s = canonical_hostname h"
      using r(2) by (auto simp: all_servers_def nocase_def) (simp add: info_of_def)
  next
    assume s: "s \<in> set (all_servers db) \<and> si_host s = canonical_hostname h"
    then obtain r where r: "r \<in> set (rd_servers db)" "s = info_of r" "sv_host r = canonical_hostname h"
      by (auto simp: all_servers_def info_of_def)
    then have "List.find (\<lambda>r. nocase (sv_host r) (canonical_hostname h)) (rd_servers db) \<noteq> None"
      by (auto simp: find_None_iff)
    then obtain q where q: "List.find (\<lambda>r. nocase (sv_host r) (canonical_hostname h)) (rd_servers db) = Some q"
      by blast
    then have "q \<in> set (rd_servers db)" "nocase (sv_host q) (canonical_hostname h)" by (auto simp: find_Some_iff)
    moreover have "inj_on (to_upper \<circ> sv_host) (set (rd_servers db))"
      using ok by (simp add: roster_ok_def distinct_map)
    ultimately have "q = r" using r(1,3) by (auto simp: nocase_def dest!: inj_onD [of _ _ q r])
    with q r(2) show "get_server h db = Some s" by (simp add: get_server_def)
  qed
  ultimately show ?thesis by (simp add: db_def Let_def)
qed

text \<open>
  A removed host: its name is excluded and not registered. Only a restore, an unguarded
  registration or an import of the host ends that.
\<close>

definition removed_host :: "string \<Rightarrow> roster_db \<Rightarrow> bool" where
  "removed_host h db \<longleftrightarrow> host_excluded (canonical_hostname h) db \<and> \<not> server_known (canonical_hostname h) db"

fun readmits :: "string \<Rightarrow> roster_op \<Rightarrow> bool" where
  "readmits h (RoRestore i) = (canonical_hostname i = canonical_hostname h)"
| "readmits h (RoRegister i now) = (canonical_hostname i = canonical_hostname h)"
| "readmits h (RoImport rows) = list_ex (\<lambda>r. canonical_hostname (sv_host r) = canonical_hostname h) rows"
| "readmits h op = False"

lemma import_known:
  "server_known (canonical_hostname h) (fst (import_rows rs db)) \<Longrightarrow>
   server_known (canonical_hostname h) db \<or> list_ex (\<lambda>r. canonical_hostname (sv_host r) = canonical_hostname h) rs"
proof (induction rs db rule: import_rows.induct)
  case (2 r rs db)
  define row where "row = r\<lparr>sv_host := canonical_hostname (sv_host r),
    sv_result := (case sv_result r of None \<Rightarrow> None | Some t \<Rightarrow> if t = [] then None else Some t)\<rparr>"
  show ?case
  proof (cases "list_ex (\<lambda>q. sv_host q = sv_host row) (rd_servers db)")
    case True
    with 2 show ?thesis by (auto simp: row_def Let_def)
  next
    case False
    from 2(3) False have "server_known (canonical_hostname h)
        (fst (import_rows rs (db\<lparr>rd_servers := rd_servers db @ [row]\<rparr>)))"
      by (simp add: row_def [symmetric] Let_def case_prod_beta)
    from 2(2) [OF row_def False this] show ?thesis
      by (auto simp: server_known_def row_def)
  qed
qed simp

lemma known_touch:
  assumes "\<And>r. sv_host (f r) = sv_host r"
  shows "server_known h (touch_server f i db) = server_known h db"
proof -
  have "sv_host (if nocase (sv_host r) i then f r else r) = sv_host r" for r by (simp add: assms)
  then show ?thesis by (simp add: server_known_def touch_server_def list_ex_iff del: if_image_distrib)
qed

lemma known_simps:
  "server_known h (insert_server i now db) \<longleftrightarrow> server_known h db \<or> nocase i h"
  "server_known h (delete_server i db) \<longleftrightarrow> server_known h db \<and> \<not> nocase h i"
  "server_known h (put_tombstone i now u why db) = server_known h db"
  "host_excluded h (put_tombstone i now u why db) \<longleftrightarrow> host_excluded h db \<or> nocase i h"
  "host_excluded h (insert_server i now db) = host_excluded h db"
  "host_excluded h (delete_server i db) = host_excluded h db"
  "host_excluded h (touch_server f i db) = host_excluded h db"
  by (auto simp: server_known_def insert_server_def delete_server_def touch_server_def put_tombstone_def
      host_excluded_def list_ex_iff nocase_def)

lemma removed_step: "removed_host h db \<Longrightarrow> \<not> readmits h op \<Longrightarrow> removed_host h (roster_step op db)"
proof (cases op)
  case (RoFresh i e)
  then show "removed_host h db \<Longrightarrow> ?thesis"
    using freshness_other [of i "unix_milli e" 0 False db]
    by (simp add: removed_host_def roster_step_def roster_ops server_known_def host_excluded_def)
next
  case (RoOffline i e now)
  then show "removed_host h db \<Longrightarrow> ?thesis"
    using freshness_other [of i "unix_milli e" "unix_milli now" True db]
    by (simp add: removed_host_def roster_step_def roster_ops server_known_def host_excluded_def)
next
  case (RoImport rows)
  then show "removed_host h db \<Longrightarrow> \<not> readmits h op \<Longrightarrow> ?thesis"
    using import_known [of h rows db] import_other [of rows db]
    by (auto simp: removed_host_def roster_step_def roster_ops host_excluded_def)
next
  case (RoGuardedRegister i now)
  then show "removed_host h db \<Longrightarrow> ?thesis"
    by (auto simp: removed_host_def roster_step_def roster_ops Let_def known_simps)
next
  case (RoRestore i)
  then show "removed_host h db \<Longrightarrow> \<not> readmits h op \<Longrightarrow> ?thesis"
    by (auto simp: removed_host_def roster_step_def roster_ops Let_def host_excluded_def server_known_def
        list_ex_iff nocase_def)
next
  case (RoForget i)
  then show "removed_host h db \<Longrightarrow> ?thesis"
    by (simp add: removed_host_def roster_step_def roster_ops Let_def host_excluded_def server_known_def)
qed (auto simp: removed_host_def roster_step_def roster_ops Let_def known_simps known_touch)

text \<open>C6: A permanent removal holds: after it, and through any later history short of a restore,
  an unguarded registration or an import of the host, the host is excluded and not registered,
  under any spelling, and a guarded registration is refused without changing anything.\<close>

theorem removed_stays_removed:
  assumes "\<forall>op \<in> set ops. \<not> readmits h op" and "canonical_hostname i = canonical_hostname h"
  shows "let db' = fold roster_step ops (permanent_remove h now by_user reason db) in
     is_excluded i db' \<and> \<not> is_registered i db'
     \<and> register_if_not_excluded i later db' = (db', False, True)"
proof -
  have "removed_host h (fold roster_step ops d)" if "removed_host h d" for d
    using that assms(1) by (induction ops arbitrary: d) (auto intro: removed_step)
  moreover have "removed_host h (permanent_remove h now by_user reason db)"
    by (simp add: removed_host_def permanent_remove_def Let_def known_simps)
  ultimately have "removed_host h (fold roster_step ops (permanent_remove h now by_user reason db))" .
  then show ?thesis
    using assms(2) by (simp add: removed_host_def is_excluded_def is_registered_def
        register_if_not_excluded_def Let_def)
qed

subsection \<open>One notification per epoch\<close>

definition fresh_of :: "string \<Rightarrow> fresh_row list \<Rightarrow> (int \<times> int option) option" where
  "fresh_of h rs = map_option (\<lambda>r. (fr_epoch r, fr_offline r)) (List.find (\<lambda>r. nocase (fr_host r) h) rs)"

lemma fresh_of_Nil [simp]: "fresh_of h [] = None"
  by (simp add: fresh_of_def)

lemma fresh_of_Cons [simp]:
  "fresh_of h (r # rs) = (if nocase (fr_host r) h then Some (fr_epoch r, fr_offline r) else fresh_of h rs)"
  by (simp add: fresh_of_def)

lemma fresh_of_append: "fresh_of h (rs @ qs) = (case fresh_of h rs of None \<Rightarrow> fresh_of h qs | Some x \<Rightarrow> Some x)"
  by (induction rs) auto

lemma fresh_of_put:
  "fresh_of h (rd_fresh (put_fresh i e x db)) =
     (if nocase h i \<and> fresh_of h (rd_fresh db) \<noteq> None then Some (e, x) else fresh_of h (rd_fresh db))"
proof -
  have "fresh_of h (map (\<lambda>r. if nocase (fr_host r) i then r\<lparr>fr_host := i, fr_epoch := e, fr_offline := x\<rparr> else r) rs)
     = (if nocase h i \<and> fresh_of h rs \<noteq> None then Some (e, x) else fresh_of h rs)" for rs
    by (induction rs) (auto simp: nocase_def)
  then show ?thesis by (simp add: put_fresh_def)
qed

lemma fresh_of_forget: "\<not> nocase h i \<Longrightarrow> fresh_of h (filter (\<lambda>r. \<not> nocase (fr_host r) i) rs) = fresh_of h rs"
  by (induction rs) (auto simp: nocase_def)

definition offline_noted :: "string \<Rightarrow> int \<Rightarrow> roster_db \<Rightarrow> bool" where
  "offline_noted h e db \<longleftrightarrow>
     (case fresh_of (canonical_hostname h) (rd_fresh db) of
        None \<Rightarrow> False
      | Some (e', x) \<Rightarrow> e < e' \<or> e = e' \<and> x \<noteq> None)"

fun reopens :: "string \<Rightarrow> int \<Rightarrow> roster_op \<Rightarrow> bool" where
  "reopens h e (RoForget i) = (canonical_hostname i = canonical_hostname h)"
| "reopens h e (RoFresh i t) = (canonical_hostname i = canonical_hostname h \<and> unix_milli t = e)"
| "reopens h e op = False"

lemma transition_noted:
  assumes "offline_noted h e db" and "\<not> (\<not> offline \<and> canonical_hostname i = canonical_hostname h \<and> e' = e)"
  shows "offline_noted h e (fst (freshness_transition i e' t offline db))"
proof (cases rule: freshness_cases [of i e' t offline db])
  case same
  with assms show ?thesis by simp
next
  case new
  with assms(1) show ?thesis by (auto simp: offline_noted_def fresh_of_append split: option.splits)
next
  case (put row)
  show ?thesis
  proof (cases "canonical_hostname i = canonical_hostname h")
    case True
    with put(1) have "fresh_of (canonical_hostname h) (rd_fresh db) = Some (fr_epoch row, fr_offline row)"
      by (simp add: fresh_of_def)
    with assms put(2-4) True show ?thesis by (auto simp: offline_noted_def fresh_of_put)
  next
    case False
    with assms(1) put(4) show ?thesis by (auto simp: offline_noted_def fresh_of_put)
  qed
qed

lemma noted_step: "offline_noted h e db \<Longrightarrow> \<not> reopens h e op \<Longrightarrow> offline_noted h e (roster_step op db)"
proof (cases op)
  case (RoForget i)
  then show "offline_noted h e db \<Longrightarrow> \<not> reopens h e op \<Longrightarrow> ?thesis"
    using fresh_of_forget [of "canonical_hostname h" "canonical_hostname i"]
    by (auto simp: offline_noted_def roster_step_def roster_ops Let_def)
next
  case (RoFresh i t)
  then show "offline_noted h e db \<Longrightarrow> \<not> reopens h e op \<Longrightarrow> ?thesis"
    by (auto simp: roster_step_def mark_fresh_def intro!: transition_noted)
next
  case (RoOffline i t now)
  then show "offline_noted h e db \<Longrightarrow> \<not> reopens h e op \<Longrightarrow> ?thesis"
    by (auto simp: roster_step_def mark_offline_def intro!: transition_noted)
qed (auto simp: offline_noted_def roster_step_def roster_ops Let_def import_other)

lemma mark_offline_noted:
  "snd (mark_offline h epoch now db) \<Longrightarrow> offline_noted h (unix_milli epoch) (fst (mark_offline h epoch now db))"
  unfolding mark_offline_def
proof (cases rule: freshness_cases [of h "unix_milli epoch" "unix_milli now" True db])
  case new
  then show "offline_noted h (unix_milli epoch)
      (fst (freshness_transition h (unix_milli epoch) (unix_milli now) True db))"
    by (simp add: offline_noted_def fresh_of_append fresh_of_def [of _ "rd_fresh db"])
next
  case (put row)
  then show "offline_noted h (unix_milli epoch)
      (fst (freshness_transition h (unix_milli epoch) (unix_milli now) True db))"
    by (simp add: offline_noted_def fresh_of_put fresh_of_def [of _ "rd_fresh db"])
qed simp

lemma noted_refuses:
  assumes "offline_noted h (unix_milli epoch) db"
  shows "\<not> snd (mark_offline h epoch now db)"
  unfolding mark_offline_def
proof (cases rule: freshness_cases [of h "unix_milli epoch" "unix_milli now" True db])
  case new
  with assms show "\<not> snd (freshness_transition h (unix_milli epoch) (unix_milli now) True db)"
    by (simp add: offline_noted_def fresh_of_def)
next
  case (put row)
  with assms show "\<not> snd (freshness_transition h (unix_milli epoch) (unix_milli now) True db)"
    by (auto simp: offline_noted_def fresh_of_def)
qed simp

text \<open>C26: The offline notification of a report is a one-shot. Once \<open>MarkOffline\<close> has returned true
  for a host and report epoch, it returns false for that host and epoch ever after, whatever is
  recorded in between, until the freshness of the host is removed or that very report is marked
  fresh again.\<close>

theorem offline_notified_once:
  assumes "snd (mark_offline h epoch now db)" and "\<forall>op \<in> set ops. \<not> reopens h (unix_milli epoch) op"
  shows "\<not> snd (mark_offline h epoch later (fold roster_step ops (fst (mark_offline h epoch now db))))"
proof -
  have "offline_noted h (unix_milli epoch) (fold roster_step ops d)" if "offline_noted h (unix_milli epoch) d" for d
    using that assms(2) by (induction ops arbitrary: d) (auto intro: noted_step)
  from noted_refuses [OF this [OF mark_offline_noted [OF assms(1)]]] show ?thesis .
qed

subsection \<open>Witnesses\<close>

definition example_roster :: roster_db where
  "example_roster =
     \<lparr>rd_servers = [\<lparr>sv_host = [], sv_registered = 1, sv_seen = 7, sv_result = None\<rparr>],
      rd_exclusions = [], rd_fresh = []\<rparr>"

lemma canonical_Nil: "canonical_hostname [] = []"
  by (simp add: canonical_hostname_def trim_space_def to_upper_def)

lemma removed_stays_removed_witness:
  "register_if_not_excluded [] 9
     (fold roster_step [RoGuardedRegister [] 8] (permanent_remove [] 5 ''admin'' [] example_roster))
   = (fold roster_step [RoGuardedRegister [] 8] (permanent_remove [] 5 ''admin'' [] example_roster), False, True)"
  using removed_stays_removed [of "[RoGuardedRegister [] 8]" "[]" "[]" 5 "''admin''" "[]" example_roster 9]
  unfolding Let_def by simp

lemma offline_notified_once_witness:
  "snd (mark_offline [] 7000000 9000000 example_roster)
   \<and> \<not> snd (mark_offline [] 7000000 12000000
       (fold roster_step [RoOffline [] 7000000 10000000] (fst (mark_offline [] 7000000 9000000 example_roster))))"
proof -
  have "snd (mark_offline [] 7000000 9000000 example_roster)"
    by (simp add: mark_offline_def freshness_transition_def example_roster_def canonical_Nil unix_milli_def Let_def)
  with offline_notified_once [OF this, of "[RoOffline [] 7000000 10000000]" 12000000] show ?thesis by simp
qed

end
