(* ===== verification/Updater.thy ===== *)
theory Updater
  imports Prelude
begin

text \<open>
  The agent's updater (\<open>internal/updater\<close>): release versions, the retry delays, the persisted
  state with the ledger of force-update commands, the signed manifest, the answer of the release
  endpoint and one poll from the request to the start of the installer. The network, Authenticode,
  Ed25519, SHA-256, the decoding of JSON texts and the installer process are arguments; error texts
  are reduced to the stage they come from.
\<close>

subsection \<open>Versions\<close>

datatype version = Version (v_year: int) (v_month: int) (v_n: int)

text \<open>\<open>strconv.Atoi\<close> on 64-bit platforms.\<close>

definition atoi_digits :: "string \<Rightarrow> nat option" where
  "atoi_digits s = (if s \<noteq> [] \<and> list_all is_digit s then Some (digits_val 0 s) else None)"

definition atoi :: "string \<Rightarrow> int option" where
  "atoi s =
     (let negative = has_prefix s ''-'';
          body = (if negative \<or> has_prefix s ''+'' then tl s else s)
      in case atoi_digits body of None \<Rightarrow> None
         | Some n \<Rightarrow>
             if negative then (if n \<le> 2 ^ 63 then Some (- int n) else None)
             else (if n < 2 ^ 63 then Some (int n) else None))"

definition parse_version :: "string \<Rightarrow> version option" where
  "parse_version s =
     (case split_on CHR ''.'' (trim_prefix s ''v'') of
        [y, m, n] \<Rightarrow>
          (case atoi y of None \<Rightarrow> None | Some year \<Rightarrow>
           case atoi m of None \<Rightarrow> None | Some month \<Rightarrow>
           case atoi n of None \<Rightarrow> None | Some k \<Rightarrow>
             if year < 0 \<or> month < 1 \<or> month > 12 \<or> k < 0 then None else Some (Version year month k))
      | _ \<Rightarrow> None)"

definition version_less :: "version \<Rightarrow> version \<Rightarrow> bool" where
  "version_less a b =
     (if v_year a \<noteq> v_year b then v_year a < v_year b
      else if v_month a \<noteq> v_month b then v_month a < v_month b
      else v_n a < v_n b)"

definition version_equals :: "version \<Rightarrow> version \<Rightarrow> bool" where
  "version_equals a b \<longleftrightarrow> v_year a = v_year b \<and> v_month a = v_month b \<and> v_n a = v_n b"

definition format_signed :: "int \<Rightarrow> string" where
  "format_signed n = (if n < 0 then CHR ''-'' # format_uint (nat (- n)) else format_uint (nat n))"

definition version_string :: "version \<Rightarrow> string" where
  "version_string v =
     format_signed (v_year v) @ ''.'' @ format_signed (v_month v) @ ''.'' @ format_signed (v_n v)"

instantiation version :: linorder
begin

definition less_version :: "version \<Rightarrow> version \<Rightarrow> bool" where
  "less_version = version_less"

definition less_eq_version :: "version \<Rightarrow> version \<Rightarrow> bool" where
  "less_eq_version a b \<longleftrightarrow> a = b \<or> version_less a b"

instance
  by standard
    (auto simp: less_version_def less_eq_version_def version_less_def version.expand split: if_splits
      intro: version.expand)

end

definition version_ok :: "version \<Rightarrow> bool" where
  "version_ok v \<longleftrightarrow>
     0 \<le> v_year v \<and> v_year v < 2 ^ 63 \<and> 1 \<le> v_month v \<and> v_month v \<le> 12 \<and> 0 \<le> v_n v \<and> v_n v < 2 ^ 63"

lemma equals_iff [simp]: "version_equals a b \<longleftrightarrow> a = b"
  by (auto simp: version_equals_def intro: version.expand)

subsection \<open>Retry delays\<close>

definition backoff_schedule :: "duration list" where
  "backoff_schedule = [5 * minute, 15 * minute, 45 * minute, 2 * hour, 6 * hour, 24 * hour]"

definition record_failure :: "nat \<Rightarrow> nat \<times> duration" where
  "record_failure failures =
     (let failures' = failures + 1;
          idx = failures' - 1;
          idx' = (if idx \<ge> length backoff_schedule then length backoff_schedule - 1 else idx)
      in (failures', backoff_schedule ! idx'))"

text \<open>The delay before the next poll: \<open>jittered\<close> stands for the poll interval with its jitter.\<close>

definition default_poll_interval :: duration where "default_poll_interval = 24 * hour"

definition next_poll_delay :: "(duration \<Rightarrow> duration) \<Rightarrow> duration \<Rightarrow> nat \<Rightarrow> duration" where
  "next_poll_delay jittered interval failures =
     (let base = (if interval \<le> 0 then default_poll_interval else interval); delay = jittered base
      in if failures > 0
         then delay + backoff_schedule ! min (failures - 1) (length backoff_schedule - 1)
         else delay)"

subsection \<open>Persisted state\<close>

record update_state =
  us_highest :: string
  us_commands :: "(string \<times> instant) list"

definition zero_state :: update_state where
  "zero_state = \<lparr>us_highest = [], us_commands = []\<rparr>"

datatype state_file = StateAbsent | StateUnreadable | StateTooLarge | StateCorrupt | StateStored update_state

text \<open>\<open>None\<close> is the error; absent, unreadable and corrupt files read as the zero state.\<close>

definition load_update_state :: "state_file \<Rightarrow> update_state option" where
  "load_update_state f =
     (case f of StateTooLarge \<Rightarrow> None | StateStored s \<Rightarrow> Some s | _ \<Rightarrow> Some zero_state)"

text \<open>The state a caller continues with when it ignores the error.\<close>

definition state_or_zero :: "state_file \<Rightarrow> update_state" where
  "state_or_zero f = (case load_update_state f of None \<Rightarrow> zero_state | Some s \<Rightarrow> s)"

definition seed_highest_seen :: "string \<Rightarrow> bool \<Rightarrow> state_file \<Rightarrow> state_file" where
  "seed_highest_seen local_version save_ok f =
     (case parse_version local_version of None \<Rightarrow> f
      | Some cur \<Rightarrow>
          let s = state_or_zero f in
          if us_highest s \<noteq> []
             \<and> (case parse_version (us_highest s) of None \<Rightarrow> False | Some hs \<Rightarrow> \<not> version_less hs cur)
          then f
          else if save_ok then StateStored (s\<lparr>us_highest := version_string cur\<rparr>) else f)"

definition force_window :: duration where "force_window = 24 * hour"
definition command_ledger_cap :: nat where "command_ledger_cap = 256"

definition prune_commands :: "instant \<Rightarrow> (string \<times> instant) list \<Rightarrow> (string \<times> instant) list" where
  "prune_commands now commands =
     (let cutoff = now - force_window;
          recent = filter (\<lambda>c. \<not> snd c < cutoff) commands
      in if length recent < command_ledger_cap then recent
         else
           let sorted_ids = map fst (sort_key (\<lambda>c. (snd c, fst c)) recent);
               doomed = take (length sorted_ids - command_ledger_cap + 1) sorted_ids
           in filter (\<lambda>c. fst c \<notin> set doomed) recent)"

subsection \<open>The signed manifest\<close>

record manifest =
  mf_schema :: int
  mf_version :: string
  mf_asset :: string
  mf_sha256 :: string

datatype manifest_error =
  NoKeys | SignatureInvalid | ManifestParse | ManifestSchema | AssetMismatch | HashMismatch
  | SidecarMissing | SidecarFetch

record crypto =
  cr_verify :: "string \<Rightarrow> string \<Rightarrow> string \<Rightarrow> bool"
  cr_sha256_hex :: "string \<Rightarrow> string"
  cr_parse :: "string \<Rightarrow> manifest option"

definition hex_digit :: "char \<Rightarrow> bool" where
  "hex_digit c \<longleftrightarrow> is_digit c \<or> ord (lower_byte c) \<ge> 97 \<and> ord (lower_byte c) \<le> 102"

text \<open>\<open>hex.DecodeString\<close> succeeds on an even number of hexadecimal digits.\<close>

definition valid_hex :: "string \<Rightarrow> bool" where
  "valid_hex s \<longleftrightarrow> even (length s) \<and> list_all hex_digit s"

definition verify_release_manifest ::
  "crypto \<Rightarrow> string \<Rightarrow> string \<Rightarrow> string list \<Rightarrow> manifest_error + manifest" where
  "verify_release_manifest cr bytes sig keys =
     (if keys = [] then Inl NoKeys
      else if length sig \<noteq> 64 then Inl SignatureInvalid
      else if \<not> list_ex (\<lambda>k. length k = 32 \<and> cr_verify cr k bytes sig) keys then Inl SignatureInvalid
      else
        case cr_parse cr bytes of None \<Rightarrow> Inl ManifestParse
        | Some m \<Rightarrow>
            if mf_schema m \<noteq> 0 \<and> mf_schema m \<noteq> 1 then Inl ManifestSchema
            else if mf_version m = [] \<or> mf_asset m = [] then Inl ManifestSchema
            else if length (mf_sha256 m) \<noteq> 64 then Inl ManifestSchema
            else if \<not> valid_hex (mf_sha256 m) then Inl ManifestSchema
            else Inr m)"

definition fold_hex :: "char \<Rightarrow> char" where
  "fold_hex c = (if ord c \<ge> 65 \<and> ord c \<le> 70 then char_of (ord c + 32) else c)"

fun hex_equal_fold :: "string \<Rightarrow> string \<Rightarrow> bool" where
  "hex_equal_fold [] [] = True"
| "hex_equal_fold (a # as) (b # bs) = (fold_hex a = fold_hex b \<and> hex_equal_fold as bs)"
| "hex_equal_fold _ _ = False"

definition verify_asset :: "crypto \<Rightarrow> string \<Rightarrow> string \<Rightarrow> manifest \<Rightarrow> manifest_error option" where
  "verify_asset cr file expected m =
     (if mf_asset m \<noteq> expected then Some AssetMismatch
      else if \<not> hex_equal_fold (cr_sha256_hex cr file) (mf_sha256 m) then Some HashMismatch
      else None)"

definition msi_asset_name :: string where "msi_asset_name = ''LISSTech.DrainCtl.msi''"

definition manifest_asset_name :: string where "manifest_asset_name = ''release.json''"
definition sig_asset_name :: string where "sig_asset_name = ''release.json.sig''"
definition manifest_max_bytes :: nat where "manifest_max_bytes = 64 * 1024"

text \<open>A small download: no answer, a status with a body.\<close>

definition download_asset_bytes :: "(string \<Rightarrow> (int \<times> string) option) \<Rightarrow> string \<Rightarrow> string option" where
  "download_asset_bytes get url =
     (case get url of None \<Rightarrow> None
      | Some (status, body) \<Rightarrow>
          if status \<noteq> 200 then None
          else if length body > manifest_max_bytes then None else Some body)"

definition verify_manifest_remote ::
  "crypto \<Rightarrow> (string \<Rightarrow> (int \<times> string) option) \<Rightarrow> string \<Rightarrow> string \<Rightarrow> string \<Rightarrow> string list
   \<Rightarrow> manifest_error option" where
  "verify_manifest_remote cr get file manifest_url sig_url keys =
     (if keys = [] then None
      else if manifest_url = [] \<or> sig_url = [] then Some SidecarMissing
      else
        case download_asset_bytes get manifest_url of None \<Rightarrow> Some SidecarFetch | Some bytes \<Rightarrow>
        case download_asset_bytes get sig_url of None \<Rightarrow> Some SidecarFetch | Some sig \<Rightarrow>
        case verify_release_manifest cr bytes sig keys of
          Inl e \<Rightarrow> Some e
        | Inr m \<Rightarrow> verify_asset cr file msi_asset_name m)"

subsection \<open>The release endpoint\<close>

record gh_release =
  gr_tag :: string
  gr_assets :: "(string \<times> string) list"

text \<open>A response with its body decoded as an object and as an array (\<open>None\<close> when that fails).\<close>

record http_response =
  hr_status :: int
  hr_object :: "gh_release option"
  hr_array :: "gh_release list option"
  hr_etag :: string

datatype http_outcome = HttpCancelled | HttpFailed | HttpResponse http_response

record release =
  rl_tag :: string
  rl_asset_url :: string
  rl_etag :: string
  rl_manifest_url :: string
  rl_sig_url :: string

datatype fetch_result = FetchCancelled | FetchError | FetchNotModified | FetchNoReleases | Fetched release

definition trim_right_slash :: "string \<Rightarrow> string" where
  "trim_right_slash s = rev (dropWhile (\<lambda>c. c = CHR ''/'') (rev s))"

definition has_suffix :: "string \<Rightarrow> string \<Rightarrow> bool" where
  "has_suffix s t \<longleftrightarrow> has_prefix (rev s) (rev t)"

definition build_endpoint :: "string \<Rightarrow> string \<Rightarrow> string" where
  "build_endpoint base_path channel =
     (if channel = ''prerelease'' then trim_right_slash base_path @ ''/releases''
      else trim_right_slash base_path @ ''/releases/latest'')"

definition is_release_listing_path :: "string \<Rightarrow> bool" where
  "is_release_listing_path path =
     (let p = trim_right_slash path in has_suffix p ''/releases/latest'' \<or> has_suffix p ''/releases'')"

fun pick_assets :: "(string \<times> string) list \<Rightarrow> string \<times> string \<times> string \<Rightarrow> string \<times> string \<times> string" where
  "pick_assets [] urls = urls"
| "pick_assets ((name, url) # rest) (asset, manifest_url, sig_url) =
     pick_assets rest
       (if name = msi_asset_name then (url, manifest_url, sig_url)
        else if name = manifest_asset_name then (asset, url, sig_url)
        else if name = sig_asset_name then (asset, manifest_url, url)
        else (asset, manifest_url, sig_url))"

definition parse_release_body :: "http_response \<Rightarrow> string \<Rightarrow> fetch_result" where
  "parse_release_body r channel =
     (case (if channel = ''prerelease''
            then (case hr_array r of None \<Rightarrow> None | Some [] \<Rightarrow> None | Some (x # _) \<Rightarrow> Some x)
            else hr_object r) of
        None \<Rightarrow> FetchError
      | Some rel \<Rightarrow>
          if gr_tag rel = [] then FetchError
          else case pick_assets (gr_assets rel) ([], [], []) of (asset, manifest_url, sig_url) \<Rightarrow>
            if asset = [] then FetchError
            else Fetched \<lparr>rl_tag = gr_tag rel, rl_asset_url = asset, rl_etag = hr_etag r,
                          rl_manifest_url = manifest_url, rl_sig_url = sig_url\<rparr>)"

definition fetch_latest_release ::
  "(string \<Rightarrow> string \<Rightarrow> http_outcome) \<Rightarrow> string \<Rightarrow> string \<Rightarrow> string \<Rightarrow> fetch_result" where
  "fetch_latest_release get base_path channel if_none_match =
     (let endpoint = build_endpoint base_path channel in
      case get endpoint if_none_match of
        HttpCancelled \<Rightarrow> FetchCancelled
      | HttpFailed \<Rightarrow> FetchError
      | HttpResponse r \<Rightarrow>
          if hr_status r = 304 then FetchNotModified
          else if hr_status r = 200 then parse_release_body r channel
          else if hr_status r = 404 then
            (if is_release_listing_path endpoint then FetchNoReleases else FetchError)
          else FetchError)"

subsection \<open>One poll\<close>

record updater_env =
  ue_local_version :: string
  ue_base_path :: string
  ue_get :: "string \<Rightarrow> string \<Rightarrow> http_outcome"
  ue_download :: "string \<Rightarrow> string option"
  ue_sidecar :: "string \<Rightarrow> (int \<times> string) option"
  ue_crypto :: crypto
  ue_authenticode :: "string \<Rightarrow> bool"
  ue_spawn :: "string \<Rightarrow> bool"
  ue_save_ok :: bool

record updater =
  up_enabled :: bool
  up_channel :: string
  up_etag :: string
  up_failures :: nat
  up_keys :: "string list"
  up_state :: state_file

record tick_outcome =
  to_decision :: string
  to_reason :: string
  to_old :: string
  to_new :: string

definition decision :: "string \<Rightarrow> string \<Rightarrow> tick_outcome" where
  "decision d reason = \<lparr>to_decision = d, to_reason = reason, to_old = [], to_new = []\<rparr>"

definition fail_tick :: "updater \<Rightarrow> string \<Rightarrow> updater \<times> tick_outcome \<times> string list" where
  "fail_tick u reason =
     (u\<lparr>up_failures := fst (record_failure (up_failures u))\<rparr>, decision ''error'' reason, [])"

definition settle_tick :: "updater \<Rightarrow> tick_outcome \<Rightarrow> updater \<times> tick_outcome \<times> string list" where
  "settle_tick u r = (u\<lparr>up_failures := 0\<rparr>, r, [])"

definition behind_highest_seen :: "version \<Rightarrow> update_state \<Rightarrow> bool" where
  "behind_highest_seen remote s \<longleftrightarrow>
     us_highest s \<noteq> []
     \<and> (case parse_version (us_highest s) of None \<Rightarrow> False
        | Some high \<Rightarrow> version_less remote high \<and> \<not> version_equals remote high)"

text \<open>Download, manifest, Authenticode, installer; the last component lists the installers started.\<close>

definition install_release ::
  "updater_env \<Rightarrow> updater \<Rightarrow> release \<Rightarrow> version \<Rightarrow> version \<Rightarrow> updater \<times> tick_outcome \<times> string list" where
  "install_release env u rel current remote =
     (case ue_download env (rl_asset_url rel) of None \<Rightarrow> fail_tick u ''download''
      | Some file \<Rightarrow>
          if verify_manifest_remote (ue_crypto env) (ue_sidecar env) file (rl_manifest_url rel)
               (rl_sig_url rel) (up_keys u) \<noteq> None
          then settle_tick u (decision ''refused'' ''manifest'')
          else if \<not> ue_authenticode env file then settle_tick u (decision ''refused'' ''authenticode'')
          else if \<not> ue_spawn env file then fail_tick u ''spawn''
          else (u\<lparr>up_etag := [], up_failures := 0\<rparr>,
                \<lparr>to_decision = ''installer_spawned'', to_reason = [], to_old = version_string current,
                 to_new = version_string remote\<rparr>, [file]))"

definition run_tick :: "updater_env \<Rightarrow> bool \<Rightarrow> updater \<Rightarrow> updater \<times> tick_outcome \<times> string list" where
  "run_tick env forced u =
     (if \<not> forced \<and> \<not> up_enabled u then (u, decision ''disabled'' [], [])
      else
        case fetch_latest_release (ue_get env) (ue_base_path env) (up_channel u) (up_etag u) of
          FetchCancelled \<Rightarrow> (u, decision ''cancelled'' [], [])
        | FetchError \<Rightarrow> fail_tick u ''fetch''
        | FetchNotModified \<Rightarrow> settle_tick u (decision ''not_modified'' [])
        | FetchNoReleases \<Rightarrow> settle_tick u (decision ''no_stable_release'' [])
        | Fetched rel \<Rightarrow>
            let u1 = u\<lparr>up_etag := rl_etag rel\<rparr> in
            (case parse_version (rl_tag rel) of
               None \<Rightarrow> settle_tick u1 (decision ''refused'' ''bad_tag'')
             | Some remote \<Rightarrow>
               (case parse_version (ue_local_version env) of
                  None \<Rightarrow> settle_tick u1 (decision ''refused'' ''bad_local_version'')
                | Some current \<Rightarrow>
                    if behind_highest_seen remote (state_or_zero (up_state u1))
                    then settle_tick u1 (decision ''refused'' ''replay_fence'')
                    else if \<not> version_less current remote
                    then settle_tick u1 \<lparr>to_decision = ''up_to_date'', to_reason = [],
                           to_old = version_string current, to_new = version_string remote\<rparr>
                    else install_release env u1 rel current remote)))"

text \<open>
  A saved state is taken to read back: its JSON stays under the 64 KiB that loading accepts
  (\<open>maxUpdateStateFileSize\<close>). The ledger holds at most 256 commands, and the dashboard accepts
  identifiers of at most 128 plain characters (\<open>forceUpdateCommandIDRE\<close>), so an entry takes less than
  200 bytes and the file less than 52 KB; longer identifiers could end in \<open>StateTooLarge\<close>, on which every
  later command is answered with an error.
\<close>

definition trigger_check_now ::
  "updater_env \<Rightarrow> instant \<Rightarrow> string \<Rightarrow> updater \<Rightarrow> updater \<times> tick_outcome \<times> string list" where
  "trigger_check_now env now command u =
     (case load_update_state (up_state u) of
        None \<Rightarrow> (u, decision ''error'' ''read_command_ledger'', [])
      | Some s \<Rightarrow>
          let commands = prune_commands now (us_commands s) in
          if command \<in> set (map fst commands) then (u, decision ''duplicate'' ''idempotent_replay'', [])
          else if \<not> ue_save_ok env then (u, decision ''error'' ''record_command'', [])
          else run_tick env True
                 (u\<lparr>up_state := StateStored (s\<lparr>us_commands := commands @ [(command, now)]\<rparr>)\<rparr>))"

subsection \<open>Version texts\<close>

lemma atoi_digits_format [simp]: "atoi_digits (format_uint n) = Some n"
  by (simp add: atoi_digits_def format_uint_digits)

lemma no_sign: "list_all is_digit s \<Longrightarrow> \<not> has_prefix s ''-'' \<and> \<not> has_prefix s ''+''"
  by (cases s) (auto simp: has_prefix_def is_digit_def)

lemma atoi_format_uint: "n < 2 ^ 63 \<Longrightarrow> atoi (format_uint n) = Some (int n)"
  using no_sign [OF format_uint_digits [of n]] by (simp add: atoi_def Let_def)

lemma atoi_format_signed: "0 \<le> n \<Longrightarrow> n < 2 ^ 63 \<Longrightarrow> atoi (format_signed n) = Some n"
  using atoi_format_uint [of "nat n"] by (simp add: format_signed_def nat_less_iff)

lemma digits_no_dot: "list_all is_digit s \<Longrightarrow> CHR ''.'' \<notin> set s"
  by (auto simp: list_all_iff is_digit_def)

lemma digits_no_v: "list_all is_digit s \<Longrightarrow> s \<noteq> [] \<Longrightarrow> \<not> has_prefix (s @ t) ''v''"
  by (cases s) (auto simp: has_prefix_def is_digit_def)

lemma signed_digits: "0 \<le> n \<Longrightarrow> list_all is_digit (format_signed n) \<and> format_signed n \<noteq> []"
  by (simp add: format_signed_def format_uint_digits)

lemma split_version:
  assumes "0 \<le> a" and "0 \<le> b" and "0 \<le> c"
  shows "split_on CHR ''.'' (format_signed a @ ''.'' @ format_signed b @ ''.'' @ format_signed c)
     = [format_signed a, format_signed b, format_signed c]"
  using assms signed_digits digits_no_dot by (simp add: split_on_append split_on_none)

lemma parse_version_string:
  assumes "version_ok v"
  shows "parse_version (version_string v) = Some v"
proof -
  have n: "0 \<le> v_year v" "0 \<le> v_month v" "0 \<le> v_n v" "v_month v < 2 ^ 63"
    using assms by (simp_all add: version_ok_def)
  have "\<not> has_prefix (version_string v) ''v''"
    unfolding version_string_def using signed_digits [OF n(1)] digits_no_v by blast
  then have "trim_prefix (version_string v) ''v'' = version_string v" by (simp add: trim_prefix_def)
  then show ?thesis
    using assms n split_version [OF n(1-3)]
    by (simp add: parse_version_def version_string_def atoi_format_signed version_ok_def)
qed

lemma atoi_range: "atoi s = Some n \<Longrightarrow> - (2 ^ 63) \<le> n \<and> n < 2 ^ 63"
  by (auto simp: atoi_def Let_def split: option.splits if_splits)

lemma three_cases:
  obtains (three) y m n where "xs = [y, m, n]" | (other) "\<And>y m n. xs \<noteq> [y, m, n]"
  by blast

lemma parse_version_ok:
  assumes "parse_version s = Some v"
  shows "version_ok v"
proof (cases "split_on CHR ''.'' (trim_prefix s ''v'')" rule: three_cases)
  case (three y m n)
  then obtain a b c where "atoi y = Some a" "atoi m = Some b" "atoi n = Some c"
      "\<not> (a < 0 \<or> b < 1 \<or> b > 12 \<or> c < 0)" "v = Version a b c"
    using assms by (auto simp: parse_version_def split: option.split_asm if_split_asm)
  with atoi_range [of y a] atoi_range [of n c] show ?thesis by (simp add: version_ok_def)
next
  case other
  then show ?thesis using assms by (auto simp: parse_version_def split: list.split_asm)
qed

interpretation version_text: codec version_string parse_version version_ok
  by unfold_locales (auto simp: parse_version_string parse_version_ok)

text \<open>Version texts and their order: a version whose components are in range is read back from
  its print, with or without the leading \<open>v\<close>, every accepted text names a version in range, and
  on versions \<open>less\<close> is a linear order in which the year decides before the month before the
  number, so \<open>26.9.21\<close> comes before \<open>26.10.5\<close>.\<close>

theorem version_texts:
  "(version_ok v \<longrightarrow> parse_version (version_string v) = Some v
      \<and> parse_version (CHR ''v'' # version_string v) = Some v)
   \<and> (parse_version s = Some w \<longrightarrow> version_ok w \<and> parse_version (version_string w) = Some w)
   \<and> (version_less v w \<longleftrightarrow> (v_year v, v_month v, v_n v) < (v_year w, v_month w, v_n w))
   \<and> (version_less v w \<or> v = w \<or> version_less w v)"
proof -
  have "parse_version (CHR ''v'' # t) = parse_version t" if "\<not> has_prefix t ''v''" for t
    using that by (simp add: parse_version_def trim_prefix_def has_prefix_def)
  moreover have "\<not> has_prefix (version_string v) ''v''" if "version_ok v"
    unfolding version_string_def using that signed_digits [of "v_year v"] digits_no_v
    by (simp add: version_ok_def)
  moreover have "version_less v w \<or> v = w \<or> version_less w v"
    using less_linear [of v w] by (simp add: less_version_def)
  moreover have "version_less v w \<longleftrightarrow> (v_year v, v_month v, v_n v) < (v_year w, v_month w, v_n w)"
    unfolding version_less_def less_prod_simp by (simp split: if_split) linarith
  ultimately show ?thesis
    using version_text.dec_enc [of v] version_text.reparse [of s w] version_text.dec_ok [of s w]
    by simp
qed

lemma sample_version: "parse_version ''26.9.21'' = Some (Version 26 9 21)"
  by (simp add: parse_version_def trim_prefix_def has_prefix_def atoi_def atoi_digits_def Let_def
      is_digit_def digit_val_def)

lemma version_texts_witness:
  "parse_version ''26.9.21'' = Some (Version 26 9 21)
   \<and> parse_version (version_string (Version 26 9 21)) = Some (Version 26 9 21)
   \<and> version_less (Version 26 9 21) (Version 26 10 5)"
proof -
  have p: "parse_version ''26.9.21'' = Some (Version 26 9 21)" by (rule sample_version)
  have "parse_version (version_string (Version 26 9 21)) = Some (Version 26 9 21)
     \<and> (version_less (Version 26 9 21) (Version 26 10 5) \<longleftrightarrow> (26, 9, 21) < (26 :: int, 10 :: int, 5 :: int))"
    using version_texts [of "Version 26 9 21" "''26.9.21''" "Version 26 9 21"]
      version_texts [of "Version 26 9 21" "[]" "Version 26 10 5"] p by simp
  with p show ?thesis by simp
qed

subsection \<open>The fence against old releases\<close>

text \<open>The seed at start keeps the maximum: after it, a highest version that was readable never
  goes down, it is at least the version of the running binary (when that parses and the state can
  be written), and the ledger of force-update commands is left alone.\<close>

theorem seed_keeps_maximum:
  assumes "parse_version local_version = Some current" and "state_or_zero f = s"
  shows "let s' = state_or_zero (seed_highest_seen local_version True f) in
     us_commands s' = us_commands s
     \<and> (\<exists>h. parse_version (us_highest s') = Some h \<and> current \<le> h
          \<and> (\<forall>h0. us_highest s \<noteq> [] \<and> parse_version (us_highest s) = Some h0 \<longrightarrow> h0 \<le> h))"
proof -
  have ok: "parse_version (version_string current) = Some current"
    using version_text.reparse [OF assms(1)] .
  show ?thesis
  proof (cases "us_highest s \<noteq> []
      \<and> (case parse_version (us_highest s) of None \<Rightarrow> False | Some hs \<Rightarrow> \<not> version_less hs current)")
    case True
    then obtain h where "parse_version (us_highest s) = Some h" "\<not> version_less h current"
      by (auto split: option.splits)
    with True assms show ?thesis
      by (auto simp: seed_highest_seen_def Let_def less_version_def [symmetric] not_less)
  next
    case False
    then have "h0 \<le> current" if "us_highest s \<noteq> []" "parse_version (us_highest s) = Some h0" for h0
      using that by (auto simp: less_version_def [symmetric])
    with False assms ok show ?thesis
      by (auto simp: seed_highest_seen_def state_or_zero_def load_update_state_def Let_def)
  qed
qed

lemma seed_keeps_maximum_witness:
  "us_commands (state_or_zero (seed_highest_seen ''26.9.21'' True (StateStored (zero_state\<lparr>us_highest := ''26.9.1''\<rparr>)))) = []"
proof -
  have "parse_version ''26.9.21'' = Some (Version 26 9 21)" by (rule sample_version)
  from seed_keeps_maximum [OF this refl, of "StateStored (zero_state\<lparr>us_highest := ''26.9.1''\<rparr>)"]
  show ?thesis by (simp add: Let_def state_or_zero_def load_update_state_def zero_state_def)
qed

subsection \<open>What a poll installs\<close>

lemma verified_manifest:
  assumes "verify_release_manifest cr bytes sig keys = Inr m"
  shows "\<exists>k \<in> set keys. length k = 32 \<and> length sig = 64 \<and> cr_verify cr k bytes sig \<and> cr_parse cr bytes = Some m"
  using assms by (auto simp: verify_release_manifest_def list_ex_iff split: if_splits option.splits)

lemma hex_equal_lower: "hex_equal_fold a b \<longleftrightarrow> map fold_hex a = map fold_hex b"
  by (induction a b rule: hex_equal_fold.induct) auto

lemma fail_tick_result: "fail_tick u r = (u', out, files) \<Longrightarrow> files = [] \<and> to_decision out = ''error''
     \<and> up_state u' = up_state u \<and> up_etag u' = up_etag u"
  by (auto simp: fail_tick_def decision_def)

lemma settle_tick_result: "settle_tick u r = (u', out, files) \<Longrightarrow> files = [] \<and> out = r
     \<and> up_state u' = up_state u \<and> up_etag u' = up_etag u"
  by (auto simp: settle_tick_def)

lemma install_release_result:
  assumes "install_release env u rel current remote = (u', out, files)"
  shows "up_state u' = up_state u
     \<and> (files = [] \<or> (\<exists>file. files = [file] \<and> ue_download env (rl_asset_url rel) = Some file
          \<and> verify_manifest_remote (ue_crypto env) (ue_sidecar env) file (rl_manifest_url rel)
               (rl_sig_url rel) (up_keys u) = None
          \<and> ue_authenticode env file \<and> up_etag u' = []))"
  using assms
  by (auto simp: install_release_def split: option.splits if_splits dest!: fail_tick_result settle_tick_result)

text \<open>C5: Only a newer, signed, matching package is ever started. When a poll starts an installer,
  the endpoint offered a release newer than the running version and not below the highest version
  seen, the started file is the downloaded asset and passes Authenticode, and, if release keys are
  embedded, one of them signs the exact bytes of a manifest that names the asset and whose SHA-256
  is that of the file.\<close>

theorem installs_only_verified:
  assumes "run_tick env forced u = (u', out, files)" and "file \<in> set files"
  shows "\<exists>rel current remote.
     fetch_latest_release (ue_get env) (ue_base_path env) (up_channel u) (up_etag u) = Fetched rel
     \<and> parse_version (rl_tag rel) = Some remote \<and> parse_version (ue_local_version env) = Some current
     \<and> current < remote
     \<and> (\<forall>high. us_highest (state_or_zero (up_state u)) \<noteq> []
          \<and> parse_version (us_highest (state_or_zero (up_state u))) = Some high \<longrightarrow> high \<le> remote)
     \<and> ue_download env (rl_asset_url rel) = Some file \<and> ue_authenticode env file
     \<and> (up_keys u \<noteq> [] \<longrightarrow>
          (\<exists>bytes sig key m.
             download_asset_bytes (ue_sidecar env) (rl_manifest_url rel) = Some bytes
             \<and> download_asset_bytes (ue_sidecar env) (rl_sig_url rel) = Some sig
             \<and> key \<in> set (up_keys u) \<and> cr_verify (ue_crypto env) key bytes sig
             \<and> cr_parse (ue_crypto env) bytes = Some m \<and> mf_asset m = msi_asset_name
             \<and> map fold_hex (cr_sha256_hex (ue_crypto env) file) = map fold_hex (mf_sha256 m)))"
proof -
  obtain rel where fetch: "fetch_latest_release (ue_get env) (ue_base_path env) (up_channel u) (up_etag u) = Fetched rel"
    using assms by (auto simp: run_tick_def split: if_splits fetch_result.splits
        dest!: fail_tick_result settle_tick_result)
  let ?u1 = "u\<lparr>up_etag := rl_etag rel\<rparr>"
  obtain current remote where v: "parse_version (rl_tag rel) = Some remote"
      "parse_version (ue_local_version env) = Some current"
      "\<not> behind_highest_seen remote (state_or_zero (up_state u))" "version_less current remote"
      "install_release env ?u1 rel current remote = (u', out, files)"
    using assms fetch by (auto simp: run_tick_def Let_def split: if_splits option.splits
        dest!: settle_tick_result)
  from install_release_result [OF v(5)] assms(2)
  have i: "ue_download env (rl_asset_url rel) = Some file" "ue_authenticode env file"
    "verify_manifest_remote (ue_crypto env) (ue_sidecar env) file (rl_manifest_url rel) (rl_sig_url rel) (up_keys u) = None"
    by auto
  have "\<forall>high. us_highest (state_or_zero (up_state u)) \<noteq> []
      \<and> parse_version (us_highest (state_or_zero (up_state u))) = Some high \<longrightarrow> high \<le> remote"
    using v(3) by (auto simp: behind_highest_seen_def less_version_def [symmetric])
  moreover have "\<exists>bytes sig key m.
      download_asset_bytes (ue_sidecar env) (rl_manifest_url rel) = Some bytes
      \<and> download_asset_bytes (ue_sidecar env) (rl_sig_url rel) = Some sig
      \<and> key \<in> set (up_keys u) \<and> cr_verify (ue_crypto env) key bytes sig
      \<and> cr_parse (ue_crypto env) bytes = Some m \<and> mf_asset m = msi_asset_name
      \<and> map fold_hex (cr_sha256_hex (ue_crypto env) file) = map fold_hex (mf_sha256 m)"
    if keys: "up_keys u \<noteq> []"
  proof -
    obtain bytes sig m where m: "download_asset_bytes (ue_sidecar env) (rl_manifest_url rel) = Some bytes"
      "download_asset_bytes (ue_sidecar env) (rl_sig_url rel) = Some sig"
      "verify_release_manifest (ue_crypto env) bytes sig (up_keys u) = Inr m"
      "verify_asset (ue_crypto env) file msi_asset_name m = None"
      using i(3) keys by (auto simp: verify_manifest_remote_def split: if_split_asm option.split_asm sum.split_asm)
    with verified_manifest [OF m(3)] show ?thesis
      by (auto simp: verify_asset_def hex_equal_lower split: if_splits)
  qed
  ultimately show ?thesis
    using fetch v(1,2,4) i(1,2) by (auto simp: less_version_def)
qed

definition sample_crypto :: crypto where
  "sample_crypto = \<lparr>cr_verify = (\<lambda>k b s. True), cr_sha256_hex = (\<lambda>f. replicate 64 CHR ''0''),
     cr_parse = (\<lambda>b. Some \<lparr>mf_schema = 1, mf_version = ''26.9.21'', mf_asset = msi_asset_name,
       mf_sha256 = replicate 64 CHR ''0''\<rparr>)\<rparr>"

definition sample_release :: gh_release where
  "sample_release = \<lparr>gr_tag = ''26.9.21'', gr_assets = [(msi_asset_name, ''u''), (manifest_asset_name, ''m''),
     (sig_asset_name, ''s'')]\<rparr>"

definition sample_env :: updater_env where
  "sample_env = \<lparr>ue_local_version = ''v26.9.1'', ue_base_path = ''r'',
     ue_get = (\<lambda>e t. HttpResponse (if t = ''tag''
        then \<lparr>hr_status = 304, hr_object = None, hr_array = None, hr_etag = []\<rparr>
        else \<lparr>hr_status = 200, hr_object = Some sample_release, hr_array = None, hr_etag = ''tag''\<rparr>)),
     ue_download = (\<lambda>u. Some ''msi''), ue_sidecar = (\<lambda>u. Some (200, replicate 64 CHR ''x'')),
     ue_crypto = sample_crypto, ue_authenticode = (\<lambda>f. True), ue_spawn = (\<lambda>f. True), ue_save_ok = True\<rparr>"

definition sample_updater :: updater where
  "sample_updater = \<lparr>up_enabled = True, up_channel = ''stable'', up_etag = [], up_failures = 0,
     up_keys = [replicate 32 CHR ''k''], up_state = StateAbsent\<rparr>"

lemma sample_local: "parse_version ''v26.9.1'' = Some (Version 26 9 1)"
  by (simp add: parse_version_def trim_prefix_def has_prefix_def atoi_def atoi_digits_def Let_def
      is_digit_def digit_val_def)

lemma sample_fetch:
  "fetch_latest_release (ue_get sample_env) (ue_base_path sample_env) (up_channel sample_updater)
     (up_etag sample_updater)
   = Fetched \<lparr>rl_tag = ''26.9.21'', rl_asset_url = ''u'', rl_etag = ''tag'', rl_manifest_url = ''m'', rl_sig_url = ''s''\<rparr>"
  by (simp add: fetch_latest_release_def sample_env_def sample_updater_def parse_release_body_def
      sample_release_def msi_asset_name_def manifest_asset_name_def sig_asset_name_def)

lemma sample_manifest:
  "verify_manifest_remote sample_crypto (\<lambda>u. Some (200, replicate 64 CHR ''x'')) f ''m'' ''s''
     [replicate 32 CHR ''k''] = None"
proof -
  have h: "valid_hex (replicate 64 CHR ''0'')"
    by (simp add: valid_hex_def hex_digit_def is_digit_def list_all_iff)
  have e: "hex_equal_fold (replicate 64 CHR ''0'') (replicate 64 CHR ''0'')"
    by (simp add: hex_equal_lower)
  show ?thesis
    unfolding verify_manifest_remote_def download_asset_bytes_def verify_release_manifest_def verify_asset_def
    using h e by (simp add: sample_crypto_def manifest_max_bytes_def msi_asset_name_def)
qed

lemma sample_run:
  "run_tick sample_env False sample_updater
   = (sample_updater, \<lparr>to_decision = ''installer_spawned'', to_reason = [],
        to_old = version_string (Version 26 9 1), to_new = version_string (Version 26 9 21)\<rparr>, [''msi''])"
  using sample_fetch sample_manifest [of "''msi''"] sample_local sample_version
  by (simp add: run_tick_def Let_def install_release_def behind_highest_seen_def version_less_def
      sample_env_def sample_updater_def state_or_zero_def load_update_state_def zero_state_def
     )

lemma installs_only_verified_witness:
  "ue_download sample_env ''u'' = Some ''msi'' \<and> ue_authenticode sample_env ''msi''
   \<and> (\<exists>rel. fetch_latest_release (ue_get sample_env) (ue_base_path sample_env)
        (up_channel sample_updater) (up_etag sample_updater) = Fetched rel
      \<and> ue_download sample_env (rl_asset_url rel) = Some ''msi'')"
  using installs_only_verified [OF sample_run, of "''msi''"] by (force simp: sample_env_def)

subsection \<open>What a poll does not compare, and what it does not repeat\<close>

definition with_manifest_version :: "(manifest \<Rightarrow> string) \<Rightarrow> updater_env \<Rightarrow> updater_env" where
  "with_manifest_version ver env = env\<lparr>ue_crypto := (ue_crypto env)\<lparr>cr_parse :=
     (\<lambda>b. map_option (\<lambda>m. m\<lparr>mf_version := ver m\<rparr>) (cr_parse (ue_crypto env) b))\<rparr>\<rparr>"

lemma verify_other_version:
  assumes "\<And>b m. cr_parse cr b = Some m \<Longrightarrow> mf_version m \<noteq> [] \<and> ver m \<noteq> []"
  shows "verify_manifest_remote (cr\<lparr>cr_parse := \<lambda>b. map_option (\<lambda>m. m\<lparr>mf_version := ver m\<rparr>) (cr_parse cr b)\<rparr>)
       get file mu su keys = verify_manifest_remote cr get file mu su keys"
proof -
  let ?cr = "cr\<lparr>cr_parse := \<lambda>b. map_option (\<lambda>m. m\<lparr>mf_version := ver m\<rparr>) (cr_parse cr b)\<rparr>"
  have a: "verify_asset ?cr file n (m\<lparr>mf_version := v\<rparr>) = verify_asset cr file n m" for n m v
    by (simp add: verify_asset_def)
  have r: "verify_release_manifest ?cr bytes sig keys
      = map_sum id (\<lambda>m. m\<lparr>mf_version := ver m\<rparr>) (verify_release_manifest cr bytes sig keys)" for bytes sig
  proof (cases "cr_parse cr bytes")
    case None then show ?thesis by (simp add: verify_release_manifest_def)
  next
    case (Some m)
    with assms [OF Some] show ?thesis by (simp add: verify_release_manifest_def)
  qed
  show ?thesis
    by (simp add: verify_manifest_remote_def r a split: option.split sum.split)
qed

text \<open>The version inside the signed manifest plays no role: replacing it in every manifest by
  any other text leaves each poll as it was. The fence against old releases therefore compares the
  unsigned tag of the release, and a signed manifest of an older release passes under a newer tag.\<close>

theorem manifest_version_not_compared:
  assumes "\<And>b m. cr_parse (ue_crypto env) b = Some m \<Longrightarrow> mf_version m \<noteq> [] \<and> ver m \<noteq> []"
  shows "run_tick (with_manifest_version ver env) forced u = run_tick env forced u"
proof -
  have "install_release (with_manifest_version ver env) u' rel cur rem = install_release env u' rel cur rem"
    for u' rel cur rem
    unfolding install_release_def with_manifest_version_def
    by (simp add: verify_other_version assms split: option.split)
  moreover have "ue_get (with_manifest_version ver env) = ue_get env"
      "ue_base_path (with_manifest_version ver env) = ue_base_path env"
      "ue_local_version (with_manifest_version ver env) = ue_local_version env"
    by (simp_all add: with_manifest_version_def)
  ultimately show ?thesis
    by (simp add: run_tick_def Let_def split: option.split fetch_result.split)
qed

lemma manifest_version_not_compared_witness:
  "snd (snd (run_tick (with_manifest_version (\<lambda>m. ''24.1.1'') sample_env) False sample_updater)) = [''msi'']"
  using manifest_version_not_compared [of sample_env "\<lambda>m. ''24.1.1''" False sample_updater] sample_run
  by (simp add: sample_env_def sample_crypto_def split: if_split_asm)

text \<open>A release is offered once. After a poll that was answered with a release and started no
  installer, whether the download failed, a check refused the package or the installer did not
  start, the next poll presents the ETag of that answer; if the endpoint answers that nothing
  changed, the poll installs nothing and clears the failure count that would have repeated it.\<close>

theorem failed_install_not_repeated:
  assumes "run_tick env forced u = (u1, out, [])" and "up_enabled u"
    and "fetch_latest_release (ue_get env) (ue_base_path env) (up_channel u) (up_etag u) = Fetched rel"
    and "ue_get env2 (build_endpoint (ue_base_path env2) (up_channel u)) (rl_etag rel) = HttpResponse r"
    and "hr_status r = 304"
  shows "run_tick env2 forced2 u1 = (u1\<lparr>up_failures := 0\<rparr>, decision ''not_modified'' [], [])"
proof -
  let ?u1 = "u\<lparr>up_etag := rl_etag rel\<rparr>"
  have i: "up_etag u1 = rl_etag rel \<and> up_channel u1 = up_channel u \<and> up_enabled u1 = up_enabled u"
    if "install_release env ?u1 rel cur rem = (u1, out, [])" for cur rem
    using that by (auto simp: install_release_def fail_tick_def settle_tick_def split: option.splits if_splits)
  have s: "up_etag u1 = rl_etag rel \<and> up_channel u1 = up_channel u \<and> up_enabled u1 = up_enabled u"
    if "settle_tick ?u1 o' = (u1, out, [])" for o'
    using that by (auto simp: settle_tick_def)
  have "up_etag u1 = rl_etag rel \<and> up_channel u1 = up_channel u \<and> up_enabled u1 = up_enabled u"
    using assms(1-3) by (auto simp: run_tick_def Let_def split: option.splits if_splits dest: i s)
  then show ?thesis
    using assms(2,4,5) by (simp add: run_tick_def fetch_latest_release_def settle_tick_def)
qed

lemma failed_install_not_repeated_witness:
  "snd (run_tick sample_env False (sample_updater\<lparr>up_etag := ''tag'', up_failures := 1\<rparr>))
   = (decision ''not_modified'' [], [])"
proof -
  let ?env = "sample_env\<lparr>ue_download := \<lambda>u. None\<rparr>"
  have f: "fetch_latest_release (ue_get ?env) (ue_base_path ?env) (up_channel sample_updater)
     (up_etag sample_updater)
     = Fetched \<lparr>rl_tag = ''26.9.21'', rl_asset_url = ''u'', rl_etag = ''tag'', rl_manifest_url = ''m'', rl_sig_url = ''s''\<rparr>"
    using sample_fetch by simp
  have "run_tick ?env False sample_updater
      = (sample_updater\<lparr>up_etag := ''tag'', up_failures := 1\<rparr>, decision ''error'' ''download'', [])"
    using f sample_local sample_version
    by (simp add: run_tick_def Let_def install_release_def behind_highest_seen_def version_less_def
        sample_env_def sample_updater_def state_or_zero_def load_update_state_def zero_state_def
        fail_tick_def record_failure_def)
  from failed_install_not_repeated [OF this _ f, of sample_env
      "\<lparr>hr_status = 304, hr_object = None, hr_array = None, hr_etag = []\<rparr>" False]
  show ?thesis by (simp add: sample_updater_def sample_env_def)
qed

subsection \<open>The ledger of force-update commands\<close>

abbreviation command_key :: "string \<times> instant \<Rightarrow> instant \<times> string" where
  "command_key c \<equiv> (snd c, fst c)"

text \<open>The number of entries that the pruning order puts at or after a given one.\<close>

definition younger :: "string \<times> instant \<Rightarrow> (string \<times> instant) list \<Rightarrow> nat" where
  "younger c commands = length (filter (\<lambda>d. command_key c \<le> command_key d) commands)"

definition ledger_ok :: "(string \<times> instant) list \<Rightarrow> bool" where
  "ledger_ok commands \<longleftrightarrow> distinct (map fst commands)"

definition ledger_of :: "updater \<Rightarrow> (string \<times> instant) list" where
  "ledger_of u = us_commands (state_or_zero (up_state u))"

datatype updater_event = Poll updater_env bool | Trigger updater_env instant string

fun updater_step :: "updater_event \<Rightarrow> updater \<Rightarrow> updater" where
  "updater_step (Poll env forced) u = fst (run_tick env forced u)"
| "updater_step (Trigger env now c) u = fst (trigger_check_now env now c u)"

fun event_by :: "instant \<Rightarrow> updater_event \<Rightarrow> bool" where
  "event_by limit (Poll env forced) = True"
| "event_by limit (Trigger env now c) = (now \<le> limit)"

lemma sorted_take_younger:
  assumes "distinct xs" and "x \<in> set (take k xs)" and "sorted (map f xs)"
  shows "length xs - k < length (filter (\<lambda>y. f x \<le> f y) xs)"
proof -
  obtain i where i: "i < k" "i < length xs" "x = xs ! i"
    using assms(2) by (auto simp: in_set_conv_nth)
  have "\<forall>y \<in> set (drop i xs). f x \<le> f y"
    using assms(3) i(2,3) by (auto simp: in_set_conv_nth sorted_iff_nth_mono)
  then have "filter (\<lambda>y. f x \<le> f y) (drop i xs) = drop i xs" by (simp add: filter_id_conv)
  then have "length xs - i \<le> length (filter (\<lambda>y. f x \<le> f y) xs)"
    using append_take_drop_id [of i xs] filter_append [of "\<lambda>y. f x \<le> f y" "take i xs" "drop i xs"]
    by (metis le_add2 length_append length_drop)
  with i show ?thesis by simp
qed

lemma sort_younger:
  "length (filter P (sort_key f xs)) = length (filter P xs)"
  by (metis mset_filter mset_sort size_mset)

lemma pruned_subset: "set (prune_commands now commands) \<subseteq> set commands"
  by (auto simp: prune_commands_def Let_def)

lemma pruned_ok: "ledger_ok commands \<Longrightarrow> ledger_ok (prune_commands now commands)"
  by (auto simp: ledger_ok_def prune_commands_def Let_def distinct_map
      intro: inj_on_subset)

lemma pruned_younger: "younger c (prune_commands now commands) \<le> younger c commands"
proof -
  have f: "length (filter P (filter Q xs)) \<le> length (filter P xs)" for P Q and xs :: "(string \<times> instant) list"
    by (induction xs) auto
  show ?thesis
    unfolding younger_def prune_commands_def Let_def
    by (simp del: filter_filter) (meson f order_trans)
qed

lemma pruned_keeps:
  assumes "c \<in> set commands" and "ledger_ok commands" and "now \<le> snd c + force_window"
    and "younger c commands < command_ledger_cap"
  shows "c \<in> set (prune_commands now commands)"
proof -
  define recent where "recent = filter (\<lambda>c. \<not> snd c < now - force_window) commands"
  define order where "order = sort_key command_key recent"
  have c: "c \<in> set recent" using assms(1,3) by (simp add: recent_def)
  have d: "distinct (map fst recent)"
    using assms(2) by (auto simp: ledger_ok_def recent_def distinct_map intro: inj_on_subset)
  have do: "distinct order" "inj_on fst (set order)"
    using d by (simp_all add: order_def distinct_map)
  have "younger c recent \<le> younger c commands"
    unfolding younger_def recent_def by (induction commands) auto
  then have y: "younger c order < command_ledger_cap"
    using assms(4) by (simp add: order_def younger_def sort_younger)
  have "c \<notin> set (take (length order - command_ledger_cap + 1) order)"
    if "\<not> length recent < command_ledger_cap"
  proof
    assume "c \<in> set (take (length order - command_ledger_cap + 1) order)"
    from sorted_take_younger [OF do(1) this, of command_key] y that show False
      by (simp add: order_def younger_def)
  qed
  moreover have "fst c \<in> set (take n (map fst order)) \<longleftrightarrow> c \<in> set (take n order)" for n
  proof -
    have "c \<in> set order" using c by (simp add: order_def)
    with inj_on_image_mem_iff [OF do(2), of c "set (take n order)"] show ?thesis
      by (simp add: take_map set_take_subset)
  qed
  ultimately show ?thesis
    using c unfolding prune_commands_def Let_def recent_def [symmetric] order_def [symmetric]
    by (auto simp: order_def)
qed

lemma pruned_length:
  assumes "ledger_ok commands"
  shows "length (prune_commands now commands) < command_ledger_cap"
proof -
  define recent where "recent = filter (\<lambda>c. \<not> snd c < now - force_window) commands"
  define doomed where "doomed = take (Suc (length recent - command_ledger_cap)) (map fst (sort_key command_key recent))"
  have d: "distinct (map fst recent)"
    using assms by (auto simp: ledger_ok_def recent_def distinct_map intro: inj_on_subset)
  then have dd: "distinct doomed" and ds: "set doomed \<subseteq> fst ` set recent"
    by (auto simp: doomed_def distinct_map intro!: distinct_take dest!: in_set_takeD)
  show ?thesis
  proof (cases "length recent < command_ledger_cap")
    case True
    then show ?thesis by (simp add: prune_commands_def recent_def [symmetric])
  next
    case False
    have "length (filter (\<lambda>c. fst c \<notin> set doomed) recent) = card (fst ` set recent - set doomed)"
    proof -
      have "length (filter (\<lambda>c. fst c \<notin> set doomed) recent) = card (set (filter (\<lambda>i. i \<notin> set doomed) (map fst recent)))"
        using distinct_card [OF distinct_filter [OF d, of "\<lambda>i. i \<notin> set doomed"]] by (simp add: filter_map o_def)
      then show ?thesis by (simp add: set_diff_eq)
    qed
    also have "\<dots> = length recent - length doomed"
      using ds dd distinct_card [OF d] by (simp add: card_Diff_subset distinct_card)
    also have "\<dots> < command_ledger_cap"
      using False by (simp add: doomed_def command_ledger_cap_def)
    finally show ?thesis
      using False by (simp add: prune_commands_def Let_def recent_def [symmetric] doomed_def [symmetric])
  qed
qed

lemma run_tick_state [simp]: "up_state (fst (run_tick env forced u)) = up_state u"
  by (auto simp: run_tick_def fail_tick_def settle_tick_def install_release_def Let_def
      split: fetch_result.split option.split)

lemma trigger_ledger:
  "ledger_of (fst (trigger_check_now env now c u)) = ledger_of u
   \<or> c \<notin> fst ` set (prune_commands now (ledger_of u))
      \<and> ledger_of (fst (trigger_check_now env now c u)) = prune_commands now (ledger_of u) @ [(c, now)]"
  by (auto simp: trigger_check_now_def ledger_of_def state_or_zero_def load_update_state_def Let_def
      split: option.split)

lemma younger_snoc: "younger e (commands @ [d]) \<le> younger e commands + 1"
  by (simp add: younger_def)

lemma ledger_run:
  assumes "list_all (event_by (snd e + force_window)) events"
    and "e \<in> set (ledger_of u)" and "ledger_ok (ledger_of u)"
    and "younger e (ledger_of u) + length events < command_ledger_cap"
    and "length (ledger_of u) \<le> command_ledger_cap"
  shows "e \<in> set (ledger_of (fold updater_step events u))
     \<and> ledger_ok (ledger_of (fold updater_step events u))
     \<and> younger e (ledger_of (fold updater_step events u)) < command_ledger_cap
     \<and> length (ledger_of (fold updater_step events u)) \<le> command_ledger_cap"
  using assms
proof (induction events arbitrary: u)
  case Nil then show ?case by simp
next
  case (Cons ev events)
  let ?u = "updater_step ev u"
  have "e \<in> set (ledger_of ?u) \<and> ledger_ok (ledger_of ?u)
     \<and> younger e (ledger_of ?u) \<le> younger e (ledger_of u) + 1 \<and> length (ledger_of ?u) \<le> command_ledger_cap"
  proof (cases ev)
    case (Poll env forced)
    then have "ledger_of ?u = ledger_of u" by (simp add: ledger_of_def)
    with Cons.prems show ?thesis by simp
  next
    case (Trigger env now c)
    let ?p = "prune_commands now (ledger_of u)"
    from Trigger Cons.prems have keep: "e \<in> set ?p" by (intro pruned_keeps) auto
    have ok: "ledger_ok ?p" and l: "length ?p < command_ledger_cap"
      using Cons.prems(3) by (simp_all add: pruned_ok pruned_length)
    consider "ledger_of ?u = ledger_of u" | "c \<notin> fst ` set ?p" "ledger_of ?u = ?p @ [(c, now)]"
      using trigger_ledger [of env now c u] Trigger by auto
    then show ?thesis
    proof cases
      case 1 with Cons.prems show ?thesis by simp
    next
      case 2
      then have "ledger_ok (ledger_of ?u)" using ok by (auto simp: ledger_ok_def)
      moreover have "younger e (ledger_of ?u) \<le> younger e (ledger_of u) + 1"
        using younger_snoc [of e ?p "(c, now)"] pruned_younger [of e now "ledger_of u"] 2(2) by simp
      ultimately show ?thesis using 2(2) keep l by simp
    qed
  qed
  with Cons.IH [of ?u] Cons.prems(1,4) show ?case by simp
qed

text \<open>C35: A force-update command runs at most once within its window. Once a command is in the
  ledger, then after any mix of polls and further commands, together fewer than the ledger still takes before
  reaching its cap, none later than 24 hours after the command was recorded, the same command is
  answered as a duplicate and neither polls nor starts an installer; and the ledger never holds more
  than 256 commands. As said at \<open>trigger_check_now\<close>, a saved state is taken to read back.\<close>

theorem force_command_once:
  assumes "(cmd, t0) \<in> set (ledger_of u)" and "ledger_ok (ledger_of u)"
    and "younger (cmd, t0) (ledger_of u) + length events < command_ledger_cap"
    and "length (ledger_of u) \<le> command_ledger_cap"
    and "list_all (event_by (t0 + force_window)) events" and "now \<le> t0 + force_window"
  shows "let u' = fold updater_step events u in
     trigger_check_now env now cmd u' = (u', decision ''duplicate'' ''idempotent_replay'', [])
     \<and> length (ledger_of u') \<le> command_ledger_cap"
proof -
  let ?u = "fold updater_step events u"
  have l: "(cmd, t0) \<in> set (ledger_of ?u)" "ledger_ok (ledger_of ?u)"
    "younger (cmd, t0) (ledger_of ?u) < command_ledger_cap" "length (ledger_of ?u) \<le> command_ledger_cap"
    using ledger_run [of "(cmd, t0)" events u] assms by simp_all
  then have "(cmd, t0) \<in> set (prune_commands now (ledger_of ?u))"
    using assms(6) by (intro pruned_keeps) simp_all
  then have "cmd \<in> fst ` set (prune_commands now (ledger_of ?u))" by force
  moreover obtain s where "load_update_state (up_state ?u) = Some s" "us_commands s = ledger_of ?u"
    using l(1) by (cases "load_update_state (up_state ?u)") (auto simp: ledger_of_def state_or_zero_def zero_state_def)
  ultimately show ?thesis
    using l(4) by (simp add: trigger_check_now_def Let_def)
qed

lemma force_command_once_witness:
  "snd (trigger_check_now sample_env (2 * hour) ''c1''
     (fold updater_step [Poll sample_env False, Trigger sample_env hour ''c2'']
        (fst (trigger_check_now sample_env 0 ''c1'' sample_updater))))
   = (decision ''duplicate'' ''idempotent_replay'', [])"
proof -
  have "ledger_of (fst (trigger_check_now sample_env 0 ''c1'' sample_updater)) = [(''c1'', 0)]"
    by (simp add: trigger_check_now_def sample_updater_def sample_env_def load_update_state_def
        ledger_of_def zero_state_def state_or_zero_def prune_commands_def command_ledger_cap_def)
  then show ?thesis
    using force_command_once [of "''c1''" 0 "fst (trigger_check_now sample_env 0 ''c1'' sample_updater)"
        "[Poll sample_env False, Trigger sample_env hour ''c2'']" "2 * hour" sample_env]
    by (simp add: ledger_ok_def younger_def command_ledger_cap_def force_window_def hour_def minute_def second_def
        Let_def del: updater_step.simps)
qed

end
