(* ===== verification/Access.thy ===== *)
theory Access
  imports Identifiers
begin

text \<open>
  Who may do what on the dashboard (\<open>internal/dashboard\<close>): group membership and the host a machine
  account speaks for, the gates in front of the routes, the store of browser sessions with login,
  logout and expiry, and the bookkeeping of the multi-leg SSPI contexts. The case-insensitive
  comparison \<open>strings.EqualFold\<close> is the argument \<open>ef\<close>; Windows' logon is an argument as well.
\<close>

subsection \<open>Groups and accounts\<close>

record auth_info =
  ai_user :: string
  ai_groups :: "string list"

definition backslash :: char where "backslash = CHR 0x5C"

text \<open>The second part of \<open>strings.SplitN(s, "\", 2)\<close>, and what follows the last backslash.\<close>

definition after_first :: "string \<Rightarrow> string option" where
  "after_first s = (case dropWhile (\<lambda>c. c \<noteq> backslash) s of [] \<Rightarrow> None | _ # r \<Rightarrow> Some r)"

definition after_last :: "string \<Rightarrow> string" where
  "after_last s = rev (takeWhile (\<lambda>c. c \<noteq> backslash) (rev s))"

fun is_member_of :: "(string \<Rightarrow> string \<Rightarrow> bool) \<Rightarrow> string list \<Rightarrow> string \<Rightarrow> bool" where
  "is_member_of ef [] grp = False"
| "is_member_of ef (g # gs) grp =
     (if ef g grp then True
      else if (case after_first g of None \<Rightarrow> False | Some r \<Rightarrow> ef r grp) then True
      else is_member_of ef gs grp)"

fun admin_loop :: "(string \<Rightarrow> string \<Rightarrow> bool) \<Rightarrow> string list \<Rightarrow> string \<Rightarrow> bool" where
  "admin_loop ef [] admin_group = False"
| "admin_loop ef (g # gs) admin_group =
     (if ef g admin_group then True
      else if (case after_first g of None \<Rightarrow> False | Some r \<Rightarrow> ef r admin_group) then True
      else admin_loop ef gs admin_group)"

definition is_dashboard_admin ::
  "(string \<Rightarrow> string \<Rightarrow> bool) \<Rightarrow> auth_info option \<Rightarrow> string \<Rightarrow> bool" where
  "is_dashboard_admin ef auth admin_group =
     (case auth of None \<Rightarrow> False | Some a \<Rightarrow> admin_loop ef (ai_groups a) admin_group)"

definition ends_with_dollar :: "string \<Rightarrow> bool" where
  "ends_with_dollar s \<longleftrightarrow> s \<noteq> [] \<and> last s = CHR ''$''"

definition is_authorized_for_host ::
  "(string \<Rightarrow> string \<Rightarrow> bool) \<Rightarrow> auth_info option \<Rightarrow> string \<Rightarrow> string \<Rightarrow> bool" where
  "is_authorized_for_host ef auth hostname admin_group =
     (case auth of None \<Rightarrow> False
      | Some a \<Rightarrow>
          if ends_with_dollar (ai_user a) then ef (after_last (butlast (ai_user a))) hostname
          else is_dashboard_admin ef auth admin_group)"

subsection \<open>The gates\<close>

datatype gate = Pass | Deny nat

text \<open>\<open>RequireGroup\<close>.\<close>

definition require_group :: "(string \<Rightarrow> string \<Rightarrow> bool) \<Rightarrow> string \<Rightarrow> auth_info option \<Rightarrow> gate" where
  "require_group ef grp auth =
     (case auth of None \<Rightarrow> Deny 401
      | Some a \<Rightarrow>
          if list_ex (\<lambda>g. ef g grp \<or> (case after_first g of None \<Rightarrow> False | Some r \<Rightarrow> ef r grp)) (ai_groups a)
          then Pass else Deny 403)"

text \<open>The remote side of a request: whether its address parses to a loopback address.\<close>

definition is_local_system_loopback ::
  "(string \<Rightarrow> string \<Rightarrow> bool) \<Rightarrow> bool \<Rightarrow> auth_info option \<Rightarrow> bool" where
  "is_local_system_loopback ef loopback auth =
     (case auth of None \<Rightarrow> False
      | Some a \<Rightarrow> if \<not> ef (ai_user a) (''NT AUTHORITY'' @ [backslash] @ ''SYSTEM'') then False else loopback)"

definition is_local_system_for_host ::
  "(string \<Rightarrow> string \<Rightarrow> bool) \<Rightarrow> bool \<Rightarrow> auth_info option \<Rightarrow> string option \<Rightarrow> string \<Rightarrow> bool" where
  "is_local_system_for_host ef loopback auth local_name hostname =
     (if \<not> is_local_system_loopback ef loopback auth then False
      else case local_name of None \<Rightarrow> False | Some l \<Rightarrow> ef l hostname)"

definition require_machine_account ::
  "(string \<Rightarrow> string \<Rightarrow> bool) \<Rightarrow> bool \<Rightarrow> auth_info option \<Rightarrow> gate" where
  "require_machine_account ef loopback auth =
     (case auth of None \<Rightarrow> Deny 401
      | Some a \<Rightarrow>
          if \<not> ends_with_dollar (after_last (ai_user a))
          then (if is_local_system_loopback ef loopback auth then Pass else Deny 403)
          else Pass)"

definition require_snapshot_machine_account ::
  "(string \<Rightarrow> string \<Rightarrow> bool) \<Rightarrow> bool \<Rightarrow> auth_info option \<Rightarrow> gate" where
  "require_snapshot_machine_account ef loopback auth =
     (case auth of None \<Rightarrow> Deny 401
      | Some a \<Rightarrow>
          if \<not> ends_with_dollar (after_last (ai_user a)) \<and> \<not> is_local_system_loopback ef loopback auth
          then Deny 403 else Pass)"

subsection \<open>Browser sessions\<close>

record dash_session =
  dn_user :: string
  dn_groups :: "string list"
  dn_admin :: bool
  dn_created :: instant
  dn_seen :: instant

type_synonym session_table = "string \<rightharpoonup> dash_session"

definition session_expired :: "instant \<Rightarrow> dash_session \<Rightarrow> bool" where
  "session_expired now s \<longleftrightarrow> now - dn_seen s > 8 * hour \<or> now - dn_created s > 24 * hour"

definition session_reap :: "instant \<Rightarrow> session_table \<Rightarrow> session_table" where
  "session_reap now t = (\<lambda>token. case t token of None \<Rightarrow> None
     | Some s \<Rightarrow> if session_expired now s then None else Some s)"

text \<open>\<open>None\<close> as random token is the failure of \<open>crypto/rand\<close>.\<close>

definition session_create ::
  "string option \<Rightarrow> instant \<Rightarrow> auth_info \<Rightarrow> bool \<Rightarrow> session_table \<Rightarrow> (session_table \<times> string) option" where
  "session_create random now info admin t =
     (case random of None \<Rightarrow> None
      | Some token \<Rightarrow>
          Some (t(token \<mapsto> \<lparr>dn_user = ai_user info, dn_groups = ai_groups info, dn_admin = admin,
                            dn_created = now, dn_seen = now\<rparr>), token))"

definition session_get :: "instant \<Rightarrow> string \<Rightarrow> session_table \<Rightarrow> session_table \<times> dash_session option" where
  "session_get now token t =
     (if length token \<noteq> 64 then (t, None)
      else case t token of None \<Rightarrow> (t, None)
        | Some s \<Rightarrow>
            if session_expired now s then (t(token := None), None)
            else let s' = s\<lparr>dn_seen := now\<rparr> in (t(token \<mapsto> s'), Some s'))"

definition session_delete :: "string \<Rightarrow> session_table \<Rightarrow> session_table" where
  "session_delete token t = t(token := None)"

definition require_session :: "instant \<Rightarrow> string option \<Rightarrow> session_table \<Rightarrow> session_table \<times> (gate \<times> auth_info option)" where
  "require_session now cookie t =
     (case cookie of None \<Rightarrow> (t, Deny 401, None)
      | Some token \<Rightarrow>
          if token = [] then (t, Deny 401, None)
          else case session_get now token t of
            (t', None) \<Rightarrow> (t', Deny 401, None)
          | (t', Some s) \<Rightarrow> (t', Pass, Some \<lparr>ai_user = dn_user s, ai_groups = dn_groups s\<rparr>))"

definition require_admin :: "instant \<Rightarrow> string option \<Rightarrow> session_table \<Rightarrow> session_table \<times> gate" where
  "require_admin now cookie t =
     (case cookie of None \<Rightarrow> (t, Deny 401)
      | Some token \<Rightarrow>
          if token = [] then (t, Deny 401)
          else case session_get now token t of
            (t', None) \<Rightarrow> (t', Deny 401)
          | (t', Some s) \<Rightarrow> if \<not> dn_admin s then (t', Deny 403) else (t', Pass))"

record login_reply =
  lr_status :: nat
  lr_token :: "string option"
  lr_user :: string
  lr_admin :: bool

definition login_denied :: "nat \<Rightarrow> login_reply" where
  "login_denied status = \<lparr>lr_status = status, lr_token = None, lr_user = [], lr_admin = False\<rparr>"

definition handle_negotiate ::
  "(string \<Rightarrow> string \<Rightarrow> bool) \<Rightarrow> string \<Rightarrow> string option \<Rightarrow> instant \<Rightarrow> auth_info option \<Rightarrow> session_table
   \<Rightarrow> session_table \<times> login_reply" where
  "handle_negotiate ef grp random now auth t =
     (case auth of None \<Rightarrow> (t, login_denied 401)
      | Some info \<Rightarrow>
          if \<not> is_member_of ef (ai_groups info) grp then (t, login_denied 403)
          else
            let admin = is_dashboard_admin ef auth grp in
            case session_create random now info admin t of
              None \<Rightarrow> (t, login_denied 500)
            | Some (t', token) \<Rightarrow>
                (t', \<lparr>lr_status = 200, lr_token = Some token, lr_user = ai_user info, lr_admin = admin\<rparr>))"

text \<open>The body is decoded to a user name and a password; \<open>None\<close> is an unreadable body.\<close>

definition handle_login ::
  "(string \<Rightarrow> string \<Rightarrow> bool) \<Rightarrow> (string \<Rightarrow> string \<Rightarrow> auth_info option) \<Rightarrow> string \<Rightarrow> string option \<Rightarrow> instant
   \<Rightarrow> (string \<times> string) option \<Rightarrow> session_table \<Rightarrow> session_table \<times> login_reply" where
  "handle_login ef logon grp random now body t =
     (case body of None \<Rightarrow> (t, login_denied 400)
      | Some (user, password) \<Rightarrow>
          if user = [] \<or> password = [] then (t, login_denied 400)
          else
            case logon user password of None \<Rightarrow> (t, login_denied 401)
            | Some info \<Rightarrow>
                if \<not> is_member_of ef (ai_groups info) grp then (t, login_denied 403)
                else
                  let admin = is_dashboard_admin ef (Some info) grp in
                  case session_create random now info admin t of
                    None \<Rightarrow> (t, login_denied 500)
                  | Some (t', token) \<Rightarrow>
                      (t', \<lparr>lr_status = 200, lr_token = Some token, lr_user = ai_user info, lr_admin = admin\<rparr>))"

definition handle_logout :: "string option \<Rightarrow> session_table \<Rightarrow> session_table" where
  "handle_logout cookie t =
     (case cookie of None \<Rightarrow> t | Some token \<Rightarrow> if token \<noteq> [] then session_delete token t else t)"

text \<open>The name and the domain that \<open>loginLogonUser\<close> hands to \<open>LogonUserW\<close>.\<close>

definition logon_name :: "string \<Rightarrow> string \<times> string" where
  "logon_name username =
     (if backslash \<in> set username
      then (after_last username, take (length username - length (after_last username) - 1) username)
      else (username, []))"

subsection \<open>Histories of the session store\<close>

datatype access_event =
  EvLogin instant "(string \<times> string) option" "string option"
| EvNegotiate instant "auth_info option" "string option"
| EvLogout "string option"
| EvUse instant "string option"
| EvAdmin instant "string option"
| EvReap instant

record access_env =
  ae_fold :: "string \<Rightarrow> string \<Rightarrow> bool"
  ae_logon :: "string \<Rightarrow> string \<Rightarrow> auth_info option"
  ae_group :: string

fun access_step :: "access_env \<Rightarrow> access_event \<Rightarrow> session_table \<Rightarrow> session_table" where
  "access_step env (EvLogin now body random) t =
     fst (handle_login (ae_fold env) (ae_logon env) (ae_group env) random now body t)"
| "access_step env (EvNegotiate now auth random) t =
     fst (handle_negotiate (ae_fold env) (ae_group env) random now auth t)"
| "access_step env (EvLogout cookie) t = handle_logout cookie t"
| "access_step env (EvUse now cookie) t = fst (require_session now cookie t)"
| "access_step env (EvAdmin now cookie) t = fst (require_admin now cookie t)"
| "access_step env (EvReap now) t = session_reap now t"

text \<open>The event grants the token to a member of the group at a time.\<close>

fun grants :: "access_env \<Rightarrow> access_event \<Rightarrow> string \<Rightarrow> instant \<Rightarrow> auth_info \<Rightarrow> bool" where
  "grants env (EvLogin now body random) token tm info \<longleftrightarrow>
     tm = now \<and> random = Some token \<and> is_member_of (ae_fold env) (ai_groups info) (ae_group env)
     \<and> (\<exists>user password. body = Some (user, password) \<and> user \<noteq> [] \<and> password \<noteq> []
          \<and> ae_logon env user password = Some info)"
| "grants env (EvNegotiate now auth random) token tm info \<longleftrightarrow>
     tm = now \<and> random = Some token \<and> is_member_of (ae_fold env) (ai_groups info) (ae_group env)
     \<and> auth = Some info"
| "grants env _ token tm info \<longleftrightarrow> False"

fun uses :: "access_event \<Rightarrow> string \<Rightarrow> instant \<Rightarrow> bool" where
  "uses (EvUse now cookie) token tm \<longleftrightarrow> cookie = Some token \<and> tm = now"
| "uses (EvAdmin now cookie) token tm \<longleftrightarrow> cookie = Some token \<and> tm = now"
| "uses _ token tm \<longleftrightarrow> False"

lemma admin_loop_member: "admin_loop ef gs g = is_member_of ef gs g"
  by (induction gs) auto

lemma is_member_iff:
  "is_member_of ef gs g \<longleftrightarrow> (\<exists>x \<in> set gs. ef x g \<or> (\<exists>r. after_first x = Some r \<and> ef r g))"
  by (induction gs) (auto split: option.splits)

definition session_of :: "auth_info \<Rightarrow> instant \<Rightarrow> instant \<Rightarrow> dash_session" where
  "session_of info created seen = \<lparr>dn_user = ai_user info, dn_groups = ai_groups info, dn_admin = True,
     dn_created = created, dn_seen = seen\<rparr>"

lemma session_of_simps [simp]:
  "dn_created (session_of info c x) = c" "dn_seen (session_of info c x) = x"
  "dn_admin (session_of info c x)" "dn_user (session_of info c x) = ai_user info"
  "dn_groups (session_of info c x) = ai_groups info"
  "(session_of info c x)\<lparr>dn_seen := y\<rparr> = session_of info c y"
  by (simp_all add: session_of_def)

lemma get_entry:
  assumes "fst (session_get now token t) x = Some s"
  shows "t x = Some s \<or> x = token \<and> (\<exists>s0. t x = Some s0 \<and> s = s0\<lparr>dn_seen := now\<rparr> \<and> \<not> session_expired now s0)"
  using assms by (auto simp: session_get_def Let_def split: option.splits if_splits)

lemma require_session_table:
  "fst (require_session now cookie t) = (case cookie of None \<Rightarrow> t | Some token \<Rightarrow>
     if token = [] then t else fst (session_get now token t))"
  by (auto simp: require_session_def split: option.splits prod.splits)

lemma require_admin_table:
  "fst (require_admin now cookie t) = fst (require_session now cookie t)"
  by (auto simp: require_session_def require_admin_def split: option.splits prod.splits)

lemma login_table:
  assumes "fst (handle_login ef logon grp random now body t) x = Some s"
  shows "t x = Some s \<or> (\<exists>user password info. body = Some (user, password) \<and> user \<noteq> [] \<and> password \<noteq> []
     \<and> logon user password = Some info \<and> random = Some x \<and> is_member_of ef (ai_groups info) grp
     \<and> s = session_of info now now)"
  using assms
  by (auto simp: handle_login_def session_create_def is_dashboard_admin_def admin_loop_member
      session_of_def Let_def split: option.splits if_splits)

lemma negotiate_table:
  assumes "fst (handle_negotiate ef grp random now auth t) x = Some s"
  shows "t x = Some s \<or> (\<exists>info. auth = Some info \<and> random = Some x
     \<and> is_member_of ef (ai_groups info) grp \<and> s = session_of info now now)"
  using assms
  by (auto simp: handle_negotiate_def session_create_def is_dashboard_admin_def admin_loop_member
      session_of_def Let_def split: option.splits if_splits)

lemma step_entry:
  assumes "access_step env ev t x = Some s"
  obtains (kept) "t x = Some s" "ev \<noteq> EvLogout (Some x) \<or> x = []"
  | (used) s0 now where "t x = Some s0" "uses ev x now" "s = s0\<lparr>dn_seen := now\<rparr>"
  | (granted) info now where "grants env ev x now info" "s = session_of info now now"
proof (cases ev)
  case (EvLogin now body random)
  with assms login_table show thesis using kept granted by fastforce
next
  case (EvNegotiate now auth random)
  with assms negotiate_table show thesis using kept granted by fastforce
next
  case (EvLogout cookie)
  with assms show thesis
    using kept by (auto simp: handle_logout_def session_delete_def split: option.splits if_splits)
next
  case (EvUse now cookie)
  with assms have "fst (require_session now cookie t) x = Some s" by simp
  then show thesis
    using EvUse kept used get_entry [of now _ t x s]
    by (fastforce simp: require_session_table split: option.splits if_splits)
next
  case (EvAdmin now cookie)
  with assms have "fst (require_session now cookie t) x = Some s" by (simp add: require_admin_table)
  then show thesis
    using EvAdmin kept used get_entry [of now _ t x s]
    by (fastforce simp: require_session_table split: option.splits if_splits)
next
  case (EvReap now)
  with assms show thesis using kept by (auto simp: session_reap_def split: option.splits if_splits)
qed

lemma session_origin:
  assumes "fold (access_step env) evs Map.empty token = Some s" and "token \<noteq> []"
  shows "\<exists>pre ev post info. evs = pre @ ev # post \<and> grants env ev token (dn_created s) info
     \<and> s = session_of info (dn_created s) (dn_seen s) \<and> EvLogout (Some token) \<notin> set post
     \<and> (dn_seen s = dn_created s \<or> (\<exists>e \<in> set post. uses e token (dn_seen s)))"
  using assms(1)
proof (induction evs arbitrary: s rule: rev_induct)
  case Nil then show ?case by simp
next
  case (snoc ev evs)
  let ?t = "fold (access_step env) evs Map.empty"
  from snoc.prems have "access_step env ev ?t token = Some s" by simp
  then show ?case
  proof (cases rule: step_entry)
    case kept
    from snoc.IH [OF kept(1)] obtain pre e post info where
      i: "evs = pre @ e # post" "grants env e token (dn_created s) info"
        "s = session_of info (dn_created s) (dn_seen s)" "EvLogout (Some token) \<notin> set post"
        "dn_seen s = dn_created s \<or> (\<exists>e \<in> set post. uses e token (dn_seen s))" by blast
    with kept(2) assms(2) have "evs @ [ev] = pre @ e # (post @ [ev]) \<and> grants env e token (dn_created s) info
        \<and> s = session_of info (dn_created s) (dn_seen s) \<and> EvLogout (Some token) \<notin> set (post @ [ev])
        \<and> (dn_seen s = dn_created s \<or> (\<exists>e \<in> set (post @ [ev]). uses e token (dn_seen s)))"
      by auto
    then show ?thesis by blast
  next
    case (used s0 now)
    from snoc.IH [OF used(1)] obtain pre e post info where
      i: "evs = pre @ e # post" "grants env e token (dn_created s0) info"
        "s0 = session_of info (dn_created s0) (dn_seen s0)" "EvLogout (Some token) \<notin> set post" by blast
    have "ev \<noteq> EvLogout (Some token)" using used(2) by auto
    moreover have "s = session_of info (dn_created s) (dn_seen s)"
      using used(3) by (subst (asm) i(3)) simp
    moreover have "dn_created s = dn_created s0" "dn_seen s = now" using used(3) by simp_all
    ultimately have "evs @ [ev] = pre @ e # (post @ [ev]) \<and> grants env e token (dn_created s) info
        \<and> s = session_of info (dn_created s) (dn_seen s) \<and> EvLogout (Some token) \<notin> set (post @ [ev])
        \<and> (dn_seen s = dn_created s \<or> (\<exists>e \<in> set (post @ [ev]). uses e token (dn_seen s)))"
      using i used(2) by simp
    then show ?thesis by blast
  next
    case (granted info now)
    then have "evs @ [ev] = evs @ ev # [] \<and> grants env ev token (dn_created s) info
        \<and> s = session_of info (dn_created s) (dn_seen s) \<and> EvLogout (Some token) \<notin> set []
        \<and> (dn_seen s = dn_created s \<or> (\<exists>e \<in> set []. uses e token (dn_seen s)))"
      by simp
    then show ?thesis by blast
  qed
qed

text \<open>C12: A request passes the admin gate only on a live grant. Over any history of logins, logouts,
  uses and reaps from the empty store, a cookie that passes at \<open>now\<close> was issued by a login or
  negotiation of a member of the group at most 24 hours ago, has not been logged out since, and was
  issued or used at most 8 hours ago; and the gate for sessions hands on exactly the identity of that
  login.\<close>

theorem admitted_only_with_grant:
  assumes "snd (require_admin now cookie (fold (access_step env) evs Map.empty)) = Pass"
  shows "\<exists>token pre ev post info created seen. cookie = Some token \<and> evs = pre @ ev # post
     \<and> grants env ev token created info \<and> now - created \<le> 24 * hour
     \<and> EvLogout (Some token) \<notin> set post
     \<and> now - seen \<le> 8 * hour \<and> (seen = created \<or> (\<exists>e \<in> set post. uses e token seen))
     \<and> snd (require_session now cookie (fold (access_step env) evs Map.empty)) = (Pass, Some info)"
proof -
  let ?t = "fold (access_step env) evs Map.empty"
  obtain token s where c: "cookie = Some token" "token \<noteq> []" "length token = 64" "?t token = Some s"
    "\<not> session_expired now s"
    using assms by (auto simp: require_admin_def session_get_def split: option.splits if_splits)
  from session_origin [OF c(4,2)] obtain pre ev post info where
    o: "evs = pre @ ev # post" "grants env ev token (dn_created s) info"
      "s = session_of info (dn_created s) (dn_seen s)" "EvLogout (Some token) \<notin> set post"
      "dn_seen s = dn_created s \<or> (\<exists>e \<in> set post. uses e token (dn_seen s))" by blast
  have "dn_user s = ai_user info \<and> dn_groups s = ai_groups info"
    by (subst (1 2) o(3)) simp
  then have "snd (require_session now cookie ?t) = (Pass, Some info)"
    using c by (simp add: require_session_def session_get_def Let_def)
  moreover have "now - dn_created s \<le> 24 * hour" "now - dn_seen s \<le> 8 * hour"
    using c(5) by (simp_all add: session_expired_def)
  ultimately show ?thesis using c(1) o by blast
qed

text \<open>Every session is an administrator's. The group test of the login handlers and the test
  behind the admin flag accept the same members, so over any history no cookie ever gets the 403 of
  the admin gate: it passes exactly when the plain session gate does.\<close>

theorem admin_gate_is_session_gate:
  "snd (require_admin now cookie (fold (access_step env) evs Map.empty))
   = fst (snd (require_session now cookie (fold (access_step env) evs Map.empty)))"
proof -
  let ?t = "fold (access_step env) evs Map.empty"
  have "dn_admin s" if s: "?t token = Some s" "token \<noteq> []" for token s
  proof -
    from session_origin [OF s] obtain info where "s = session_of info (dn_created s) (dn_seen s)" by blast
    then show ?thesis by (metis session_of_simps(3))
  qed
  then show ?thesis
    by (auto simp: require_admin_def require_session_def session_get_def Let_def split: option.splits)
qed

definition sample_token :: string where "sample_token = replicate 64 CHR ''a''"

definition sample_access :: access_env where
  "sample_access = \<lparr>ae_fold = (=), ae_logon = (\<lambda>u p. None), ae_group = ''Admins''\<rparr>"

lemma single_split: "[a] = pre @ x # post \<longleftrightarrow> pre = [] \<and> x = a \<and> post = []"
  by (cases pre) auto

lemma admitted_only_with_grant_witness:
  "\<exists>ev created seen. grants sample_access ev sample_token created \<lparr>ai_user = ''u'', ai_groups = [''Admins'']\<rparr>
     \<and> 10 - created \<le> 24 * hour \<and> 10 - seen \<le> 8 * hour"
proof -
  let ?info = "\<lparr>ai_user = ''u'', ai_groups = [''Admins'']\<rparr>"
  let ?evs = "[EvNegotiate 5 (Some ?info) (Some sample_token)]"
  have m: "fold (access_step sample_access) ?evs Map.empty = [sample_token \<mapsto> session_of ?info 5 5]"
    by (simp add: handle_negotiate_def sample_access_def session_create_def is_dashboard_admin_def
        session_of_def)
  have l: "length sample_token = 64" "sample_token \<noteq> []" by (simp_all add: sample_token_def)
  have "snd (require_admin 10 (Some sample_token) [sample_token \<mapsto> session_of ?info 5 5]) = Pass"
    using l by (simp add: require_admin_def session_get_def session_expired_def hour_def minute_def
        second_def Let_def)
  then have "snd (require_admin 10 (Some sample_token) (fold (access_step sample_access) ?evs Map.empty)) = Pass"
    by (simp only: m)
  from admitted_only_with_grant [OF this] obtain pre ev post created seen info where
    g: "grants sample_access ev sample_token created info" "10 - created \<le> 24 * hour" "10 - seen \<le> 8 * hour"
    and evs: "?evs = pre @ ev # post" by (elim exE conjE) (simp only: option.inject)
  from evs have "ev = EvNegotiate 5 (Some ?info) (Some sample_token)" by (simp only: single_split)
  with g(1) have "info = ?info" by simp
  with g show ?thesis by blast
qed

end
