(* ===== verification/SspiContexts.thy ===== *)
theory SspiContexts
  imports Access
begin

text \<open>
  The multi-leg SSPI exchange of \<open>negotiateMiddleware\<close> (\<open>internal/dashboard/sspi.go\<close>) and who owns
  its kernel contexts. The middleware runs concurrently: requests, the reaper and the shutdown race
  for the entries of a shared map and update two counters. Every atomic action on the map or on a
  counter is a definition; a request is their composition, and the step relation interleaves them in
  any order. The counters are shared by the process; the state holds the share of one middleware. The
  SSPI calls are arguments.
\<close>

subsection \<open>Atomic actions\<close>

text \<open>
  \<open>sp_held\<close>: the contexts in the hands of a request, the reaper or the shutdown. \<open>sp_owed_live\<close>,
  \<open>sp_owed_count\<close>: the counter updates that an action has made due and that have not been applied yet.
\<close>

record sspi_state =
  sp_pending :: "string \<rightharpoonup> nat \<times> instant"
  sp_held :: "nat set"
  sp_next :: nat
  sp_live :: int
  sp_count :: int
  sp_owed_live :: "int multiset"
  sp_owed_count :: "int multiset"
  sp_released :: "nat list"

definition empty_sspi :: sspi_state where
  "empty_sspi = \<lparr>sp_pending = Map.empty, sp_held = {}, sp_next = 0, sp_live = 0, sp_count = 0,
     sp_owed_live = {#}, sp_owed_count = {#}, sp_released = []\<rparr>"

text \<open>A request whose map lookup hit: \<open>LoadAndDelete\<close>.\<close>

definition pick_up :: "string \<Rightarrow> nat \<Rightarrow> sspi_state \<Rightarrow> sspi_state" where
  "pick_up conn ctx s = s\<lparr>sp_pending := (sp_pending s)(conn := None), sp_held := insert ctx (sp_held s),
     sp_owed_count := add_mset (- 1) (sp_owed_count s)\<rparr>"

text \<open>A first leg: \<open>NewServerContext\<close> succeeded.\<close>

definition new_context :: "sspi_state \<Rightarrow> sspi_state" where
  "new_context s = s\<lparr>sp_held := insert (sp_next s) (sp_held s), sp_next := Suc (sp_next s),
     sp_owed_live := add_mset 1 (sp_owed_live s)\<rparr>"

text \<open>A context is released by whoever holds it.\<close>

definition release_held :: "nat \<Rightarrow> sspi_state \<Rightarrow> sspi_state" where
  "release_held ctx s = s\<lparr>sp_held := sp_held s - {ctx}, sp_released := sp_released s @ [ctx],
     sp_owed_live := add_mset (- 1) (sp_owed_live s)\<rparr>"

text \<open>\<open>Swap\<close> into the map: a displaced context is in the hands of the request.\<close>

definition swap_in :: "string \<Rightarrow> nat \<Rightarrow> instant \<Rightarrow> sspi_state \<Rightarrow> sspi_state" where
  "swap_in conn ctx now s =
     (case sp_pending s conn of
        None \<Rightarrow> s\<lparr>sp_pending := (sp_pending s)(conn \<mapsto> (ctx, now)), sp_held := sp_held s - {ctx},
                  sp_owed_count := add_mset 1 (sp_owed_count s)\<rparr>
      | Some (old, _) \<Rightarrow>
          s\<lparr>sp_pending := (sp_pending s)(conn \<mapsto> (ctx, now)), sp_held := insert old (sp_held s - {ctx})\<rparr>)"

text \<open>\<open>CompareAndDelete\<close> by the reaper (older than a minute) or at shutdown (any age); on success
  the evictor holds the context and releases it.\<close>

definition evict_entry :: "bool \<Rightarrow> instant \<Rightarrow> string \<Rightarrow> nat \<times> instant \<Rightarrow> sspi_state \<Rightarrow> sspi_state" where
  "evict_entry shutdown now conn entry s =
     (if (shutdown \<or> now - snd entry > 60 * second) \<and> sp_pending s conn = Some entry
      then pick_up conn (fst entry) s else s)"

text \<open>The two atomic additions: a due update reaches its counter.\<close>

definition add_live :: "int \<Rightarrow> sspi_state \<Rightarrow> sspi_state" where
  "add_live d s = s\<lparr>sp_live := sp_live s + d, sp_owed_live := sp_owed_live s - {#d#}\<rparr>"

definition add_count :: "int \<Rightarrow> sspi_state \<Rightarrow> sspi_state" where
  "add_count d s = s\<lparr>sp_count := sp_count s + d, sp_owed_count := sp_owed_count s - {#d#}\<rparr>"

subsection \<open>A request\<close>

text \<open>\<open>releasePendingContext\<close> and the end of a finished request: the release, then the counter.\<close>

definition release_context :: "nat \<Rightarrow> sspi_state \<Rightarrow> sspi_state" where
  "release_context ctx s = add_live (- 1) (release_held ctx s)"

text \<open>Parking for the next leg.\<close>

definition park :: "string \<Rightarrow> nat \<Rightarrow> instant \<Rightarrow> sspi_state \<Rightarrow> sspi_state" where
  "park conn ctx now s =
     (case sp_pending s conn of
        Some (old, _) \<Rightarrow> release_context old (swap_in conn ctx now s)
      | None \<Rightarrow> add_count 1 (swap_in conn ctx now s))"

datatype leg = LegFailed | LegMore string | LegDone string

record sspi_env =
  sv_credentials :: bool
  sv_first :: "string \<Rightarrow> leg"
  sv_next :: "nat \<Rightarrow> string \<Rightarrow> leg"
  sv_identity :: "nat \<Rightarrow> string \<times> string list"
  sv_base64 :: "string \<Rightarrow> string option"
  sv_encode :: "string \<Rightarrow> string"

record sspi_reply =
  sr_status :: nat
  sr_challenge :: "string option"
  sr_auth :: "auth_info option"

definition refuse :: "nat \<Rightarrow> string option \<Rightarrow> sspi_reply" where
  "refuse status challenge = \<lparr>sr_status = status, sr_challenge = challenge, sr_auth = None\<rparr>"

definition challenge_of :: "sspi_env \<Rightarrow> string \<Rightarrow> string option" where
  "challenge_of env response =
     (if response = [] then None else Some (''Negotiate '' @ sv_encode env response))"

text \<open>What follows a successful leg on the held context.\<close>

definition finish_leg ::
  "sspi_env \<Rightarrow> string \<Rightarrow> instant \<Rightarrow> nat \<Rightarrow> leg \<Rightarrow> sspi_state \<Rightarrow> sspi_state \<times> sspi_reply" where
  "finish_leg env conn now ctx l s =
     (case l of
        LegFailed \<Rightarrow> (s, refuse 401 (Some ''Negotiate''))
      | LegMore response \<Rightarrow> (park conn ctx now s, refuse 401 (challenge_of env response))
      | LegDone response \<Rightarrow>
          (release_context ctx s,
           case sv_identity env ctx of (user, groups) \<Rightarrow>
             if user = [] then refuse 401 (challenge_of env response)
             else \<lparr>sr_status = 200, sr_challenge = challenge_of env response,
                    sr_auth = Some \<lparr>ai_user = user, ai_groups = groups\<rparr>\<rparr>))"

definition negotiate_request ::
  "sspi_env \<Rightarrow> string \<Rightarrow> instant \<Rightarrow> string \<Rightarrow> sspi_state \<Rightarrow> sspi_state \<times> sspi_reply" where
  "negotiate_request env conn now header s =
     (if header = [] \<or> \<not> has_prefix header ''Negotiate '' then (s, refuse 401 (Some ''Negotiate''))
      else case sv_base64 env (trim_prefix header ''Negotiate '') of
        None \<Rightarrow> (s, refuse 400 None)
      | Some token \<Rightarrow>
          (case sp_pending s conn of
             Some (ctx, _) \<Rightarrow>
               let s1 = add_count (- 1) (pick_up conn ctx s) in
               (case sv_next env ctx token of
                  LegFailed \<Rightarrow> (release_context ctx s1, refuse 401 (Some ''Negotiate''))
                | l \<Rightarrow> finish_leg env conn now ctx l s1)
           | None \<Rightarrow>
               if \<not> sv_credentials env then (s, refuse 500 None)
               else
                 (case sv_first env token of
                    LegFailed \<Rightarrow> (s, refuse 401 (Some ''Negotiate''))
                  | l \<Rightarrow> finish_leg env conn now (sp_next s) l (add_live 1 (new_context s)))))"

subsection \<open>Interleavings\<close>

inductive sspi_step :: "sspi_state \<Rightarrow> sspi_state \<Rightarrow> bool" where
  pick: "sp_pending s conn = Some (ctx, created) \<Longrightarrow> sspi_step s (pick_up conn ctx s)"
| fresh: "sspi_step s (new_context s)"
| release: "ctx \<in> sp_held s \<Longrightarrow> sspi_step s (release_held ctx s)"
| parked: "ctx \<in> sp_held s \<Longrightarrow> sspi_step s (swap_in conn ctx now s)"
| evicted: "sspi_step s (evict_entry shutdown now conn entry s)"
| live_added: "d \<in># sp_owed_live s \<Longrightarrow> sspi_step s (add_live d s)"
| count_added: "d \<in># sp_owed_count s \<Longrightarrow> sspi_step s (add_count d s)"

inductive_cases sspi_stepE: "sspi_step s s'"

inductive sspi_reachable :: "sspi_state \<Rightarrow> bool" where
  reach_start: "sspi_reachable empty_sspi"
| reach_step: "sspi_reachable s \<Longrightarrow> sspi_step s s' \<Longrightarrow> sspi_reachable s'"

definition parked_contexts :: "sspi_state \<Rightarrow> nat set" where
  "parked_contexts s = fst ` ran (sp_pending s)"

definition one_owner :: "sspi_state \<Rightarrow> bool" where
  "one_owner s \<longleftrightarrow>
     (\<forall>c d x t u. sp_pending s c = Some (x, t) \<longrightarrow> sp_pending s d = Some (x, u) \<longrightarrow> c = d)
     \<and> (\<forall>c x t. sp_pending s c = Some (x, t) \<longrightarrow> x \<notin> sp_held s \<and> x \<notin> set (sp_released s) \<and> x < sp_next s)
     \<and> (\<forall>x \<in> sp_held s. x \<notin> set (sp_released s) \<and> x < sp_next s)
     \<and> (\<forall>x \<in> set (sp_released s). x < sp_next s)
     \<and> (\<forall>x < sp_next s. x \<in> sp_held s \<or> (\<exists>c t. sp_pending s c = Some (x, t)) \<or> x \<in> set (sp_released s))
     \<and> distinct (sp_released s)
     \<and> finite (dom (sp_pending s)) \<and> sp_count s + sum_mset (sp_owed_count s) = int (card (dom (sp_pending s)))
     \<and> sp_live s + sum_mset (sp_owed_live s) = int (sp_next s) - int (length (sp_released s))"

lemma parked_iff: "x \<in> parked_contexts s \<longleftrightarrow> (\<exists>c t. sp_pending s c = Some (x, t))"
  by (force simp: parked_contexts_def ran_def)

lemma one_ownerD:
  assumes "one_owner s"
  shows "sp_pending s c = Some (x, t) \<Longrightarrow> sp_pending s d = Some (x, u) \<Longrightarrow> c = d"
    and "sp_pending s c = Some (x, t) \<Longrightarrow> x \<notin> sp_held s \<and> x \<notin> set (sp_released s) \<and> x < sp_next s"
    and "x \<in> sp_held s \<Longrightarrow> x \<notin> set (sp_released s) \<and> x < sp_next s"
    and "x \<in> set (sp_released s) \<Longrightarrow> x < sp_next s"
    and "x < sp_next s \<Longrightarrow> x \<in> sp_held s \<or> (\<exists>c t. sp_pending s c = Some (x, t)) \<or> x \<in> set (sp_released s)"
    and "distinct (sp_released s)" and "finite (dom (sp_pending s))"
    and "sp_count s + sum_mset (sp_owed_count s) = int (card (dom (sp_pending s)))"
    and "sp_live s + sum_mset (sp_owed_live s) = int (sp_next s) - int (length (sp_released s))"
  using assms unfolding one_owner_def by blast+

lemma one_ownerI:
  assumes "\<And>c d x t u. sp_pending s c = Some (x, t) \<Longrightarrow> sp_pending s d = Some (x, u) \<Longrightarrow> c = d"
    and "\<And>c x t. sp_pending s c = Some (x, t) \<Longrightarrow> x \<notin> sp_held s \<and> x \<notin> set (sp_released s) \<and> x < sp_next s"
    and "\<And>x. x \<in> sp_held s \<Longrightarrow> x \<notin> set (sp_released s) \<and> x < sp_next s"
    and "\<And>x. x \<in> set (sp_released s) \<Longrightarrow> x < sp_next s"
    and "\<And>x. x < sp_next s \<Longrightarrow> x \<in> sp_held s \<or> (\<exists>c t. sp_pending s c = Some (x, t)) \<or> x \<in> set (sp_released s)"
    and "distinct (sp_released s)" and "finite (dom (sp_pending s))"
    and "sp_count s + sum_mset (sp_owed_count s) = int (card (dom (sp_pending s)))"
    and "sp_live s + sum_mset (sp_owed_live s) = int (sp_next s) - int (length (sp_released s))"
  shows "one_owner s"
  unfolding one_owner_def using assms by blast

lemma card_dom_del: "finite (dom m) \<Longrightarrow> m c = Some v \<Longrightarrow> int (card (dom (m(c := None)))) = int (card (dom m)) - 1"
  by (simp add: dom_fun_upd card_Diff_singleton domI) (metis Suc_pred card_gt_0_iff diff_Suc_1 domI empty_iff of_nat_Suc add_diff_cancel_left' of_nat_1)

lemma finite_dom_del: "finite (dom m) \<Longrightarrow> finite (dom (m(c := None)))"
  by simp

lemma owner_pick_up:
  assumes o: "one_owner s" and p: "sp_pending s conn = Some (ctx, created)"
  shows "one_owner (pick_up conn ctx s)"
proof (rule one_ownerI)
  let ?s = "pick_up conn ctx s"
  note s = pick_up_def and f = one_ownerD [OF o]
  show "c = d" if "sp_pending ?s c = Some (x, t)" "sp_pending ?s d = Some (x, u)" for c d x t u
    using that f(1) [of c x t d u] by (simp add: s split: if_split_asm)
  show "x \<notin> sp_held ?s \<and> x \<notin> set (sp_released ?s) \<and> x < sp_next ?s"
    if "sp_pending ?s c = Some (x, t)" for c x t
    using that f(2) [of c x t] f(1) [of c x t conn created] p by (auto simp: s split: if_split_asm)
  show "x \<notin> set (sp_released ?s) \<and> x < sp_next ?s" if "x \<in> sp_held ?s" for x
    using that f(2) [OF p] f(3) [of x] by (auto simp: s)
  show "x < sp_next ?s" if "x \<in> set (sp_released ?s)" for x using that f(4) [of x] by (simp add: s)
  show "x \<in> sp_held ?s \<or> (\<exists>c t. sp_pending ?s c = Some (x, t)) \<or> x \<in> set (sp_released ?s)"
    if "x < sp_next ?s" for x
  proof -
    have "x < sp_next s" using that by (simp add: s)
    then consider "x \<in> sp_held s \<or> x \<in> set (sp_released s)" | c t where "sp_pending s c = Some (x, t)"
      using f(5) by blast
    then show ?thesis
    proof cases
      case 2
      then have "sp_pending ?s c = Some (x, t) \<or> x \<in> sp_held ?s" using p by (auto simp: s)
      then show ?thesis by blast
    qed (auto simp: s)
  qed
qed (use one_ownerD(6-9) [OF o] p in \<open>simp_all add: pick_up_def card_dom_del finite_dom_del del: dom_fun_upd\<close>)

lemma owner_new:
  assumes o: "one_owner s"
  shows "one_owner (new_context s)"
proof (rule one_ownerI)
  let ?s = "new_context s"
  note s = new_context_def and f = one_ownerD [OF o]
  show "c = d" if "sp_pending ?s c = Some (x, t)" "sp_pending ?s d = Some (x, u)" for c d x t u
    using that f(1) [of c x t d u] by (simp add: s)
  show "x \<notin> sp_held ?s \<and> x \<notin> set (sp_released ?s) \<and> x < sp_next ?s"
    if "sp_pending ?s c = Some (x, t)" for c x t
    using that f(2) [of c x t] by (auto simp: s)
  show "x \<notin> set (sp_released ?s) \<and> x < sp_next ?s" if "x \<in> sp_held ?s" for x
    using that f(3) [of x] f(4) [of x] by (auto simp: s)
  show "x < sp_next ?s" if "x \<in> set (sp_released ?s)" for x using that f(4) [of x] by (simp add: s)
  show "x \<in> sp_held ?s \<or> (\<exists>c t. sp_pending ?s c = Some (x, t)) \<or> x \<in> set (sp_released ?s)"
    if "x < sp_next ?s" for x
    using that f(5) [of x] by (auto simp: s less_Suc_eq)
qed (use one_ownerD(6-9) [OF o] in \<open>simp_all add: new_context_def\<close>)

lemma owner_release:
  assumes o: "one_owner s" and h: "ctx \<in> sp_held s"
  shows "one_owner (release_held ctx s)"
proof (rule one_ownerI)
  let ?s = "release_held ctx s"
  note s = release_held_def and f = one_ownerD [OF o]
  show "c = d" if "sp_pending ?s c = Some (x, t)" "sp_pending ?s d = Some (x, u)" for c d x t u
    using that f(1) [of c x t d u] by (simp add: s)
  show "x \<notin> sp_held ?s \<and> x \<notin> set (sp_released ?s) \<and> x < sp_next ?s"
    if "sp_pending ?s c = Some (x, t)" for c x t
    using that f(2) [of c x t] h by (auto simp: s)
  show "x \<notin> set (sp_released ?s) \<and> x < sp_next ?s" if "x \<in> sp_held ?s" for x
    using that f(3) [of x] by (auto simp: s)
  show "x < sp_next ?s" if "x \<in> set (sp_released ?s)" for x
    using that f(4) [of x] f(3) [OF h] by (auto simp: s)
  show "x \<in> sp_held ?s \<or> (\<exists>c t. sp_pending ?s c = Some (x, t)) \<or> x \<in> set (sp_released ?s)"
    if "x < sp_next ?s" for x
    using that f(5) [of x] by (auto simp: s)
qed (use one_ownerD(3) [OF o h] one_ownerD(6-9) [OF o] in \<open>simp_all add: release_held_def\<close>)

lemma owner_evict:
  assumes o: "one_owner s"
  shows "one_owner (evict_entry shutdown now conn entry s)"
  using owner_pick_up [OF o, of conn "fst entry" "snd entry"] o by (simp add: evict_entry_def)

lemma owner_counters:
  assumes "one_owner s"
  shows "d \<in># sp_owed_live s \<Longrightarrow> one_owner (add_live d s)"
    and "d \<in># sp_owed_count s \<Longrightarrow> one_owner (add_count d s)"
proof -
  have sum: "d + sum_mset (A - {#d#}) = sum_mset A" if "d \<in># A" for A :: "int multiset"
    using arg_cong [OF insert_DiffM [OF that], of sum_mset] by simp
  show "one_owner (add_live d s)" if "d \<in># sp_owed_live s"
    using assms sum [OF that] by (simp add: one_owner_def add_live_def add.assoc)
  show "one_owner (add_count d s)" if "d \<in># sp_owed_count s"
    using assms sum [OF that] by (simp add: one_owner_def add_count_def add.assoc)
qed

lemma owner_swap_free:
  assumes o: "one_owner s" and h: "ctx \<in> sp_held s" and n: "sp_pending s conn = None"
  shows "one_owner (swap_in conn ctx now s)"
proof (rule one_ownerI)
  let ?s = "swap_in conn ctx now s"
  have s: "?s = s\<lparr>sp_pending := (sp_pending s)(conn \<mapsto> (ctx, now)), sp_held := sp_held s - {ctx},
      sp_owed_count := add_mset 1 (sp_owed_count s)\<rparr>" by (simp add: swap_in_def n)
  note f = one_ownerD [OF o]
  show "c = d" if "sp_pending ?s c = Some (x, t)" "sp_pending ?s d = Some (x, u)" for c d x t u
    using that f(1) [of c x t d u] f(2) [of c x t] f(2) [of d x u] h by (auto simp: s split: if_split_asm)
  show "x \<notin> sp_held ?s \<and> x \<notin> set (sp_released ?s) \<and> x < sp_next ?s"
    if "sp_pending ?s c = Some (x, t)" for c x t
    using that f(2) [of c x t] f(3) [of x] h by (auto simp: s split: if_split_asm)
  show "x \<notin> set (sp_released ?s) \<and> x < sp_next ?s" if "x \<in> sp_held ?s" for x
    using that f(3) [of x] by (auto simp: s)
  show "x < sp_next ?s" if "x \<in> set (sp_released ?s)" for x using that f(4) [of x] by (simp add: s)
  show "x \<in> sp_held ?s \<or> (\<exists>c t. sp_pending ?s c = Some (x, t)) \<or> x \<in> set (sp_released ?s)"
    if "x < sp_next ?s" for x
  proof -
    have "sp_pending ?s c = Some (x, t)" if "sp_pending s c = Some (x, t)" for c t
      using that n by (auto simp: s)
    moreover have "sp_pending ?s conn = Some (x, now)" if "x = ctx" using that by (simp add: s)
    ultimately show ?thesis using that f(5) [of x] by (auto simp: s simp del: fun_upd_apply)
  qed
  show "sp_count ?s + sum_mset (sp_owed_count ?s) = int (card (dom (sp_pending ?s)))"
    using f(7,8) n by (simp add: s domIff)
qed (use one_ownerD(6-9) [OF o] n in \<open>simp_all add: swap_in_def\<close>)

text \<open>Replacing an entry takes out the old one first, up to the counter updates, which cancel.\<close>

lemma swap_split:
  assumes "sp_pending s conn = Some (old, created)" and "ctx \<in> sp_held s" and "old \<noteq> ctx"
  shows "swap_in conn ctx now (pick_up conn old s) =
     (swap_in conn ctx now s)\<lparr>sp_owed_count := add_mset 1 (add_mset (- 1) (sp_owed_count s))\<rparr>"
  using assms by (simp add: swap_in_def pick_up_def insert_Diff_if)

lemma owner_swap:
  assumes o: "one_owner s" and h: "ctx \<in> sp_held s"
  shows "one_owner (swap_in conn ctx now s)"
proof (cases "sp_pending s conn")
  case None
  then show ?thesis using owner_swap_free [OF o h] by simp
next
  case (Some entry)
  then obtain old created where p: "sp_pending s conn = Some (old, created)" by (cases entry) auto
  have old: "old \<noteq> ctx" using one_ownerD(2) [OF o p] h by auto
  have "one_owner (swap_in conn ctx now (pick_up conn old s))"
    using owner_pick_up [OF o p] h by (intro owner_swap_free) (simp_all add: pick_up_def)
  moreover have "sp_owed_count (swap_in conn ctx now s) = sp_owed_count s" by (simp add: swap_in_def p)
  ultimately show ?thesis unfolding swap_split [OF p h old] by (simp add: one_owner_def)
qed

lemma reachable_owner: "sspi_reachable s \<Longrightarrow> one_owner s"
proof (induction rule: sspi_reachable.induct)
  case reach_start
  then show ?case by (simp add: one_owner_def empty_sspi_def)
next
  case (reach_step s s')
  from reach_step.hyps(2) reach_step.IH show ?case
    by (cases rule: sspi_step.cases)
      (auto intro: owner_pick_up owner_new owner_release owner_swap owner_evict owner_counters)
qed

lemma reachable_release:
  assumes "sspi_reachable s" and "ctx \<in> sp_held s"
  shows "sspi_reachable (release_context ctx s)"
proof -
  have "sspi_reachable (release_held ctx s)" using assms by (blast intro: reach_step sspi_step.release)
  then show ?thesis
    unfolding release_context_def by (rule reach_step) (rule sspi_step.live_added, simp add: release_held_def)
qed

lemma reachable_park:
  assumes "sspi_reachable s" and "ctx \<in> sp_held s"
  shows "sspi_reachable (park conn ctx now s)"
proof -
  have r: "sspi_reachable (swap_in conn ctx now s)" using assms by (blast intro: reach_step sspi_step.parked)
  show ?thesis
  proof (cases "sp_pending s conn")
    case None
    then have "1 \<in># sp_owed_count (swap_in conn ctx now s)" by (simp add: swap_in_def)
    then have "sspi_reachable (add_count 1 (swap_in conn ctx now s))"
      by (intro reach_step [OF r] sspi_step.count_added)
    then show ?thesis by (simp add: park_def None)
  next
    case (Some entry)
    then have "fst entry \<in> sp_held (swap_in conn ctx now s)" by (cases entry) (simp add: swap_in_def)
    then show ?thesis using reachable_release [OF r] Some by (cases entry) (simp add: park_def)
  qed
qed

lemma reachable_request:
  assumes "sspi_reachable s"
  shows "sspi_reachable (fst (negotiate_request env conn now header s))"
proof -
  have leg: "sspi_reachable (fst (finish_leg env conn now ctx l s'))"
    if "sspi_reachable s'" "ctx \<in> sp_held s'" for ctx l s'
    using that by (cases l) (auto simp: finish_leg_def split: prod.split intro: reachable_release reachable_park)
  have "sspi_reachable (add_live 1 (new_context s))"
    by (intro reach_step [OF reach_step [OF assms sspi_step.fresh]] sspi_step.live_added) (simp add: new_context_def)
  then have new: "sspi_reachable (fst (finish_leg env conn now (sp_next s) l (add_live 1 (new_context s))))" for l
    by (rule leg) (simp add: add_live_def new_context_def)
  have held: "ctx \<in> sp_held (add_count (- 1) (pick_up conn ctx s))" for ctx by (simp add: add_count_def pick_up_def)
  have picked: "sspi_reachable (add_count (- 1) (pick_up conn ctx s))" if "sp_pending s conn = Some (ctx, t)" for ctx t
    by (intro reach_step [OF reach_step [OF assms sspi_step.pick [OF that]]] sspi_step.count_added) (simp add: pick_up_def)
  note failed = reachable_release [OF picked held]
  show ?thesis
    using assms new leg [OF picked held] failed
    by (auto simp: negotiate_request_def Let_def split: option.split leg.split)
qed

lemma request_settles:
  "sp_owed_live (fst (negotiate_request env conn now header s)) = sp_owed_live s"
  "sp_owed_count (fst (negotiate_request env conn now header s)) = sp_owed_count s"
  by (auto simp: negotiate_request_def finish_leg_def park_def release_context_def add_live_def add_count_def
      pick_up_def new_context_def release_held_def swap_in_def Let_def split: option.split leg.split prod.split)

lemma parked_card:
  assumes "one_owner s"
  shows "card (parked_contexts s) = card (dom (sp_pending s))"
proof -
  have "parked_contexts s = (\<lambda>c. fst (the (sp_pending s c))) ` dom (sp_pending s)"
    by (force simp: parked_contexts_def ran_def dom_def image_def)
  moreover have "inj_on (\<lambda>c. fst (the (sp_pending s c))) (dom (sp_pending s))"
    using one_ownerD(1) [OF assms] by (fastforce simp: inj_on_def)
  ultimately show ?thesis by (simp add: card_image)
qed

text \<open>C32: No SSPI context leaks and none is released twice. However requests, the reaper and the
  shutdown interleave, every context the middleware ever created is held by exactly one of them, or
  parked under exactly one connection, or has been released exactly once. The live counter with the
  updates still owed to it is the number of contexts held or parked, the pending counter with its own
  the number parked, so both are exact whenever no update is outstanding; and a request answered in
  one piece is such an interleaving and leaves no update of its own outstanding.\<close>

theorem contexts_accounted:
  assumes "sspi_reachable s"
  shows "{..< sp_next s} = sp_held s \<union> parked_contexts s \<union> set (sp_released s)
     \<and> sp_held s \<inter> parked_contexts s = {} \<and> set (sp_released s) \<inter> (sp_held s \<union> parked_contexts s) = {}
     \<and> distinct (sp_released s)
     \<and> (\<forall>c d x t u. sp_pending s c = Some (x, t) \<and> sp_pending s d = Some (x, u) \<longrightarrow> c = d)
     \<and> sp_live s + sum_mset (sp_owed_live s) = int (card (sp_held s) + card (dom (sp_pending s)))
     \<and> sp_count s + sum_mset (sp_owed_count s) = int (card (dom (sp_pending s)))
     \<and> sspi_reachable (fst (negotiate_request env conn now header s))
     \<and> sp_owed_live (fst (negotiate_request env conn now header s)) = sp_owed_live s
     \<and> sp_owed_count (fst (negotiate_request env conn now header s)) = sp_owed_count s"
proof -
  note o = reachable_owner [OF assms] and f = one_ownerD [OF reachable_owner [OF assms]]
  have u: "{..< sp_next s} = sp_held s \<union> parked_contexts s \<union> set (sp_released s)"
    using f(2-5) by (fastforce simp: parked_iff set_eq_iff)
  have d: "sp_held s \<inter> parked_contexts s = {}" "set (sp_released s) \<inter> (sp_held s \<union> parked_contexts s) = {}"
    using f(2,3) by (auto simp: parked_iff)
  have once: "\<forall>c d x t u. sp_pending s c = Some (x, t) \<and> sp_pending s d = Some (x, u) \<longrightarrow> c = d"
    using f(1) by blast
  have "finite (sp_held s \<union> parked_contexts s \<union> set (sp_released s))" by (simp flip: u)
  then have "sp_next s = card (sp_held s) + card (parked_contexts s) + length (sp_released s)"
    using arg_cong [OF u, of card] d f(6)
    by (simp add: card_Un_disjoint Int_commute distinct_card Int_Un_distrib2)
  then have "sp_live s + sum_mset (sp_owed_live s) = int (card (sp_held s) + card (dom (sp_pending s)))"
    using f(9) parked_card [OF o] by simp
  then show ?thesis using u d once f(6,8) reachable_request [OF assms] request_settles by (intro conjI)
qed

lemma contexts_accounted_witness:
  "sp_live (add_live 1 (swap_in ''c1'' 0 5 (new_context empty_sspi))) = 1"
proof -
  have "sspi_reachable (new_context empty_sspi)"
    by (rule sspi_reachable.intros) (rule sspi_reachable.intros, rule sspi_step.fresh)
  then have "sspi_reachable (swap_in ''c1'' 0 5 (new_context empty_sspi))"
    by (rule sspi_reachable.intros) (rule sspi_step.parked, simp add: new_context_def empty_sspi_def)
  then have "sspi_reachable (add_live 1 (swap_in ''c1'' 0 5 (new_context empty_sspi)))"
    by (rule sspi_reachable.intros) (rule sspi_step.live_added, simp add: swap_in_def new_context_def empty_sspi_def)
  from contexts_accounted [OF this] show ?thesis
    by (simp add: add_live_def swap_in_def new_context_def empty_sspi_def)
qed

end
