(* ===== verification/ForceUpdate.thy ===== *)
theory ForceUpdate
  imports Access Updater
begin

text \<open>
  Force-update commands on the dashboard (\<open>internal/dashboard/forceupdate.go\<close>, \<open>handlers_forceupdate.go\<close>,
  \<open>internal/telemetry/force_update_outbox.go\<close>): the durable outbox, the registry in memory that
  serves the reports, and the handler that accepts a command. A command is promised to survive a
  restart of the dashboard; the abstract machine at the end is the set of pending commands, and the
  registry, the outbox and any restarts between them refine it.
\<close>

subsection \<open>The outbox\<close>

record fu_entry =
  fe_id :: string
  fe_host :: string
  fe_reason :: string
  fe_ms :: int
  fe_version :: string

datatype outbox_error = OutboxFull | OutboxKey

definition outbox_capacity :: nat where "outbox_capacity = 1024"

definition outbox_expire :: "instant \<Rightarrow> fu_entry list \<Rightarrow> fu_entry list" where
  "outbox_expire cutoff rows = filter (\<lambda>e. \<not> fe_ms e < unix_milli cutoff) rows"

definition outbox_load :: "instant \<Rightarrow> fu_entry list \<Rightarrow> fu_entry list \<times> fu_entry list" where
  "outbox_load cutoff rows =
     (let kept = outbox_expire cutoff rows
      in (kept, sort_key (\<lambda>e. (fe_host e, fe_ms e, fe_id e)) kept))"

definition outbox_enqueue :: "fu_entry \<Rightarrow> instant \<Rightarrow> fu_entry list \<Rightarrow> outbox_error + fu_entry list" where
  "outbox_enqueue entry cutoff rows =
     (let kept = outbox_expire cutoff rows in
      if length kept \<ge> outbox_capacity then Inl OutboxFull
      else if (fe_host entry, fe_id entry) \<in> set (map (\<lambda>e. (fe_host e, fe_id e)) kept) then Inl OutboxKey
      else Inr (kept @ [entry]))"

definition outbox_acknowledge :: "string \<Rightarrow> string \<Rightarrow> fu_entry list \<Rightarrow> fu_entry list" where
  "outbox_acknowledge host command rows = filter (\<lambda>e. \<not> (fe_host e = host \<and> fe_id e = command)) rows"

definition outbox_is_duplicate ::
  "string \<Rightarrow> string \<Rightarrow> instant \<Rightarrow> fu_entry list \<Rightarrow> fu_entry list \<times> bool" where
  "outbox_is_duplicate host command cutoff rows =
     (let kept = outbox_expire cutoff rows
      in (kept, list_ex (\<lambda>e. fe_host e = host \<and> fe_id e = command) kept))"

subsection \<open>The registry\<close>

record fu_command =
  fc_id :: string
  fc_host :: string
  fc_reason :: string
  fc_accepted :: instant
  fc_version :: string
  fc_ack :: bool

text \<open>A host without a key in the map has the empty list; \<open>None\<close> is a registry without an outbox.\<close>

record fu_state =
  fs_commands :: "string \<Rightarrow> fu_command list"
  fs_outbox :: "fu_entry list option"

definition fu_window :: duration where "fu_window = 24 * hour"

definition new_force_state :: fu_state where
  "new_force_state = \<lparr>fs_commands = (\<lambda>h. []), fs_outbox = None\<rparr>"

definition entry_command :: "fu_entry \<Rightarrow> fu_command" where
  "entry_command e = \<lparr>fc_id = fe_id e, fc_host = fe_host e, fc_reason = fe_reason e,
     fc_accepted = fe_ms e * 1000000, fc_version = fe_version e, fc_ack = False\<rparr>"

definition new_persistent_state :: "instant \<Rightarrow> fu_entry list option \<Rightarrow> fu_state" where
  "new_persistent_state now outbox =
     (case outbox of None \<Rightarrow> new_force_state
      | Some rows \<Rightarrow>
          case outbox_load (now - fu_window) rows of
            (kept, entries) \<Rightarrow>
              fold (\<lambda>e s. s\<lparr>fs_commands := (fs_commands s)
                     (fe_host e := fs_commands s (fe_host e) @ [entry_command e])\<rparr>)
                entries (new_force_state\<lparr>fs_outbox := Some kept\<rparr>))"

definition gc_locked :: "string \<Rightarrow> instant \<Rightarrow> fu_state \<Rightarrow> fu_state" where
  "gc_locked host now s =
     s\<lparr>fs_commands := (fs_commands s)
         (host := filter (\<lambda>c. fc_accepted c > now - fu_window) (fs_commands s host))\<rparr>"

datatype fu_outcome = FuAccepted | FuDuplicate | FuOffline | FuUnsupported | FuFailed

definition fu_enqueue ::
  "instant \<Rightarrow> string \<Rightarrow> string \<Rightarrow> string \<Rightarrow> string \<Rightarrow> fu_state \<Rightarrow> fu_state \<times> fu_outcome \<times> fu_command option" where
  "fu_enqueue now host command reason version s =
     (let s1 = gc_locked host now s in
      case List.find (\<lambda>c. fc_id c = command) (fs_commands s1 host) of
        Some existing \<Rightarrow> (s1, FuDuplicate, Some existing)
      | None \<Rightarrow>
          let cmd = \<lparr>fc_id = command, fc_host = host, fc_reason = reason, fc_accepted = now,
                     fc_version = version, fc_ack = False\<rparr>;
              put = (\<lambda>s. s\<lparr>fs_commands := (fs_commands s)(host := fs_commands s host @ [cmd])\<rparr>)
          in case fs_outbox s1 of
               None \<Rightarrow> (put s1, FuAccepted, Some cmd)
             | Some rows \<Rightarrow>
                 (case outbox_enqueue \<lparr>fe_id = command, fe_host = host, fe_reason = reason,
                         fe_ms = unix_milli now, fe_version = version\<rparr> (now - fu_window) rows of
                    Inl _ \<Rightarrow> (s1, FuFailed, None)
                  | Inr rows' \<Rightarrow> (put (s1\<lparr>fs_outbox := Some rows'\<rparr>), FuAccepted, Some cmd)))"

definition fu_consume :: "instant \<Rightarrow> string \<Rightarrow> fu_state \<Rightarrow> fu_state \<times> fu_command option" where
  "fu_consume now host s =
     (let s1 = gc_locked host now s in (s1, List.find (\<lambda>c. \<not> fc_ack c) (fs_commands s1 host)))"

definition fu_pending :: "instant \<Rightarrow> string \<Rightarrow> fu_state \<Rightarrow> fu_state \<times> fu_command list" where
  "fu_pending now host s =
     (let s1 = gc_locked host now s in (s1, filter (\<lambda>c. \<not> fc_ack c) (fs_commands s1 host)))"

fun mark_first :: "string \<Rightarrow> fu_command list \<Rightarrow> fu_command list" where
  "mark_first command [] = []"
| "mark_first command (c # cs) =
     (if fc_id c = command then c\<lparr>fc_ack := True\<rparr> # cs else c # mark_first command cs)"

text \<open>\<open>db_ok\<close> is whether the delete in the outbox succeeds; if not, the command stays retryable.\<close>

definition fu_acknowledge :: "bool \<Rightarrow> string \<Rightarrow> string \<Rightarrow> fu_state \<Rightarrow> fu_state" where
  "fu_acknowledge db_ok host command s =
     (let mark = (\<lambda>s. s\<lparr>fs_commands := (fs_commands s)(host := mark_first command (fs_commands s host))\<rparr>)
      in case fs_outbox s of
           None \<Rightarrow> mark s
         | Some rows \<Rightarrow>
             if \<not> db_ok then s
             else mark (s\<lparr>fs_outbox := Some (outbox_acknowledge host command rows)\<rparr>))"

subsection \<open>The handler\<close>

definition parse_cal_ver :: "string \<Rightarrow> (int \<times> int \<times> int) option" where
  "parse_cal_ver s =
     (case split_on CHR ''.'' (trim_prefix s ''v'') of
        [y, m, n] \<Rightarrow>
          (case atoi y of None \<Rightarrow> None | Some a \<Rightarrow>
           if a < 0 then None else
           case atoi m of None \<Rightarrow> None | Some b \<Rightarrow>
           if b < 0 then None else
           case atoi n of None \<Rightarrow> None | Some c \<Rightarrow>
           if c < 0 then None else
           if b > 12 then None else Some (a, b, c))
      | _ \<Rightarrow> None)"

definition agent_version_less_than :: "string \<Rightarrow> string \<Rightarrow> bool" where
  "agent_version_less_than a b =
     (case parse_cal_ver a of None \<Rightarrow> True
      | Some (y, m, n) \<Rightarrow>
          case parse_cal_ver b of None \<Rightarrow> False
          | Some (y', m', n') \<Rightarrow>
              if y \<noteq> y' then y < y' else if m \<noteq> m' then m < m' else n < n')"

definition min_agent_version :: string where "min_agent_version = ''26.9.17''"

definition command_byte :: "char \<Rightarrow> bool" where
  "command_byte c \<longleftrightarrow>
     65 \<le> ord c \<and> ord c \<le> 90 \<or> 97 \<le> ord c \<and> ord c \<le> 122 \<or> is_digit c \<or> c = CHR ''_'' \<or> c = CHR ''-''"

definition valid_command_id :: "string \<Rightarrow> bool" where
  "valid_command_id s \<longleftrightarrow> 8 \<le> length s \<and> length s \<le> 128 \<and> list_all command_byte s"

definition name_byte :: "char \<Rightarrow> bool" where
  "name_byte c \<longleftrightarrow> 65 \<le> ord c \<and> ord c \<le> 90 \<or> 97 \<le> ord c \<and> ord c \<le> 122 \<or> is_digit c"

text \<open>\<open>hostnameRE\<close>: labels of one to 63 letters, digits and inner hyphens.\<close>

definition hostname_matches :: "string \<Rightarrow> bool" where
  "hostname_matches h \<longleftrightarrow>
     list_all (\<lambda>l. l \<noteq> [] \<and> length l \<le> 63 \<and> name_byte (hd l) \<and> name_byte (last l)
        \<and> list_all (\<lambda>c. name_byte c \<or> c = CHR ''-'') l) (split_on CHR ''.'' h)"

record force_request =
  fq_host :: string
  fq_auth :: "auth_info option"
  fq_has_body :: bool
  fq_body :: "(string \<times> string) option"
  fq_checked :: instant
  fq_now :: instant

text \<open>What the dashboard knows of the host: registration and the last report with its version.\<close>

record force_env =
  fv_fold :: "string \<Rightarrow> string \<Rightarrow> bool"
  fv_group :: string
  fv_local :: "string option"
  fv_local_supported :: bool
  fv_registered :: "string \<Rightarrow> bool"
  fv_info :: "string \<Rightarrow> (instant option \<times> string) option"
  fv_stale_after :: duration

datatype force_answer = ForceError nat | ForceOutcome fu_outcome string "instant option"

definition handle_force_update ::
  "force_env \<Rightarrow> force_request \<Rightarrow> fu_state \<Rightarrow> fu_state \<times> force_answer" where
  "handle_force_update env r s =
     (let raw = trim_space (fq_host r); host = to_lower raw in
      if raw = [] then (s, ForceError 400)
      else if \<not> hostname_matches raw then (s, ForceError 400)
      else if fq_auth r = None then (s, ForceError 401)
      else if \<not> is_authorized_for_host (fv_fold env) (fq_auth r) raw (fv_group env) then (s, ForceError 403)
      else if (case fv_local env of None \<Rightarrow> False | Some l \<Rightarrow> fv_fold env host l) \<and> \<not> fv_local_supported env
      then (s, ForceOutcome FuUnsupported [] None)
      else if \<not> fv_registered env raw then (s, ForceError 404)
      else if \<not> fq_has_body r then (s, ForceError 400)
      else case fq_body r of None \<Rightarrow> (s, ForceError 400)
      | Some (command, reason) \<Rightarrow>
          if length reason > 256 then (s, ForceError 422)
          else if command = [] then (s, ForceError 422)
          else if \<not> valid_command_id command then (s, ForceError 422)
          else
            let info = fv_info env raw; version = (case info of None \<Rightarrow> [] | Some (_, v) \<Rightarrow> v) in
            if (case info of None \<Rightarrow> True | Some (None, _) \<Rightarrow> True
                | Some (Some seen, _) \<Rightarrow> fq_checked r - seen \<ge> fv_stale_after env)
            then (s, ForceOutcome FuOffline version None)
            else if version = [] \<or> agent_version_less_than version min_agent_version
            then (s, ForceOutcome FuUnsupported version None)
            else
              (case fu_enqueue (fq_now r) host command reason version s of
                 (s', outcome, cmd) \<Rightarrow> (s', ForceOutcome outcome version (map_option fc_accepted cmd))))"

subsection \<open>The abstract machine and its refinement\<close>

datatype fu_op =
  FuEnqueue instant string string string string
| FuConsume instant string
| FuAck bool string string
| FuRestart instant

datatype fu_label =
  LAccepted fu_entry
| LUnchanged
| LOffered string "fu_entry option"
| LConfirmed string string

definition command_entry :: "fu_command \<Rightarrow> fu_entry" where
  "command_entry c = \<lparr>fe_id = fc_id c, fe_host = fc_host c, fe_reason = fc_reason c,
     fe_ms = unix_milli (fc_accepted c), fe_version = fc_version c\<rparr>"

fun fu_step :: "fu_op \<Rightarrow> fu_state \<Rightarrow> fu_label \<times> fu_state" where
  "fu_step (FuEnqueue now host command reason version) s =
     (case fu_enqueue now host command reason version s of
        (s', FuAccepted, Some c) \<Rightarrow> (LAccepted (command_entry c), s')
      | (s', _, _) \<Rightarrow> (LUnchanged, s'))"
| "fu_step (FuConsume now host) s =
     (case fu_consume now host s of (s', c) \<Rightarrow> (LOffered host (map_option command_entry c), s'))"
| "fu_step (FuAck db_ok host command) s =
     (if db_ok then LConfirmed host command else LUnchanged, fu_acknowledge db_ok host command s)"
| "fu_step (FuRestart now) s = (LUnchanged, new_persistent_state now (fs_outbox s))"

text \<open>The abstract machine: a set of pending commands accepted after a point in time. A new command
  differs in host or id from the pending ones, a poll is offered a pending command of its host if
  there is one, only a confirmation takes one out.\<close>

inductive fu_spec :: "int \<Rightarrow> fu_entry set \<Rightarrow> fu_label \<Rightarrow> fu_entry set \<Rightarrow> bool" for after where
  spec_accepted: "\<forall>e' \<in> P. (fe_host e', fe_id e') \<noteq> (fe_host e, fe_id e)
    \<Longrightarrow> fu_spec after P (LAccepted e) (if fe_ms e > after then insert e P else P)"
| spec_unchanged: "fu_spec after P LUnchanged P"
| spec_offered: "fe_host e = host \<Longrightarrow> fe_ms e > after \<longrightarrow> e \<in> P \<Longrightarrow> fu_spec after P (LOffered host (Some e)) P"
| spec_nothing: "\<forall>e \<in> P. fe_host e \<noteq> host \<Longrightarrow> fu_spec after P (LOffered host None) P"
| spec_confirmed: "fu_spec after P (LConfirmed host command)
    {e \<in> P. \<not> (fe_host e = host \<and> fe_id e = command)}"

inductive_simps spec_offers_simp: "fu_spec after P (LOffered host c) Q"

definition registry_view :: "int \<Rightarrow> fu_state \<Rightarrow> fu_entry set" where
  "registry_view after s = {e. \<exists>h. \<exists>c \<in> set (fs_commands s h). e = command_entry c \<and> \<not> fc_ack c \<and> fe_ms e > after}"

definition rows_view :: "int \<Rightarrow> fu_entry list \<Rightarrow> fu_entry set" where
  "rows_view after rows = {e \<in> set rows. fe_ms e > after}"

definition commands_ok :: "(string \<Rightarrow> fu_command list) \<Rightarrow> bool" where
  "commands_ok f \<longleftrightarrow> (\<forall>h. list_all (\<lambda>c. fc_host c = h) (f h) \<and> distinct (map fc_id (f h)))"

definition rows_ok :: "fu_entry list \<Rightarrow> bool" where
  "rows_ok rows \<longleftrightarrow> distinct (map (\<lambda>e. (fe_host e, fe_id e)) rows)"

definition fu_inv :: "int \<Rightarrow> fu_state \<Rightarrow> bool" where
  "fu_inv after s \<longleftrightarrow> commands_ok (fs_commands s)
     \<and> (\<exists>rows. fs_outbox s = Some rows \<and> rows_ok rows \<and> rows_view after rows = registry_view after s)"

text \<open>The last millisecond that is out of the window at the time \<open>limit\<close>.\<close>

definition window_edge :: "instant \<Rightarrow> int" where "window_edge limit = unix_milli (limit - fu_window)"

fun fu_by :: "instant \<Rightarrow> fu_op \<Rightarrow> bool" where
  "fu_by limit (FuEnqueue now h c r v) = (now \<le> limit)"
| "fu_by limit (FuConsume now h) = (now \<le> limit)"
| "fu_by limit (FuAck ok h c) = True"
| "fu_by limit (FuRestart now) = (now \<le> limit)"

lemma command_entry_simps [simp]:
  "fe_id (command_entry c) = fc_id c" "fe_host (command_entry c) = fc_host c"
  "fe_ms (command_entry c) = unix_milli (fc_accepted c)"
  by (simp_all add: command_entry_def)

lemma command_entry_command [simp]: "command_entry (entry_command e) = e"
  by (simp add: command_entry_def entry_command_def unix_milli_def)

lemma entry_command_simps [simp]:
  "fc_id (entry_command e) = fe_id e" "fc_host (entry_command e) = fe_host e" "\<not> fc_ack (entry_command e)"
  "unix_milli (fc_accepted (entry_command e)) = fe_ms e"
  by (simp_all add: entry_command_def unix_milli_def)

lemma view_iff: "e \<in> registry_view after s
   \<longleftrightarrow> (\<exists>h. \<exists>c \<in> set (fs_commands s h). e = command_entry c \<and> \<not> fc_ack c \<and> unix_milli (fc_accepted c) > after)"
  unfolding registry_view_def mem_Collect_eq by (metis command_entry_simps(3))

lemma expired_edge: "now \<le> limit \<Longrightarrow> t \<le> now - fu_window \<Longrightarrow> unix_milli t \<le> window_edge limit"
  unfolding window_edge_def by (intro unix_milli_mono) simp

lemma gc_view:
  assumes "now \<le> limit"
  shows "registry_view (window_edge limit) (gc_locked host now s) = registry_view (window_edge limit) s"
  using expired_edge [OF assms] by (auto simp: view_iff gc_locked_def set_eq_iff) (smt (verit))+

lemma gc_ok: "commands_ok (fs_commands s) \<Longrightarrow> commands_ok (fs_commands (gc_locked host now s))"
  by (auto simp: commands_ok_def gc_locked_def list_all_iff distinct_map intro: inj_on_subset)

lemma gc_outbox [simp]: "fs_outbox (gc_locked host now s) = fs_outbox s"
  by (simp add: gc_locked_def)

lemma expire_view:
  "now \<le> limit \<Longrightarrow> rows_view (window_edge limit) (outbox_expire (now - fu_window) rows) = rows_view (window_edge limit) rows"
  using unix_milli_mono [of "now - fu_window" "limit - fu_window"]
  by (auto simp: rows_view_def outbox_expire_def window_edge_def)

lemma expire_ok: "rows_ok rows \<Longrightarrow> rows_ok (outbox_expire cutoff rows)"
  by (auto simp: rows_ok_def outbox_expire_def distinct_map intro: inj_on_subset)

lemma restart_fold:
  "fs_commands (fold (\<lambda>e s. s\<lparr>fs_commands := (fs_commands s)
       (fe_host e := fs_commands s (fe_host e) @ [entry_command e])\<rparr>) entries s) h
   = fs_commands s h @ map entry_command (filter (\<lambda>e. fe_host e = h) entries)
   \<and> fs_outbox (fold (\<lambda>e s. s\<lparr>fs_commands := (fs_commands s)
       (fe_host e := fs_commands s (fe_host e) @ [entry_command e])\<rparr>) entries s) = fs_outbox s"
  by (induction entries arbitrary: s) auto

lemma restart_state:
  "fs_commands (new_persistent_state now (Some rows)) h
     = map entry_command (filter (\<lambda>e. fe_host e = h) (snd (outbox_load (now - fu_window) rows)))"
  "fs_outbox (new_persistent_state now (Some rows)) = Some (outbox_expire (now - fu_window) rows)"
  by (simp_all add: new_persistent_state_def outbox_load_def restart_fold new_force_state_def Let_def)

lemma load_set: "set (snd (outbox_load cutoff rows)) = set (outbox_expire cutoff rows)"
  by (simp add: outbox_load_def Let_def)

lemma load_ok: "rows_ok rows \<Longrightarrow> rows_ok (snd (outbox_load cutoff rows))"
  using expire_ok [of rows cutoff] by (simp add: outbox_load_def rows_ok_def Let_def distinct_map)

lemma refines_restart:
  assumes "fu_inv (window_edge limit) s" and "now \<le> limit"
  shows "fu_inv (window_edge limit) (new_persistent_state now (fs_outbox s))
     \<and> registry_view (window_edge limit) (new_persistent_state now (fs_outbox s)) = registry_view (window_edge limit) s"
proof -
  obtain rows where r: "fs_outbox s = Some rows" "rows_ok rows"
      "rows_view (window_edge limit) rows = registry_view (window_edge limit) s"
    using assms(1) by (auto simp: fu_inv_def)
  let ?s = "new_persistent_state now (Some rows)"
  have "registry_view (window_edge limit) ?s = rows_view (window_edge limit) (outbox_expire (now - fu_window) rows)"
    by (auto simp: view_iff restart_state load_set rows_view_def)
  moreover have "commands_ok (fs_commands ?s)"
    using load_ok [OF r(2)]
    by (auto simp: commands_ok_def restart_state list_all_iff rows_ok_def distinct_map inj_on_def)
  ultimately show ?thesis
    using r expire_view [OF assms(2)] expire_ok [OF r(2)] by (simp add: fu_inv_def restart_state)
qed

lemma refines_consume:
  assumes "fu_inv (window_edge limit) s" and "now \<le> limit" and "fu_consume now host s = (s', c)"
  shows "fu_inv (window_edge limit) s' \<and> registry_view (window_edge limit) s' = registry_view (window_edge limit) s
     \<and> fu_spec (window_edge limit) (registry_view (window_edge limit) s) (LOffered host (map_option command_entry c))
         (registry_view (window_edge limit) s)"
proof -
  have s': "s' = gc_locked host now s" and c: "c = List.find (\<lambda>c. \<not> fc_ack c) (fs_commands s' host)"
    using assms(3) by (auto simp: fu_consume_def Let_def)
  have v: "registry_view (window_edge limit) s' = registry_view (window_edge limit) s"
    using gc_view [OF assms(2)] s' by simp
  have ok: "commands_ok (fs_commands s')" using gc_ok assms(1) s' by (simp add: fu_inv_def)
  then have host: "fc_host x = h" if "x \<in> set (fs_commands s' h)" for x h
    using that by (auto simp: commands_ok_def list_all_iff)
  have "fu_spec (window_edge limit) (registry_view (window_edge limit) s') (LOffered host (map_option command_entry c))
      (registry_view (window_edge limit) s')"
  proof (cases c)
    case None
    then have "\<forall>x \<in> set (fs_commands s' host). fc_ack x"
      using c by (metis find_None_iff)
    then show ?thesis using None host by (auto simp: spec_offers_simp view_iff)
  next
    case (Some x)
    then have "x \<in> set (fs_commands s' host)" "\<not> fc_ack x"
      using c by (auto simp: find_Some_iff intro: nth_mem)
    then show ?thesis using Some host by (auto simp: spec_offers_simp view_iff)
  qed
  moreover have "fu_inv (window_edge limit) s'"
    using assms(1) ok v s' by (auto simp: fu_inv_def)
  ultimately show ?thesis using v by simp
qed

lemma enqueue_result_cases:
  assumes "fu_enqueue now host command reason version s = (s', outcome, cmd)"
    and "fs_outbox s = Some rows"
  obtains (kept) "s' = gc_locked host now s" "outcome \<noteq> FuAccepted"
  | (added) c rows' where "outcome = FuAccepted" "cmd = Some c"
      "c = \<lparr>fc_id = command, fc_host = host, fc_reason = reason, fc_accepted = now, fc_version = version, fc_ack = False\<rparr>"
      "rows' = outbox_expire (now - fu_window) rows @ [command_entry c]"
      "rows_ok rows \<longrightarrow> rows_ok rows'"
      "\<forall>d \<in> set (fs_commands (gc_locked host now s) host). fc_id d \<noteq> command"
      "s' = (gc_locked host now s)\<lparr>fs_outbox := Some rows', fs_commands := (fs_commands (gc_locked host now s))
         (host := fs_commands (gc_locked host now s) host @ [c])\<rparr>"
proof (cases "List.find (\<lambda>c. fc_id c = command) (fs_commands (gc_locked host now s) host)")
  case (Some x)
  with assms kept show thesis by (auto simp: fu_enqueue_def Let_def)
next
  case None
  let ?c = "\<lparr>fc_id = command, fc_host = host, fc_reason = reason, fc_accepted = now, fc_version = version, fc_ack = False\<rparr>"
  have e: "command_entry ?c = \<lparr>fe_id = command, fe_host = host, fe_reason = reason, fe_ms = unix_milli now, fe_version = version\<rparr>"
    by (simp add: command_entry_def)
  show thesis
  proof (cases "outbox_enqueue (command_entry ?c) (now - fu_window) rows")
    case (Inl x)
    with None assms kept show thesis by (auto simp: fu_enqueue_def Let_def e)
  next
    case (Inr rows')
    then have r: "rows' = outbox_expire (now - fu_window) rows @ [command_entry ?c]"
      "(host, command) \<notin> (\<lambda>e. (fe_host e, fe_id e)) ` set (outbox_expire (now - fu_window) rows)"
      by (auto simp: outbox_enqueue_def Let_def split: if_split_asm)
    have "rows_ok rows \<longrightarrow> rows_ok rows'"
      using r expire_ok [of rows "now - fu_window"] by (auto simp: rows_ok_def)
    moreover have "\<forall>d \<in> set (fs_commands (gc_locked host now s) host). fc_id d \<noteq> command"
      using None by (simp add: find_None_iff)
    ultimately show thesis
      using added [of ?c rows'] None Inr assms r(1) by (auto simp: fu_enqueue_def Let_def e)
  qed
qed

lemma append_view:
  assumes "fs_commands s' = (fs_commands s)(host := fs_commands s host @ [c])" and "\<not> fc_ack c"
  shows "registry_view after s'
     = (if unix_milli (fc_accepted c) > after then insert (command_entry c) (registry_view after s)
        else registry_view after s)"
proof -
  have "e \<in> registry_view after s' \<longleftrightarrow> e \<in> registry_view after s
      \<or> e = command_entry c \<and> unix_milli (fc_accepted c) > after" for e
  proof -
    have "(\<exists>d \<in> set (fs_commands s' h). e = command_entry d \<and> \<not> fc_ack d \<and> unix_milli (fc_accepted d) > after)
      \<longleftrightarrow> (\<exists>d \<in> set (fs_commands s h). e = command_entry d \<and> \<not> fc_ack d \<and> unix_milli (fc_accepted d) > after)
          \<or> h = host \<and> e = command_entry c \<and> unix_milli (fc_accepted c) > after" for h
      using assms(2) by (auto simp: assms(1))
    then show ?thesis by (simp add: view_iff) blast
  qed
  then show ?thesis by auto
qed

lemma refines_enqueue:
  assumes "fu_inv (window_edge limit) s" and "now \<le> limit"
    and "fu_step (FuEnqueue now host command reason version) s = (l, s')"
  shows "fu_inv (window_edge limit) s'
     \<and> fu_spec (window_edge limit) (registry_view (window_edge limit) s) l (registry_view (window_edge limit) s')"
proof -
  let ?e = "window_edge limit" and ?g = "gc_locked host now s"
  obtain rows where r: "fs_outbox s = Some rows" "rows_ok rows" "rows_view ?e rows = registry_view ?e s"
    using assms(1) by (auto simp: fu_inv_def)
  have ok: "commands_ok (fs_commands ?g)" using gc_ok assms(1) by (simp add: fu_inv_def)
  have v: "registry_view ?e ?g = registry_view ?e s" using gc_view [OF assms(2)] .
  obtain outcome cmd where q: "fu_enqueue now host command reason version s = (s', outcome, cmd)"
    using assms(3) by (auto split: prod.split_asm fu_outcome.split_asm option.split_asm)
  from q r(1) show ?thesis
  proof (cases rule: enqueue_result_cases)
    case kept
    then have "l = LUnchanged" using assms(3) q by (auto split: fu_outcome.split_asm)
    then show ?thesis using kept(1) r ok v by (auto simp: fu_inv_def intro: spec_unchanged)
  next
    case (added c rows')
    then have l: "l = LAccepted (command_entry c)" using assms(3) q by simp
    have c: "fc_host c = host" "fc_id c = command" "\<not> fc_ack c" using added(3) by simp_all
    have ok': "commands_ok (fs_commands s')"
      using ok added(6,7) c by (auto simp: commands_ok_def)
    have view: "registry_view ?e s'
        = (if unix_milli (fc_accepted c) > ?e then insert (command_entry c) (registry_view ?e s) else registry_view ?e s)"
      unfolding v [symmetric] using append_view [of s' ?g host c ?e] added(7) c(3) by simp
    have "rows_view ?e rows' = registry_view ?e s'"
      unfolding view r(3) [symmetric] expire_view [OF assms(2), of rows, symmetric] added(4)
      by (auto simp: rows_view_def)
    then have "fu_inv ?e s'" using ok' added(5,7) r(2) by (simp add: fu_inv_def)
    moreover have "\<forall>e' \<in> registry_view ?e s. (fe_host e', fe_id e') \<noteq> (host, command)"
    proof
      fix e' assume "e' \<in> registry_view ?e s"
      then obtain h d where "d \<in> set (fs_commands ?g h)" "e' = command_entry d"
        unfolding v [symmetric] view_iff by blast
      with added(6) ok show "(fe_host e', fe_id e') \<noteq> (host, command)"
        by (auto simp: commands_ok_def list_all_iff)
    qed
    ultimately show ?thesis
      using spec_accepted [of "registry_view ?e s" "command_entry c" ?e] c l view by simp
  qed
qed

lemma mark_first_distinct:
  "distinct (map fc_id cs) \<Longrightarrow> mark_first command cs = map (\<lambda>c. if fc_id c = command then c\<lparr>fc_ack := True\<rparr> else c) cs"
  by (induction cs) (auto intro!: map_idI [symmetric], metis image_eqI)

lemma acknowledge_view:
  assumes "commands_ok (fs_commands s)"
    and "fs_commands s' = (fs_commands s)(host := mark_first command (fs_commands s host))"
  shows "commands_ok (fs_commands s')
     \<and> registry_view after s' = {e \<in> registry_view after s. \<not> (fe_host e = host \<and> fe_id e = command)}"
proof -
  have m: "mark_first command (fs_commands s host)
      = map (\<lambda>c. if fc_id c = command then c\<lparr>fc_ack := True\<rparr> else c) (fs_commands s host)"
    using assms(1) by (intro mark_first_distinct) (simp add: commands_ok_def)
  have host: "fc_host c = h" if "c \<in> set (fs_commands s h)" for c h
    using that assms(1) by (auto simp: commands_ok_def list_all_iff)
  have "map fc_id (mark_first command (fs_commands s host)) = map fc_id (fs_commands s host)"
    by (simp add: m)
  then have "commands_ok (fs_commands s')"
    using assms by (auto simp: commands_ok_def list_all_iff m simp flip: map_map)
  moreover have "e \<in> registry_view after s' \<longleftrightarrow> e \<in> registry_view after s \<and> \<not> (fe_host e = host \<and> fe_id e = command)"
    for e
  proof -
    have "(\<exists>c \<in> set (fs_commands s' h). e = command_entry c \<and> \<not> fc_ack c \<and> unix_milli (fc_accepted c) > after)
      \<longleftrightarrow> (\<exists>c \<in> set (fs_commands s h). e = command_entry c \<and> \<not> fc_ack c \<and> unix_milli (fc_accepted c) > after)
          \<and> \<not> (fe_host e = host \<and> fe_id e = command)" for h
    proof (cases "h = host")
      case True
      have "(\<exists>c \<in> set (fs_commands s' h). e = command_entry c \<and> \<not> fc_ack c \<and> unix_milli (fc_accepted c) > after)
        \<longleftrightarrow> (\<exists>c \<in> set (fs_commands s host). fc_id c \<noteq> command \<and> e = command_entry c \<and> \<not> fc_ack c
              \<and> unix_milli (fc_accepted c) > after)"
        unfolding True assms(2) m fun_upd_same set_map bex_simps by (rule bex_cong [OF refl]) (simp split: if_split)
      also have "\<dots> \<longleftrightarrow> (\<exists>c \<in> set (fs_commands s h). e = command_entry c \<and> \<not> fc_ack c
            \<and> unix_milli (fc_accepted c) > after) \<and> \<not> (fe_host e = host \<and> fe_id e = command)"
      proof -
        have "fc_id c \<noteq> command \<longleftrightarrow> \<not> (fe_host e = host \<and> fe_id e = command)"
          if "c \<in> set (fs_commands s host)" "e = command_entry c" for c
          using host [OF that(1)] that(2) by simp
        then show ?thesis unfolding True by blast
      qed
      finally show ?thesis .
    next
      case False
      then have "fe_host e \<noteq> host" if "c \<in> set (fs_commands s h)" "e = command_entry c" for c
        using host [OF that(1)] that(2) by simp
      moreover have "fs_commands s' h = fs_commands s h" using False by (simp add: assms(2))
      ultimately show ?thesis by metis
    qed
    then show ?thesis by (auto simp: view_iff)
  qed
  ultimately show ?thesis by blast
qed

lemma refines_ack:
  assumes "fu_inv (window_edge limit) s" and "fu_step (FuAck db_ok host command) s = (l, s')"
  shows "fu_inv (window_edge limit) s'
     \<and> fu_spec (window_edge limit) (registry_view (window_edge limit) s) l (registry_view (window_edge limit) s')"
proof -
  let ?e = "window_edge limit"
  obtain rows where r: "fs_outbox s = Some rows" "rows_ok rows" "rows_view ?e rows = registry_view ?e s"
    using assms(1) by (auto simp: fu_inv_def)
  show ?thesis
  proof (cases db_ok)
    case False
    then show ?thesis using assms r(1) by (auto simp: fu_acknowledge_def intro: spec_unchanged)
  next
    case True
    then have s': "fs_commands s' = (fs_commands s)(host := mark_first command (fs_commands s host))"
      "fs_outbox s' = Some (outbox_acknowledge host command rows)" and l: "l = LConfirmed host command"
      using assms(2) r(1) by (auto simp: fu_acknowledge_def Let_def)
    have a: "commands_ok (fs_commands s')"
      "registry_view ?e s' = {e \<in> registry_view ?e s. \<not> (fe_host e = host \<and> fe_id e = command)}"
      using acknowledge_view [OF _ s'(1)] assms(1) by (auto simp: fu_inv_def)
    moreover have "rows_ok (outbox_acknowledge host command rows)"
      using r(2) by (auto simp: rows_ok_def outbox_acknowledge_def distinct_map intro: inj_on_subset)
    moreover have "rows_view ?e (outbox_acknowledge host command rows) = registry_view ?e s'"
      unfolding a(2) r(3) [symmetric] by (auto simp: rows_view_def outbox_acknowledge_def)
    ultimately show ?thesis using s'(2) l spec_confirmed [of ?e "registry_view ?e s" host command]
      by (simp add: fu_inv_def)
  qed
qed

interpretation force_updates: simulation "fu_by limit" "fu_inv (window_edge limit)" fu_step
  "registry_view (window_edge limit)" "fu_spec (window_edge limit)" for limit
proof
  fix e c l c'
  assume h: "fu_by limit e" "fu_inv (window_edge limit) c" "fu_step e c = (l, c')"
  show "fu_inv (window_edge limit) c'
     \<and> fu_spec (window_edge limit) (registry_view (window_edge limit) c) l (registry_view (window_edge limit) c')"
  proof (cases e)
    case (FuEnqueue now host command reason version)
    with h refines_enqueue show ?thesis by (metis fu_by.simps(1))
  next
    case (FuConsume now host)
    obtain x where "fu_consume now host c = (c', x)" "l = LOffered host (map_option command_entry x)"
      using h(3) FuConsume by (auto split: prod.split_asm)
    with refines_consume [OF h(2) _ this(1)] h(1) FuConsume show ?thesis by simp
  next
    case (FuAck ok host command)
    with h refines_ack show ?thesis by blast
  next
    case (FuRestart now)
    with h refines_restart [OF h(2), of now] show ?thesis by (auto intro: spec_unchanged)
  qed
qed

text \<open>C22: The dashboard's force-update registry refines a set of pending commands, across restarts.
  For any history of enqueues, polls, acknowledgements and restarts up to a time, starting from an
  empty outbox, the answers are a trace of the abstract machine (a new command is accepted only if no
  pending one has its host and id, a poll is offered nothing only if nothing is pending for its host,
  only a confirmation takes a command out, a restart changes nothing); and the commands of the last
  24 hours are the same in the machine, in memory and in the outbox.\<close>

theorem force_updates_refine_pending_set:
  assumes "list_all (fu_by limit) ops"
    and "run_labels fu_step ops (new_force_state\<lparr>fs_outbox := Some []\<rparr>) = (labels, s)"
  shows "\<exists>rows. fs_outbox s = Some rows
     \<and> rows_view (window_edge limit) rows = registry_view (window_edge limit) s
     \<and> trace_of (fu_spec (window_edge limit)) {} labels (registry_view (window_edge limit) s)"
proof -
  let ?s = "new_force_state\<lparr>fs_outbox := Some []\<rparr>"
  have start: "fu_inv (window_edge limit) ?s" and empty: "registry_view (window_edge limit) ?s = {}"
    by (auto simp: fu_inv_def commands_ok_def rows_ok_def rows_view_def registry_view_def new_force_state_def)
  from force_updates.run_refines [OF assms(1) start assms(2)] empty
  show ?thesis by (auto simp: fu_inv_def)
qed

lemma force_updates_refine_pending_set_witness:
  "\<exists>rows. fs_outbox (snd (run_labels fu_step
       [FuEnqueue 0 ''h'' ''command-1'' [] ''26.9.21'', FuConsume 5 ''h'', FuRestart 7, FuAck True ''h'' ''command-1'']
       (new_force_state\<lparr>fs_outbox := Some []\<rparr>))) = Some rows"
proof -
  have "list_all (fu_by 10)
      [FuEnqueue 0 ''h'' ''command-1'' [] ''26.9.21'', FuConsume 5 ''h'', FuRestart 7, FuAck True ''h'' ''command-1'']"
    by simp
  from force_updates_refine_pending_set [OF this surjective_pairing] show ?thesis by blast
qed

subsection \<open>What the handler accepts\<close>

lemma cal_ver_of_version:
  assumes "parse_version s = Some v"
  shows "parse_cal_ver s = Some (v_year v, v_month v, v_n v)"
proof (cases "split_on CHR ''.'' (trim_prefix s ''v'')" rule: three_cases)
  case (three y m n)
  with assms show ?thesis
    by (auto simp: parse_version_def parse_cal_ver_def split: option.split_asm if_split_asm)
next
  case other
  then show ?thesis using assms by (auto simp: parse_version_def split: list.split_asm)
qed

lemma sample_floor: "parse_version min_agent_version = Some (Version 26 9 17)"
  by (simp add: min_agent_version_def parse_version_def trim_prefix_def has_prefix_def atoi_def
      atoi_digits_def Let_def is_digit_def digit_val_def)

lemma enqueue_accepted_fresh:
  assumes "fu_enqueue now host command reason version s = (s', FuAccepted, cmd)"
  shows "cmd = Some \<lparr>fc_id = command, fc_host = host, fc_reason = reason, fc_accepted = now,
      fc_version = version, fc_ack = False\<rparr>
     \<and> (\<forall>c \<in> set (fs_commands s host). fc_id c = command \<longrightarrow> fc_accepted c \<le> now - fu_window)"
  using assms
  by (auto simp: fu_enqueue_def Let_def gc_locked_def find_None_iff not_less
      split: option.split_asm sum.split_asm)

text \<open>An accepted force-update command went through every guard. If the handler answers
  \<open>accepted\<close>, the host name is well formed, the caller is authorized for it and it is registered,
  the command id and the reason fit their bounds, the host reported within the staleness period, its
  version, when the updater can read it, is at least 26.9.17, and no command with that id was
  accepted for the host within the last 24 hours.\<close>

theorem accepted_through_every_guard:
  assumes "handle_force_update env r s = (s', ForceOutcome FuAccepted version accepted_at)"
  shows "let raw = trim_space (fq_host r); host = to_lower raw in
     hostname_matches raw \<and> is_authorized_for_host (fv_fold env) (fq_auth r) raw (fv_group env)
     \<and> fv_registered env raw
     \<and> (\<exists>command reason seen. fq_body r = Some (command, reason) \<and> valid_command_id command
          \<and> length reason \<le> 256 \<and> fv_info env raw = Some (Some seen, version)
          \<and> fq_checked r - seen < fv_stale_after env
          \<and> (\<forall>v. parse_version version = Some v \<longrightarrow> Version 26 9 17 \<le> v)
          \<and> accepted_at = Some (fq_now r)
          \<and> (\<forall>c \<in> set (fs_commands s host). fc_id c = command \<longrightarrow> fc_accepted c \<le> fq_now r - fu_window))"
proof -
  let ?raw = "trim_space (fq_host r)"
  have g: "hostname_matches ?raw" "is_authorized_for_host (fv_fold env) (fq_auth r) ?raw (fv_group env)"
    "fv_registered env ?raw"
    using assms by (auto simp: handle_force_update_def Let_def split: if_split_asm)
  obtain command reason where b: "fq_body r = Some (command, reason)" "valid_command_id command" "length reason \<le> 256"
    using assms by (auto simp: handle_force_update_def Let_def split: if_split_asm option.split_asm prod.split_asm)
  obtain seen where i: "fv_info env ?raw = Some (Some seen, version)" "fq_checked r - seen < fv_stale_after env"
    "\<not> agent_version_less_than version min_agent_version"
    and e: "\<exists>cmd. fu_enqueue (fq_now r) (to_lower ?raw) command reason version s = (s', FuAccepted, cmd)
      \<and> accepted_at = map_option fc_accepted cmd"
    using assms b(1)
    by (auto simp: handle_force_update_def Let_def split: if_split_asm option.split_asm prod.split_asm)
  have "Version 26 9 17 \<le> v" if "parse_version version = Some v" for v
  proof -
    have "\<not> version_less v (Version 26 9 17)"
      using i(3) cal_ver_of_version [OF that] cal_ver_of_version [OF sample_floor]
      by (simp add: agent_version_less_than_def version_less_def split: if_split_asm)
    then show ?thesis by (simp add: less_version_def [symmetric] not_less)
  qed
  moreover obtain cmd where q: "fu_enqueue (fq_now r) (to_lower ?raw) command reason version s = (s', FuAccepted, cmd)"
      "accepted_at = map_option fc_accepted cmd" using e by blast
  moreover note enqueue_accepted_fresh [OF q(1)]
  ultimately show ?thesis using g b i by (simp add: Let_def)
qed

lemma month_zero:
  "parse_cal_ver ''26.0.5'' = Some (26, 0, 5) \<and> parse_version ''26.0.5'' = None"
  by (simp add: parse_cal_ver_def parse_version_def trim_prefix_def has_prefix_def atoi_def
      atoi_digits_def Let_def is_digit_def digit_val_def)

definition sample_force_env :: force_env where
  "sample_force_env = \<lparr>fv_fold = (=), fv_group = ''Admins'', fv_local = None, fv_local_supported = True,
     fv_registered = (\<lambda>h. True), fv_info = (\<lambda>h. Some (Some 0, ''26.9.21'')), fv_stale_after = 100\<rparr>"

definition sample_force_request :: force_request where
  "sample_force_request = \<lparr>fq_host = ''Host1'', fq_auth = Some \<lparr>ai_user = ''u'', ai_groups = [''Admins'']\<rparr>,
     fq_has_body = True, fq_body = Some (''command-1'', []), fq_checked = 50, fq_now = 60\<rparr>"

lemma accepted_through_every_guard_witness:
  "\<exists>seen. fv_info sample_force_env ''Host1'' = Some (Some seen, ''26.9.21'') \<and> 50 - seen < 100"
proof -
  have t: "trim_space ''Host1'' = ''Host1''" by (rule trim_space_id) (simp add: is_space_def)
  have l: "\<not> agent_version_less_than ''26.9.21'' min_agent_version"
    using cal_ver_of_version [OF sample_version] cal_ver_of_version [OF sample_floor]
    by (simp add: agent_version_less_than_def)
  have v: "valid_command_id ''command-1''" by (simp add: valid_command_id_def command_byte_def is_digit_def)
  have h: "hostname_matches ''Host1''" by (simp add: hostname_matches_def name_byte_def is_digit_def)
  have "\<exists>s'. handle_force_update sample_force_env sample_force_request new_force_state
      = (s', ForceOutcome FuAccepted ''26.9.21'' (Some 60))"
    using t l v h
    by (simp add: handle_force_update_def sample_force_env_def sample_force_request_def Let_def
        is_authorized_for_host_def ends_with_dollar_def is_dashboard_admin_def fu_enqueue_def
        new_force_state_def gc_locked_def)
  then obtain s' where a: "handle_force_update sample_force_env sample_force_request new_force_state
      = (s', ForceOutcome FuAccepted ''26.9.21'' (Some 60))" by blast
  from accepted_through_every_guard [OF a] t show ?thesis
    by (auto simp: Let_def sample_force_request_def sample_force_env_def)
qed

end
