(* ===== verification/Broker.thy ===== *)
theory Broker
  imports Prelude
begin

text \<open>
  The event broker of the dashboard (\<open>internal/dashboard/broker.go\<close>): subscribers with bounded
  buffers, broadcasts that evict whoever cannot keep up, and detector status events that are sent
  only when the visible status changes. A broadcast is one step here; the encoding of events to JSON
  is an argument, \<open>None\<close> being its failure.
\<close>

subsection \<open>State and operations\<close>

record detector_status =
  de_host :: string
  de_state :: string
  de_enabled :: int
  de_mature :: int
  de_warmup :: "instant option"
  de_error :: string
  de_last_spike :: "instant option"

record status_snapshot =
  dt_state :: string
  dt_enabled :: int
  dt_mature :: int
  dt_warmup :: instant
  dt_error :: string

text \<open>Subscribers with their id and the payloads waiting in their channel.\<close>

record broker =
  br_subs :: "(string \<times> string list) list"
  br_next :: nat
  br_states :: "string \<rightharpoonup> status_snapshot"

definition new_broker :: broker where
  "new_broker = \<lparr>br_subs = [], br_next = 0, br_states = Map.empty\<rparr>"

definition max_subscribers :: nat where "max_subscribers = 100"
definition buffer_size :: nat where "buffer_size = 16"

definition subscribe :: "broker \<Rightarrow> broker \<times> string option" where
  "subscribe b =
     (if length (br_subs b) \<ge> max_subscribers then (b, None)
      else
        let n = br_next b + 1; i = ''sub-'' @ format_uint n
        in (b\<lparr>br_next := n, br_subs := br_subs b @ [(i, [])]\<rparr>, Some i))"

definition unsubscribe :: "string \<Rightarrow> broker \<Rightarrow> broker" where
  "unsubscribe i b = b\<lparr>br_subs := filter (\<lambda>s. fst s \<noteq> i) (br_subs b)\<rparr>"

definition broadcast :: "string \<Rightarrow> broker \<Rightarrow> broker" where
  "broadcast payload b =
     (let evict = map fst (filter (\<lambda>s. \<not> length (snd s) < buffer_size) (br_subs b));
          sent = map (\<lambda>s. if length (snd s) < buffer_size then (fst s, snd s @ [payload]) else s) (br_subs b)
      in b\<lparr>br_subs := filter (\<lambda>s. fst s \<notin> set evict) sent\<rparr>)"

definition subscriber_count :: "broker \<Rightarrow> nat" where "subscriber_count b = length (br_subs b)"

text \<open>The zero \<open>time.Time\<close>.\<close>

definition zero_time :: instant where "zero_time = - 62135596800 * second"

definition status_snapshot_of :: "detector_status \<Rightarrow> status_snapshot" where
  "status_snapshot_of d = \<lparr>dt_state = de_state d, dt_enabled = de_enabled d, dt_mature = de_mature d,
     dt_warmup = (case de_warmup d of None \<Rightarrow> zero_time | Some t \<Rightarrow> t), dt_error = de_error d\<rparr>"

definition publish_detector_status ::
  "(detector_status \<Rightarrow> string option) \<Rightarrow> detector_status \<Rightarrow> broker \<Rightarrow> broker \<times> bool" where
  "publish_detector_status encode d b =
     (let snapshot = status_snapshot_of d in
      if br_states b (de_host d) = Some snapshot then (b, False)
      else
        let b1 = b\<lparr>br_states := (br_states b)(de_host d \<mapsto> snapshot)\<rparr> in
        case encode d of None \<Rightarrow> (b1, False) | Some payload \<Rightarrow> (broadcast payload b1, True))"

definition publish_recent_spike :: "string option \<Rightarrow> broker \<Rightarrow> broker" where
  "publish_recent_spike encoded b = (case encoded of None \<Rightarrow> b | Some payload \<Rightarrow> broadcast payload b)"

text \<open>A consumer takes the oldest payload of its channel.\<close>

definition receive :: "string \<Rightarrow> broker \<Rightarrow> broker \<times> string option" where
  "receive i b =
     (case map_of (br_subs b) i of
        Some (p # ps) \<Rightarrow> (b\<lparr>br_subs := map (\<lambda>s. if fst s = i then (i, ps) else s) (br_subs b)\<rparr>, Some p)
      | _ \<Rightarrow> (b, None))"

subsection \<open>What a subscriber sees\<close>

datatype broker_event =
  BSubscribe
| BUnsubscribe string
| BBroadcast string
| BStatus "detector_status \<Rightarrow> string option" detector_status
| BSpike "string option"
| BReceive string

text \<open>A step answers with the payloads it broadcasts and what it hands to which consumer.\<close>

fun broker_step :: "broker_event \<Rightarrow> broker \<Rightarrow> (string list \<times> (string \<times> string) list) \<times> broker" where
  "broker_step BSubscribe b = (([], []), fst (subscribe b))"
| "broker_step (BUnsubscribe i) b = (([], []), unsubscribe i b)"
| "broker_step (BBroadcast p) b = (([p], []), broadcast p b)"
| "broker_step (BStatus encode d) b =
     (case publish_detector_status encode d b of (b', sent) \<Rightarrow>
        ((if sent then [the (encode d)] else [], []), b'))"
| "broker_step (BSpike e) b = ((case e of None \<Rightarrow> [] | Some p \<Rightarrow> [p], []), publish_recent_spike e b)"
| "broker_step (BReceive i) b =
     (case receive i b of (b', p) \<Rightarrow> (([], case p of None \<Rightarrow> [] | Some x \<Rightarrow> [(i, x)]), b'))"

definition sent_of :: "(string list \<times> (string \<times> string) list) list \<Rightarrow> string list" where
  "sent_of labels = concat (map fst labels)"

definition received_by :: "string \<Rightarrow> (string list \<times> (string \<times> string) list) list \<Rightarrow> string list" where
  "received_by i labels = map snd (filter (\<lambda>r. fst r = i) (concat (map snd labels)))"

definition waiting :: "broker \<Rightarrow> string \<rightharpoonup> string list" where
  "waiting b = map_of (br_subs b)"

definition broker_inv :: "broker \<Rightarrow> bool" where
  "broker_inv b \<longleftrightarrow> distinct (map fst (br_subs b)) \<and> length (br_subs b) \<le> max_subscribers
     \<and> list_all (\<lambda>s. length (snd s) \<le> buffer_size
          \<and> (\<exists>n. 0 < n \<and> n \<le> br_next b \<and> fst s = ''sub-'' @ format_uint n)) (br_subs b)"

lemma fresh_id:
  assumes "broker_inv b"
  shows "''sub-'' @ format_uint (br_next b + 1) \<notin> fst ` set (br_subs b)"
  using assms by (auto simp: broker_inv_def list_all_iff format_uint_inject)

lemma broadcast_subs:
  assumes "distinct (map fst (br_subs b))"
  shows "br_subs (broadcast p b)
     = map (\<lambda>s. (fst s, snd s @ [p])) (filter (\<lambda>s. length (snd s) < buffer_size) (br_subs b))"
proof -
  have "filter (\<lambda>s. fst s \<notin> fst ` {s \<in> set xs. \<not> length (snd s) < buffer_size})
      (map (\<lambda>s. if length (snd s) < buffer_size then (fst s, snd s @ [p]) else s) ys)
     = map (\<lambda>s. (fst s, snd s @ [p])) (filter (\<lambda>s. length (snd s) < buffer_size) ys)"
    if "set ys \<subseteq> set xs" "distinct (map fst xs)" for xs ys
    using that(1)
  proof (induction ys)
    case (Cons y ys)
    have "fst y \<in> fst ` {s \<in> set xs. \<not> length (snd s) < buffer_size} \<longleftrightarrow> \<not> length (snd y) < buffer_size"
      using Cons.prems that(2) by (auto simp: distinct_map inj_on_def)
    with Cons show ?case by auto
  qed simp
  from this [OF subset_refl assms] show ?thesis by (simp add: broadcast_def Let_def)
qed

lemma broadcast_rest [simp]:
  "br_next (broadcast p b) = br_next b" "br_states (broadcast p b) = br_states b"
  by (simp_all add: broadcast_def Let_def)

lemma broadcast_inv:
  assumes "broker_inv b"
  shows "broker_inv (broadcast p b)"
proof -
  have "length (filter (\<lambda>s. length (snd s) < buffer_size) (br_subs b)) \<le> max_subscribers"
    using assms by (auto simp: broker_inv_def intro: order_trans [OF length_filter_le])
  then show ?thesis
    using assms unfolding broker_inv_def
    by (auto simp: broadcast_subs list_all_iff o_def distinct_map inj_on_def)
qed

lemma waiting_broadcast:
  assumes "broker_inv b" and "waiting (broadcast p b) i = Some q"
  shows "\<exists>q0. waiting b i = Some q0 \<and> q = q0 @ [p]"
  using assms
  by (auto simp: waiting_def broker_inv_def broadcast_subs map_of_eq_Some_iff distinct_map inj_on_def)

lemma unsubscribe_inv:
  assumes "broker_inv b"
  shows "broker_inv (unsubscribe i b)"
proof -
  have "length (filter (\<lambda>s. fst s \<noteq> i) (br_subs b)) \<le> max_subscribers"
    using assms by (auto simp: broker_inv_def intro: order_trans [OF length_filter_le])
  then show ?thesis
    using assms by (auto simp: broker_inv_def unsubscribe_def list_all_iff distinct_map inj_on_def)
qed

definition sub_id :: "nat \<Rightarrow> string \<Rightarrow> bool" where
  "sub_id limit i \<longleftrightarrow> (\<exists>n. 0 < n \<and> n \<le> limit \<and> i = ''sub-'' @ format_uint n)"

lemma sub_id_mono: "sub_id n i \<Longrightarrow> n \<le> m \<Longrightarrow> sub_id m i"
  unfolding sub_id_def using le_trans by blast

lemma broker_inv_alt: "broker_inv b \<longleftrightarrow> distinct (map fst (br_subs b)) \<and> length (br_subs b) \<le> max_subscribers
     \<and> list_all (\<lambda>s. length (snd s) \<le> buffer_size \<and> sub_id (br_next b) (fst s)) (br_subs b)"
  by (simp only: broker_inv_def sub_id_def)

lemma subscribe_inv:
  assumes "broker_inv b"
  shows "broker_inv (fst (subscribe b))"
proof (cases "length (br_subs b) \<ge> max_subscribers")
  case True
  then show ?thesis using assms by (simp add: subscribe_def)
next
  case False
  let ?i = "''sub-'' @ format_uint (br_next b + 1)"
  have s: "br_subs (fst (subscribe b)) = br_subs b @ [(?i, [])]" "br_next (fst (subscribe b)) = br_next b + 1"
    using False by (simp_all add: subscribe_def Let_def)
  have "sub_id (br_next b + 1) ?i" unfolding sub_id_def by (intro exI [of _ "br_next b + 1"]) simp
  moreover have "list_all (\<lambda>s. length (snd s) \<le> buffer_size \<and> sub_id (br_next b + 1) (fst s)) (br_subs b)"
    using assms sub_id_mono [of "br_next b" _ "br_next b + 1"] by (auto simp: broker_inv_alt list_all_iff)
  ultimately show ?thesis
    using assms False fresh_id [OF assms] unfolding broker_inv_alt s by simp
qed

lemma receive_subs:
  "br_subs (fst (receive i b)) = (case map_of (br_subs b) i of
     Some (p # ps) \<Rightarrow> map (\<lambda>s. if fst s = i then (i, ps) else s) (br_subs b) | _ \<Rightarrow> br_subs b)"
  "br_next (fst (receive i b)) = br_next b"
  by (auto simp: receive_def split: option.split list.split)

lemma receive_inv:
  assumes "broker_inv b"
  shows "broker_inv (fst (receive i b))"
proof (cases "map_of (br_subs b) i")
  case None
  then show ?thesis using assms by (simp add: broker_inv_def receive_subs)
next
  case (Some q)
  show ?thesis
  proof (cases q)
    case Nil
    then show ?thesis using assms Some by (simp add: broker_inv_def receive_subs)
  next
    case (Cons p ps)
    then have "length ps \<le> buffer_size"
      using assms map_of_SomeD [OF Some] by (auto simp: broker_inv_def list_all_iff)
    moreover have "map fst (map (\<lambda>s. if fst s = i then (i, ps) else s) (br_subs b)) = map fst (br_subs b)"
      by (induction "br_subs b") auto
    ultimately show ?thesis
      using assms Some Cons unfolding broker_inv_alt receive_subs
      by (auto simp: list_all_iff simp del: map_map)
  qed
qed

lemma publish_result:
  assumes "publish_detector_status encode d b = (b', sent)"
  shows "if sent then \<exists>payload b1. encode d = Some payload \<and> b' = broadcast payload b1 \<and> br_subs b1 = br_subs b
           \<and> br_next b1 = br_next b
     else br_subs b' = br_subs b \<and> br_next b' = br_next b"
  using assms
  by (auto simp: publish_detector_status_def Let_def split: if_split_asm option.split_asm)

lemma same_subs_inv: "br_subs b' = br_subs b \<Longrightarrow> br_next b' = br_next b \<Longrightarrow> broker_inv b' = broker_inv b"
  by (simp add: broker_inv_def)

lemma step_inv:
  assumes "broker_inv b" and "broker_step e b = (l, b')"
  shows "broker_inv b'"
proof (cases e)
  case (BStatus encode d)
  obtain sent where p: "publish_detector_status encode d b = (b', sent)"
    using assms(2) BStatus by (auto split: prod.split_asm)
  show ?thesis
    using publish_result [OF p] assms(1) broadcast_inv same_subs_inv by (metis (full_types))
next
  case (BSpike enc)
  then show ?thesis using assms broadcast_inv by (auto simp: publish_recent_spike_def split: option.split_asm)
next
  case (BReceive i)
  then show ?thesis using assms receive_inv [OF assms(1), of i] by (auto split: prod.split_asm)
qed (use assms subscribe_inv unsubscribe_inv broadcast_inv in auto)

lemma filter_lookup: "map_of (filter (\<lambda>s. fst s \<noteq> j) xs) i = (if i = j then None else map_of xs i)"
  by (induction xs) auto

text \<open>What waits for a subscriber after a step, and what it got in it.\<close>

lemma waiting_step:
  assumes "broker_inv b" and "broker_step e b = (l, b')" and "waiting b i = Some q" and "waiting b' i = Some q'"
  shows "q @ fst l = map snd (filter (\<lambda>r. fst r = i) (snd l)) @ q'"
proof (cases e)
  case BSubscribe
  then have l: "l = ([], [])" and b': "b' = fst (subscribe b)" using assms(2) by auto
  have "waiting b' i = Some q"
    using assms(3) b' by (auto simp: waiting_def subscribe_def Let_def map_add_Some_iff)
  then show ?thesis using l assms(4) by simp
next
  case (BUnsubscribe j)
  then have l: "l = ([], [])" and b': "b' = unsubscribe j b" using assms(2) by auto
  have "waiting b' i = (if i = j then None else Some q)"
    using assms(3) by (simp add: b' unsubscribe_def waiting_def filter_lookup)
  then show ?thesis using l assms(4) by (simp split: if_split_asm)
next
  case (BBroadcast p)
  then show ?thesis using assms waiting_broadcast by fastforce
next
  case (BStatus encode d)
  obtain sent where p: "publish_detector_status encode d b = (b', sent)"
    and l: "l = (if sent then [the (encode d)] else [], [])"
    using assms(2) BStatus by (auto split: prod.split_asm)
  show ?thesis
  proof (cases sent)
    case True
    then obtain payload b1 where b1: "encode d = Some payload" "b' = broadcast payload b1" "br_subs b1 = br_subs b"
      "br_next b1 = br_next b" using publish_result [OF p] by auto
    have "broker_inv b1" using assms(1) same_subs_inv b1(3,4) by blast
    from waiting_broadcast [OF this, of payload i q'] assms(4) b1(2)
    have "\<exists>q0. waiting b1 i = Some q0 \<and> q' = q0 @ [payload]" by simp
    then show ?thesis using assms(3) b1(1,3) l True by (simp add: waiting_def)
  next
    case False
    then show ?thesis using publish_result [OF p] assms(3,4) l by (simp add: waiting_def)
  qed
next
  case (BSpike enc)
  then show ?thesis
    using assms waiting_broadcast by (fastforce simp: publish_recent_spike_def split: option.split_asm)
next
  case (BReceive j)
  show ?thesis
  proof (cases "\<exists>p ps. map_of (br_subs b) j = Some (p # ps)")
    case True
    then obtain p ps where j: "map_of (br_subs b) j = Some (p # ps)" by blast
    have l: "l = ([], [(j, p)])" "br_subs b' = map (\<lambda>s. if fst s = j then (j, ps) else s) (br_subs b)"
      using assms(2) BReceive j by (auto simp: receive_def)
    have "map_of (map (\<lambda>s. if fst s = j then (j, ps) else s) xs) i
        = (if i = j \<and> map_of xs i \<noteq> None then Some ps else map_of xs i)" for xs :: "(string \<times> string list) list"
      by (induction xs) auto
    then show ?thesis using l assms(3,4) j by (auto simp: waiting_def split: if_split_asm)
  next
    case False
    then have "receive j b = (b, None)"
      by (auto simp: receive_def split: option.split list.split)
    then show ?thesis using assms BReceive by auto
  qed
qed

lemma sub_id_inject: "sub_id n (''sub-'' @ format_uint k) \<Longrightarrow> k \<le> n"
  by (auto simp: sub_id_def format_uint_inject)

lemma waiting_none: "waiting b i = None \<longleftrightarrow> i \<notin> fst ` set (br_subs b)"
  by (simp add: waiting_def map_of_eq_None_iff)

lemma broadcast_ids: "broker_inv b \<Longrightarrow> fst ` set (br_subs (broadcast p b)) \<subseteq> fst ` set (br_subs b)"
  by (force simp: broker_inv_def broadcast_subs)

lemma next_mono:
  assumes "broker_step e b = (l, b')"
  shows "br_next b \<le> br_next b'"
proof (cases e)
  case (BStatus encode d)
  obtain sent where p: "publish_detector_status encode d b = (b', sent)"
    using assms BStatus by (auto split: prod.split_asm)
  show ?thesis using publish_result [OF p] by (cases sent) auto
qed (use assms in \<open>auto simp: subscribe_def Let_def unsubscribe_def publish_recent_spike_def receive_def
    split: option.splits list.splits prod.splits\<close>)

lemma gone_stays:
  assumes "broker_inv b" and "broker_step e b = (l, b')" and "sub_id (br_next b) i" and "waiting b i = None"
  shows "sub_id (br_next b') i \<and> waiting b' i = None"
proof (cases e)
  case BSubscribe
  then have b': "b' = fst (subscribe b)" using assms(2) by simp
  have "i \<noteq> ''sub-'' @ format_uint (br_next b + 1)"
    using sub_id_inject [of "br_next b" "br_next b + 1"] assms(3) by auto
  then show ?thesis
    using assms(3,4) sub_id_mono [of "br_next b" i "br_next b + 1"]
    by (auto simp: b' subscribe_def Let_def waiting_none)
next
  case (BUnsubscribe j)
  then show ?thesis using assms by (auto simp: unsubscribe_def waiting_none)
next
  case (BBroadcast p)
  then show ?thesis using assms broadcast_ids [OF assms(1), of p] by (auto simp: waiting_none)
next
  case (BStatus encode d)
  obtain sent where p: "publish_detector_status encode d b = (b', sent)"
    using assms(2) BStatus by (auto split: prod.split_asm)
  show ?thesis
  proof (cases sent)
    case True
    then obtain payload b1 where b1: "b' = broadcast payload b1" "br_subs b1 = br_subs b" "br_next b1 = br_next b"
      using publish_result [OF p] by auto
    have "broker_inv b1" using assms(1) same_subs_inv b1(2,3) by blast
    from broadcast_ids [OF this, of payload] b1 assms(3,4) show ?thesis by (auto simp: waiting_none)
  next
    case False
    then show ?thesis using publish_result [OF p] assms(3,4) by (simp add: waiting_def)
  qed
next
  case (BSpike enc)
  then show ?thesis
    using assms broadcast_ids [OF assms(1)]
    by (auto simp: publish_recent_spike_def waiting_none split: option.split_asm)
next
  case (BReceive j)
  then have b': "b' = fst (receive j b)" using assms(2) by (auto split: prod.split_asm)
  have "map fst (map (\<lambda>s. if fst s = j then (j, ps) else s) xs) = map fst xs"
    for ps and xs :: "(string \<times> string list) list" by (induction xs) auto
  then have "map fst (br_subs b') = map fst (br_subs b)"
    unfolding b' receive_subs by (simp del: map_map split: option.split list.split)
  then have "fst ` set (br_subs b') = fst ` set (br_subs b)" by (metis list.set_map)
  then show ?thesis using assms(3,4) by (simp add: waiting_none b' receive_subs)
qed

lemma present_id: "broker_inv b \<Longrightarrow> waiting b i = Some q \<Longrightarrow> sub_id (br_next b) i"
  by (auto simp: broker_inv_alt waiting_def list_all_iff dest!: map_of_SomeD)

lemma gone_run:
  assumes "broker_inv b" and "run_labels broker_step es b = (ls, b')" and "sub_id (br_next b) i" and "waiting b i = None"
  shows "waiting b' i = None"
  using assms
proof (induction es arbitrary: b ls)
  case (Cons e es)
  obtain l b1 where s: "broker_step e b = (l, b1)" by fastforce
  then obtain ls1 where r: "run_labels broker_step es b1 = (ls1, b')"
    using Cons.prems(2) by (auto split: prod.split_asm)
  from Cons.IH [OF step_inv [OF Cons.prems(1) s] r] gone_stays [OF Cons.prems(1) s Cons.prems(3,4)]
  show ?case by simp
qed simp

lemma run_waiting:
  assumes "broker_inv b" and "run_labels broker_step es b = (ls, b')" and "waiting b i = Some q" and "waiting b' i = Some q'"
  shows "q @ sent_of ls = received_by i ls @ q' \<and> broker_inv b'"
  using assms
proof (induction es arbitrary: b ls q)
  case Nil then show ?case by (simp add: sent_of_def received_by_def)
next
  case (Cons e es)
  obtain l b1 where s: "broker_step e b = (l, b1)" by fastforce
  then obtain ls1 where r: "run_labels broker_step es b1 = (ls1, b')" and ls: "ls = l # ls1"
    using Cons.prems(2) by (auto split: prod.split_asm)
  note i1 = step_inv [OF Cons.prems(1) s]
  show ?case
  proof (cases "waiting b1 i")
    case None
    have "sub_id (br_next b1) i"
      using present_id [OF Cons.prems(1,3)] next_mono [OF s] by (rule sub_id_mono)
    from gone_run [OF i1 r this None] Cons.prems(4) show ?thesis by simp
  next
    case (Some q1)
    have "q1 @ sent_of ls1 = received_by i ls1 @ q' \<and> broker_inv b'"
      using Cons.IH [OF i1 r Some Cons.prems(4)] .
    moreover have "q @ fst l = map snd (filter (\<lambda>r. fst r = i) (snd l)) @ q1"
      using waiting_step [OF Cons.prems(1) s Cons.prems(3) Some] .
    ultimately show ?thesis
      unfolding ls sent_of_def received_by_def by (simp add: append_eq_append_conv_if [symmetric]) (metis append.assoc)
  qed
qed

lemma run_inv: "broker_inv b \<Longrightarrow> run_labels broker_step es b = (ls, b') \<Longrightarrow> broker_inv b'"
  by (induction es arbitrary: b ls) (auto split: prod.split_asm intro: step_inv)

text \<open>A subscriber misses nothing or is gone. From any reachable broker with room, a new
  subscriber that is still there after any events has received, followed by what waits in its buffer,
  exactly the payloads broadcast since it subscribed, in order; there are never more than 100
  subscribers nor 16 payloads in a buffer.\<close>

theorem subscriber_sees_every_broadcast:
  assumes "run_labels broker_step before new_broker = (ls0, b0)" and "subscribe b0 = (b1, Some i)"
    and "run_labels broker_step events b1 = (ls, b2)" and "waiting b2 i = Some q"
  shows "received_by i ls @ q = sent_of ls
     \<and> length q \<le> buffer_size \<and> subscriber_count b2 \<le> max_subscribers"
proof -
  have "broker_inv new_broker" by (simp add: broker_inv_def new_broker_def)
  from run_inv [OF this assms(1)] have i0: "broker_inv b0" .
  have i1: "broker_inv b1" using subscribe_inv [OF i0] assms(2) by simp
  have "waiting b1 i = Some []"
    using assms(2) fresh_id [OF i0]
    by (auto simp: subscribe_def Let_def waiting_def map_add_Some_iff map_of_eq_None_iff split: if_split_asm)
  from run_waiting [OF i1 assms(3) this assms(4)]
  have r: "sent_of ls = received_by i ls @ q" "broker_inv b2" by simp_all
  moreover have "length q \<le> buffer_size"
    using r(2) assms(4) by (auto simp: broker_inv_def list_all_iff waiting_def dest!: map_of_SomeD)
  ultimately show ?thesis by (simp add: broker_inv_def subscriber_count_def)
qed

lemma subscriber_sees_every_broadcast_witness:
  "received_by ''sub-1'' [([''a''], []), ([], [(''sub-1'', ''a'')]), ([''b''], [])] @ [''b''] = [''a'', ''b'']"
proof -
  let ?b1 = "\<lparr>br_subs = [(''sub-1'', [])], br_next = 1, br_states = Map.empty\<rparr>"
  have f: "format_uint 1 = ''1''" by (subst format_uint.simps) (simp add: char_of_def bit_0)
  have s: "subscribe new_broker = (?b1, Some ''sub-1'')"
    using f by (simp add: subscribe_def new_broker_def max_subscribers_def Let_def)
  have r: "run_labels broker_step [BBroadcast ''a'', BReceive ''sub-1'', BBroadcast ''b''] ?b1
      = ([([''a''], []), ([], [(''sub-1'', ''a'')]), ([''b''], [])],
         \<lparr>br_subs = [(''sub-1'', [''b''])], br_next = 1, br_states = Map.empty\<rparr>)"
    by (auto simp: broadcast_def receive_def buffer_size_def Let_def)
  have "run_labels broker_step [] new_broker = ([], new_broker)" by simp
  from subscriber_sees_every_broadcast [OF this s r, of "[''b'']"]
  have "received_by ''sub-1'' [([''a''], []), ([], [(''sub-1'', ''a'')]), ([''b''], [])] @ [''b'']
      = sent_of [([''a''], []), ([], [(''sub-1'', ''a'')]), ([''b''], [])]"
    by (simp add: waiting_def)
  then show ?thesis by (simp add: sent_of_def)
qed

end
