(* ===== verification/Config.thy ===== *)
theory Config
  imports Identifiers
begin

text \<open>
  The configuration (\<open>config.go\<close>): the records of \<open>config.json\<close>, their validation in place, the
  notification targets' trigger and exclusion tests, the conversion to run-time settings, and the
  overlay of the settings a dashboard sends (\<open>internal/svc/check.go\<close>). Integers are unbounded (every
  bound lies far inside 64 bits), case folding is ASCII, and a map of strings is the association list
  of its entries in the order of the keys.
\<close>

subsection \<open>Triggers and targets\<close>

type_synonym trigger = string

definition default_triggers :: "trigger list" where
  "default_triggers = [''drain_on'', ''drain_off'', ''alert'', ''healthy'']"

definition valid_triggers :: "trigger list" where
  "valid_triggers = [''drain_on'', ''drain_off'', ''grace_entered'', ''alert'', ''healthy'', ''session_warning'',
     ''cpu_warning'', ''cpu_critical'', ''input_delay_warning'', ''input_delay_critical'',
     ''memory_warning'', ''memory_critical'', ''event_spike'']"

record server_exclusion =
  nx_server :: string
  nx_triggers :: "trigger list"

record notify_target =
  nt_type :: string
  nt_url :: string
  nt_triggers :: "trigger list"
  nt_repeat :: int
  nt_secret :: string
  nt_to :: "string list"
  nt_from :: string
  nt_enabled :: "bool option"
  nt_severity :: string
  nt_exclusions :: "server_exclusion list"

definition has_trigger :: "notify_target \<Rightarrow> trigger \<Rightarrow> bool" where
  "has_trigger t trigger =
     (trigger \<in> set (if nt_triggers t = [] then default_triggers else nt_triggers t))"

definition trim_suffix :: "string \<Rightarrow> string \<Rightarrow> string" where
  "trim_suffix s suffix = rev (trim_prefix (rev s) (rev suffix))"

definition trim_dot :: "string \<Rightarrow> string" where
  "trim_dot s = trim_suffix (trim_space s) ''.''"

text \<open>\<open>strings.Cut(s, ".")\<close>: what stands before the first dot.\<close>

definition before_dot :: "string \<Rightarrow> string" where
  "before_dot s = takeWhile (\<lambda>c. c \<noteq> CHR ''.'') s"

definition equal_fold :: "string \<Rightarrow> string \<Rightarrow> bool" where
  "equal_fold a b \<longleftrightarrow> to_lower a = to_lower b"

definition excludes_server :: "notify_target \<Rightarrow> string \<Rightarrow> trigger \<Rightarrow> bool" where
  "excludes_server t server trigger =
     (let server = trim_dot server; server_short = before_dot server in
      list_ex (\<lambda>x.
        let excluded = trim_dot (nx_server x); excluded_short = before_dot excluded in
        (equal_fold excluded server
         \<or> (CHR ''.'' \<notin> set excluded \<or> CHR ''.'' \<notin> set server) \<and> equal_fold excluded_short server_short)
        \<and> trigger \<in> set (nx_triggers x)) (nt_exclusions t))"

definition canonical_notification_host :: "string \<Rightarrow> string" where
  "canonical_notification_host host = to_lower (trim_dot host)"

definition is_notification_excluded :: "string list \<Rightarrow> string \<Rightarrow> bool" where
  "is_notification_excluded exclusions host =
     (let host = canonical_notification_host host in
      if host = [] then False
      else list_ex (\<lambda>x. canonical_notification_host x = host) exclusions)"

subsection \<open>The records\<close>

record perf_config =
  pc_enabled :: bool
  pc_force_disabled :: bool
  pc_cpu_warn :: int
  pc_cpu_crit :: int
  pc_mem_warn :: int
  pc_mem_crit :: int
  pc_delay_warn :: int
  pc_delay_crit :: int
  pc_percentile :: string
  pc_load_delay :: int
  pc_delay_delay :: int
  pc_remotefx :: bool
  pc_per_session :: bool
  pc_sample_interval :: int

record sessions_config =
  sc_enabled :: bool
  sc_collect_processes :: bool
  sc_top_processes :: int
  sc_retention_hours :: int
  sc_allow_actions :: bool
  sc_identity :: string
  sc_client :: string
  sc_process :: string

record spike_config =
  ec_enabled :: bool
  ec_min_count :: int
  ec_threshold :: float64
  ec_cooldown :: int
  ec_channel_cooldown :: "(string \<times> int) list"
  ec_maturity :: int
  ec_persist :: int
  ec_half_life :: int
  ec_prior_strength :: float64
  ec_mean_prior :: float64
  ec_baseline_path :: string
  ec_disabled :: "string list"
  ec_added :: "string list"
  ec_security :: bool

record dashboard_json =
  dj_enabled :: bool
  dj_port :: int
  dj_group :: string
  dj_url :: string
  dj_broker :: string
  dj_tls_cert :: string
  dj_tls_key :: string
  dj_fingerprint :: string
  dj_auto_pin :: "bool option"
  dj_fetch_interval :: int

record update_config =
  uc_enabled :: bool
  uc_channel :: string
  uc_poll_interval :: duration

record config =
  cf_grace_period :: int
  cf_retention_days :: int
  cf_poll_interval :: int
  cf_audit_path :: string
  cf_memory_limit :: int
  cf_file_level :: string
  cf_event_level :: string
  cf_notifications :: "notify_target list"
  cf_exclusions :: "string list"
  cf_dashboard_only :: bool
  cf_dashboard :: dashboard_json
  cf_session_warning :: int
  cf_performance :: perf_config
  cf_metrics_days :: int
  cf_audit_days :: int
  cf_aggregator_interval :: int
  cf_retention_interval :: int
  cf_sessions :: sessions_config
  cf_spike :: spike_config
  cf_update :: update_config

text \<open>\<open>DefaultConfig\<close>; the fields Go leaves at their zero values are written out.\<close>

definition default_sessions :: sessions_config where
  "default_sessions = \<lparr>sc_enabled = True, sc_collect_processes = True, sc_top_processes = 3,
     sc_retention_hours = 24, sc_allow_actions = False, sc_identity = ''full'', sc_client = ''full'',
     sc_process = ''full''\<rparr>"

definition default_config :: "string \<Rightarrow> config" where
  "default_config db_path =
     \<lparr>cf_grace_period = 60, cf_retention_days = 90, cf_poll_interval = 300, cf_audit_path = db_path,
      cf_memory_limit = 32, cf_file_level = [], cf_event_level = [], cf_notifications = [],
      cf_exclusions = [], cf_dashboard_only = False,
      cf_dashboard = \<lparr>dj_enabled = False, dj_port = 49470, dj_group = ''Domain Admins'', dj_url = [],
        dj_broker = [], dj_tls_cert = [], dj_tls_key = [], dj_fingerprint = [], dj_auto_pin = None,
        dj_fetch_interval = 300\<rparr>,
      cf_session_warning = 80,
      cf_performance = \<lparr>pc_enabled = False, pc_force_disabled = False, pc_cpu_warn = 0, pc_cpu_crit = 0,
        pc_mem_warn = 0, pc_mem_crit = 0, pc_delay_warn = 0, pc_delay_crit = 0, pc_percentile = [],
        pc_load_delay = 0, pc_delay_delay = 0, pc_remotefx = False, pc_per_session = True,
        pc_sample_interval = 0\<rparr>,
      cf_metrics_days = 30, cf_audit_days = 365, cf_aggregator_interval = 300, cf_retention_interval = 60,
      cf_sessions = default_sessions,
      cf_spike = \<lparr>ec_enabled = False, ec_min_count = 0, ec_threshold = fint 0, ec_cooldown = 0,
        ec_channel_cooldown = [], ec_maturity = 0, ec_persist = 0, ec_half_life = 0,
        ec_prior_strength = fint 0, ec_mean_prior = fint 0, ec_baseline_path = [], ec_disabled = [],
        ec_added = [], ec_security = False\<rparr>,
      cf_update = \<lparr>uc_enabled = False, uc_channel = ''stable'', uc_poll_interval = 24 * hour\<rparr>\<rparr>"

subsection \<open>Validation\<close>

definition clamp_int_field :: "int \<Rightarrow> int \<Rightarrow> int \<Rightarrow> int \<Rightarrow> int" where
  "clamp_int_field v def lo hi = (if v = 0 then def else if v < lo then lo else if v > hi then hi else v)"

definition clamp_float_field :: "float64 \<Rightarrow> float64 \<Rightarrow> float64 \<Rightarrow> float64 \<Rightarrow> float64" where
  "clamp_float_field v def lo hi =
     (if f_eq v (fint 0) then def else if f_less v lo then lo else if f_less hi v then hi else v)"

text \<open>The \<open>float64\<close> values of the literals \<open>1e-4\<close>, \<open>1e-9\<close> and \<open>0.1\<close>.\<close>

definition f_1e4 :: float64 where "f_1e4 = Fin (7378697629483821 / 73786976294838206464)"
definition f_1e9 :: float64 where "f_1e9 = Fin (4835703278458517 / 4835703278458516698824704)"
definition f_tenth :: float64 where "f_tenth = Fin (3602879701896397 / 36028797018963968)"

definition clamp_retention :: "int \<Rightarrow> int" where
  "clamp_retention days = (if days < 1 then 1 else if days > 365 then 365 else days)"

fun normalize_cooldowns :: "(string \<times> int) list \<Rightarrow> (string \<times> int) list \<Rightarrow> (string \<times> int) list" where
  "normalize_cooldowns [] acc = acc"
| "normalize_cooldowns ((raw, minutes) # rest) acc =
     (let channel = trim_space raw in
      if channel = [] then normalize_cooldowns rest acc
      else if channel \<in> set (map fst acc) then normalize_cooldowns rest acc
      else if length acc \<ge> 256 then acc
      else normalize_cooldowns rest (acc @ [(channel, clamp_int_field minutes 60 1 1440)]))"

definition canonical_cooldowns :: "(string \<times> int) list \<Rightarrow> (string \<times> int) list" where
  "canonical_cooldowns l = sort_key fst (normalize_cooldowns (sort_key fst l) [])"

definition normalize_channel_cooldowns :: "spike_config \<Rightarrow> spike_config" where
  "normalize_channel_cooldowns c = c\<lparr>ec_channel_cooldown := canonical_cooldowns (ec_channel_cooldown c)\<rparr>"

definition clamp_evt_spike :: "spike_config \<Rightarrow> spike_config" where
  "clamp_evt_spike c = normalize_channel_cooldowns
     (c\<lparr>ec_min_count := clamp_int_field (ec_min_count c) 10 1 10000,
        ec_threshold := clamp_float_field (ec_threshold c) f_1e4 f_1e9 f_tenth,
        ec_cooldown := clamp_int_field (ec_cooldown c) 60 1 1440,
        ec_maturity := clamp_int_field (ec_maturity c) 630 1 10000,
        ec_persist := clamp_int_field (ec_persist c) 900 60 86400,
        ec_half_life := clamp_int_field (ec_half_life c) 630 60 10000,
        ec_prior_strength := clamp_float_field (ec_prior_strength c) (fint 60) (fint 1) (fint 10000),
        ec_mean_prior := clamp_float_field (ec_mean_prior c) f_tenth (fint 0) (fint 1000)\<rparr>)"

definition normalize_visibility :: "string \<Rightarrow> string" where
  "normalize_visibility v = (if v = ''full'' \<or> v = ''masked'' \<or> v = ''hidden'' then v else ''full'')"

definition validate_sessions_config :: "sessions_config \<Rightarrow> bool" where
  "validate_sessions_config c \<longleftrightarrow>
     \<not> (sc_top_processes c < 0 \<or> sc_top_processes c > 5)
     \<and> \<not> (sc_retention_hours c < 1 \<or> sc_retention_hours c > 168)
     \<and> list_all (\<lambda>v. v = ''full'' \<or> v = ''masked'' \<or> v = ''hidden'') [sc_identity c, sc_client c, sc_process c]"

definition validate_log_level :: "string \<Rightarrow> string \<Rightarrow> string" where
  "validate_log_level val fallback =
     (if val = [] then fallback
      else if to_lower val \<notin> {''debug'', ''info'', ''warn'', ''error''} then fallback
      else to_lower val)"

definition name_char :: "char \<Rightarrow> bool" where
  "name_char c \<longleftrightarrow> 65 \<le> ord c \<and> ord c \<le> 90 \<or> 97 \<le> ord c \<and> ord c \<le> 122 \<or> is_digit c"

definition rfc1123_hostname :: "string \<Rightarrow> bool" where
  "rfc1123_hostname h \<longleftrightarrow>
     list_all (\<lambda>l. l \<noteq> [] \<and> length l \<le> 63 \<and> name_char (hd l) \<and> name_char (last l)
        \<and> list_all (\<lambda>c. name_char c \<or> c = CHR ''-'') l) (split_on CHR ''.'' h)"

text \<open>\<open>None\<close> is the error; the value that comes with it is empty.\<close>

definition normalize_broker :: "string \<Rightarrow> string option" where
  "normalize_broker broker =
     (let b = trim_space broker in
      if b = [] then Some [] else if length b > 253 \<or> \<not> rfc1123_hostname b then None else Some b)"

definition normalize_percentile :: "string \<Rightarrow> string" where
  "normalize_percentile p = (if to_lower p = ''p50'' then ''p50'' else ''p95'')"

definition valid_scheme :: "string \<Rightarrow> bool" where
  "valid_scheme url =
     (let l = to_lower url in has_prefix l ''http://'' \<or> has_prefix l ''https://''
        \<or> has_prefix l ''smtp://'' \<or> has_prefix l ''smtps://'')"

definition keep_target :: "notify_target \<Rightarrow> bool" where
  "keep_target t \<longleftrightarrow> nt_type t \<in> {''webhook'', ''ntfy'', ''email''} \<and> (nt_url t = [] \<or> valid_scheme (nt_url t))"

definition normalize_exclusions :: "notify_target \<Rightarrow> server_exclusion list" where
  "normalize_exclusions t =
     filter (\<lambda>x. nx_triggers x \<noteq> [])
       (map (\<lambda>x. x\<lparr>nx_triggers := filter (\<lambda>tr. tr \<in> set valid_triggers \<and> has_trigger t tr) (nx_triggers x)\<rparr>)
         (filter (\<lambda>x. nx_server x \<noteq> [])
           (map (\<lambda>x. x\<lparr>nx_server := trim_dot (nx_server x)\<rparr>) (nt_exclusions t))))"

definition normalize_triggers :: "trigger list \<Rightarrow> trigger list" where
  "normalize_triggers trs =
     (if trs = [] then default_triggers else filter (\<lambda>tr. tr \<in> set valid_triggers) trs)"

definition clamp_repeat :: "int \<Rightarrow> int" where
  "clamp_repeat m = (let r = (if m < 0 then 0 else m) in if r > 10080 then 10080 else r)"

definition normalize_severity :: "string \<Rightarrow> string" where
  "normalize_severity s =
     (if to_lower s = [] \<or> to_lower s = ''warning'' \<or> to_lower s = ''alert'' then to_lower s else [])"

definition normalize_target :: "notify_target \<Rightarrow> notify_target" where
  "normalize_target t =
     (let t1 = t\<lparr>nt_triggers := normalize_triggers (nt_triggers t)\<rparr>
      in t1\<lparr>nt_exclusions := normalize_exclusions t1,
            nt_repeat := clamp_repeat (nt_repeat t),
            nt_severity := normalize_severity (nt_severity t)\<rparr>)"

definition repair_email :: "notify_target \<Rightarrow> notify_target" where
  "repair_email t =
     (if nt_type t \<noteq> ''email'' then t
      else
        let l = to_lower (nt_url t) in
        if \<not> has_prefix l ''smtp://'' \<and> \<not> has_prefix l ''smtps://'' \<or> nt_from t = [] \<or> nt_to t = []
        then t\<lparr>nt_url := []\<rparr> else t)"

fun dedup_hosts :: "string list \<Rightarrow> string list \<Rightarrow> string list" where
  "dedup_hosts [] acc = acc"
| "dedup_hosts (x # xs) acc =
     (let host = canonical_notification_host x in
      if host = [] then dedup_hosts xs acc
      else if host \<in> set acc then dedup_hosts xs acc else dedup_hosts xs (acc @ [host]))"

text \<open>
  The two shapes of repair: a value outside the range is replaced by the default, or moved to the
  nearer end.
\<close>

definition or_default :: "int \<Rightarrow> int \<Rightarrow> int \<Rightarrow> int \<Rightarrow> int" where
  "or_default def lo hi v = (if v < lo \<or> v > hi then def else v)"

definition into_range :: "int \<Rightarrow> int \<Rightarrow> int \<Rightarrow> int" where
  "into_range lo hi v = (let w = (if v < lo then lo else v) in if w > hi then hi else w)"

definition validate_sessions :: "sessions_config \<Rightarrow> sessions_config" where
  "validate_sessions s =
     s\<lparr>sc_top_processes := or_default 3 0 5 (sc_top_processes s),
       sc_retention_hours := or_default 24 1 168 (sc_retention_hours s),
       sc_identity := normalize_visibility (sc_identity s),
       sc_client := normalize_visibility (sc_client s),
       sc_process := normalize_visibility (sc_process s)\<rparr>"

definition validate_dashboard :: "dashboard_json \<Rightarrow> dashboard_json" where
  "validate_dashboard d =
     d\<lparr>dj_port := or_default 49470 1 65535 (dj_port d),
       dj_group := (if trim_space (dj_group d) = [] then ''Domain Admins'' else trim_space (dj_group d)),
       dj_broker := (case normalize_broker (dj_broker d) of None \<Rightarrow> [] | Some b \<Rightarrow> b)\<rparr>"

definition validate_performance :: "perf_config \<Rightarrow> perf_config" where
  "validate_performance p =
     p\<lparr>pc_percentile := normalize_percentile (pc_percentile p),
       pc_sample_interval := into_range 10 300 (if pc_sample_interval p = 0 then 60 else pc_sample_interval p),
       pc_load_delay := (if pc_load_delay p = 0 then 120 else pc_load_delay p),
       pc_delay_delay := (if pc_delay_delay p = 0 then 180 else pc_delay_delay p)\<rparr>"

definition validate_targets :: "notify_target list \<Rightarrow> notify_target list" where
  "validate_targets ts = map repair_email (map normalize_target (filter keep_target ts))"

definition validate_update :: "update_config \<Rightarrow> update_config" where
  "validate_update u =
     u\<lparr>uc_channel := (if uc_channel u = ''stable'' \<or> uc_channel u = ''prerelease'' then uc_channel u else ''stable''),
       uc_poll_interval := (if uc_poll_interval u = 0 then 24 * hour
                            else if uc_poll_interval u < hour then hour else uc_poll_interval u)\<rparr>"

definition validate_config :: "string \<Rightarrow> string \<Rightarrow> config \<Rightarrow> config" where
  "validate_config db_path baseline_path c =
     c\<lparr>cf_retention_days := clamp_retention (cf_retention_days c),
       cf_metrics_days := clamp_retention (cf_metrics_days c),
       cf_spike := (clamp_evt_spike (cf_spike c))\<lparr>ec_baseline_path := baseline_path\<rparr>,
       cf_audit_days := into_range 1 3650 (cf_audit_days c),
       cf_aggregator_interval := or_default 300 10 3600 (cf_aggregator_interval c),
       cf_retention_interval := or_default 60 1 1440 (cf_retention_interval c),
       cf_sessions := validate_sessions (cf_sessions c),
       cf_file_level := validate_log_level (cf_file_level c) ''info'',
       cf_event_level := validate_log_level (cf_event_level c) ''info'',
       cf_grace_period := or_default 60 1 1440 (cf_grace_period c),
       cf_poll_interval := or_default 300 10 86400 (cf_poll_interval c),
       cf_audit_path := db_path,
       cf_dashboard := validate_dashboard (cf_dashboard c),
       cf_session_warning := into_range 0 100 (cf_session_warning c),
       cf_memory_limit := into_range 32 4096 (cf_memory_limit c),
       cf_performance := validate_performance (cf_performance c),
       cf_notifications := validate_targets (cf_notifications c),
       cf_exclusions := dedup_hosts (cf_exclusions c) [],
       cf_update := validate_update (cf_update c)\<rparr>"

subsection \<open>What a validated configuration is\<close>

definition cooldowns_ok :: "(string \<times> int) list \<Rightarrow> bool" where
  "cooldowns_ok l \<longleftrightarrow> distinct (map fst l) \<and> length l \<le> 256
     \<and> (\<forall>(k, m) \<in> set l. k \<noteq> [] \<and> 1 \<le> m \<and> m \<le> 1440)"

definition spike_ok :: "spike_config \<Rightarrow> bool" where
  "spike_ok c \<longleftrightarrow> 1 \<le> ec_min_count c \<and> ec_min_count c \<le> 10000
     \<and> 1 \<le> ec_cooldown c \<and> ec_cooldown c \<le> 1440
     \<and> 1 \<le> ec_maturity c \<and> ec_maturity c \<le> 10000
     \<and> 60 \<le> ec_persist c \<and> ec_persist c \<le> 86400
     \<and> 60 \<le> ec_half_life c \<and> ec_half_life c \<le> 10000
     \<and> f_leq f_1e9 (ec_threshold c) \<and> f_leq (ec_threshold c) f_tenth
     \<and> f_leq (fint 1) (ec_prior_strength c) \<and> f_leq (ec_prior_strength c) (fint 10000)
     \<and> f_leq (fint 0) (ec_mean_prior c) \<and> f_leq (ec_mean_prior c) (fint 1000)
     \<and> cooldowns_ok (ec_channel_cooldown c)"

definition sessions_ok :: "sessions_config \<Rightarrow> bool" where
  "sessions_ok c \<longleftrightarrow> 0 \<le> sc_top_processes c \<and> sc_top_processes c \<le> 5
     \<and> 1 \<le> sc_retention_hours c \<and> sc_retention_hours c \<le> 168
     \<and> {sc_identity c, sc_client c, sc_process c} \<subseteq> {''full'', ''masked'', ''hidden''}"

definition exclusion_ok :: "notify_target \<Rightarrow> server_exclusion \<Rightarrow> bool" where
  "exclusion_ok t x \<longleftrightarrow> nx_server x \<noteq> [] \<and> nx_triggers x \<noteq> []
     \<and> (\<forall>tr \<in> set (nx_triggers x). tr \<in> set valid_triggers \<and> has_trigger t tr)"

definition email_usable :: "notify_target \<Rightarrow> bool" where
  "email_usable t \<longleftrightarrow>
     (let l = to_lower (nt_url t) in (has_prefix l ''smtp://'' \<or> has_prefix l ''smtps://''))
     \<and> nt_from t \<noteq> [] \<and> nt_to t \<noteq> []"

definition target_ok :: "notify_target \<Rightarrow> bool" where
  "target_ok t \<longleftrightarrow> nt_type t \<in> {''webhook'', ''ntfy'', ''email''}
     \<and> (nt_url t = [] \<or> valid_scheme (nt_url t))
     \<and> (nt_type t = ''email'' \<longrightarrow> nt_url t = [] \<or> email_usable t)
     \<and> set (nt_triggers t) \<subseteq> set valid_triggers
     \<and> 0 \<le> nt_repeat t \<and> nt_repeat t \<le> 10080
     \<and> nt_severity t \<in> {[], ''warning'', ''alert''}
     \<and> list_all (exclusion_ok t) (nt_exclusions t)"

definition log_level_ok :: "string \<Rightarrow> bool" where
  "log_level_ok l \<longleftrightarrow> l \<in> {''debug'', ''info'', ''warn'', ''error''}"

definition broker_ok :: "string \<Rightarrow> bool" where
  "broker_ok b \<longleftrightarrow> b = [] \<or> length b \<le> 253 \<and> rfc1123_hostname b"

definition dashboard_ok :: "dashboard_json \<Rightarrow> bool" where
  "dashboard_ok d \<longleftrightarrow> 1 \<le> dj_port d \<and> dj_port d \<le> 65535 \<and> dj_group d \<noteq> [] \<and> broker_ok (dj_broker d)"

definition performance_ok :: "perf_config \<Rightarrow> bool" where
  "performance_ok p \<longleftrightarrow> pc_percentile p \<in> {''p50'', ''p95''}
     \<and> 10 \<le> pc_sample_interval p \<and> pc_sample_interval p \<le> 300
     \<and> pc_load_delay p \<noteq> 0 \<and> pc_delay_delay p \<noteq> 0"

definition update_ok :: "update_config \<Rightarrow> bool" where
  "update_ok u \<longleftrightarrow> uc_channel u \<in> {''stable'', ''prerelease''} \<and> hour \<le> uc_poll_interval u"

definition config_ok :: "config \<Rightarrow> bool" where
  "config_ok c \<longleftrightarrow>
     1 \<le> cf_retention_days c \<and> cf_retention_days c \<le> 365
     \<and> 1 \<le> cf_metrics_days c \<and> cf_metrics_days c \<le> 365
     \<and> 1 \<le> cf_audit_days c \<and> cf_audit_days c \<le> 3650
     \<and> 10 \<le> cf_aggregator_interval c \<and> cf_aggregator_interval c \<le> 3600
     \<and> 1 \<le> cf_retention_interval c \<and> cf_retention_interval c \<le> 1440
     \<and> 1 \<le> cf_grace_period c \<and> cf_grace_period c \<le> 1440
     \<and> 10 \<le> cf_poll_interval c \<and> cf_poll_interval c \<le> 86400
     \<and> 0 \<le> cf_session_warning c \<and> cf_session_warning c \<le> 100
     \<and> 32 \<le> cf_memory_limit c \<and> cf_memory_limit c \<le> 4096
     \<and> log_level_ok (cf_file_level c) \<and> log_level_ok (cf_event_level c)
     \<and> dashboard_ok (cf_dashboard c) \<and> performance_ok (cf_performance c)
     \<and> spike_ok (cf_spike c) \<and> sessions_ok (cf_sessions c)
     \<and> list_all target_ok (cf_notifications c)
     \<and> distinct (cf_exclusions c) \<and> [] \<notin> set (cf_exclusions c)
     \<and> update_ok (cf_update c)"

text \<open>JSON has no NaN; a configuration read from a file has none.\<close>

definition spike_no_nan :: "spike_config \<Rightarrow> bool" where
  "spike_no_nan c \<longleftrightarrow> ec_threshold c \<noteq> NaN \<and> ec_prior_strength c \<noteq> NaN \<and> ec_mean_prior c \<noteq> NaN"

lemma clamp_int_range: "lo \<le> def \<Longrightarrow> def \<le> hi \<Longrightarrow> lo \<le> clamp_int_field v def lo hi \<and> clamp_int_field v def lo hi \<le> hi"
  by (simp add: clamp_int_field_def)

lemma f_leq_refl: "x \<noteq> NaN \<Longrightarrow> f_leq x x"
  by (simp add: f_leq_def f_eq_def)

lemma f_not_less: "x \<noteq> NaN \<Longrightarrow> y \<noteq> NaN \<Longrightarrow> \<not> f_less x y \<Longrightarrow> f_leq y x"
  using f_less_linear [of x y] by (auto simp: f_leq_def f_eq_def)

lemma clamp_float_range:
  assumes "v \<noteq> NaN" and "lo \<le> def" and "def \<le> hi"
  shows "f_leq (Fin lo) (clamp_float_field v (Fin def) (Fin lo) (Fin hi))"
    and "f_leq (clamp_float_field v (Fin def) (Fin lo) (Fin hi)) (Fin hi)"
  using assms f_not_less [of v "Fin lo"] f_not_less [of "Fin hi" v]
  by (auto simp: clamp_float_field_def f_leq_def f_eq_def)

lemma normalize_cooldowns_ok:
  "cooldowns_ok acc \<Longrightarrow> cooldowns_ok (normalize_cooldowns l acc)"
proof (induction l acc rule: normalize_cooldowns.induct)
  case (2 raw minutes rest acc)
  have "1 \<le> clamp_int_field minutes 60 1 1440 \<and> clamp_int_field minutes 60 1 1440 \<le> 1440"
    by (rule clamp_int_range) auto
  with 2 show ?case by (auto simp: Let_def cooldowns_ok_def)
qed simp

lemma cooldowns_ok_sort [simp]: "cooldowns_ok (sort_key fst l) = cooldowns_ok l"
proof -
  have "distinct (map fst (sort_key fst l)) = distinct (map fst l)"
    by (metis distinct_map mset_sort mset_map mset_eq_imp_distinct_iff)
  then show ?thesis by (simp add: cooldowns_ok_def)
qed

lemma canonical_cooldowns_ok [simp]: "cooldowns_ok (canonical_cooldowns l)"
  unfolding canonical_cooldowns_def cooldowns_ok_sort
  by (rule normalize_cooldowns_ok) (simp add: cooldowns_ok_def)

lemma clamp_spike_ok: "spike_no_nan c \<Longrightarrow> spike_ok (clamp_evt_spike c)"
proof -
  assume nn: "spike_no_nan c"
  show ?thesis
    using nn unfolding spike_ok_def spike_no_nan_def
    by (simp add: clamp_evt_spike_def normalize_channel_cooldowns_def clamp_int_field_def
        clamp_float_range f_1e4_def f_1e9_def f_tenth_def)
qed


lemma normalize_triggers_valid: "set (normalize_triggers trs) \<subseteq> set valid_triggers"
  by (auto simp: normalize_triggers_def default_triggers_def valid_triggers_def)

lemma clamp_repeat_range: "0 \<le> clamp_repeat m" "clamp_repeat m \<le> 10080"
  by (simp_all add: clamp_repeat_def Let_def)

lemma normalize_severity_cases: "normalize_severity s \<in> {[], ''warning'', ''alert''}"
  by (simp add: normalize_severity_def)

lemma normalize_exclusions_ok:
  "nt_triggers t' = nt_triggers t \<Longrightarrow> list_all (exclusion_ok t') (normalize_exclusions t)"
  by (auto simp: normalize_exclusions_def exclusion_ok_def has_trigger_def list_all_iff)

lemma repair_email_cases:
  obtains "repair_email t = t" and "nt_type t = ''email'' \<longrightarrow> email_usable t"
  | "repair_email t = t\<lparr>nt_url := []\<rparr>"
  by (cases "repair_email t = t") (auto simp: repair_email_def email_usable_def Let_def split: if_splits)

lemma repair_email_simps [simp]:
  "nt_type (repair_email t) = nt_type t" "nt_triggers (repair_email t) = nt_triggers t"
  "nt_repeat (repair_email t) = nt_repeat t" "nt_severity (repair_email t) = nt_severity t"
  "nt_exclusions (repair_email t) = nt_exclusions t"
  by (simp_all add: repair_email_def Let_def)

lemma normalize_target_simps [simp]:
  "nt_type (normalize_target t) = nt_type t" "nt_url (normalize_target t) = nt_url t"
  "nt_triggers (normalize_target t) = normalize_triggers (nt_triggers t)"
  "nt_repeat (normalize_target t) = clamp_repeat (nt_repeat t)"
  "nt_severity (normalize_target t) = normalize_severity (nt_severity t)"
  "nt_from (normalize_target t) = nt_from t" "nt_to (normalize_target t) = nt_to t"
  "nt_exclusions (normalize_target t)
     = normalize_exclusions (t\<lparr>nt_triggers := normalize_triggers (nt_triggers t)\<rparr>)"
  by (simp_all add: normalize_target_def Let_def)

lemma normalize_target_ok:
  assumes "keep_target t"
  shows "target_ok (repair_email (normalize_target t))"
proof -
  let ?u = "normalize_target t"
  have "nt_type t \<in> {''webhook'', ''ntfy'', ''email''}" and "nt_url t = [] \<or> valid_scheme (nt_url t)"
    using assms by (simp_all add: keep_target_def)
  moreover have "nt_url (repair_email ?u) = [] \<or> nt_url (repair_email ?u) = nt_url t
      \<and> (nt_type t = ''email'' \<longrightarrow> email_usable (repair_email ?u))"
    by (rule repair_email_cases [of ?u]) auto
  ultimately show ?thesis
    unfolding target_ok_def
    using normalize_triggers_valid clamp_repeat_range normalize_severity_cases
    by (auto simp del: insert_iff intro!: normalize_exclusions_ok)
qed

lemma dedup_hosts_ok:
  "distinct acc \<Longrightarrow> [] \<notin> set acc \<Longrightarrow> distinct (dedup_hosts xs acc) \<and> [] \<notin> set (dedup_hosts xs acc)"
  by (induction xs acc rule: dedup_hosts.induct) (auto simp: Let_def)

lemma normalize_broker_ok: "normalize_broker b = Some b' \<Longrightarrow> broker_ok b'"
  by (auto simp: normalize_broker_def broker_ok_def Let_def split: if_splits)

lemma into_range_bounds [simp]: "lo \<le> hi \<Longrightarrow> lo \<le> into_range lo hi v" "lo \<le> hi \<Longrightarrow> into_range lo hi v \<le> hi"
  by (simp_all add: into_range_def Let_def)

lemma or_default_bounds [simp]:
  "lo \<le> def \<Longrightarrow> lo \<le> or_default def lo hi v" "def \<le> hi \<Longrightarrow> or_default def lo hi v \<le> hi"
  by (simp_all add: or_default_def)

lemma clamp_retention_bounds [simp]: "1 \<le> clamp_retention d" "clamp_retention d \<le> 365"
  by (simp_all add: clamp_retention_def)

lemma validate_sessions_ok [simp]: "sessions_ok (validate_sessions s)"
  by (simp add: sessions_ok_def validate_sessions_def normalize_visibility_def)

lemma validate_dashboard_ok [simp]: "dashboard_ok (validate_dashboard d)"
  using normalize_broker_ok [of "dj_broker d"]
  by (auto simp: dashboard_ok_def validate_dashboard_def broker_ok_def split: option.split)

lemma validate_performance_ok [simp]: "performance_ok (validate_performance p)"
  by (simp add: performance_ok_def validate_performance_def normalize_percentile_def)

lemma validate_update_ok [simp]: "update_ok (validate_update u)"
  by (simp add: update_ok_def validate_update_def hour_def minute_def second_def)

lemma validate_log_level_ok [simp]: "log_level_ok (validate_log_level v ''info'')"
  by (auto simp: validate_log_level_def log_level_ok_def)

lemma validate_targets_ok [simp]: "list_all target_ok (validate_targets ts)"
  by (simp add: validate_targets_def list_all_iff normalize_target_ok)

lemma dedup_hosts_nil_ok [simp]: "distinct (dedup_hosts xs [])" "[] \<notin> set (dedup_hosts xs [])"
  using dedup_hosts_ok [of "[]" xs] by simp_all

lemma validate_config_ok:
  assumes "spike_no_nan (cf_spike c)"
  shows "config_ok (validate_config db_path baseline_path c)"
proof -
  have "spike_ok ((clamp_evt_spike (cf_spike c))\<lparr>ec_baseline_path := p\<rparr>)" for p
    using clamp_spike_ok [OF assms] by (simp add: spike_ok_def)
  then show ?thesis
    unfolding config_ok_def validate_config_def
    by (simp add: into_range_bounds or_default_bounds clamp_retention_bounds)
qed

text \<open>
  C25: whatever \<open>config.json\<close> holds (numbers, strings and targets of any value, but no NaN, which JSON
  cannot carry), after \<open>Validate\<close> every field is inside its documented range: retention, intervals,
  thresholds, port, log levels, session policy, anomaly-detection settings, and every notification
  target has a known type, a usable address or none, known triggers and exclusions of triggers it
  subscribes to.
\<close>

theorem validate_establishes_ranges:
  assumes "spike_no_nan (cf_spike c)"
  shows "config_ok (validate_config db_path baseline_path c)"
  using assms by (rule validate_config_ok)

lemma validate_establishes_ranges_witness:
  "config_ok (validate_config ''db'' ''bl'' ((default_config ''db'')\<lparr>cf_poll_interval := -5, cf_file_level := ''loud''\<rparr>))"
  by (rule validate_establishes_ranges) (simp add: spike_no_nan_def default_config_def)

subsection \<open>Validation is a normal form\<close>

lemma trim_space_Nil [simp]: "trim_space [] = []"
  by (simp add: trim_space_def)

lemma or_default_idem [simp]: "lo \<le> def \<Longrightarrow> def \<le> hi \<Longrightarrow> or_default def lo hi (or_default def lo hi v) = or_default def lo hi v"
  by (simp add: or_default_def)

lemma into_range_idem [simp]: "lo \<le> hi \<Longrightarrow> into_range lo hi (into_range lo hi v) = into_range lo hi v"
  by (simp add: into_range_def Let_def)

lemma clamp_retention_idem [simp]: "clamp_retention (clamp_retention d) = clamp_retention d"
  by (simp add: clamp_retention_def)

lemma clamp_int_idem [simp]:
  "0 < lo \<Longrightarrow> lo \<le> def \<Longrightarrow> def \<le> hi \<Longrightarrow>
   clamp_int_field (clamp_int_field v def lo hi) def lo hi = clamp_int_field v def lo hi"
  by (simp add: clamp_int_field_def)

lemma clamp_float_idem:
  assumes "0 < lo \<or> \<not> f_less v (Fin lo)" and "0 \<le> lo" and "0 < def" and "lo \<le> def" and "def \<le> hi"
  shows "clamp_float_field (clamp_float_field v (Fin def) (Fin lo) (Fin hi)) (Fin def) (Fin lo) (Fin hi)
    = clamp_float_field v (Fin def) (Fin lo) (Fin hi)"
  using assms by (cases v) (auto simp: clamp_float_field_def f_eq_def)

lemma normalize_visibility_idem [simp]: "normalize_visibility (normalize_visibility v) = normalize_visibility v"
  by (simp add: normalize_visibility_def)

lemma validate_sessions_idem [simp]: "validate_sessions (validate_sessions s) = validate_sessions s"
  by (simp add: validate_sessions_def)

lemma to_lower_ascii [simp]: "to_lower ''p50'' = ''p50''" "to_lower ''p95'' = ''p95''"
  by (simp_all add: to_lower_def lower_byte_def is_upper_def)

lemma validate_performance_idem [simp]: "validate_performance (validate_performance p) = validate_performance p"
proof -
  have "into_range 10 300 v \<noteq> 0" for v by (simp add: into_range_def Let_def)
  then show ?thesis by (simp add: validate_performance_def normalize_percentile_def)
qed

lemma normalize_broker_idem: "normalize_broker b = Some b' \<Longrightarrow> normalize_broker b' = Some b'"
  by (auto simp: normalize_broker_def Let_def split: if_splits)

lemma validate_dashboard_idem [simp]: "validate_dashboard (validate_dashboard d) = validate_dashboard d"
proof -
  have g: "trim_space ''Domain Admins'' = ''Domain Admins''"
    by (simp add: trim_space_ascii is_space_def)
  have e: "normalize_broker [] = Some []" by code_simp
  show ?thesis
    using normalize_broker_idem [of "dj_broker d"]
    by (auto simp: validate_dashboard_def g e split: option.split)
qed

lemma validate_update_idem [simp]: "validate_update (validate_update u) = validate_update u"
  by (simp add: validate_update_def hour_def minute_def second_def)

lemma validate_log_level_idem [simp]:
  "validate_log_level (validate_log_level v ''info'') ''info'' = validate_log_level v ''info''"
  by (auto simp: validate_log_level_def to_lower_def lower_byte_def is_upper_def)

lemma normalize_cooldowns_fix:
  assumes "cooldowns_ok (acc @ l)" and "\<forall>(k, m) \<in> set l. trim_space k = k"
  shows "normalize_cooldowns l acc = acc @ l"
  using assms
proof (induction l acc rule: normalize_cooldowns.induct)
  case (2 raw minutes rest acc)
  have "raw \<noteq> []" "raw \<notin> set (map fst acc)" "trim_space raw = raw" "length acc < 256"
    "clamp_int_field minutes 60 1 1440 = minutes"
    using "2.prems" by (auto simp: cooldowns_ok_def clamp_int_field_def)
  with 2 show ?case by simp
qed simp

lemma normalize_cooldowns_trimmed:
  "\<forall>(k, m) \<in> set acc. trim_space k = k \<Longrightarrow> \<forall>(k, m) \<in> set (normalize_cooldowns l acc). trim_space k = k"
  by (induction l acc rule: normalize_cooldowns.induct) (auto simp: Let_def)

lemma canonical_cooldowns_idem [simp]: "canonical_cooldowns (canonical_cooldowns l) = canonical_cooldowns l"
proof -
  have "\<forall>(k, m) \<in> set (canonical_cooldowns l). trim_space k = k"
    using normalize_cooldowns_trimmed [of "[]" "sort_key fst l"] by (simp add: canonical_cooldowns_def)
  then have "normalize_cooldowns (canonical_cooldowns l) [] = canonical_cooldowns l"
    using normalize_cooldowns_fix [of "[]" "canonical_cooldowns l"] by simp
  moreover have "sort_key fst (canonical_cooldowns l) = canonical_cooldowns l"
    by (rule sort_key_id_if_sorted) (simp add: canonical_cooldowns_def)
  ultimately show ?thesis by (simp add: canonical_cooldowns_def)
qed

lemma clamp_evt_spike_idem:
  assumes "\<not> f_less (ec_mean_prior c) (fint 0)"
  shows "clamp_evt_spike (clamp_evt_spike c) = clamp_evt_spike c"
  using assms
  by (simp add: clamp_evt_spike_def normalize_channel_cooldowns_def f_1e4_def f_1e9_def f_tenth_def
      clamp_float_idem)

text \<open>
  Targets. A second pass finds nothing to change when the first kept a trigger of every target that
  named some (an emptied list would be read as the default triggers) and no host name ends in two
  dots (each pass removes one).
\<close>

definition stable_target :: "notify_target \<Rightarrow> bool" where
  "stable_target t \<longleftrightarrow> normalize_triggers (nt_triggers t) \<noteq> []
     \<and> list_all (\<lambda>x. trim_dot (trim_dot (nx_server x)) = trim_dot (nx_server x)) (nt_exclusions t)"

definition stable_config :: "config \<Rightarrow> bool" where
  "stable_config c \<longleftrightarrow> \<not> f_less (ec_mean_prior (cf_spike c)) (fint 0)
     \<and> list_all (\<lambda>t. keep_target t \<longrightarrow> stable_target t) (cf_notifications c)
     \<and> list_all (\<lambda>h. canonical_notification_host (canonical_notification_host h)
          = canonical_notification_host h) (cf_exclusions c)"

lemma normalize_triggers_idem:
  "normalize_triggers trs \<noteq> [] \<Longrightarrow> normalize_triggers (normalize_triggers trs) = normalize_triggers trs"
  by (auto simp: normalize_triggers_def default_triggers_def valid_triggers_def)

lemma clamp_repeat_idem [simp]: "clamp_repeat (clamp_repeat m) = clamp_repeat m"
  by (simp add: clamp_repeat_def Let_def)

lemma normalize_severity_idem [simp]: "normalize_severity (normalize_severity s) = normalize_severity s"
  by (simp add: normalize_severity_def) (simp add: to_lower_def)

lemma normalize_exclusions_fix:
  assumes "list_all (exclusion_ok t) (nt_exclusions t)"
    and "list_all (\<lambda>x. trim_dot (nx_server x) = nx_server x) (nt_exclusions t)"
  shows "normalize_exclusions t = nt_exclusions t"
proof -
  have 1: "map (\<lambda>x. x\<lparr>nx_server := trim_dot (nx_server x)\<rparr>) (nt_exclusions t) = nt_exclusions t"
    using assms(2) by (auto simp: list_all_iff intro!: map_idI)
  have 2: "filter (\<lambda>x. nx_server x \<noteq> []) (nt_exclusions t) = nt_exclusions t"
    using assms(1) by (auto simp: list_all_iff exclusion_ok_def filter_id_conv)
  have "x\<lparr>nx_triggers := filter (\<lambda>tr. tr \<in> set valid_triggers \<and> has_trigger t tr) (nx_triggers x)\<rparr> = x"
    if "x \<in> set (nt_exclusions t)" for x
  proof -
    have "filter (\<lambda>tr. tr \<in> set valid_triggers \<and> has_trigger t tr) (nx_triggers x) = nx_triggers x"
      using assms(1) that by (auto simp: list_all_iff exclusion_ok_def filter_id_conv)
    then show ?thesis by simp
  qed
  then have 3: "map (\<lambda>x. x\<lparr>nx_triggers := filter (\<lambda>tr. tr \<in> set valid_triggers \<and> has_trigger t tr)
    (nx_triggers x)\<rparr>) (nt_exclusions t) = nt_exclusions t"
    by (intro map_idI) 
  have 4: "filter (\<lambda>x. nx_triggers x \<noteq> []) (nt_exclusions t) = nt_exclusions t"
    using assms(1) by (auto simp: list_all_iff exclusion_ok_def filter_id_conv)
  show ?thesis unfolding normalize_exclusions_def 1 2 3 4 ..
qed

lemma normalize_exclusions_trimmed:
  "list_all (\<lambda>x. trim_dot (trim_dot (nx_server x)) = trim_dot (nx_server x)) (nt_exclusions t) \<Longrightarrow>
   list_all (\<lambda>x. trim_dot (nx_server x) = nx_server x) (normalize_exclusions t)"
  by (auto simp: normalize_exclusions_def list_all_iff)

lemma repair_email_idem [simp]: "repair_email (repair_email t) = repair_email t"
  by (auto simp: repair_email_def Let_def)

lemma normalize_target_fix:
  assumes "stable_target t" and "keep_target t"
  defines "u \<equiv> repair_email (normalize_target t)"
  shows "keep_target u \<and> repair_email (normalize_target u) = u"
proof -
  have tr: "nt_triggers u = normalize_triggers (nt_triggers t)" by (simp add: u_def)
  have idem: "normalize_triggers (nt_triggers u) = nt_triggers u"
    using assms(1) normalize_triggers_idem unfolding tr stable_target_def by simp
  have ok: "target_ok u" unfolding u_def by (rule normalize_target_ok [OF assms(2)])
  have "list_all (\<lambda>x. trim_dot (nx_server x) = nx_server x) (nt_exclusions u)"
    using assms(1) by (simp add: u_def stable_target_def normalize_exclusions_trimmed)
  then have ex: "normalize_exclusions u = nt_exclusions u"
    using ok by (intro normalize_exclusions_fix) (simp_all add: target_ok_def)
  have f: "clamp_repeat (nt_repeat u) = nt_repeat u" "normalize_severity (nt_severity u) = nt_severity u"
    by (simp_all add: u_def)
  have "normalize_target u = u"
    unfolding normalize_target_def Let_def idem
    using ex f by simp
  moreover have "repair_email u = u" by (simp add: u_def)
  ultimately show ?thesis using ok by (auto simp: keep_target_def target_ok_def)
qed

lemma dedup_hosts_fix:
  assumes "distinct (acc @ l)" and "[] \<notin> set l" and "\<forall>h \<in> set l. canonical_notification_host h = h"
  shows "dedup_hosts l acc = acc @ l"
  using assms by (induction l acc rule: dedup_hosts.induct) (auto simp: Let_def)

lemma dedup_hosts_image: "set (dedup_hosts l acc) \<subseteq> set acc \<union> canonical_notification_host ` set l"
  by (induction l acc rule: dedup_hosts.induct) (auto simp: Let_def)

text \<open>
  C39: \<open>Validate\<close> writes a normal form: validating a validated configuration again (which is what
  loading the saved file does) changes nothing, provided the mean prior was not negative (it is raised
  to 0, which the next pass reads as unset), every target kept one of its triggers, and no host name
  ends in two dots.
\<close>

theorem validate_idempotent:
  assumes "stable_config c"
  shows "validate_config db bl (validate_config db bl c) = validate_config db bl c"
proof -
  have sp: "clamp_evt_spike ((clamp_evt_spike (cf_spike c))\<lparr>ec_baseline_path := bl\<rparr>)
      = (clamp_evt_spike (cf_spike c))\<lparr>ec_baseline_path := bl\<rparr>"
  proof -
    have "clamp_evt_spike (s\<lparr>ec_baseline_path := bl\<rparr>) = (clamp_evt_spike s)\<lparr>ec_baseline_path := bl\<rparr>" for s
      by (simp add: clamp_evt_spike_def normalize_channel_cooldowns_def)
    then show ?thesis using clamp_evt_spike_idem assms by (simp add: stable_config_def)
  qed
  have "map repair_email (map normalize_target (filter keep_target (validate_targets (cf_notifications c))))
      = validate_targets (cf_notifications c)"
  proof -
    have k: "keep_target u \<and> repair_email (normalize_target u) = u"
      if "u \<in> set (validate_targets (cf_notifications c))" for u
      using that assms normalize_target_fix by (auto simp: validate_targets_def stable_config_def list_all_iff)
    then have "filter keep_target (validate_targets (cf_notifications c)) = validate_targets (cf_notifications c)"
      by (simp add: filter_id_conv)
    with k show ?thesis by (auto intro!: map_idI)
  qed
  then have ts: "validate_targets (validate_targets (cf_notifications c)) = validate_targets (cf_notifications c)"
    by (simp add: validate_targets_def)
  have hs: "dedup_hosts (dedup_hosts (cf_exclusions c) []) [] = dedup_hosts (cf_exclusions c) []"
  proof -
    have "canonical_notification_host h = h" if "h \<in> set (dedup_hosts (cf_exclusions c) [])" for h
      using that assms dedup_hosts_image [of "cf_exclusions c" "[]"]
      by (auto simp: stable_config_def list_all_iff)
    then show ?thesis using dedup_hosts_fix [of "[]" "dedup_hosts (cf_exclusions c) []"] by simp
  qed
  show ?thesis unfolding validate_config_def by (simp add: sp ts hs)
qed


lemma validate_idempotent_witness:
  "validate_config ''db'' ''bl'' (validate_config ''db'' ''bl''
     ((default_config ''db'')\<lparr>cf_exclusions := [''RDS1.corp.'', ''rds1.CORP'']\<rparr>))
   = validate_config ''db'' ''bl'' ((default_config ''db'')\<lparr>cf_exclusions := [''RDS1.corp.'', ''rds1.CORP'']\<rparr>)"
proof (rule validate_idempotent)
  have ch: "char_of n = c \<longleftrightarrow> ord c = n mod 256" for n :: nat and c
    using eq_char_of_iff by metis
  have "canonical_notification_host ''RDS1.corp.'' = ''rds1.corp''"
    "canonical_notification_host ''rds1.CORP'' = ''rds1.corp''"
    "canonical_notification_host ''rds1.corp'' = ''rds1.corp''"
    by (simp_all add: canonical_notification_host_def trim_dot_def trim_space_id is_space_def trim_suffix_def
        trim_prefix_def has_prefix_def to_lower_def lower_byte_def is_upper_def ch)
  then have 1: "list_all (\<lambda>h. canonical_notification_host (canonical_notification_host h)
      = canonical_notification_host h) [''RDS1.corp.'', ''rds1.CORP'']" by simp
  have 2: "\<not> f_less (fint 0) (fint 0)" by simp
  show "stable_config ((default_config ''db'')\<lparr>cf_exclusions := [''RDS1.corp.'', ''rds1.CORP'']\<rparr>)"
    unfolding stable_config_def default_config_def
    using 1 2 by (simp only: config.simps spike_config.simps list.pred_inject simp_thms)
qed

end
