(* ===== verification/ConfigEdit.thy ===== *)
theory ConfigEdit
  imports Config
begin

text \<open>
  Changing the configuration: the patch of the anomaly-detection settings, the scoped updates that load,
  modify and save \<open>config.json\<close> under one lock (\<open>config.go\<close>), the encryption of secrets at rest, the
  run-time settings made from a configuration, and the overlay of the settings that a dashboard sends
  to its agents (\<open>internal/svc/check.go\<close>). The file is the configuration it parses to; sealing and
  opening a secret (DPAPI and base64) are arguments and may fail.
\<close>

subsection \<open>The anomaly-detection patch\<close>

record spike_patch =
  ep_enabled :: "bool option"
  ep_min_count :: "int option"
  ep_threshold :: "float64 option"
  ep_cooldown :: "int option"
  ep_channel_cooldown :: "(string \<times> int) list option"
  ep_maturity :: "int option"
  ep_persist :: "int option"
  ep_half_life :: "int option"
  ep_prior_strength :: "float64 option"
  ep_mean_prior :: "float64 option"
  ep_disabled :: "string list option"
  ep_added :: "string list option"
  ep_security :: "bool option"

definition int_out :: "int \<Rightarrow> int \<Rightarrow> int option \<Rightarrow> bool" where
  "int_out lo hi v = (case v of None \<Rightarrow> False | Some x \<Rightarrow> x < lo \<or> x > hi)"

definition float_out :: "float64 \<Rightarrow> float64 \<Rightarrow> float64 option \<Rightarrow> bool" where
  "float_out lo hi v = (case v of None \<Rightarrow> False | Some x \<Rightarrow> f_less x lo \<or> f_less hi x)"

definition too_many :: "'a list option \<Rightarrow> bool" where
  "too_many v = (case v of None \<Rightarrow> False | Some l \<Rightarrow> length l > 256)"

fun check_cooldowns :: "(string \<times> int) list \<Rightarrow> string list \<Rightarrow> bool" where
  "check_cooldowns [] seen = True"
| "check_cooldowns ((raw, minutes) # rest) seen =
     (let channel = trim_space raw in
      if channel = [] then False
      else if channel \<in> set seen then False
      else if minutes < 1 \<or> minutes > 1440 then False
      else check_cooldowns rest (channel # seen))"

text \<open>The name of the first field out of range; \<open>None\<close> when the patch is accepted.\<close>

definition validate_spike_patch :: "spike_patch \<Rightarrow> string option" where
  "validate_spike_patch p =
     (if int_out 1 10000 (ep_min_count p) then Some ''min_count''
      else if float_out f_1e9 f_tenth (ep_threshold p) then Some ''threshold''
      else if int_out 1 1440 (ep_cooldown p) then Some ''cooldown_minutes''
      else if int_out 1 10000 (ep_maturity p) then Some ''slot_maturity_observations''
      else if int_out 60 86400 (ep_persist p) then Some ''persist_interval_seconds''
      else if int_out 60 10000 (ep_half_life p) then Some ''half_life_buckets''
      else if float_out (fint 1) (fint 10000) (ep_prior_strength p) then Some ''prior_strength''
      else if float_out (fint 0) (fint 1000) (ep_mean_prior p) then Some ''mean_per_bucket_prior''
      else if too_many (ep_disabled p) then Some ''disabled_channels''
      else if too_many (ep_added p) then Some ''added_channels''
      else (case ep_channel_cooldown p of None \<Rightarrow> None
            | Some l \<Rightarrow> if length l > 256 \<or> \<not> check_cooldowns l [] then Some ''channel_cooldown_minutes''
                        else None))"

abbreviation given :: "'a option \<Rightarrow> 'a \<Rightarrow> 'a" where
  "given v old \<equiv> (case v of None \<Rightarrow> old | Some x \<Rightarrow> x)"

definition overlay_spike :: "spike_config \<Rightarrow> spike_patch \<Rightarrow> spike_config" where
  "overlay_spike d p =
     d\<lparr>ec_enabled := given (ep_enabled p) (ec_enabled d),
       ec_min_count := given (ep_min_count p) (ec_min_count d),
       ec_threshold := given (ep_threshold p) (ec_threshold d),
       ec_cooldown := given (ep_cooldown p) (ec_cooldown d),
       ec_channel_cooldown := given (ep_channel_cooldown p) (ec_channel_cooldown d),
       ec_maturity := given (ep_maturity p) (ec_maturity d),
       ec_persist := given (ep_persist p) (ec_persist d),
       ec_half_life := given (ep_half_life p) (ec_half_life d),
       ec_prior_strength := given (ep_prior_strength p) (ec_prior_strength d),
       ec_mean_prior := given (ep_mean_prior p) (ec_mean_prior d),
       ec_disabled := given (ep_disabled p) (ec_disabled d),
       ec_added := given (ep_added p) (ec_added d),
       ec_security := given (ep_security p) (ec_security d)\<rparr>"

definition apply_spike_patch :: "spike_config \<Rightarrow> spike_patch \<Rightarrow> spike_config" where
  "apply_spike_patch d p = clamp_evt_spike (overlay_spike d p)"

definition spike_patch_empty :: "spike_patch \<Rightarrow> bool" where
  "spike_patch_empty p \<longleftrightarrow> ep_enabled p = None \<and> ep_min_count p = None \<and> ep_threshold p = None
     \<and> ep_cooldown p = None \<and> ep_maturity p = None \<and> ep_persist p = None \<and> ep_half_life p = None
     \<and> ep_prior_strength p = None \<and> ep_mean_prior p = None \<and> ep_channel_cooldown p = None
     \<and> ep_disabled p = None \<and> ep_added p = None \<and> ep_security p = None"

lemma check_cooldowns_iff:
  "check_cooldowns l seen \<longleftrightarrow> distinct (map (trim_space \<circ> fst) l)
     \<and> set (map (trim_space \<circ> fst) l) \<inter> set seen = {}
     \<and> (\<forall>(k, m) \<in> set l. trim_space k \<noteq> [] \<and> 1 \<le> m \<and> m \<le> 1440)"
  by (induction l seen rule: check_cooldowns.induct) (auto simp: Let_def)

lemma normalize_cooldowns_checked:
  assumes "check_cooldowns l (map fst acc)" and "length acc + length l \<le> 256"
  shows "normalize_cooldowns l acc = acc @ map (\<lambda>(k, m). (trim_space k, m)) l"
  using assms
proof (induction l acc rule: normalize_cooldowns.induct)
  case (2 raw minutes rest acc)
  then have "clamp_int_field minutes 60 1 1440 = minutes"
    by (auto simp: clamp_int_field_def Let_def split: if_splits)
  with 2 show ?case by (auto simp: check_cooldowns_iff Let_def)
qed simp

lemma clamp_int_in: "lo \<le> v \<Longrightarrow> v \<le> hi \<Longrightarrow> 0 < lo \<Longrightarrow> clamp_int_field v def lo hi = v"
  by (simp add: clamp_int_field_def)

lemma clamp_float_in: "\<not> f_less v lo \<Longrightarrow> \<not> f_less hi v \<Longrightarrow> \<not> f_eq v (fint 0) \<Longrightarrow> clamp_float_field v def lo hi = v"
  by (simp add: clamp_float_field_def)

lemma f_leq_not_less: "f_leq x y \<Longrightarrow> \<not> f_less y x"
  using f_less_asym by (auto simp: f_leq_def f_eq_def)

lemma map_of_perm:
  assumes "distinct (map fst l)" and "mset l' = mset l"
  shows "map_of l' = map_of l"
proof -
  have "distinct (map fst l')" using assms by (metis mset_map mset_eq_imp_distinct_iff)
  then show ?thesis using assms by (metis map_of_inject_set set_mset_mset)
qed

lemma map_of_sort_key [simp]: "distinct (map fst l) \<Longrightarrow> map_of (sort_key f l) = map_of l"
  by (rule map_of_perm) simp_all

lemma check_cooldowns_perm:
  assumes "mset l' = mset l"
  shows "check_cooldowns l' [] = check_cooldowns l []"
proof -
  have "distinct (map (trim_space \<circ> fst) l') = distinct (map (trim_space \<circ> fst) l)"
    by (rule mset_eq_imp_distinct_iff) (simp add: assms)
  moreover have "set l' = set l" using assms by (rule mset_eq_setD)
  ultimately show ?thesis by (simp add: check_cooldowns_iff)
qed

lemma canonical_cooldowns_map:
  assumes "check_cooldowns l []" and "length l \<le> 256"
  shows "map_of (canonical_cooldowns l) = map_of (map (\<lambda>(k, m). (trim_space k, m)) l)"
proof -
  let ?t = "map (\<lambda>(k, m). (trim_space k, m))"
  have keys: "map fst (?t l) = map (trim_space \<circ> fst) l" for l :: "(string \<times> int) list"
    by (induction l) auto
  have c: "check_cooldowns (sort_key fst l) []" using check_cooldowns_perm [of "sort_key fst l" l] assms(1) by simp
  have n: "normalize_cooldowns (sort_key fst l) [] = ?t (sort_key fst l)"
    using normalize_cooldowns_checked [of "sort_key fst l" "[]"] c assms(2) by simp
  have d: "distinct (map fst (?t l))" "distinct (map fst (?t (sort_key fst l)))"
    using assms(1) c unfolding keys check_cooldowns_iff by simp_all
  have "map_of (canonical_cooldowns l) = map_of (?t (sort_key fst l))"
    unfolding canonical_cooldowns_def n using d(2) by simp
  also have "\<dots> = map_of (?t l)"
    using d(1) by (rule map_of_perm) simp
  finally show ?thesis .
qed

lemma canonical_trimmed:
  assumes "canonical_cooldowns l = l"
  shows "map (\<lambda>(k, m). (trim_space k, m)) l = l"
proof -
  have "\<forall>(k, m) \<in> set l. trim_space k = k"
    using normalize_cooldowns_trimmed [of "[]" "sort_key fst l"] assms
    by (metis (no_types, lifting) canonical_cooldowns_def empty_iff list.set(1) set_sort)
  then show ?thesis by (auto intro: map_idI)
qed

text \<open>
  A patch that passes \<open>ValidateEvtSpikePatch\<close> is stored as it was sent: every field it carries
  replaces the old value, every field it leaves out keeps it, channel names are trimmed. The one
  exception is a mean prior of 0, which validation accepts and the clamping after it turns into 0.1.
\<close>

theorem spike_patch_stored:
  assumes valid: "validate_spike_patch p = None"
    and old: "spike_ok d" "canonical_cooldowns (ec_channel_cooldown d) = ec_channel_cooldown d"
  shows "apply_spike_patch d p = (overlay_spike d p)
      \<lparr>ec_channel_cooldown := ec_channel_cooldown (apply_spike_patch d p),
       ec_mean_prior := (if ec_mean_prior (overlay_spike d p) = fint 0 then f_tenth
                         else ec_mean_prior (overlay_spike d p))\<rparr>
    \<and> map_of (ec_channel_cooldown (apply_spike_patch d p))
      = map_of (map (\<lambda>(k, m). (trim_space k, m)) (ec_channel_cooldown (overlay_spike d p)))"
proof
  let ?o = "overlay_spike d p"
  note spike = old(1)[unfolded spike_ok_def]
  have i: "clamp_int_field (given v old) def lo hi = given v old"
    if "\<not> int_out lo hi v" "lo \<le> old" "old \<le> hi" "0 < lo" for v old lo def hi
    using that by (auto simp: int_out_def clamp_int_field_def split: option.splits)
  have f: "clamp_float_field (given v old) def (Fin lo) (Fin hi) =
      (if f_eq (given v old) (fint 0) then def else given v old)"
    if "\<not> float_out (Fin lo) (Fin hi) v" "f_leq (Fin lo) old" "f_leq old (Fin hi)" for v old lo def hi
    using that f_leq_not_less by (auto simp: float_out_def clamp_float_field_def split: option.splits)
  have f_pos: "clamp_float_field (given v old) def lo hi = given v old"
    if "\<not> float_out lo hi v" "f_leq lo old" "f_leq old hi" "f_less (fint 0) lo" for v old lo def hi
    using that f_leq_not_less f_less_irrefl
    by (auto simp: float_out_def clamp_float_field_def f_eq_def split: option.splits)
  have v: "\<not> int_out 1 10000 (ep_min_count p)" "\<not> float_out f_1e9 f_tenth (ep_threshold p)"
    "\<not> int_out 1 1440 (ep_cooldown p)" "\<not> int_out 1 10000 (ep_maturity p)"
    "\<not> int_out 60 86400 (ep_persist p)" "\<not> int_out 60 10000 (ep_half_life p)"
    "\<not> float_out (fint 1) (fint 10000) (ep_prior_strength p)"
    "\<not> float_out (fint 0) (fint 1000) (ep_mean_prior p)"
    using valid unfolding validate_spike_patch_def by (metis option.distinct(1))+
  have ints: "clamp_int_field (ec_min_count ?o) 10 1 10000 = ec_min_count ?o"
    "clamp_int_field (ec_cooldown ?o) 60 1 1440 = ec_cooldown ?o"
    "clamp_int_field (ec_maturity ?o) 630 1 10000 = ec_maturity ?o"
    "clamp_int_field (ec_persist ?o) 900 60 86400 = ec_persist ?o"
    "clamp_int_field (ec_half_life ?o) 630 60 10000 = ec_half_life ?o"
    using spike v by (simp_all add: overlay_spike_def i)
  have floats: "clamp_float_field (ec_threshold ?o) f_1e4 f_1e9 f_tenth = ec_threshold ?o"
    "clamp_float_field (ec_prior_strength ?o) (fint 60) (fint 1) (fint 10000) = ec_prior_strength ?o"
    "clamp_float_field (ec_mean_prior ?o) f_tenth (fint 0) (fint 1000)
      = (if ec_mean_prior ?o = fint 0 then f_tenth else ec_mean_prior ?o)"
    using spike v f_pos [of f_1e9 f_tenth] f_pos [of "fint 1" "fint 10000"] f [of 0 1000]
    by (simp_all add: overlay_spike_def f_1e9_def f_eq_def)
  show "apply_spike_patch d p = ?o
      \<lparr>ec_channel_cooldown := ec_channel_cooldown (apply_spike_patch d p),
       ec_mean_prior := (if ec_mean_prior ?o = fint 0 then f_tenth else ec_mean_prior ?o)\<rparr>"
    unfolding apply_spike_patch_def clamp_evt_spike_def normalize_channel_cooldowns_def
    using ints floats by (simp add: overlay_spike_def)
  have "map_of (canonical_cooldowns (ec_channel_cooldown ?o))
      = map_of (map (\<lambda>(k, m). (trim_space k, m)) (ec_channel_cooldown ?o))"
  proof (cases "ep_channel_cooldown p")
    case None
    then show ?thesis using old(2) canonical_trimmed [OF old(2)] by (simp add: overlay_spike_def)
  next
    case (Some l)
    then have "check_cooldowns l []" "length l \<le> 256"
      using valid by (auto simp: validate_spike_patch_def split: if_splits)
    with canonical_cooldowns_map Some show ?thesis by (simp add: overlay_spike_def)
  qed
  then show "map_of (ec_channel_cooldown (apply_spike_patch d p))
      = map_of (map (\<lambda>(k, m). (trim_space k, m)) (ec_channel_cooldown ?o))"
    by (simp add: apply_spike_patch_def clamp_evt_spike_def normalize_channel_cooldowns_def)
qed

subsection \<open>Secrets at rest\<close>

text \<open>
  \<open>seal\<close> is DPAPI encryption followed by base64, \<open>unseal\<close> base64 decoding followed by DPAPI
  decryption; \<open>None\<close> is a failure of either.
\<close>

definition dpapi_prefix :: string where "dpapi_prefix = ''dpapi:''"

definition unseal_target :: "(string \<Rightarrow> string option) \<Rightarrow> notify_target \<Rightarrow> notify_target" where
  "unseal_target unseal t =
     (if \<not> has_prefix (nt_secret t) dpapi_prefix then t
      else case unseal (trim_prefix (nt_secret t) dpapi_prefix) of
             None \<Rightarrow> t\<lparr>nt_secret := []\<rparr> | Some pt \<Rightarrow> t\<lparr>nt_secret := pt\<rparr>)"

definition decrypt_secrets :: "(string \<Rightarrow> string option) \<Rightarrow> config \<Rightarrow> config" where
  "decrypt_secrets unseal c = c\<lparr>cf_notifications := map (unseal_target unseal) (cf_notifications c)\<rparr>"

definition seal_target :: "(string \<Rightarrow> string option) \<Rightarrow> notify_target \<Rightarrow> notify_target option" where
  "seal_target seal t =
     (if nt_secret t = [] \<or> has_prefix (nt_secret t) dpapi_prefix then Some t
      else case seal (nt_secret t) of None \<Rightarrow> None | Some ct \<Rightarrow> Some (t\<lparr>nt_secret := dpapi_prefix @ ct\<rparr>))"

fun seal_targets :: "(string \<Rightarrow> string option) \<Rightarrow> notify_target list \<Rightarrow> notify_target list option" where
  "seal_targets seal [] = Some []"
| "seal_targets seal (t # ts) =
     (case seal_target seal t of None \<Rightarrow> None
      | Some t' \<Rightarrow> (case seal_targets seal ts of None \<Rightarrow> None | Some ts' \<Rightarrow> Some (t' # ts')))"

definition config_for_persistence :: "(string \<Rightarrow> string option) \<Rightarrow> config \<Rightarrow> config option" where
  "config_for_persistence seal c =
     (case seal_targets seal (cf_notifications c) of None \<Rightarrow> None
      | Some ts \<Rightarrow> Some (c\<lparr>cf_notifications := ts\<rparr>))"

lemma seal_target_unseal:
  assumes "\<forall>s ct. seal s = Some ct \<longrightarrow> unseal ct = Some s"
    and "\<not> has_prefix (nt_secret t) dpapi_prefix" and "seal_target seal t = Some t'"
  shows "unseal_target unseal t' = t"
  using assms by (auto simp: seal_target_def unseal_target_def split: if_splits option.splits)

lemma seal_targets_unseal:
  assumes "\<forall>s ct. seal s = Some ct \<longrightarrow> unseal ct = Some s"
    and "\<forall>t \<in> set ts. \<not> has_prefix (nt_secret t) dpapi_prefix" and "seal_targets seal ts = Some ts'"
  shows "map (unseal_target unseal) ts' = ts"
  using assms(2,3)
  by (induction ts arbitrary: ts') (auto split: option.splits dest: seal_target_unseal [OF assms(1)])

text \<open>
  What is saved with its secrets sealed loads back with the same secrets, when opening undoes
  sealing and no secret in clear starts with the marker \<open>dpapi:\<close> (such a secret is taken for a sealed
  one and saved in clear).
\<close>

theorem secrets_roundtrip:
  assumes "\<forall>s ct. seal s = Some ct \<longrightarrow> unseal ct = Some s"
    and "\<forall>t \<in> set (cf_notifications c). \<not> has_prefix (nt_secret t) dpapi_prefix"
    and "config_for_persistence seal c = Some stored"
  shows "decrypt_secrets unseal stored = c"
  using assms(3) seal_targets_unseal [OF assms(1,2)]
  by (auto simp: config_for_persistence_def decrypt_secrets_def split: option.splits)

subsection \<open>Load, modify, save\<close>

text \<open>The registry values of an installation that predates \<open>config.json\<close>; \<open>None\<close> is an absent value.\<close>

record registry_values =
  rv_grace :: "int option"
  rv_retention :: "int option"
  rv_poll :: "int option"
  rv_audit_path :: "string option"
  rv_webhook :: "string option"
  rv_ntfy :: "string option"
  rv_on_transition :: "int option"
  rv_on_grace :: "int option"
  rv_repeat :: "int option"
  rv_dash_enabled :: "int option"
  rv_dash_port :: "int option"
  rv_dash_group :: "string option"
  rv_dash_url :: "string option"

definition legacy_triggers :: "registry_values \<Rightarrow> trigger list" where
  "legacy_triggers r =
     (let on_transition = (case rv_on_transition r of None \<Rightarrow> True | Some v \<Rightarrow> v \<noteq> 0);
          on_grace = (case rv_on_grace r of None \<Rightarrow> True | Some v \<Rightarrow> v \<noteq> 0);
          ts = (if on_transition then [''drain_on'', ''drain_off'', ''grace_entered'', ''healthy''] else [])
               @ (if on_grace then [''alert''] else [])
      in if ts = [] then default_triggers else ts)"

definition legacy_target :: "registry_values \<Rightarrow> string \<Rightarrow> string \<Rightarrow> notify_target list" where
  "legacy_target r kind url =
     (if url = [] then []
      else [\<lparr>nt_type = kind, nt_url = url, nt_triggers = legacy_triggers r, nt_repeat = given (rv_repeat r) 0,
             nt_secret = [], nt_to = [], nt_from = [], nt_enabled = None, nt_severity = [], nt_exclusions = []\<rparr>])"

definition registry_config :: "string \<Rightarrow> registry_values \<Rightarrow> config" where
  "registry_config db r =
     (let c = default_config db; d = cf_dashboard c;
          nonempty = (\<lambda>v old. case v of None \<Rightarrow> old | Some s \<Rightarrow> if s = [] then old else s)
      in c\<lparr>cf_grace_period := given (rv_grace r) (cf_grace_period c),
           cf_retention_days := given (rv_retention r) (cf_retention_days c),
           cf_poll_interval := given (rv_poll r) (cf_poll_interval c),
           cf_audit_path := nonempty (rv_audit_path r) (cf_audit_path c),
           cf_notifications := legacy_target r ''webhook'' (given (rv_webhook r) [])
             @ legacy_target r ''ntfy'' (given (rv_ntfy r) []),
           cf_dashboard := d\<lparr>dj_enabled := (case rv_dash_enabled r of None \<Rightarrow> dj_enabled d | Some v \<Rightarrow> v \<noteq> 0),
             dj_port := given (rv_dash_port r) (dj_port d),
             dj_group := nonempty (rv_dash_group r) (dj_group d),
             dj_url := given (rv_dash_url r) (dj_url d)\<rparr>\<rparr>)"

text \<open>The functions that stand for the machine: sealing and opening of secrets, and the two canonical paths.\<close>

record machine =
  mc_seal :: "string \<Rightarrow> string option"
  mc_unseal :: "string \<Rightarrow> string option"
  mc_db_path :: string
  mc_baseline_path :: string

definition validated :: "machine \<Rightarrow> config \<Rightarrow> config" where
  "validated m = validate_config (mc_db_path m) (mc_baseline_path m)"

definition migrate_from_registry :: "machine \<Rightarrow> registry_values \<Rightarrow> (config \<times> config) option" where
  "migrate_from_registry m r =
     (let c = validated m (registry_config (mc_db_path m) r) in
      case config_for_persistence (mc_seal m) c of None \<Rightarrow> None
      | Some stored \<Rightarrow> Some (decrypt_secrets (mc_unseal m) c, stored))"

datatype config_file = Missing | Unreadable | Holds config

datatype config_error = ReadFailed | SealFailed | Rejected string

text \<open>\<open>loadConfigLocked\<close>: the file after it, and the configuration in memory.\<close>

definition load_config :: "machine \<Rightarrow> registry_values option \<Rightarrow> config_file \<Rightarrow> config_file \<times> (config_error + config)" where
  "load_config m reg file =
     (case file of
        Unreadable \<Rightarrow> (file, Inl ReadFailed)
      | Holds c \<Rightarrow> (file, Inr (decrypt_secrets (mc_unseal m) (validated m c)))
      | Missing \<Rightarrow>
          (case Option.bind reg (migrate_from_registry m) of
             Some (c, stored) \<Rightarrow> (Holds stored, Inr c)
           | None \<Rightarrow>
               (let c = default_config (mc_db_path m) in
                case config_for_persistence (mc_seal m) c of
                  None \<Rightarrow> (file, Inl SealFailed) | Some stored \<Rightarrow> (Holds stored, Inr c))))"

definition read_modify_write ::
  "machine \<Rightarrow> registry_values option \<Rightarrow> (config \<Rightarrow> config_error + config) \<Rightarrow> config_file
   \<Rightarrow> config_file \<times> config_error option" where
  "read_modify_write m reg f file =
     (case load_config m reg file of
        (file, Inl e) \<Rightarrow> (file, Some e)
      | (file, Inr c) \<Rightarrow>
          (case f c of Inl e \<Rightarrow> (file, Some e)
           | Inr c' \<Rightarrow>
               (case config_for_persistence (mc_seal m) (validated m c') of
                  None \<Rightarrow> (file, Some SealFailed) | Some stored \<Rightarrow> (Holds stored, None))))"

subsection \<open>The scoped updates\<close>

definition update_notify_settings ::
  "notify_target list option \<Rightarrow> int option \<Rightarrow> int option \<Rightarrow> int option \<Rightarrow> perf_config option
   \<Rightarrow> config \<Rightarrow> config_error + config" where
  "update_notify_settings notifications threshold grace poll performance c =
     (if int_out 0 100 threshold then Inl (Rejected ''threshold'')
      else if int_out 1 1440 grace then Inl (Rejected ''grace period'')
      else if int_out 10 86400 poll then Inl (Rejected ''poll interval'')
      else Inr (c\<lparr>cf_notifications := given notifications (cf_notifications c),
                  cf_session_warning := given threshold (cf_session_warning c),
                  cf_grace_period := given grace (cf_grace_period c),
                  cf_poll_interval := given poll (cf_poll_interval c),
                  cf_performance := given performance (cf_performance c)\<rparr>))"

definition toggle_exclusion :: "string \<Rightarrow> string list \<Rightarrow> string list \<times> bool" where
  "toggle_exclusion host l =
     (case dropWhile (\<lambda>x. canonical_notification_host x \<noteq> host) l of
        [] \<Rightarrow> (l @ [host], True)
      | x # rest \<Rightarrow> (takeWhile (\<lambda>x. canonical_notification_host x \<noteq> host) l @ rest, False))"

datatype config_op =
    Notify_Settings "notify_target list option" "int option" "int option" "int option" "perf_config option"
  | Set_Update update_config
  | Set_Sessions sessions_config
  | Toggle_Exclusion string
  | Patch_Spike spike_patch
  | Set_Broker string
  | Set_Certificate string string

text \<open>
  The exported updaters; what they check before they take the lock comes first. \<open>UpdateEvtSpike\<close> returns
  without touching the file when the patch is empty.
\<close>

definition update_update_config ::
  "machine \<Rightarrow> registry_values option \<Rightarrow> update_config \<Rightarrow> config_file \<Rightarrow> config_file \<times> config_error option" where
  "update_update_config m reg u file =
     (if uc_channel u \<noteq> ''stable'' \<and> uc_channel u \<noteq> ''prerelease'' then (file, Some (Rejected ''channel''))
      else if uc_poll_interval u < hour then (file, Some (Rejected ''poll interval''))
      else read_modify_write m reg (\<lambda>c. Inr (c\<lparr>cf_update := u\<rparr>)) file)"

definition update_sessions_config ::
  "machine \<Rightarrow> registry_values option \<Rightarrow> sessions_config \<Rightarrow> config_file \<Rightarrow> config_file \<times> config_error option" where
  "update_sessions_config m reg x file =
     (if \<not> validate_sessions_config x then (file, Some (Rejected ''sessions''))
      else read_modify_write m reg (\<lambda>c. Inr (c\<lparr>cf_sessions := x\<rparr>)) file)"

definition toggle_notification_exclusion ::
  "machine \<Rightarrow> registry_values option \<Rightarrow> string \<Rightarrow> config_file \<Rightarrow> config_file \<times> config_error option" where
  "toggle_notification_exclusion m reg h file =
     (let host = canonical_notification_host h in
      if host = [] then (file, Some (Rejected ''host''))
      else read_modify_write m reg (\<lambda>c. Inr (c\<lparr>cf_exclusions := fst (toggle_exclusion host (cf_exclusions c))\<rparr>)) file)"

definition update_evt_spike ::
  "machine \<Rightarrow> registry_values option \<Rightarrow> spike_patch \<Rightarrow> config_file \<Rightarrow> config_file \<times> config_error option" where
  "update_evt_spike m reg p file =
     (case validate_spike_patch p of Some field \<Rightarrow> (file, Some (Rejected field))
      | None \<Rightarrow> if spike_patch_empty p then (file, None)
                else read_modify_write m reg (\<lambda>c. Inr (c\<lparr>cf_spike := apply_spike_patch (cf_spike c) p\<rparr>)) file)"

definition persist_broker ::
  "machine \<Rightarrow> registry_values option \<Rightarrow> string \<Rightarrow> config_file \<Rightarrow> config_file \<times> config_error option" where
  "persist_broker m reg b file =
     (case normalize_broker b of None \<Rightarrow> (file, Some (Rejected ''broker''))
      | Some b' \<Rightarrow> read_modify_write m reg (\<lambda>c. Inr (c\<lparr>cf_dashboard := (cf_dashboard c)\<lparr>dj_broker := b'\<rparr>\<rparr>)) file)"

definition install_certificate ::
  "machine \<Rightarrow> registry_values option \<Rightarrow> string \<Rightarrow> string \<Rightarrow> config_file \<Rightarrow> config_file \<times> config_error option" where
  "install_certificate m reg cert key file =
     read_modify_write m reg
       (\<lambda>c. Inr (c\<lparr>cf_dashboard := (cf_dashboard c)\<lparr>dj_tls_cert := cert, dj_tls_key := key\<rparr>\<rparr>)) file"

definition config_step ::
  "machine \<Rightarrow> registry_values option \<Rightarrow> config_op \<Rightarrow> config_file \<Rightarrow> config_file \<times> config_error option" where
  "config_step m reg op file =
     (case op of
        Notify_Settings n t g p perf \<Rightarrow> read_modify_write m reg (update_notify_settings n t g p perf) file
      | Set_Update u \<Rightarrow> update_update_config m reg u file
      | Set_Sessions x \<Rightarrow> update_sessions_config m reg x file
      | Toggle_Exclusion h \<Rightarrow> toggle_notification_exclusion m reg h file
      | Patch_Spike p \<Rightarrow> update_evt_spike m reg p file
      | Set_Broker b \<Rightarrow> persist_broker m reg b file
      | Set_Certificate cert key \<Rightarrow> install_certificate m reg cert key file)"

lemmas config_updates_defs = config_step_def update_update_config_def update_sessions_config_def
  toggle_notification_exclusion_def update_evt_spike_def persist_broker_def install_certificate_def

lemma seal_targets_set: "seal_targets seal ts = Some ts' \<Longrightarrow> u \<in> set ts' \<Longrightarrow> \<exists>t \<in> set ts. seal_target seal t = Some u"
  by (induction ts arbitrary: ts') (auto split: option.splits)

lemma target_ok_secret: "target_ok (t\<lparr>nt_secret := x\<rparr>) = target_ok t"
proof -
  have "exclusion_ok (t\<lparr>nt_secret := x\<rparr>) = exclusion_ok t"
    by (rule ext) (simp add: exclusion_ok_def has_trigger_def)
  then show ?thesis by (simp add: target_ok_def email_usable_def)
qed

lemma seal_target_ok: "seal_target seal t = Some u \<Longrightarrow> target_ok u = target_ok t"
  by (auto simp: seal_target_def target_ok_secret split: if_splits option.splits)

lemma persisted_ok:
  "config_for_persistence seal c = Some stored \<Longrightarrow> config_ok c \<Longrightarrow> config_ok stored"
proof -
  assume a: "config_for_persistence seal c = Some stored" and ok: "config_ok c"
  then obtain ts where ts: "seal_targets seal (cf_notifications c) = Some ts" "stored = c\<lparr>cf_notifications := ts\<rparr>"
    by (auto simp: config_for_persistence_def split: option.splits)
  have "list_all target_ok ts"
    using seal_targets_set [OF ts(1)] seal_target_ok ok by (fastforce simp: list_all_iff config_ok_def)
  then show "config_ok stored" using ok ts(2) by (simp add: config_ok_def)
qed

text \<open>What the operations read and write holds no NaN; JSON cannot carry one.\<close>

definition file_no_nan :: "config_file \<Rightarrow> bool" where
  "file_no_nan file = (case file of Holds c \<Rightarrow> spike_no_nan (cf_spike c) | _ \<Rightarrow> True)"

definition op_no_nan :: "config_op \<Rightarrow> bool" where
  "op_no_nan op = (case op of
     Patch_Spike p \<Rightarrow> NaN \<notin> set_option (ep_threshold p) \<union> set_option (ep_prior_strength p) \<union> set_option (ep_mean_prior p)
   | _ \<Rightarrow> True)"

lemma spike_ok_no_nan: "spike_ok c \<Longrightarrow> spike_no_nan c"
  by (auto simp: spike_ok_def spike_no_nan_def f_leq_def f_eq_def)

lemma validated_ok: "spike_no_nan (cf_spike c) \<Longrightarrow> config_ok (validated m c)"
  unfolding validated_def by (rule validate_config_ok)

lemma config_ok_no_nan: "config_ok c \<Longrightarrow> spike_no_nan (cf_spike c)"
  by (simp add: config_ok_def spike_ok_no_nan)

lemma rmw_valid:
  assumes holds: "file = Holds c" "config_ok c"
    and keeps: "\<forall>c c'. spike_no_nan (cf_spike c) \<longrightarrow> f c = Inr c' \<longrightarrow> spike_no_nan (cf_spike c')"
  shows "fst (read_modify_write m reg f file) = file
    \<or> (\<exists>c'. fst (read_modify_write m reg f file) = Holds c' \<and> config_ok c')"
proof -
  let ?c = "decrypt_secrets (mc_unseal m) (validated m c)"
  have nn: "spike_no_nan (cf_spike ?c)"
    using config_ok_no_nan [OF validated_ok [OF config_ok_no_nan [OF holds(2)]]] by (simp add: decrypt_secrets_def)
  show ?thesis
    using validated_ok keeps nn persisted_ok
    by (auto simp: read_modify_write_def load_config_def holds(1) split: sum.split option.split)
qed

lemma clamp_float_no_nan: "v \<noteq> NaN \<Longrightarrow> def \<noteq> NaN \<Longrightarrow> lo \<noteq> NaN \<Longrightarrow> hi \<noteq> NaN \<Longrightarrow> clamp_float_field v def lo hi \<noteq> NaN"
  by (simp add: clamp_float_field_def)

lemma apply_patch_no_nan:
  "op_no_nan (Patch_Spike p) \<Longrightarrow> spike_no_nan d \<Longrightarrow> spike_no_nan (apply_spike_patch d p)"
proof -
  assume "op_no_nan (Patch_Spike p)" "spike_no_nan d"
  then have "spike_no_nan (overlay_spike d p)"
    by (auto simp: op_no_nan_def spike_no_nan_def overlay_spike_def split: option.splits)
  then show "spike_no_nan (apply_spike_patch d p)" unfolding apply_spike_patch_def by (rule spike_ok_no_nan [OF clamp_spike_ok])
qed

definition file_valid :: "config_file \<Rightarrow> bool" where
  "file_valid file = (case file of Holds c \<Rightarrow> config_ok c | _ \<Rightarrow> False)"

lemma config_step_valid:
  assumes "file_valid file" and op: "op_no_nan op"
  shows "file_valid (fst (config_step m reg op file))"
proof -
  obtain c where c: "file = Holds c" "config_ok c"
    using assms(1) by (auto simp: file_valid_def split: config_file.splits)
  have r: "file_valid (fst (read_modify_write m reg f file))"
    if "\<And>c c'. spike_no_nan (cf_spike c) \<Longrightarrow> f c = Inr c' \<Longrightarrow> spike_no_nan (cf_spike c')" for f
    using rmw_valid [OF c, of f m reg] that assms(1) by (auto simp: file_valid_def)
  have n: "update_notify_settings n t g p perf c = Inr c' \<Longrightarrow> cf_spike c' = cf_spike c" for n t g p perf c c'
    by (auto simp: update_notify_settings_def split: if_splits)
  show ?thesis
    using assms(1) op apply_patch_no_nan
    by (cases op) (auto simp: config_updates_defs Let_def n intro!: r split: option.split)
qed

interpretation config_updates: step_invariant
  "\<lambda>op file. if op_no_nan op then fst (config_step m reg op file) else file" file_valid
  by unfold_locales (simp add: config_step_valid)

text \<open>
  C8: the configuration file stays valid under every sequence of updates (notification settings, update
  policy, session policy, exclusions, anomaly-detection patches, broker, certificate), accepted or
  rejected, whatever values they carry (no NaN, which JSON cannot carry): each leaves the file as it was or replaces it by a
  configuration inside all its documented ranges.
\<close>

theorem updates_keep_config_valid:
  assumes "config_ok c" and "\<forall>op \<in> set ops. op_no_nan op"
  shows "\<exists>c'. fold (\<lambda>op file. fst (config_step m reg op file)) ops (Holds c) = Holds c' \<and> config_ok c'"
proof -
  have "fold (\<lambda>op file. fst (config_step m reg op file)) ops (Holds c)
      = fold (\<lambda>op file. if op_no_nan op then fst (config_step m reg op file) else file) ops (Holds c)"
    using assms(2) by (intro fold_cong) auto
  moreover have "file_valid (fold (\<lambda>op file. if op_no_nan op then fst (config_step m reg op file) else file)
      ops (Holds c))"
    using assms(1) by (intro config_updates.inv_run) (simp add: file_valid_def)
  ultimately show ?thesis by (auto simp: file_valid_def split: config_file.splits)
qed

subsection \<open>Toggling an exclusion\<close>

lemma excluded_iff:
  "is_notification_excluded l h \<longleftrightarrow>
     canonical_notification_host h \<noteq> [] \<and> canonical_notification_host h \<in> canonical_notification_host ` set l"
  by (auto simp: is_notification_excluded_def Let_def list_ex_iff image_iff) metis

lemma toggle_image:
  assumes "distinct (map canonical_notification_host l)" and "canonical_notification_host h = h"
  shows "canonical_notification_host ` set (fst (toggle_exclusion h l))
    = (if h \<in> canonical_notification_host ` set l then canonical_notification_host ` set l - {h}
       else insert h (canonical_notification_host ` set l))"
    and "snd (toggle_exclusion h l) \<longleftrightarrow> h \<notin> canonical_notification_host ` set l"
proof -
  let ?P = "\<lambda>x. canonical_notification_host x \<noteq> h"
  have split: "l = takeWhile ?P l @ dropWhile ?P l" by simp
  show "canonical_notification_host ` set (fst (toggle_exclusion h l))
    = (if h \<in> canonical_notification_host ` set l then canonical_notification_host ` set l - {h}
       else insert h (canonical_notification_host ` set l))"
  proof (cases "dropWhile ?P l")
    case Nil
    then have "h \<notin> canonical_notification_host ` set l" by (auto simp: dropWhile_eq_Nil_conv)
    moreover have "fst (toggle_exclusion h l) = l @ [h]" by (simp add: toggle_exclusion_def Nil)
    ultimately show ?thesis using assms(2) by simp
  next
    case (Cons x rest)
    have x: "canonical_notification_host x = h" using hd_dropWhile [of ?P l] Cons by simp
    have l: "l = takeWhile ?P l @ x # rest" using split Cons by simp
    have d: "distinct (map canonical_notification_host (takeWhile ?P l @ x # rest))" using assms(1) l by simp
    let ?A = "canonical_notification_host ` set (takeWhile ?P l)" and ?B = "canonical_notification_host ` set rest"
    have "h \<notin> ?A" "h \<notin> ?B" using d x by auto
    moreover have "canonical_notification_host ` set l = insert h (?A \<union> ?B)" using x by (subst l) auto
    moreover have "canonical_notification_host ` set (fst (toggle_exclusion h l)) = ?A \<union> ?B"
      by (simp add: toggle_exclusion_def Cons image_Un)
    ultimately show ?thesis by simp
  qed
  show "snd (toggle_exclusion h l) \<longleftrightarrow> h \<notin> canonical_notification_host ` set l"
  proof (cases "dropWhile ?P l")
    case Nil
    then have "h \<notin> canonical_notification_host ` set l" by (auto simp: dropWhile_eq_Nil_conv)
    then show ?thesis by (simp add: toggle_exclusion_def Nil)
  next
    case (Cons x rest)
    then have "x \<in> set l" "canonical_notification_host x = h"
      using hd_dropWhile [of ?P l] set_dropWhileD [of x ?P l] by auto
    then show ?thesis using Cons by (auto simp: toggle_exclusion_def)
  qed
qed

text \<open>
  Toggling a host flips exactly its own exclusion: the answer says whether it is excluded now, the
  routing test agrees, and every other host keeps its standing; for lists as \<open>Validate\<close> leaves them
  (no host twice) and a host whose canonical name is stable (it does not end in two dots).
\<close>

theorem toggle_flips_only_host:
  assumes "distinct (map canonical_notification_host l)"
    and "canonical_notification_host (canonical_notification_host host) = canonical_notification_host host"
    and "canonical_notification_host host \<noteq> []"
    and "toggle_exclusion (canonical_notification_host host) l = (l', excluded)"
  shows "(excluded \<longleftrightarrow> \<not> is_notification_excluded l host)
    \<and> (\<forall>other. is_notification_excluded l' other \<longleftrightarrow>
      (if canonical_notification_host other = canonical_notification_host host then excluded
       else is_notification_excluded l other))"
  using toggle_image [OF assms(1,2)] assms(3,4) by (auto simp: excluded_iff split: if_splits)

lemma toggle_flips_only_host_witness:
  "(False \<longleftrightarrow> \<not> is_notification_excluded [''a'', ''b''] ''a'')
    \<and> (\<forall>other. is_notification_excluded [''b''] other \<longleftrightarrow>
      (if canonical_notification_host other = canonical_notification_host ''a'' then False
       else is_notification_excluded [''a'', ''b''] other))"
proof -
  have "canonical_notification_host ''a'' = ''a''" "canonical_notification_host ''b'' = ''b''"
    by (simp_all add: canonical_notification_host_def trim_dot_def trim_space_id is_space_def trim_suffix_def
        trim_prefix_def has_prefix_def to_lower_def lower_byte_def is_upper_def)
  then show ?thesis
    using toggle_flips_only_host [of "[''a'', ''b'']" "''a''" "[''b'']" False]
    by (simp add: toggle_exclusion_def)
qed

subsection \<open>Secrets that cannot be opened\<close>

lemma seal_targets_keeps_empty:
  "seal_targets seal ts = Some ts' \<Longrightarrow> \<forall>t \<in> set ts. nt_secret t = [] \<Longrightarrow> ts' = ts"
  by (induction ts arbitrary: ts') (auto simp: seal_target_def split: option.splits)

lemma validate_targets_secret:
  "t \<in> set (validate_targets ts) \<Longrightarrow> \<exists>u \<in> set ts. nt_secret t = nt_secret u"
  by (auto simp: validate_targets_def repair_email_def normalize_target_def Let_def)

text \<open>The updates that write the file without supplying notification targets.\<close>

definition keeps_targets :: "config_op \<Rightarrow> bool" where
  "keeps_targets op \<longleftrightarrow>
     (case op of Notify_Settings n t g p perf \<Rightarrow> n = None | Patch_Spike p \<Rightarrow> \<not> spike_patch_empty p | _ \<Rightarrow> True)"

lemma keeps_targets_save:
  assumes "keeps_targets op" and "config_step m reg op file = (file', None)"
  shows "\<exists>f. read_modify_write m reg f file = (file', None)
    \<and> (\<forall>c c'. f c = Inr c' \<longrightarrow> cf_notifications c' = cf_notifications c)"
proof (cases op)
  case (Notify_Settings n t g p perf)
  then show ?thesis
    using assms by (intro exI [of _ "update_notify_settings n t g p perf"])
      (auto simp: config_step_def keeps_targets_def update_notify_settings_def split: if_splits)
next
  case (Set_Update u)
  then show ?thesis
    using assms(2) by (intro exI [of _ "\<lambda>c. Inr (c\<lparr>cf_update := u\<rparr>)"]) (auto simp: config_updates_defs split: if_splits)
next
  case (Set_Sessions x)
  then show ?thesis
    using assms(2) by (intro exI [of _ "\<lambda>c. Inr (c\<lparr>cf_sessions := x\<rparr>)"]) (auto simp: config_updates_defs split: if_splits)
next
  case (Toggle_Exclusion h)
  then show ?thesis
    using assms(2) by (intro exI [of _ "\<lambda>c. Inr (c\<lparr>cf_exclusions :=
        fst (toggle_exclusion (canonical_notification_host h) (cf_exclusions c))\<rparr>)"])
      (auto simp: config_updates_defs Let_def split: if_splits)
next
  case (Patch_Spike p)
  then show ?thesis
    using assms by (intro exI [of _ "\<lambda>c. Inr (c\<lparr>cf_spike := apply_spike_patch (cf_spike c) p\<rparr>)"])
      (auto simp: config_updates_defs keeps_targets_def split: option.splits)
next
  case (Set_Broker b)
  then show ?thesis
    using assms(2) by (intro exI [of _ "\<lambda>c. Inr (c\<lparr>cf_dashboard := (cf_dashboard c)\<lparr>dj_broker := the (normalize_broker b)\<rparr>\<rparr>)"])
      (auto simp: config_updates_defs split: option.splits)
next
  case (Set_Certificate cert key)
  then show ?thesis
    using assms(2) by (intro exI [of _ "\<lambda>c. Inr (c\<lparr>cf_dashboard := (cf_dashboard c)\<lparr>dj_tls_cert := cert, dj_tls_key := key\<rparr>\<rparr>)"])
      (auto simp: config_updates_defs)
qed

lemma save_erases_secrets:
  assumes sealed: "\<forall>t \<in> set (cf_notifications c). nt_secret t = [] \<or> has_prefix (nt_secret t) dpapi_prefix"
    and fails: "\<forall>s. mc_unseal m s = None"
    and step: "read_modify_write m reg f (Holds c) = (Holds c', None)"
    and keeps: "\<forall>c c'. f c = Inr c' \<longrightarrow> cf_notifications c' = cf_notifications c"
  shows "\<forall>t \<in> set (cf_notifications c'). nt_secret t = []"
proof -
  let ?d = "decrypt_secrets (mc_unseal m) (validated m c)"
  obtain e where e: "f ?d = Inr e" and ts: "seal_targets (mc_seal m) (cf_notifications (validated m e)) = Some (cf_notifications c')"
    using step
    by (auto simp: read_modify_write_def load_config_def config_for_persistence_def
        split: if_splits option.splits sum.splits)
  have "nt_secret t = []" if d: "t \<in> set (cf_notifications ?d)" for t
  proof -
    have "\<forall>t \<in> set (cf_notifications (validated m c)). nt_secret t = [] \<or> has_prefix (nt_secret t) dpapi_prefix"
      using sealed validate_targets_secret by (fastforce simp: validated_def validate_config_def)
    then show ?thesis using d fails by (auto simp: decrypt_secrets_def unseal_target_def)
  qed
  then have "\<forall>t \<in> set (cf_notifications e). nt_secret t = []" using keeps e by simp
  then have "\<forall>t \<in> set (cf_notifications (validated m e)). nt_secret t = []"
    using validate_targets_secret by (fastforce simp: validated_def validate_config_def)
  with seal_targets_keeps_empty [OF ts] show ?thesis by simp
qed

text \<open>
  C37: when the stored secrets are all sealed (or empty) and cannot be opened (the file was restored on
  another machine, or the key is gone), every accepted update that saves the file and brings no targets of
  its own, whatever setting it changes, overwrites all of them with the empty secret.
\<close>

theorem failed_unseal_erases_secrets:
  assumes "\<forall>t \<in> set (cf_notifications c). nt_secret t = [] \<or> has_prefix (nt_secret t) dpapi_prefix"
    and "\<forall>s. mc_unseal m s = None" and "keeps_targets op"
    and "config_step m reg op (Holds c) = (Holds c', None)"
  shows "\<forall>t \<in> set (cf_notifications c'). nt_secret t = []"
proof -
  obtain f where "read_modify_write m reg f (Holds c) = (Holds c', None)"
      "\<forall>c c'. f c = Inr c' \<longrightarrow> cf_notifications c' = cf_notifications c"
    using keeps_targets_save [OF assms(3,4)] by blast
  then show ?thesis by (rule save_erases_secrets [OF assms(1,2)])
qed

text \<open>Witnesses: a file with one sealed secret, a machine that seals by reversing, and one that cannot open.\<close>

definition sample_target :: notify_target where
  "sample_target = \<lparr>nt_type = ''webhook'', nt_url = ''https://h'', nt_triggers = [''alert''], nt_repeat = 0,
     nt_secret = ''s3'', nt_to = [], nt_from = [], nt_enabled = None, nt_severity = [], nt_exclusions = []\<rparr>"

definition sample_patch :: spike_patch where
  "sample_patch = \<lparr>ep_enabled = Some True, ep_min_count = Some 5, ep_threshold = None, ep_cooldown = None,
     ep_channel_cooldown = Some [('' System'', 30)], ep_maturity = None, ep_persist = None, ep_half_life = None,
     ep_prior_strength = None, ep_mean_prior = Some (fint 0), ep_disabled = None, ep_added = None,
     ep_security = None\<rparr>"

definition sample_spike :: spike_config where
  "sample_spike = \<lparr>ec_enabled = False, ec_min_count = 10, ec_threshold = f_1e4, ec_cooldown = 60,
        ec_channel_cooldown = [], ec_maturity = 630, ec_persist = 900, ec_half_life = 630,
        ec_prior_strength = fint 60, ec_mean_prior = f_tenth, ec_baseline_path = [], ec_disabled = [],
        ec_added = [], ec_security = False\<rparr>"

lemma sample_spike_ok: "spike_ok sample_spike"
  by (simp add: spike_ok_def sample_spike_def f_leq_def f_eq_def f_1e4_def f_1e9_def f_tenth_def cooldowns_ok_def)

lemma spike_patch_stored_witness:
  "apply_spike_patch sample_spike sample_patch = (overlay_spike sample_spike sample_patch)
      \<lparr>ec_channel_cooldown := ec_channel_cooldown (apply_spike_patch sample_spike sample_patch),
       ec_mean_prior := (if ec_mean_prior (overlay_spike sample_spike sample_patch) = fint 0 then f_tenth
                         else ec_mean_prior (overlay_spike sample_spike sample_patch))\<rparr>
    \<and> map_of (ec_channel_cooldown (apply_spike_patch sample_spike sample_patch))
      = map_of (map (\<lambda>(k, m). (trim_space k, m)) (ec_channel_cooldown (overlay_spike sample_spike sample_patch)))"
proof (rule spike_patch_stored)
  have "trim_space '' System'' \<noteq> []"
    by (simp add: trim_space_ascii is_space_def)
  then show "validate_spike_patch sample_patch = None"
    by (simp add: validate_spike_patch_def sample_patch_def int_out_def float_out_def too_many_def Let_def)
  show "spike_ok sample_spike" by (rule sample_spike_ok)
  show "canonical_cooldowns (ec_channel_cooldown sample_spike) = ec_channel_cooldown sample_spike"
    by (simp add: sample_spike_def canonical_cooldowns_def)
qed

lemma secrets_roundtrip_witness:
  "decrypt_secrets (\<lambda>s. Some (rev s))
     ((default_config ''db'')\<lparr>cf_notifications := [sample_target\<lparr>nt_secret := ''dpapi:3s''\<rparr>]\<rparr>)
   = (default_config ''db'')\<lparr>cf_notifications := [sample_target]\<rparr>"
  by (rule secrets_roundtrip [of "\<lambda>s. Some (rev s)"])
    (simp_all add: config_for_persistence_def seal_target_def sample_target_def dpapi_prefix_def has_prefix_def)

lemma default_validated_ok: "config_ok (validate_config ''db'' ''bl'' (default_config ''db''))"
  by (rule validate_config_ok) (simp add: default_config_def spike_no_nan_def)

lemma updates_keep_config_valid_witness:
  "\<exists>c'. fold (\<lambda>op file. fst (config_step \<lparr>mc_seal = Some, mc_unseal = Some, mc_db_path = ''db'',
        mc_baseline_path = ''bl''\<rparr> None op file))
      [Toggle_Exclusion ''rds1'', Patch_Spike sample_patch]
      (Holds (validate_config ''db'' ''bl'' (default_config ''db''))) = Holds c' \<and> config_ok c'"
  by (rule updates_keep_config_valid)
    (simp_all add: default_validated_ok op_no_nan_def sample_patch_def)


lemma persistence_total: "\<exists>stored. config_for_persistence Some c = Some stored"
proof -
  have "\<exists>ts'. seal_targets Some ts = Some ts'" for ts
    by (induction ts) (auto simp: seal_target_def split: option.splits)
  then show ?thesis by (auto simp: config_for_persistence_def split: option.split)
qed

lemma failed_unseal_erases_secrets_witness:
  "\<exists>c'. config_step \<lparr>mc_seal = Some, mc_unseal = (\<lambda>_. None), mc_db_path = ''db'', mc_baseline_path = ''bl''\<rparr> None
      (Set_Update \<lparr>uc_enabled = True, uc_channel = ''stable'', uc_poll_interval = hour\<rparr>)
      (Holds ((default_config ''db'')\<lparr>cf_notifications := [sample_target\<lparr>nt_secret := ''dpapi:3s''\<rparr>]\<rparr>))
      = (Holds c', None) \<and> (\<forall>t \<in> set (cf_notifications c'). nt_secret t = [])"
proof -
  let ?m = "\<lparr>mc_seal = Some, mc_unseal = (\<lambda>_. None), mc_db_path = ''db'', mc_baseline_path = ''bl''\<rparr>"
  let ?c = "(default_config ''db'')\<lparr>cf_notifications := [sample_target\<lparr>nt_secret := ''dpapi:3s''\<rparr>]\<rparr>"
  let ?u = "\<lparr>uc_enabled = True, uc_channel = ''stable'', uc_poll_interval = hour\<rparr>"
  obtain c' where "config_step ?m None (Set_Update ?u) (Holds ?c) = (Holds c', None)"
    using persistence_total
      [of "validated ?m ((decrypt_secrets (\<lambda>_. None) (validated ?m ?c))\<lparr>cf_update := ?u\<rparr>)"]
    by (auto simp: config_updates_defs read_modify_write_def load_config_def)
  then show ?thesis
    using failed_unseal_erases_secrets [of ?c ?m "Set_Update ?u" None c']
    by (auto simp: dpapi_prefix_def has_prefix_def keeps_targets_def)
qed

end
