(* ===== verification/RemoteConfig.thy ===== *)
theory RemoteConfig
  imports Config
begin

text \<open>
  The run-time settings of an agent: made from its own configuration (\<open>config.go\<close>) and overlaid on every
  fetch with what the dashboard sends (\<open>internal/svc/check.go\<close>, the wire types of
  \<open>internal/dashboard/client.go\<close>). Durations are nanoseconds.
\<close>

subsection \<open>Run-time settings\<close>

record service_config =
  vc_grace :: duration
  vc_retention_days :: int
  vc_poll :: duration
  vc_audit_path :: string
  vc_session_warning :: int
  vc_performance :: perf_config
  vc_dashboard_only :: bool

record dashboard_config =
  bc_enabled :: bool
  bc_port :: int
  bc_group :: string
  bc_url :: string
  bc_broker :: string
  bc_tls_cert :: string
  bc_tls_key :: string
  bc_fingerprint :: string
  bc_auto_pin :: bool
  bc_fetch_interval :: duration
  bc_heartbeat :: duration

definition to_service_config :: "config \<Rightarrow> service_config" where
  "to_service_config c =
     \<lparr>vc_grace = cf_grace_period c * minute, vc_retention_days = cf_retention_days c,
      vc_poll = cf_poll_interval c * second, vc_audit_path = cf_audit_path c,
      vc_session_warning = cf_session_warning c, vc_performance = cf_performance c,
      vc_dashboard_only = cf_dashboard_only c\<rparr>"

definition dash_fetch_interval :: "config \<Rightarrow> duration" where
  "dash_fetch_interval c =
     (let s = dj_fetch_interval (cf_dashboard c); s = (if s < 10 \<or> s > 86400 then 300 else s) in s * second)"

definition to_dashboard_config :: "config \<Rightarrow> dashboard_config" where
  "to_dashboard_config c =
     (let d = cf_dashboard c in
      \<lparr>bc_enabled = dj_enabled d, bc_port = dj_port d, bc_group = dj_group d, bc_url = dj_url d,
       bc_broker = dj_broker d, bc_tls_cert = dj_tls_cert d, bc_tls_key = dj_tls_key d,
       bc_fingerprint = dj_fingerprint d, bc_auto_pin = (dj_auto_pin d = Some True),
       bc_fetch_interval = dash_fetch_interval c, bc_heartbeat = cf_poll_interval c * second\<rparr>)"

definition has_targets :: "config \<Rightarrow> bool" where
  "has_targets c = list_ex (\<lambda>t. nt_url t \<noteq> []) (cf_notifications c)"

subsection \<open>What a dashboard sends\<close>

record remote_spike =
  rs_enabled :: bool
  rs_min_count :: int
  rs_threshold :: float64
  rs_cooldown :: int
  rs_channel_cooldown :: "(string \<times> int) list option"
  rs_maturity :: int
  rs_persist :: int
  rs_half_life :: int
  rs_prior_strength :: float64
  rs_mean_prior :: float64
  rs_disabled :: "string list option"
  rs_added :: "string list option"
  rs_security :: bool

record remote_sessions =
  re_enabled :: bool
  re_collect_processes :: bool
  re_top_processes :: int
  re_identity :: string
  re_client :: string
  re_process :: string

record remote_settings =
  rm_notifications :: "notify_target list"
  rm_exclusions :: "string list"
  rm_session_warning :: int
  rm_grace :: int
  rm_poll :: int
  rm_performance :: "perf_config option"
  rm_spike :: "remote_spike option"
  rm_update :: "update_config option"
  rm_sessions :: "remote_sessions option"

definition remote_sessions_config :: "sessions_config \<Rightarrow> remote_sessions" where
  "remote_sessions_config c =
     \<lparr>re_enabled = sc_enabled c, re_collect_processes = sc_collect_processes c,
      re_top_processes = sc_top_processes c, re_identity = sc_identity c, re_client = sc_client c,
      re_process = sc_process c\<rparr>"

subsection \<open>The overlay\<close>

definition clamp_remote_int :: "int \<Rightarrow> int \<Rightarrow> int \<Rightarrow> int \<Rightarrow> int" where
  "clamp_remote_int v lo hi fallback = (if v = 0 then fallback else if v < lo then lo else if v > hi then hi else v)"

definition clamp_remote_float :: "float64 \<Rightarrow> float64 \<Rightarrow> float64 \<Rightarrow> float64 \<Rightarrow> float64" where
  "clamp_remote_float v lo hi fallback =
     (if f_eq v (fint 0) then fallback else if f_less v lo then lo else if f_less hi v then hi else v)"

text \<open>The entries come in the order the map is iterated in; a later entry replaces an earlier one.\<close>

fun clamp_remote_cooldowns :: "(string \<times> int) list \<Rightarrow> (string \<times> int) list \<Rightarrow> (string \<times> int) list" where
  "clamp_remote_cooldowns [] acc = sort_key fst acc"
| "clamp_remote_cooldowns ((raw, minutes) # rest) acc =
     (let channel = trim_space raw in
      if channel = [] \<or> length acc = 256 then clamp_remote_cooldowns rest acc
      else clamp_remote_cooldowns rest
             ((channel, clamp_remote_int minutes 1 1440 60) # filter (\<lambda>e. fst e \<noteq> channel) acc))"

definition overlay_remote_spike :: "spike_config \<Rightarrow> remote_spike \<Rightarrow> spike_config" where
  "overlay_remote_spike d r =
     d\<lparr>ec_enabled := rs_enabled r,
       ec_min_count := clamp_remote_int (rs_min_count r) 1 10000 (ec_min_count d),
       ec_threshold := clamp_remote_float (rs_threshold r) f_1e9 f_tenth (ec_threshold d),
       ec_cooldown := clamp_remote_int (rs_cooldown r) 1 1440 (ec_cooldown d),
       ec_maturity := clamp_remote_int (rs_maturity r) 1 10000 (ec_maturity d),
       ec_persist := clamp_remote_int (rs_persist r) 60 86400 (ec_persist d),
       ec_half_life := clamp_remote_int (rs_half_life r) 60 10000 (ec_half_life d),
       ec_prior_strength := clamp_remote_float (rs_prior_strength r) (fint 1) (fint 10000) (ec_prior_strength d),
       ec_mean_prior := clamp_remote_float (rs_mean_prior r) (fint 0) (fint 1000) (ec_mean_prior d),
       ec_security := rs_security r,
       ec_disabled := (case rs_disabled r of None \<Rightarrow> ec_disabled d | Some l \<Rightarrow> l),
       ec_added := (case rs_added r of None \<Rightarrow> ec_added d | Some l \<Rightarrow> l),
       ec_channel_cooldown := (case rs_channel_cooldown r of None \<Rightarrow> ec_channel_cooldown d
                               | Some l \<Rightarrow> clamp_remote_cooldowns l [])\<rparr>"

record agent_settings =
  ag_service :: service_config
  ag_targets :: "notify_target list"
  ag_exclusions :: "string list"
  ag_spike :: spike_config

definition overlay_service :: "remote_settings \<Rightarrow> service_config \<Rightarrow> service_config" where
  "overlay_service r s =
     s\<lparr>vc_session_warning := (if rm_session_warning r \<ge> 0
          then (if rm_session_warning r > 100 then 100 else rm_session_warning r) else vc_session_warning s),
       vc_grace := (if rm_grace r > 0
          then (if rm_grace r > 1440 then 1440 else rm_grace r) * minute else vc_grace s),
       vc_poll := (if rm_poll r > 0
          then (let p = (if rm_poll r < 10 then 10 else rm_poll r) in if p > 86400 then 86400 else p) * second
          else vc_poll s),
       vc_performance := (case rm_performance r of None \<Rightarrow> vc_performance s
          | Some p \<Rightarrow> if pc_force_disabled (vc_performance s) then vc_performance s
                      else p\<lparr>pc_force_disabled := pc_force_disabled (vc_performance s)\<rparr>)\<rparr>"

definition apply_remote_config :: "remote_settings \<Rightarrow> agent_settings \<Rightarrow> agent_settings" where
  "apply_remote_config r a =
     a\<lparr>ag_targets := rm_notifications r, ag_exclusions := rm_exclusions r,
       ag_service := overlay_service r (ag_service a),
       ag_spike := (case rm_spike r of None \<Rightarrow> ag_spike a | Some rs \<Rightarrow> overlay_remote_spike (ag_spike a) rs)\<rparr>"

text \<open>The session policy is replaced as a whole or not at all; the policy before it is returned as well.\<close>

definition apply_remote_sessions :: "sessions_config \<Rightarrow> remote_sessions \<Rightarrow> sessions_config \<times> sessions_config" where
  "apply_remote_sessions c r =
     (let candidate = c\<lparr>sc_enabled := re_enabled r, sc_collect_processes := re_collect_processes r,
            sc_top_processes := re_top_processes r, sc_identity := re_identity r, sc_client := re_client r,
            sc_process := re_process r\<rparr>
      in if validate_sessions_config candidate then (candidate, c) else (c, c))"

definition session_privacy_changed :: "sessions_config \<Rightarrow> sessions_config \<Rightarrow> bool" where
  "session_privacy_changed a b \<longleftrightarrow> sc_identity a \<noteq> sc_identity b \<or> sc_client a \<noteq> sc_client b
     \<or> sc_process a \<noteq> sc_process b"

definition effective_update_config :: "update_config \<Rightarrow> remote_settings option \<Rightarrow> update_config" where
  "effective_update_config local remote =
     (case Option.bind remote rm_update of None \<Rightarrow> local | Some u \<Rightarrow> u)"

subsection \<open>Properties\<close>

definition service_ok :: "service_config \<Rightarrow> bool" where
  "service_ok s \<longleftrightarrow> minute \<le> vc_grace s \<and> vc_grace s \<le> 1440 * minute
     \<and> 10 * second \<le> vc_poll s \<and> vc_poll s \<le> 86400 * second
     \<and> 0 \<le> vc_session_warning s \<and> vc_session_warning s \<le> 100"

definition agent_ok :: "agent_settings \<Rightarrow> bool" where
  "agent_ok a \<longleftrightarrow> service_ok (ag_service a) \<and> spike_ok (ag_spike a)"

definition remote_no_nan :: "remote_settings \<Rightarrow> bool" where
  "remote_no_nan r = (case rm_spike r of None \<Rightarrow> True
     | Some s \<Rightarrow> rs_threshold s \<noteq> NaN \<and> rs_prior_strength s \<noteq> NaN \<and> rs_mean_prior s \<noteq> NaN)"

lemma to_service_ok: "config_ok c \<Longrightarrow> service_ok (to_service_config c)"
  by (auto simp: config_ok_def service_ok_def to_service_config_def minute_def second_def)

lemma sessions_ok_iff: "validate_sessions_config c \<longleftrightarrow> sessions_ok c"
  by (auto simp: validate_sessions_config_def sessions_ok_def)

lemma apply_remote_sessions_ok: "sessions_ok c \<Longrightarrow> sessions_ok (fst (apply_remote_sessions c r))"
  by (simp add: apply_remote_sessions_def Let_def sessions_ok_iff)

lemma clamp_remote_int_range:
  "lo \<le> hi \<Longrightarrow> lo \<le> old \<Longrightarrow> old \<le> hi \<Longrightarrow> lo \<le> clamp_remote_int v lo hi old \<and> clamp_remote_int v lo hi old \<le> hi"
  by (simp add: clamp_remote_int_def)

lemma clamp_remote_float_range:
  assumes "v \<noteq> NaN" and "f_leq (Fin lo) old" and "f_leq old (Fin hi)" and "lo \<le> hi"
  shows "f_leq (Fin lo) (clamp_remote_float v (Fin lo) (Fin hi) old)"
    and "f_leq (clamp_remote_float v (Fin lo) (Fin hi) old) (Fin hi)"
  using assms f_not_less [of v "Fin lo"] f_not_less [of "Fin hi" v]
  by (auto simp: clamp_remote_float_def f_leq_def f_eq_def)

lemma clamp_remote_cooldowns_ok: "cooldowns_ok acc \<Longrightarrow> cooldowns_ok (clamp_remote_cooldowns l acc)"
proof (induction l acc rule: clamp_remote_cooldowns.induct)
  case (2 raw minutes rest acc)
  let ?f = "filter (\<lambda>e. fst e \<noteq> trim_space raw) acc"
  have m: "1 \<le> clamp_remote_int minutes 1 1440 60 \<and> clamp_remote_int minutes 1 1440 60 \<le> 1440"
    by (rule clamp_remote_int_range) auto
  have "cooldowns_ok ((trim_space raw, clamp_remote_int minutes 1 1440 60) # ?f)"
    if "trim_space raw \<noteq> []" "length acc \<noteq> 256"
    using "2.prems" that m le_less_trans [OF length_filter_le [of "\<lambda>e. fst e \<noteq> trim_space raw" acc], of 256]
    by (auto simp: cooldowns_ok_def distinct_map_filter)
  with 2 show ?case by (simp add: Let_def)
qed simp

lemma overlay_service_ok: "service_ok s \<Longrightarrow> service_ok (overlay_service r s)"
  by (simp add: service_ok_def overlay_service_def Let_def minute_def second_def)

lemma overlay_spike_ok:
  assumes "spike_ok d" and "rs_threshold r \<noteq> NaN \<and> rs_prior_strength r \<noteq> NaN \<and> rs_mean_prior r \<noteq> NaN"
  shows "spike_ok (overlay_remote_spike d r)"
proof -
  note old = assms(1)[unfolded spike_ok_def]
  have "cooldowns_ok (ec_channel_cooldown (overlay_remote_spike d r))"
    using old clamp_remote_cooldowns_ok [of "[]"]
    by (simp add: overlay_remote_spike_def cooldowns_ok_def split: option.split)
  moreover have "f_leq f_1e9 (ec_threshold (overlay_remote_spike d r))
      \<and> f_leq (ec_threshold (overlay_remote_spike d r)) f_tenth
      \<and> f_leq (fint 1) (ec_prior_strength (overlay_remote_spike d r))
      \<and> f_leq (ec_prior_strength (overlay_remote_spike d r)) (fint 10000)
      \<and> f_leq (fint 0) (ec_mean_prior (overlay_remote_spike d r))
      \<and> f_leq (ec_mean_prior (overlay_remote_spike d r)) (fint 1000)"
    using old assms(2) by (simp add: overlay_remote_spike_def f_1e9_def f_tenth_def clamp_remote_float_range)
  ultimately show ?thesis
    using old unfolding spike_ok_def by (simp add: overlay_remote_spike_def clamp_remote_int_range)
qed

lemma apply_remote_ok: "agent_ok a \<Longrightarrow> remote_no_nan r \<Longrightarrow> agent_ok (apply_remote_config r a)"
  by (auto simp: agent_ok_def apply_remote_config_def remote_no_nan_def overlay_service_ok overlay_spike_ok
      split: option.splits)

interpretation remote_overlay: step_invariant
  "\<lambda>r a. if remote_no_nan r then apply_remote_config r a else a" agent_ok
  by unfold_locales (simp add: apply_remote_ok)

text \<open>
  Whatever sequence of settings a dashboard sends, the agent's grace period stays between a minute and
  a day, its poll interval between ten seconds and a day, its session threshold between 0 and 100, and
  every anomaly-detection setting inside its range.
\<close>

theorem remote_settings_in_range:
  assumes "agent_ok a" and "\<forall>r \<in> set rs. remote_no_nan r"
  shows "agent_ok (fold apply_remote_config rs a)"
proof -
  have "fold apply_remote_config rs a = fold (\<lambda>r a. if remote_no_nan r then apply_remote_config r a else a) rs a"
    using assms(2) by (intro fold_cong) auto
  with remote_overlay.inv_run [OF assms(1)] show ?thesis by simp
qed

text \<open>
  Performance settings and notification targets are the exception: unless the agent is locally
  force-disabled, it runs with the numbers and targets it was sent, whatever they are.
\<close>

theorem remote_performance_verbatim:
  assumes "rm_performance r = Some p" and "\<not> pc_force_disabled (vc_performance (ag_service a))"
  shows "vc_performance (ag_service (apply_remote_config r a)) = p\<lparr>pc_force_disabled := False\<rparr>
    \<and> ag_targets (apply_remote_config r a) = rm_notifications r"
  using assms by (simp add: apply_remote_config_def overlay_service_def)

text \<open>Witnesses: a dashboard that asks for a poll every second, a negative threshold and no delay at all.\<close>

definition sample_agent :: agent_settings where
  "sample_agent = \<lparr>ag_service = to_service_config (default_config ''db''), ag_targets = [], ag_exclusions = [],
     ag_spike = \<lparr>ec_enabled = False, ec_min_count = 10, ec_threshold = f_1e4, ec_cooldown = 60,
        ec_channel_cooldown = [], ec_maturity = 630, ec_persist = 900, ec_half_life = 630,
        ec_prior_strength = fint 60, ec_mean_prior = f_tenth, ec_baseline_path = [], ec_disabled = [],
        ec_added = [], ec_security = False\<rparr>\<rparr>"

definition sample_remote :: remote_settings where
  "sample_remote = \<lparr>rm_notifications = [], rm_exclusions = [], rm_session_warning = 500, rm_grace = -3,
     rm_poll = 1, rm_performance = Some ((cf_performance (default_config ''db''))\<lparr>pc_load_delay := -1\<rparr>),
     rm_spike = Some \<lparr>rs_enabled = True, rs_min_count = 0, rs_threshold = fint 7, rs_cooldown = -2,
       rs_channel_cooldown = Some [(''System'', 99999)], rs_maturity = 1, rs_persist = 1, rs_half_life = 1,
       rs_prior_strength = fint 0, rs_mean_prior = NegInf, rs_disabled = None, rs_added = None, rs_security = True\<rparr>,
     rm_update = None, rm_sessions = None\<rparr>"

lemma remote_settings_in_range_witness: "agent_ok (fold apply_remote_config [sample_remote, sample_remote] sample_agent)"
proof (rule remote_settings_in_range)
  show "agent_ok sample_agent"
    by (simp add: agent_ok_def sample_agent_def service_ok_def to_service_config_def default_config_def spike_ok_def
        f_leq_def f_eq_def f_1e4_def f_1e9_def f_tenth_def cooldowns_ok_def minute_def second_def)
  show "\<forall>r \<in> set [sample_remote, sample_remote]. remote_no_nan r"
    by (simp add: remote_no_nan_def sample_remote_def)
qed

lemma remote_performance_verbatim_witness:
  "vc_performance (ag_service (apply_remote_config sample_remote sample_agent))
      = (cf_performance (default_config ''db''))\<lparr>pc_load_delay := -1, pc_force_disabled := False\<rparr>
    \<and> ag_targets (apply_remote_config sample_remote sample_agent) = []"
  using remote_performance_verbatim [of sample_remote
      "(cf_performance (default_config ''db''))\<lparr>pc_load_delay := -1\<rparr>" sample_agent]
  by (simp add: sample_remote_def sample_agent_def to_service_config_def default_config_def)

end
