(* ===== verification/NotifyTargets.thy ===== *)
theory NotifyTargets
  imports Config
begin

text \<open>
  Edits of the list of notification targets (\<open>notify_target.go\<close>): appending, changing and removing a target
  that is addressed by its type and its index among the targets of that type. A field that the update
  leaves out is \<open>None\<close>.
\<close>

record target_update =
  tu_type :: string
  tu_url :: string
  tu_index :: int
  tu_secret :: "string option"
  tu_from :: "string option"
  tu_to :: "string list option"
  tu_triggers :: "trigger list option"
  tu_repeat :: "int option"
  tu_severity :: "string option"

datatype edit_error = Invalid_Type | Url_Required | Negative_Index | No_Such_Target | Bad_Scheme | No_From | No_To
  | Bad_Severity

definition valid_notify_type :: "string \<Rightarrow> bool" where
  "valid_notify_type k \<longleftrightarrow> k \<in> {''webhook'', ''ntfy'', ''email''}"

definition apply_update :: "target_update \<Rightarrow> notify_target \<Rightarrow> notify_target" where
  "apply_update u t =
     t\<lparr>nt_secret := (case tu_secret u of None \<Rightarrow> nt_secret t | Some s \<Rightarrow> s),
       nt_from := (case tu_from u of None \<Rightarrow> nt_from t | Some s \<Rightarrow> s),
       nt_to := (case tu_to u of None \<Rightarrow> nt_to t | Some l \<Rightarrow> l),
       nt_triggers := (case tu_triggers u of None \<Rightarrow> nt_triggers t | Some l \<Rightarrow> l),
       nt_repeat := (case tu_repeat u of None \<Rightarrow> nt_repeat t | Some m \<Rightarrow> m),
       nt_severity := (case tu_severity u of None \<Rightarrow> nt_severity t | Some s \<Rightarrow> to_lower s)\<rparr>"

definition validate_severity :: "string \<Rightarrow> bool" where
  "validate_severity s \<longleftrightarrow> s = [] \<or> s = ''warning'' \<or> s = ''alert''"

definition validate_email_target :: "notify_target \<Rightarrow> edit_error option" where
  "validate_email_target t =
     (let l = to_lower (nt_url t) in
      if \<not> has_prefix l ''smtp://'' \<and> \<not> has_prefix l ''smtps://'' then Some Bad_Scheme
      else if nt_from t = [] then Some No_From
      else if nt_to t = [] then Some No_To else None)"

text \<open>What both operations do to the target they are about to store: default triggers, then the checks.\<close>

definition finish_target :: "target_update \<Rightarrow> notify_target \<Rightarrow> edit_error + notify_target" where
  "finish_target u t =
     (let t = apply_update u t;
          t = (if nt_triggers t = [] then t\<lparr>nt_triggers := default_triggers\<rparr> else t)
      in case (if tu_type u = ''email'' then validate_email_target t else None) of
           Some e \<Rightarrow> Inl e
         | None \<Rightarrow> if \<not> validate_severity (nt_severity t) then Inl Bad_Severity else Inr t)"

definition append_notify_target :: "notify_target list \<Rightarrow> target_update \<Rightarrow> edit_error + notify_target list" where
  "append_notify_target ts u =
     (if \<not> valid_notify_type (tu_type u) then Inl Invalid_Type
      else if trim_space (tu_url u) = [] then Inl Url_Required
      else case finish_target u \<lparr>nt_type = tu_type u, nt_url = tu_url u, nt_triggers = [], nt_repeat = 0,
                  nt_secret = [], nt_to = [], nt_from = [], nt_enabled = None, nt_severity = [],
                  nt_exclusions = []\<rparr> of
             Inl e \<Rightarrow> Inl e | Inr t \<Rightarrow> Inr (ts @ [t]))"

definition indices_of_type :: "notify_target list \<Rightarrow> string \<Rightarrow> nat list" where
  "indices_of_type ts k = filter (\<lambda>i. nt_type (ts ! i) = k) [0..<length ts]"

definition set_notify_target :: "notify_target list \<Rightarrow> target_update \<Rightarrow> edit_error + notify_target list" where
  "set_notify_target ts u =
     (if \<not> valid_notify_type (tu_type u) then Inl Invalid_Type
      else if trim_space (tu_url u) = [] then Inl Url_Required
      else if tu_index u < 0 then Inl Negative_Index
      else let positions = indices_of_type ts (tu_type u) in
           if tu_index u \<ge> int (length positions) then Inl No_Such_Target
           else let pos = positions ! nat (tu_index u) in
                case finish_target u ((ts ! pos)\<lparr>nt_url := tu_url u\<rparr>) of
                  Inl e \<Rightarrow> Inl e | Inr t \<Rightarrow> Inr (ts[pos := t]))"

definition remove_notify_target :: "notify_target list \<Rightarrow> string \<Rightarrow> int \<Rightarrow> edit_error + notify_target list" where
  "remove_notify_target ts k index =
     (if \<not> valid_notify_type k then Inl Invalid_Type
      else if index < 0 then Inl Negative_Index
      else let positions = indices_of_type ts k in
           if index \<ge> int (length positions) then Inl No_Such_Target
           else let pos = positions ! nat index in Inr (take pos ts @ drop (Suc pos) ts))"

subsection \<open>Properties\<close>

lemma apply_update_address [simp]: "nt_type (apply_update u t) = nt_type t" "nt_url (apply_update u t) = nt_url t"
  by (simp_all add: apply_update_def)

lemma finish_target_type: "finish_target u t = Inr t' \<Longrightarrow> nt_type t' = nt_type t \<and> nt_url t' = nt_url t"
  by (auto simp: finish_target_def Let_def split: option.splits if_splits)

lemma indices_append:
  "indices_of_type (ts @ [t]) k = indices_of_type ts k @ (if nt_type t = k then [length ts] else [])"
proof -
  have "filter (\<lambda>i. nt_type ((ts @ [t]) ! i) = k) [0..<length ts] = indices_of_type ts k"
    unfolding indices_of_type_def by (rule filter_cong) (auto simp: nth_append)
  then show ?thesis by (simp add: indices_of_type_def nth_append)
qed

text \<open>
  A target that was appended is the last of its type, and removing that one gives back the list as it
  was.
\<close>

theorem append_remove_roundtrip:
  assumes "append_notify_target ts u = Inr ts'"
  shows "remove_notify_target ts' (tu_type u) (int (length (indices_of_type ts (tu_type u)))) = Inr ts"
proof -
  obtain t where t: "ts' = ts @ [t]" "nt_type t = tu_type u" "valid_notify_type (tu_type u)"
    using assms finish_target_type by (fastforce simp: append_notify_target_def split: if_splits sum.splits)
  have "indices_of_type ts' (tu_type u) = indices_of_type ts (tu_type u) @ [length ts]"
    using t by (simp add: indices_append)
  then show ?thesis using t by (simp add: remove_notify_target_def Let_def)
qed

lemma set_notify_target_cases:
  assumes "set_notify_target ts u = Inr ts'"
  obtains pos t where "pos < length ts" and "nt_type (ts ! pos) = tu_type u" and "ts' = ts[pos := t]"
    and "nt_url t = tu_url u" and "nt_type t = tu_type u"
    and "finish_target u ((ts ! pos)\<lparr>nt_url := tu_url u\<rparr>) = Inr t"
    and "pos = indices_of_type ts (tu_type u) ! nat (tu_index u)"
proof -
  let ?pos = "indices_of_type ts (tu_type u) ! nat (tu_index u)"
  obtain t where i: "0 \<le> tu_index u" "nat (tu_index u) < length (indices_of_type ts (tu_type u))"
    and t: "finish_target u ((ts ! ?pos)\<lparr>nt_url := tu_url u\<rparr>) = Inr t" "ts' = ts[?pos := t]"
    using assms by (auto simp: set_notify_target_def Let_def split: if_splits sum.splits)
  have "?pos \<in> set (indices_of_type ts (tu_type u))" using i by simp
  then have "?pos < length ts" "nt_type (ts ! ?pos) = tu_type u" by (simp_all add: indices_of_type_def)
  with t finish_target_type [OF t(1)] show ?thesis using that [of ?pos t] by simp
qed

text \<open>
  An accepted change touches one position only, the one that the type and the index name, and keeps
  what the update leaves out.
\<close>

theorem set_changes_one_target:
  assumes "set_notify_target ts u = Inr ts'"
  shows "length ts' = length ts
    \<and> (\<forall>i < length ts. i \<noteq> indices_of_type ts (tu_type u) ! nat (tu_index u) \<longrightarrow> ts' ! i = ts ! i)
    \<and> (\<forall>t \<in> set ts'. t \<in> set ts \<or> nt_type t = tu_type u \<and> nt_url t = tu_url u \<and> validate_severity (nt_severity t)
         \<and> (tu_type u = ''email'' \<longrightarrow> email_usable t))"
proof -
  obtain pos t where p: "pos < length ts" "ts' = ts[pos := t]" "nt_url t = tu_url u" "nt_type t = tu_type u"
    "pos = indices_of_type ts (tu_type u) ! nat (tu_index u)"
    "finish_target u ((ts ! pos)\<lparr>nt_url := tu_url u\<rparr>) = Inr t"
    using set_notify_target_cases [OF assms] by metis
  have "validate_severity (nt_severity t) \<and> (tu_type u = ''email'' \<longrightarrow> email_usable t)"
    using p(6) by (auto simp: finish_target_def Let_def validate_email_target_def email_usable_def
        split: option.splits if_splits)
  then show ?thesis using p set_update_subset_insert [of ts pos t] by auto
qed

text \<open>
  A web hook or ntfy address without a scheme is accepted by the change, and the validation that
  saving runs then drops the target without an error.
\<close>

theorem accepted_address_dropped:
  assumes "set_notify_target ts u = Inr ts'" and "\<not> valid_scheme (tu_url u)" and "tu_url u \<noteq> []"
  shows "tu_url u \<in> nt_url ` set ts' \<and> tu_url u \<notin> nt_url ` set (validate_targets ts')"
proof
  obtain pos t where "pos < length ts" "ts' = ts[pos := t]" "nt_url t = tu_url u"
    using set_notify_target_cases [OF assms(1)] by metis
  then show "tu_url u \<in> nt_url ` set ts'" using set_update_memI [of pos ts t] by (metis imageI)
  show "tu_url u \<notin> nt_url ` set (validate_targets ts')"
  proof
    assume "tu_url u \<in> nt_url ` set (validate_targets ts')"
    then obtain x where x: "keep_target x" "nt_url (repair_email (normalize_target x)) = tu_url u"
      by (auto simp: validate_targets_def)
    then have "nt_url x = tu_url u"
      using assms(3) by (simp add: repair_email_def Let_def split: if_splits)
    then show False using x(1) assms(2,3) by (simp add: keep_target_def)
  qed
qed

text \<open>Witnesses.\<close>

definition sample_edit :: target_update where
  "sample_edit = \<lparr>tu_type = ''webhook'', tu_url = ''host'', tu_index = 0, tu_secret = None, tu_from = None,
     tu_to = None, tu_triggers = None, tu_repeat = Some 5, tu_severity = None\<rparr>"

definition sample_hook_target :: notify_target where
  "sample_hook_target = \<lparr>nt_type = ''webhook'', nt_url = ''https://h'', nt_triggers = [''alert''], nt_repeat = 0,
     nt_secret = [], nt_to = [], nt_from = [], nt_enabled = None, nt_severity = [], nt_exclusions = []\<rparr>"

lemma sample_set:
  "set_notify_target [sample_hook_target] sample_edit
     = Inr [sample_hook_target\<lparr>nt_url := ''host'', nt_repeat := 5\<rparr>]"
proof -
  have "trim_space ''host'' = ''host''" by (simp add: trim_space_id is_space_def)
  then show ?thesis
    by (simp add: set_notify_target_def sample_edit_def sample_hook_target_def valid_notify_type_def Let_def
        indices_of_type_def finish_target_def apply_update_def validate_severity_def)
qed

lemma append_remove_roundtrip_witness:
  "\<exists>ts'. append_notify_target [sample_hook_target] sample_edit = Inr ts'
    \<and> remove_notify_target ts' ''webhook'' 1 = Inr [sample_hook_target]"
proof -
  have "trim_space ''host'' = ''host''" by (simp add: trim_space_id is_space_def)
  then obtain ts' where a: "append_notify_target [sample_hook_target] sample_edit = Inr ts'"
    by (simp add: append_notify_target_def sample_edit_def valid_notify_type_def finish_target_def
        apply_update_def validate_severity_def Let_def)
  have "int (length (indices_of_type [sample_hook_target] (tu_type sample_edit))) = 1"
    by (simp add: indices_of_type_def sample_hook_target_def sample_edit_def)
  then show ?thesis using append_remove_roundtrip [OF a] a by (simp add: sample_edit_def)
qed

lemma set_changes_one_target_witness:
  "length [sample_hook_target\<lparr>nt_url := ''host'', nt_repeat := 5\<rparr>] = length [sample_hook_target]"
  using set_changes_one_target [OF sample_set] by simp

lemma accepted_address_dropped_witness:
  "''host'' \<notin> nt_url ` set (validate_targets [sample_hook_target\<lparr>nt_url := ''host'', nt_repeat := 5\<rparr>])"
  using accepted_address_dropped [OF sample_set]
  by (simp add: sample_edit_def valid_scheme_def has_prefix_def to_lower_def lower_byte_def is_upper_def Let_def)

end
