(* ===== verification/Thresholds.thy ===== *)
theory Thresholds
  imports Config
begin

text \<open>
  The performance thresholds (\<open>internal/perfmon/threshold.go\<close>): six counters of consecutive breaching
  evaluations and the triggers they raise. The division that turns two memory sizes into a percentage
  is an argument. The delays are divided in 64 bits; the counters, which would need \<open>2 ^ 63\<close> evaluations
  to overflow, are natural numbers.
\<close>

record perf_snapshot =
  ps_cpu :: float64
  ps_cpu_p95 :: float64
  ps_logical :: int
  ps_mem_avail :: float64
  ps_mem_total :: float64
  ps_pages :: float64
  ps_disk_queue :: float64
  ps_tcp_retrans :: float64
  ps_delay_p50 :: float64
  ps_delay_p95 :: float64
  ps_delay_max :: float64

record perf_trigger_state =
  pt_cpu_warn :: nat
  pt_cpu_crit :: nat
  pt_mem_warn :: nat
  pt_mem_crit :: nat
  pt_delay_warn :: nat
  pt_delay_crit :: nat

text \<open>The value of a sum in a 64-bit \<open>int\<close>.\<close>

definition wrap64 :: "int \<Rightarrow> int" where
  "wrap64 n = (n + 2 ^ 63) mod 2 ^ 64 - 2 ^ 63"

lemma wrap64_id: "- (2 ^ 63) \<le> n \<Longrightarrow> n < 2 ^ 63 \<Longrightarrow> wrap64 n = n"
  by (simp add: wrap64_def)

definition ceil_div :: "int \<Rightarrow> int \<Rightarrow> int" where
  "ceil_div a b = (if b \<le> 0 then 1 else go_div (wrap64 (a + b - 1)) b)"

definition resolve_threshold :: "int \<Rightarrow> int \<Rightarrow> int" where
  "resolve_threshold configured def = (if configured = 0 then def else if configured = -1 then 0 else configured)"

definition mem_free_percent :: "(float64 \<Rightarrow> float64 \<Rightarrow> float64) \<Rightarrow> perf_snapshot \<Rightarrow> float64" where
  "mem_free_percent percent s =
     (if f_leq (ps_mem_total s) (fint 0) then fint 100 else percent (ps_mem_avail s) (ps_mem_total s))"

definition input_delay_value :: "perf_snapshot \<Rightarrow> perf_config \<Rightarrow> float64" where
  "input_delay_value s cfg = (if pc_percentile cfg = ''p50'' then ps_delay_p50 s else ps_delay_p95 s)"

definition interval_seconds :: "perf_config \<Rightarrow> duration \<Rightarrow> int" where
  "interval_seconds cfg interval =
     (let i = go_div interval second; i = (if i \<le> 0 then pc_sample_interval cfg else i)
      in if i \<le> 0 then 60 else i)"

definition load_polls :: "perf_config \<Rightarrow> duration \<Rightarrow> int" where
  "load_polls cfg interval = ceil_div (resolve_threshold (pc_load_delay cfg) 120) (interval_seconds cfg interval)"

definition delay_polls :: "perf_config \<Rightarrow> duration \<Rightarrow> int" where
  "delay_polls cfg interval = ceil_div (resolve_threshold (pc_delay_delay cfg) 180) (interval_seconds cfg interval)"

text \<open>The block that the code writes out three times: count, then raise the worse trigger.\<close>

definition count_breach :: "bool \<Rightarrow> bool \<Rightarrow> nat \<times> nat \<Rightarrow> nat \<times> nat" where
  "count_breach crit warn counts =
     (case counts of (w, c) \<Rightarrow> if crit then (Suc w, Suc c) else if warn then (Suc w, 0) else (0, 0))"

definition raise_trigger :: "bool \<Rightarrow> bool \<Rightarrow> int \<Rightarrow> trigger \<Rightarrow> trigger \<Rightarrow> nat \<times> nat \<Rightarrow> trigger list" where
  "raise_trigger crit_on warn_on polls crit_trigger warn_trigger counts =
     (case counts of (w, c) \<Rightarrow>
        if crit_on \<and> int c \<ge> polls then [crit_trigger]
        else if warn_on \<and> int w \<ge> polls then [warn_trigger] else [])"

definition evaluate_snapshot ::
  "(float64 \<Rightarrow> float64 \<Rightarrow> float64) \<Rightarrow> perf_snapshot \<Rightarrow> perf_config \<Rightarrow> duration \<Rightarrow> perf_trigger_state
   \<Rightarrow> perf_trigger_state \<times> trigger list" where
  "evaluate_snapshot percent s cfg interval st =
     (let polls = load_polls cfg interval; id_polls = delay_polls cfg interval;
          cpu_warn = resolve_threshold (pc_cpu_warn cfg) 70; cpu_crit = resolve_threshold (pc_cpu_crit cfg) 85;
          cpu = count_breach (cpu_crit > 0 \<and> f_leq (fint cpu_crit) (ps_cpu s))
                  (cpu_warn > 0 \<and> f_leq (fint cpu_warn) (ps_cpu s)) (pt_cpu_warn st, pt_cpu_crit st);
          mem_warn = resolve_threshold (pc_mem_warn cfg) 20; mem_crit = resolve_threshold (pc_mem_crit cfg) 10;
          free = mem_free_percent percent s;
          mem = count_breach (mem_crit > 0 \<and> f_leq free (fint mem_crit))
                  (mem_warn > 0 \<and> f_leq free (fint mem_warn)) (pt_mem_warn st, pt_mem_crit st);
          id_warn = resolve_threshold (pc_delay_warn cfg) 50; id_crit = resolve_threshold (pc_delay_crit cfg) 100;
          value = input_delay_value s cfg;
          delay = count_breach (id_crit > 0 \<and> f_leq (fint id_crit) value)
                  (id_warn > 0 \<and> f_leq (fint id_warn) value) (pt_delay_warn st, pt_delay_crit st)
      in (\<lparr>pt_cpu_warn = fst cpu, pt_cpu_crit = snd cpu, pt_mem_warn = fst mem, pt_mem_crit = snd mem,
           pt_delay_warn = fst delay, pt_delay_crit = snd delay\<rparr>,
          raise_trigger (cpu_crit > 0) (cpu_warn > 0) polls ''cpu_critical'' ''cpu_warning'' cpu
          @ raise_trigger (mem_crit > 0) (mem_warn > 0) polls ''memory_critical'' ''memory_warning'' mem
          @ raise_trigger (id_crit > 0) (id_warn > 0) id_polls ''input_delay_critical'' ''input_delay_warning'' delay))"

text \<open>Without a snapshot (no collector, or a failed collection) nothing is counted and nothing is raised.\<close>

definition evaluate_thresholds ::
  "(float64 \<Rightarrow> float64 \<Rightarrow> float64) \<Rightarrow> perf_snapshot option \<Rightarrow> perf_config \<Rightarrow> duration \<Rightarrow> perf_trigger_state
   \<Rightarrow> perf_trigger_state \<times> trigger list" where
  "evaluate_thresholds percent snap cfg interval st =
     (case snap of None \<Rightarrow> (st, []) | Some s \<Rightarrow> evaluate_snapshot percent s cfg interval st)"

lemma evaluate_thresholds_simps [simp]:
  "evaluate_thresholds percent None cfg interval st = (st, [])"
  "evaluate_thresholds percent (Some s) cfg interval st = evaluate_snapshot percent s cfg interval st"
  by (simp_all add: evaluate_thresholds_def)

definition is_perf_trigger :: "trigger \<Rightarrow> bool" where
  "is_perf_trigger t \<longleftrightarrow> t \<in> {''cpu_warning'', ''cpu_critical'', ''memory_warning'', ''memory_critical'',
     ''input_delay_warning'', ''input_delay_critical''}"

subsection \<open>What the counters count\<close>

text \<open>The specification: a condition is sustained when the last \<open>n\<close> evaluations all satisfied it.\<close>

datatype metric = Cpu | Memory | Input_Delay

definition crit_level :: "perf_config \<Rightarrow> metric \<Rightarrow> int" where
  "crit_level cfg m = (case m of Cpu \<Rightarrow> resolve_threshold (pc_cpu_crit cfg) 85
     | Memory \<Rightarrow> resolve_threshold (pc_mem_crit cfg) 10 | Input_Delay \<Rightarrow> resolve_threshold (pc_delay_crit cfg) 100)"

definition warn_level :: "perf_config \<Rightarrow> metric \<Rightarrow> int" where
  "warn_level cfg m = (case m of Cpu \<Rightarrow> resolve_threshold (pc_cpu_warn cfg) 70
     | Memory \<Rightarrow> resolve_threshold (pc_mem_warn cfg) 20 | Input_Delay \<Rightarrow> resolve_threshold (pc_delay_warn cfg) 50)"

definition beyond :: "(float64 \<Rightarrow> float64 \<Rightarrow> float64) \<Rightarrow> perf_config \<Rightarrow> metric \<Rightarrow> int \<Rightarrow> perf_snapshot \<Rightarrow> bool" where
  "beyond percent cfg m level s = (level > 0 \<and> (case m of Cpu \<Rightarrow> f_leq (fint level) (ps_cpu s)
     | Memory \<Rightarrow> f_leq (mem_free_percent percent s) (fint level)
     | Input_Delay \<Rightarrow> f_leq (fint level) (input_delay_value s cfg)))"

definition crit_breach :: "(float64 \<Rightarrow> float64 \<Rightarrow> float64) \<Rightarrow> perf_config \<Rightarrow> metric \<Rightarrow> perf_snapshot \<Rightarrow> bool" where
  "crit_breach percent cfg m s = beyond percent cfg m (crit_level cfg m) s"

definition warn_breach :: "(float64 \<Rightarrow> float64 \<Rightarrow> float64) \<Rightarrow> perf_config \<Rightarrow> metric \<Rightarrow> perf_snapshot \<Rightarrow> bool" where
  "warn_breach percent cfg m s \<longleftrightarrow> crit_breach percent cfg m s \<or> beyond percent cfg m (warn_level cfg m) s"

definition polls_of :: "perf_config \<Rightarrow> duration \<Rightarrow> metric \<Rightarrow> nat" where
  "polls_of cfg interval m = nat (case m of Input_Delay \<Rightarrow> delay_polls cfg interval | _ \<Rightarrow> load_polls cfg interval)"

definition crit_trigger :: "metric \<Rightarrow> trigger" where
  "crit_trigger m = (case m of Cpu \<Rightarrow> ''cpu_critical'' | Memory \<Rightarrow> ''memory_critical''
     | Input_Delay \<Rightarrow> ''input_delay_critical'')"

definition warn_trigger :: "metric \<Rightarrow> trigger" where
  "warn_trigger m = (case m of Cpu \<Rightarrow> ''cpu_warning'' | Memory \<Rightarrow> ''memory_warning''
     | Input_Delay \<Rightarrow> ''input_delay_warning'')"

definition counts_of :: "perf_trigger_state \<Rightarrow> metric \<Rightarrow> nat \<times> nat" where
  "counts_of st m = (case m of Cpu \<Rightarrow> (pt_cpu_warn st, pt_cpu_crit st)
     | Memory \<Rightarrow> (pt_mem_warn st, pt_mem_crit st) | Input_Delay \<Rightarrow> (pt_delay_warn st, pt_delay_crit st))"

definition sustained :: "nat \<Rightarrow> ('a \<Rightarrow> bool) \<Rightarrow> 'a list \<Rightarrow> bool" where
  "sustained n P hist \<longleftrightarrow> n \<le> length hist \<and> list_all P (take n (rev hist))"

definition run_length :: "('a \<Rightarrow> bool) \<Rightarrow> 'a list \<Rightarrow> nat" where
  "run_length P hist = length (takeWhile P (rev hist))"

lemma run_length_snoc [simp]: "run_length P (hist @ [s]) = (if P s then Suc (run_length P hist) else 0)"
  by (simp add: run_length_def)

lemma takeWhile_ge: "n \<le> length (takeWhile P l) \<longleftrightarrow> n \<le> length l \<and> list_all P (take n l)"
proof (induction l arbitrary: n)
  case (Cons x l)
  then show ?case by (cases n) auto
qed simp

lemma sustained_iff_run: "sustained n P hist \<longleftrightarrow> n \<le> run_length P hist"
  by (simp add: sustained_def run_length_def takeWhile_ge)

primrec run_thresholds ::
  "(float64 \<Rightarrow> float64 \<Rightarrow> float64) \<Rightarrow> perf_config \<Rightarrow> duration \<Rightarrow> perf_snapshot option list \<Rightarrow> perf_trigger_state \<Rightarrow> perf_trigger_state" where
  "run_thresholds percent cfg interval [] st = st"
| "run_thresholds percent cfg interval (s # ss) st =
     run_thresholds percent cfg interval ss (fst (evaluate_thresholds percent s cfg interval st))"

definition zero_triggers :: perf_trigger_state where
  "zero_triggers = \<lparr>pt_cpu_warn = 0, pt_cpu_crit = 0, pt_mem_warn = 0, pt_mem_crit = 0,
     pt_delay_warn = 0, pt_delay_crit = 0\<rparr>"

lemma run_thresholds_append:
  "run_thresholds percent cfg interval (ss @ [s]) st =
   fst (evaluate_thresholds percent s cfg interval (run_thresholds percent cfg interval ss st))"
  by (induction ss arbitrary: st) simp_all

lemma counts_step:
  "counts_of (fst (evaluate_snapshot percent s cfg interval st)) m =
   count_breach (crit_breach percent cfg m s) (beyond percent cfg m (warn_level cfg m) s) (counts_of st m)"
  by (cases m) (simp_all add: evaluate_snapshot_def Let_def counts_of_def crit_breach_def beyond_def
      crit_level_def warn_level_def)

definition collected :: "'a option list \<Rightarrow> 'a list" where
  "collected ss = List.map_filter (\<lambda>s. s) ss"

lemma collected_snoc [simp]:
  "collected [] = []" "collected (ss @ [None]) = collected ss" "collected (ss @ [Some s]) = collected ss @ [s]"
  by (simp_all add: collected_def List.map_filter_def)

lemma counts_are_runs:
  "counts_of (run_thresholds percent cfg interval ss zero_triggers) m =
   (run_length (warn_breach percent cfg m) (collected ss), run_length (crit_breach percent cfg m) (collected ss))"
proof (induction ss rule: rev_induct)
  case Nil
  show ?case by (cases m) (simp_all add: counts_of_def zero_triggers_def run_length_def)
next
  case (snoc s ss)
  then show ?case
    by (cases s) (simp_all add: run_thresholds_append counts_step count_breach_def warn_breach_def)
qed

lemma raise_trigger_set:
  "set (raise_trigger crit_on warn_on polls ct wt counts) =
     (if crit_on \<and> polls \<le> int (snd counts) then {ct}
      else if warn_on \<and> polls \<le> int (fst counts) then {wt} else {})"
  by (cases counts) (simp add: raise_trigger_def)

definition raised :: "perf_config \<Rightarrow> duration \<Rightarrow> metric \<Rightarrow> nat \<times> nat \<Rightarrow> trigger set" where
  "raised cfg interval m counts =
     (if crit_level cfg m > 0 \<and> polls_of cfg interval m \<le> snd counts then {crit_trigger m}
      else if warn_level cfg m > 0 \<and> polls_of cfg interval m \<le> fst counts then {warn_trigger m} else {})"

lemma triggers_eq:
  "snd (evaluate_snapshot percent s cfg interval st) =
   concat (map (\<lambda>m. raise_trigger (crit_level cfg m > 0) (warn_level cfg m > 0)
       (case m of Input_Delay \<Rightarrow> delay_polls cfg interval | _ \<Rightarrow> load_polls cfg interval)
       (crit_trigger m) (warn_trigger m) (counts_of (fst (evaluate_snapshot percent s cfg interval st)) m))
     [Cpu, Memory, Input_Delay])"
  by (simp add: evaluate_snapshot_def Let_def counts_of_def crit_level_def warn_level_def crit_trigger_def
      warn_trigger_def)

lemma raised_set:
  "set (snd (evaluate_snapshot percent s cfg interval st)) =
   (\<Union>m. raised cfg interval m (counts_of (fst (evaluate_snapshot percent s cfg interval st)) m))"
proof -
  have metrics: "(UNIV :: metric set) = {Cpu, Memory, Input_Delay}" using metric.exhaust by auto
  have "(\<Union>m. f m) = f Cpu \<union> (f Memory \<union> f Input_Delay)" for f :: "metric \<Rightarrow> trigger set"
    by (subst metrics) simp
  moreover have "raised cfg interval m counts = set (raise_trigger (crit_level cfg m > 0) (warn_level cfg m > 0)
       (case m of Input_Delay \<Rightarrow> delay_polls cfg interval | _ \<Rightarrow> load_polls cfg interval)
       (crit_trigger m) (warn_trigger m) counts)" for m counts
    by (cases m) (simp_all add: raised_def raise_trigger_set polls_of_def nat_le_iff)
  ultimately show ?thesis by (subst triggers_eq) simp
qed

lemma triggers_distinct:
  "crit_trigger m \<in> raised cfg interval k counts \<longleftrightarrow> k = m \<and> crit_level cfg m > 0 \<and> polls_of cfg interval m \<le> snd counts"
  "warn_trigger m \<in> raised cfg interval k counts \<longleftrightarrow> k = m \<and> warn_level cfg m > 0 \<and> polls_of cfg interval m \<le> fst counts
     \<and> \<not> (crit_level cfg m > 0 \<and> polls_of cfg interval m \<le> snd counts)"
  by (cases m; cases k; simp add: raised_def crit_trigger_def warn_trigger_def)+

lemma raised_iff:
  "crit_trigger m \<in> set (snd (evaluate_snapshot percent s cfg interval st)) \<longleftrightarrow>
     crit_level cfg m > 0 \<and> polls_of cfg interval m \<le> snd (counts_of (fst (evaluate_snapshot percent s cfg interval st)) m)"
  "warn_trigger m \<in> set (snd (evaluate_snapshot percent s cfg interval st)) \<longleftrightarrow>
     warn_level cfg m > 0 \<and> polls_of cfg interval m \<le> fst (counts_of (fst (evaluate_snapshot percent s cfg interval st)) m)
     \<and> crit_trigger m \<notin> set (snd (evaluate_snapshot percent s cfg interval st))"
  by (auto simp: raised_set triggers_distinct)

text \<open>
  C20: under a constant configuration, a critical trigger is raised at an evaluation exactly when a
  snapshot was collected for it, the threshold is enabled and the last \<open>n\<close> collected snapshots, this one
  included, were all beyond it, where \<open>n\<close> is the configured delay in polls; a warning likewise with
  "beyond the warning or the critical threshold", unless the critical one is raised. Evaluations without
  a snapshot neither count nor interrupt.
\<close>

theorem alert_iff_sustained:
  "let out = set (snd (evaluate_thresholds percent snap cfg interval
                   (run_thresholds percent cfg interval ss zero_triggers)));
       n = polls_of cfg interval m
   in (crit_trigger m \<in> out \<longleftrightarrow>
        snap \<noteq> None \<and> crit_level cfg m > 0 \<and> sustained n (crit_breach percent cfg m) (collected (ss @ [snap])))
    \<and> (warn_trigger m \<in> out \<longleftrightarrow>
        snap \<noteq> None \<and> warn_level cfg m > 0 \<and> sustained n (warn_breach percent cfg m) (collected (ss @ [snap]))
        \<and> crit_trigger m \<notin> out)"
proof (cases snap)
  case (Some s)
  have "counts_of (fst (evaluate_snapshot percent s cfg interval
      (run_thresholds percent cfg interval ss zero_triggers))) m =
     (run_length (warn_breach percent cfg m) (collected (ss @ [snap])),
      run_length (crit_breach percent cfg m) (collected (ss @ [snap])))"
    using counts_are_runs [of percent cfg interval "ss @ [snap]" m] unfolding run_thresholds_append
    by (simp add: Some)
  then show ?thesis
    unfolding Let_def Some evaluate_thresholds_simps raised_iff sustained_iff_run by simp
qed (simp add: Let_def)

text \<open>
  With the alert delay written as -1 (the value that disables a threshold) the number of polls is
  zero: a host with an enabled critical CPU threshold raises \<open>cpu_critical\<close> at every evaluation, however
  low its load. \<open>Validate\<close> leaves that delay in the configuration.
\<close>

theorem disabled_delay_alerts_always:
  assumes "pc_load_delay cfg = -1" and "crit_level cfg Cpu > 0" and "interval_seconds cfg interval < 2 ^ 63"
  shows "''cpu_critical'' \<in> set (snd (evaluate_thresholds percent (Some s) cfg interval st))
    \<and> pc_load_delay (validate_performance cfg) = -1"
proof -
  have "interval_seconds cfg interval > 0" by (simp add: interval_seconds_def Let_def)
  then have "load_polls cfg interval = 0"
    using assms(3) by (simp add: load_polls_def resolve_threshold_def assms(1) ceil_div_def wrap64_id go_div_def)
  then have "polls_of cfg interval Cpu = 0" by (simp add: polls_of_def)
  with raised_iff(1) [of Cpu percent s cfg interval st] assms
  show ?thesis by (simp add: crit_trigger_def validate_performance_def)
qed

lemma disabled_delay_alerts_always_witness:
  "''cpu_critical'' \<in> set (snd (evaluate_thresholds (\<lambda>a b. fint 50)
      (Some \<lparr>ps_cpu = fint 1, ps_cpu_p95 = fint 1, ps_logical = 8, ps_mem_avail = fint 900, ps_mem_total = fint 1000,
       ps_pages = fint 0, ps_disk_queue = fint 0, ps_tcp_retrans = fint 0, ps_delay_p50 = fint 1,
       ps_delay_p95 = fint 2, ps_delay_max = fint 3\<rparr>)
      ((cf_performance (default_config ''db''))\<lparr>pc_load_delay := -1\<rparr>) (300 * second) zero_triggers))
    \<and> pc_load_delay (validate_performance ((cf_performance (default_config ''db''))\<lparr>pc_load_delay := -1\<rparr>)) = -1"
  by (rule disabled_delay_alerts_always) (simp_all add: default_config_def crit_level_def resolve_threshold_def interval_seconds_def go_div_def second_def)

end
