(* ===== verification/Notifications.thy ===== *)
theory Notifications
  imports Thresholds
begin

text \<open>
  Notifications (\<open>notify.go\<close>, the status label of \<open>email.go\<close>, the pruning of \<open>internal/svc/check.go\<close>) and
  the edits of the target list (\<open>notify_target.go\<close>). The transport is outside: a dispatch is the target
  with the status it carries, and its outcome is an argument. A failed dispatch rolls its timestamp
  back either before the next target is examined or after all of them, since the dispatches run
  beside the loop; the argument says which. A time stamp that was never set is \<open>None\<close>.
\<close>

subsection \<open>The repeat state\<close>

record notify_state =
  ns_alert :: "string \<Rightarrow> instant option"
  ns_session :: "string \<Rightarrow> instant option"
  ns_perf :: "string \<times> trigger \<Rightarrow> instant option"
  ns_spike :: "string \<times> string \<Rightarrow> instant option"

definition empty_notify_state :: notify_state where
  "empty_notify_state = \<lparr>ns_alert = (\<lambda>_. None), ns_session = (\<lambda>_. None), ns_perf = (\<lambda>_. None), ns_spike = (\<lambda>_. None)\<rparr>"

definition is_repeat_trigger :: "trigger \<Rightarrow> bool" where
  "is_repeat_trigger t \<longleftrightarrow> t = ''alert'' \<or> t = ''session_warning'' \<or> t = ''event_spike'' \<or> is_perf_trigger t"

definition subordinate_trigger :: "trigger \<Rightarrow> trigger option" where
  "subordinate_trigger t =
     (if t = ''cpu_critical'' then Some ''cpu_warning''
      else if t = ''memory_critical'' then Some ''memory_warning''
      else if t = ''input_delay_critical'' then Some ''input_delay_warning'' else None)"

definition get_last_sent :: "notify_state \<Rightarrow> string \<Rightarrow> trigger \<Rightarrow> instant option" where
  "get_last_sent st url t =
     (if t = ''alert'' then ns_alert st url else if t = ''session_warning'' then ns_session st url
      else ns_perf st (url, t))"

definition set_last_sent :: "string \<Rightarrow> trigger \<Rightarrow> instant \<Rightarrow> notify_state \<Rightarrow> notify_state" where
  "set_last_sent url t now st =
     (if t = ''alert'' then st\<lparr>ns_alert := (ns_alert st)(url \<mapsto> now)\<rparr>
      else if t = ''session_warning'' then st\<lparr>ns_session := (ns_session st)(url \<mapsto> now)\<rparr>
      else st\<lparr>ns_perf := (ns_perf st)((url, t) \<mapsto> now)\<rparr>)"

definition prune_notify_state :: "notify_target list \<Rightarrow> notify_state \<Rightarrow> notify_state" where
  "prune_notify_state targets st =
     (let active = {nt_url t | t. t \<in> set targets \<and> nt_url t \<noteq> []} in
      st\<lparr>ns_alert := (\<lambda>u. if u \<in> active then ns_alert st u else None),
         ns_session := (\<lambda>u. if u \<in> active then ns_session st u else None),
         ns_perf := (\<lambda>(u, t). if u \<in> active then ns_perf st (u, t) else None)\<rparr>)"

subsection \<open>Labels\<close>

definition trigger_status :: "string \<Rightarrow> trigger \<Rightarrow> string" where
  "trigger_status drain_status t =
     (if t = ''cpu_warning'' then ''CPU Warning'' else if t = ''cpu_critical'' then ''CPU Critical''
      else if t = ''memory_warning'' then ''Memory Warning'' else if t = ''memory_critical'' then ''Memory Critical''
      else if t = ''input_delay_warning'' then ''Input Delay Warning''
      else if t = ''input_delay_critical'' then ''Input Delay Critical''
      else if t = ''session_warning'' then ''Session Warning'' else drain_status)"

definition spike_severity :: "notify_target \<Rightarrow> string \<Rightarrow> string" where
  "spike_severity target fallback =
     (let s = to_lower (nt_severity target); f = to_lower fallback in
      if s = ''warning'' \<or> s = ''alert'' then s
      else if f = ''warning'' \<or> f = ''alert'' then f else ''warning'')"

definition ntfy_style :: "trigger \<Rightarrow> string" where
  "ntfy_style t =
     (if t \<in> {''alert'', ''cpu_critical'', ''memory_critical'', ''input_delay_critical''} then ''high'' else ''default'')"

definition spike_ntfy_priority :: "string \<Rightarrow> string" where
  "spike_ntfy_priority severity = (if to_lower severity = ''alert'' then ''high'' else ''default'')"

definition spike_ntfy_tags :: "string \<Rightarrow> string \<Rightarrow> string" where
  "spike_ntfy_tags host channel =
     ''evtspike,'' @ host @ '','' @ rev (takeWhile (\<lambda>c. c \<noteq> CHR ''/'') (rev channel))"

definition format_duration :: "duration \<Rightarrow> string" where
  "format_duration d =
     (let t = dur_truncate d minute; h = go_div t hour; m = go_rem (go_div t minute) 60 in
      if h > 0 \<and> m > 0 then format_uint (nat h) @ ''h '' @ format_uint (nat m) @ ''m''
      else if h > 0 then format_uint (nat h) @ ''h''
      else if m > 0 then format_uint (nat m) @ ''m'' else ''0m'')"

subsection \<open>Sending\<close>

record spike_event =
  se_host :: string
  se_channel :: string

record notify_result =
  nr_host :: string
  nr_status :: string
  nr_spike :: "spike_event option"

record dispatch =
  dp_target :: notify_target
  dp_status :: string
  dp_time :: instant

datatype send_outcome = Sent | Failed_Early | Failed_Late

text \<open>Whether the repeat interval of a target lets a notification pass now.\<close>

definition due :: "notify_target \<Rightarrow> instant option \<Rightarrow> instant \<Rightarrow> bool" where
  "due t seen now =
     (let interval = nt_repeat t * minute in
      case seen of None \<Rightarrow> True | Some s \<Rightarrow> interval > 0 \<and> \<not> now - s < interval)"

definition spike_key :: "spike_event \<Rightarrow> string" where
  "spike_key s = se_host s @ ''|'' @ se_channel s"

text \<open>
  One turn of the loop: \<open>None\<close> when the target is skipped, otherwise the state with the new time
  stamp and what a failed dispatch does to it.
\<close>

definition notify_one ::
  "notify_result \<Rightarrow> trigger \<Rightarrow> notify_target \<Rightarrow> instant \<Rightarrow> notify_state
   \<Rightarrow> (notify_state \<times> dispatch list \<times> (notify_state \<Rightarrow> notify_state)) option" where
  "notify_one r trigger t now st =
     (let sends = (\<lambda>status. if nt_type t \<in> {''webhook'', ''ntfy'', ''email''}
                            then [\<lparr>dp_target = t, dp_status = status, dp_time = now\<rparr>] else []) in
      if nt_enabled t = Some False then None
      else if nt_url t = [] \<or> \<not> has_trigger t trigger \<or> excludes_server t (nr_host r) trigger then None
      else if \<not> is_repeat_trigger trigger then Some (st, sends (trigger_status (nr_status r) trigger), id)
      else if trigger = ''event_spike'' then
        (case nr_spike r of None \<Rightarrow> None
         | Some s \<Rightarrow>
             (let key = (nt_url t, spike_key s); prev = ns_spike st key in
              if \<not> due t prev now then None
              else Some (st\<lparr>ns_spike := (ns_spike st)(key \<mapsto> now)\<rparr>, sends (spike_severity t (nr_status r)),
                         (\<lambda>st. st\<lparr>ns_spike := (ns_spike st)(key := prev)\<rparr>))))
      else if \<not> due t (get_last_sent st (nt_url t) trigger) now then None
      else
        (let st1 = set_last_sent (nt_url t) trigger now st;
             st2 = (case subordinate_trigger trigger of None \<Rightarrow> st1 | Some sub \<Rightarrow> set_last_sent (nt_url t) sub now st1)
         in Some (st2, sends (trigger_status (nr_status r) trigger), id)))"

text \<open>The clock and the outcome of the \<open>i\<close>-th target; the last result is the rollbacks still to come.\<close>

fun notify_loop ::
  "notify_result \<Rightarrow> trigger \<Rightarrow> (nat \<Rightarrow> instant) \<Rightarrow> (nat \<Rightarrow> send_outcome) \<Rightarrow> nat \<Rightarrow> notify_target list
   \<Rightarrow> notify_state \<Rightarrow> notify_state \<times> dispatch list \<times> (notify_state \<Rightarrow> notify_state) list" where
  "notify_loop r trigger clock outcome i [] st = (st, [], [])"
| "notify_loop r trigger clock outcome i (t # ts) st =
     (case notify_one r trigger t (clock i) st of
        None \<Rightarrow> notify_loop r trigger clock outcome (Suc i) ts st
      | Some (st1, ds, undo) \<Rightarrow>
          (let failed = (ds \<noteq> [] \<and> outcome i = Failed_Early);
               (st2, ds', undos) = notify_loop r trigger clock outcome (Suc i) ts (if failed then undo st1 else st1)
           in (st2, ds @ ds', if ds \<noteq> [] \<and> outcome i = Failed_Late then undo # undos else undos)))"

definition send_notification ::
  "notify_target list \<Rightarrow> string list \<Rightarrow> notify_result \<Rightarrow> trigger \<Rightarrow> (nat \<Rightarrow> instant) \<Rightarrow> (nat \<Rightarrow> send_outcome)
   \<Rightarrow> notify_state \<Rightarrow> notify_state \<times> dispatch list" where
  "send_notification targets exclusions r trigger clock outcome st =
     (if is_notification_excluded exclusions (nr_host r) then (st, [])
      else if targets = [] then (st, [])
      else
        (let st0 = (if trigger = ''healthy'' \<or> trigger = ''drain_off'' then st\<lparr>ns_alert := (\<lambda>_. None)\<rparr> else st);
             (st1, ds, undos) = notify_loop r trigger clock outcome 0 targets st0
         in (fold (\<lambda>undo st. undo st) undos st1, ds)))"

subsection \<open>Routing\<close>

lemma notify_one_cases:
  assumes "notify_one r trigger t now st = Some (st', ds, undo)"
  shows "nt_enabled t \<noteq> Some False \<and> nt_url t \<noteq> [] \<and> has_trigger t trigger \<and> \<not> excludes_server t (nr_host r) trigger"
    and "d \<in> set ds \<Longrightarrow> dp_target d = t \<and> dp_time d = now"
  using assms by (auto simp: notify_one_def Let_def split: if_splits option.splits)

lemma notify_loop_Cons:
  assumes "notify_loop r trigger clock outcome i (t # ts) st = (st', ds, undos)"
  obtains "notify_one r trigger t (clock i) st = None"
      and "notify_loop r trigger clock outcome (Suc i) ts st = (st', ds, undos)"
  | st1 ds1 undo st2 ds2 undos2 where "notify_one r trigger t (clock i) st = Some (st1, ds1, undo)"
      and "st2 = (if ds1 \<noteq> [] \<and> outcome i = Failed_Early then undo st1 else st1)"
      and "notify_loop r trigger clock outcome (Suc i) ts st2 = (st', ds2, undos2)"
      and "ds = ds1 @ ds2"
      and "undos = (if ds1 \<noteq> [] \<and> outcome i = Failed_Late then undo # undos2 else undos2)"
proof (cases "notify_one r trigger t (clock i) st")
  case None
  with assms that(1) show ?thesis by simp
next
  case (Some res)
  obtain st1 ds1 undo where res: "res = (st1, ds1, undo)" by (cases res)
  obtain st'' ds2 undos2 where rest: "notify_loop r trigger clock outcome (Suc i) ts
      (if ds1 \<noteq> [] \<and> outcome i = Failed_Early then undo st1 else st1) = (st'', ds2, undos2)"
    by (metis prod_cases3)
  show ?thesis
    by (rule that(2) [OF Some [unfolded res] refl, of ds2 undos2]) (use assms Some res rest in \<open>auto simp: Let_def\<close>)
qed

lemma notify_loop_routing:
  "notify_loop r trigger clock outcome i ts st = (st', ds, undos) \<Longrightarrow> d \<in> set ds \<Longrightarrow>
   dp_target d \<in> set ts \<and> nt_enabled (dp_target d) \<noteq> Some False \<and> nt_url (dp_target d) \<noteq> []
   \<and> has_trigger (dp_target d) trigger \<and> \<not> excludes_server (dp_target d) (nr_host r) trigger"
proof (induction ts arbitrary: i st st' ds undos)
  case (Cons t ts)
  from Cons.prems(1) show ?case
  proof (cases rule: notify_loop_Cons)
    case 1
    with Cons show ?thesis by auto
  next
    case (2 st1 ds1 undo st2 ds2 undos2)
    note one = 2(1) and st2 = 2(2) and rest = 2(3)
    from 2 consider "d \<in> set ds1" | "d \<in> set ds2" using Cons.prems(2) by auto
    then show ?thesis
    proof cases
      case 1
      then show ?thesis using notify_one_cases [OF one] by simp
    next
      case 2
      then show ?thesis using Cons.IH [OF rest] by simp
    qed
  qed
qed simp

text \<open>
  Whatever is dispatched goes to a configured target that is enabled, has an address, subscribes to the
  trigger, does not exclude the host, and the host is not globally excluded.
\<close>

theorem routing_sound:
  assumes "d \<in> set (snd (send_notification targets exclusions r trigger clock outcome st))"
  shows "dp_target d \<in> set targets \<and> nt_enabled (dp_target d) \<noteq> Some False \<and> nt_url (dp_target d) \<noteq> []
    \<and> has_trigger (dp_target d) trigger \<and> \<not> excludes_server (dp_target d) (nr_host r) trigger
    \<and> \<not> is_notification_excluded exclusions (nr_host r)"
  using assms notify_loop_routing [of r trigger clock outcome 0 targets]
  by (fastforce simp: send_notification_def Let_def split: if_splits prod.splits)

subsection \<open>The repeat interval\<close>

lemma get_set_last_sent [simp]:
  "get_last_sent (set_last_sent u' t' now st) u t = (if u = u' \<and> t = t' then Some now else get_last_sent st u t)"
  by (simp add: get_last_sent_def set_last_sent_def)

lemma get_last_sent_spike [simp]: "get_last_sent (st\<lparr>ns_spike := f\<rparr>) u t = get_last_sent st u t"
  by (simp add: get_last_sent_def)

text \<open>A time stamp no older than \<open>T\<close>.\<close>

definition sent_since :: "instant \<Rightarrow> notify_state \<Rightarrow> string \<Rightarrow> trigger \<Rightarrow> bool" where
  "sent_since T st u t \<longleftrightarrow> (\<exists>s. get_last_sent st u t = Some s \<and> T \<le> s)"

definition spike_only :: "(notify_state \<Rightarrow> notify_state) \<Rightarrow> bool" where
  "spike_only f \<longleftrightarrow> (\<forall>st u t. get_last_sent (f st) u t = get_last_sent st u t)"

lemma notify_one_step:
  assumes "notify_one r trigger t now st = Some (st', ds, undo)"
  shows "spike_only undo"
    and "T \<le> now \<Longrightarrow> sent_since T st u tr \<Longrightarrow> sent_since T st' u tr"
    and "is_repeat_trigger trigger \<Longrightarrow> trigger \<noteq> ''event_spike'' \<Longrightarrow>
      due t (get_last_sent st (nt_url t) trigger) now
      \<and> (tr = trigger \<or> subordinate_trigger trigger = Some tr \<longrightarrow> get_last_sent st' (nt_url t) tr = Some now)"
  using assms
  by (auto simp: notify_one_def Let_def spike_only_def sent_since_def split: if_splits option.splits)

lemma spike_only_sent_since: "spike_only f \<Longrightarrow> sent_since T (f st) u t = sent_since T st u t"
  by (simp add: spike_only_def sent_since_def)

lemma notify_loop_undos:
  "notify_loop r trigger clock outcome i ts st = (st', ds, undos) \<Longrightarrow> list_all spike_only undos"
proof (induction ts arbitrary: i st st' ds undos)
  case (Cons t ts)
  from Cons.prems show ?case
    by (cases rule: notify_loop_Cons) (auto dest: Cons.IH notify_one_step(1))
qed simp

lemma notify_loop_keeps:
  "notify_loop r trigger clock outcome i ts st = (st', ds, undos) \<Longrightarrow> \<forall>j \<ge> i. T \<le> clock j \<Longrightarrow>
   sent_since T st u tr \<Longrightarrow> sent_since T st' u tr"
proof (induction ts arbitrary: i st st' ds undos)
  case (Cons t ts)
  from Cons.prems(1) show ?case
  proof (cases rule: notify_loop_Cons)
    case 1
    then show ?thesis using Cons by auto
  next
    case (2 st1 ds1 undo st2 ds2 undos2)
    note one = 2(1) and st2 = 2(2) and rest = 2(3)
    have "sent_since T st1 u tr" using notify_one_step(2) [OF one, of T u tr] Cons.prems by simp
    then have "sent_since T st2 u tr"
      using notify_one_step(1) [OF one] st2 by (simp add: spike_only_sent_since)
    then show ?thesis using Cons.IH [OF rest] Cons.prems by simp
  qed
qed simp

lemma notify_loop_records:
  "notify_loop r trigger clock outcome i ts st = (st', ds, undos) \<Longrightarrow> mono clock \<Longrightarrow> d \<in> set ds \<Longrightarrow>
   is_repeat_trigger trigger \<Longrightarrow> trigger \<noteq> ''event_spike'' \<Longrightarrow>
   tr = trigger \<or> subordinate_trigger trigger = Some tr \<Longrightarrow>
   sent_since (dp_time d) st' (nt_url (dp_target d)) tr"
proof (induction ts arbitrary: i st st' ds undos)
  case (Cons t ts)
  from Cons.prems(1) show ?case
  proof (cases rule: notify_loop_Cons)
    case 1
    then show ?thesis using Cons by auto
  next
    case (2 st1 ds1 undo st2 ds2 undos2)
    note one = 2(1) and st2 = 2(2) and rest = 2(3)
    from 2 consider "d \<in> set ds1" | "d \<in> set ds2" using Cons.prems(3) by auto
    then show ?thesis
    proof cases
      case 1
      then have d: "dp_target d = t" "dp_time d = clock i" using notify_one_cases(2) [OF one] by simp_all
      have "get_last_sent st1 (nt_url t) tr = Some (clock i)"
        using notify_one_step(3) [OF one Cons.prems(4,5), of tr] Cons.prems(6) by blast
      then have "sent_since (clock i) st1 (nt_url t) tr" by (simp add: sent_since_def)
      then have "sent_since (clock i) st2 (nt_url t) tr"
        using notify_one_step(1) [OF one] st2 by (simp add: spike_only_sent_since)
      moreover have "\<forall>j \<ge> Suc i. clock i \<le> clock j" using Cons.prems(2) by (simp add: mono_def)
      ultimately show ?thesis using notify_loop_keeps [OF rest] d by simp
    next
      case 2
      then show ?thesis using Cons.IH [OF rest] Cons.prems by simp
    qed
  qed
qed simp

lemma notify_loop_spaced:
  "notify_loop r trigger clock outcome i ts st = (st', ds, undos) \<Longrightarrow> \<forall>j \<ge> i. T \<le> clock j \<Longrightarrow> d \<in> set ds \<Longrightarrow>
   is_repeat_trigger trigger \<Longrightarrow> trigger \<noteq> ''event_spike'' \<Longrightarrow>
   sent_since T st (nt_url (dp_target d)) trigger \<Longrightarrow>
   0 < nt_repeat (dp_target d) \<and> nt_repeat (dp_target d) * minute \<le> dp_time d - T"
proof (induction ts arbitrary: i st st' ds undos)
  case (Cons t ts)
  from Cons.prems(1) show ?case
  proof (cases rule: notify_loop_Cons)
    case 1
    then show ?thesis using Cons by auto
  next
    case (2 st1 ds1 undo st2 ds2 undos2)
    note one = 2(1) and st2 = 2(2) and rest = 2(3)
    from 2 consider "d \<in> set ds1" | "d \<in> set ds2" using Cons.prems(3) by auto
    then show ?thesis
    proof cases
      case 1
      then have d: "dp_target d = t" "dp_time d = clock i" using notify_one_cases(2) [OF one] by simp_all
      have "due t (get_last_sent st (nt_url t) trigger) (clock i)"
        using notify_one_step(3) [OF one Cons.prems(4,5), of trigger] by blast
      then show ?thesis
        using Cons.prems(6) d
        by (auto simp: due_def Let_def sent_since_def minute_def second_def zero_less_mult_iff)
    next
      case 2
      have "sent_since T st1 (nt_url (dp_target d)) trigger"
        using notify_one_step(2) [OF one, of T "nt_url (dp_target d)" trigger] Cons.prems by simp
      then have "sent_since T st2 (nt_url (dp_target d)) trigger"
        using notify_one_step(1) [OF one] st2 by (simp add: spike_only_sent_since)
      then show ?thesis using Cons.IH [OF rest] Cons.prems 2 by simp
    qed
  qed
qed simp

subsection \<open>Histories of calls\<close>

datatype notify_op =
    Send "notify_target list" "string list" notify_result trigger "nat \<Rightarrow> instant" "nat \<Rightarrow> send_outcome"
  | Prune "notify_target list"

definition notify_step :: "notify_op \<Rightarrow> notify_state \<Rightarrow> notify_state" where
  "notify_step op st = (case op of
     Send targets exclusions r trigger clock outcome \<Rightarrow>
       fst (send_notification targets exclusions r trigger clock outcome st)
   | Prune targets \<Rightarrow> prune_notify_state targets st)"

text \<open>What forgets the time stamp of a trigger at an address: going back to normal clears all alerts, and
  pruning drops the addresses that are no longer configured.\<close>

fun forgets :: "string \<Rightarrow> trigger \<Rightarrow> notify_op \<Rightarrow> bool" where
  "forgets url tr (Send targets exclusions r trigger clock outcome) =
     (tr = ''alert'' \<and> (trigger = ''healthy'' \<or> trigger = ''drain_off''))"
| "forgets url tr (Prune targets) = (url = [] \<or> url \<notin> nt_url ` set targets)"

fun not_before :: "instant \<Rightarrow> notify_op \<Rightarrow> bool" where
  "not_before T (Send targets exclusions r trigger clock outcome) \<longleftrightarrow> (\<forall>i. T \<le> clock i)"
| "not_before T (Prune targets) = True"

lemma undos_keep:
  "list_all spike_only undos \<Longrightarrow> sent_since T (fold (\<lambda>undo st. undo st) undos st) u t = sent_since T st u t"
  by (induction undos arbitrary: st) (auto simp: spike_only_sent_since)

lemma send_result:
  assumes "send_notification targets exclusions r trigger clock outcome st = (st', ds)"
  obtains "st' = st" and "ds = []"
  | st0 st1 undos where "st0 = (if trigger = ''healthy'' \<or> trigger = ''drain_off'' then st\<lparr>ns_alert := (\<lambda>_. None)\<rparr> else st)"
    and "notify_loop r trigger clock outcome 0 targets st0 = (st1, ds, undos)"
    and "\<And>T u t. sent_since T st' u t = sent_since T st1 u t"
proof -
  obtain st1 ds1 undos where loop: "notify_loop r trigger clock outcome 0 targets
      (if trigger = ''healthy'' \<or> trigger = ''drain_off'' then st\<lparr>ns_alert := (\<lambda>_. None)\<rparr> else st) = (st1, ds1, undos)"
    by (metis prod_cases3)
  show thesis
  proof (cases "is_notification_excluded exclusions (nr_host r) \<or> targets = []")
    case True
    then have "st' = st" "ds = []" using assms by (auto simp: send_notification_def split: if_splits)
    then show ?thesis by (rule that(1))
  next
    case False
    then have "st' = fold (\<lambda>undo st. undo st) undos st1" "ds = ds1"
      using assms loop by (auto simp: send_notification_def Let_def)
    then show ?thesis
      using that(2) [OF refl, of st1 undos] loop undos_keep [OF notify_loop_undos [OF loop]] by simp
  qed
qed

lemma notify_step_keeps:
  assumes "sent_since T st u tr" and "not_before T op" and "\<not> forgets u tr op"
  shows "sent_since T (notify_step op st) u tr"
proof (cases op)
  case (Send targets exclusions r trigger clock outcome)
  obtain st' ds where sent: "send_notification targets exclusions r trigger clock outcome st = (st', ds)"
    by (metis surj_pair)
  from sent have "sent_since T st' u tr"
  proof (cases rule: send_result)
    case 1
    then show ?thesis using assms(1) by simp
  next
    case (2 st0 st1 undos)
    have "sent_since T st0 u tr"
      using assms(1,3) 2(1) Send by (auto simp: sent_since_def get_last_sent_def)
    then have "sent_since T st1 u tr" using notify_loop_keeps [OF 2(2)] assms(2) Send by simp
    then show ?thesis using 2(3) by simp
  qed
  then show ?thesis using Send sent by (simp add: notify_step_def)
next
  case (Prune targets)
  then show ?thesis
    using assms(1,3)
    by (auto simp: notify_step_def prune_notify_state_def Let_def sent_since_def get_last_sent_def)
qed

lemma notify_steps_keep:
  "sent_since T st u tr \<Longrightarrow> \<forall>op \<in> set ops. not_before T op \<and> \<not> forgets u tr op \<Longrightarrow>
   sent_since T (fold notify_step ops st) u tr"
  by (induction ops arbitrary: st) (simp_all add: notify_step_keeps)

text \<open>
  C7: two notifications of a repeating trigger other than \<open>event_spike\<close> (which repeats per channel and
  severity) to the same address are at least the receiving target's repeat interval apart, and with an
  interval of zero the second never happens, whatever is sent or pruned in between; unless in between the
  time stamps of \<open>alert\<close> were reset (by a \<open>healthy\<close> or \<open>drain_off\<close> notification) or the address was pruned, and as long
  as the clock does not run backwards. A critical notification holds back the warning of the same metric in
  the same way.
\<close>

theorem repeat_interval_respected:
  assumes first: "send_notification targets exclusions r trigger clock outcome st = (st1, ds)" "d \<in> set ds"
    and repeating: "is_repeat_trigger trigger" "trigger \<noteq> ''event_spike''"
    and later: "tr = trigger \<or> subordinate_trigger trigger = Some tr"
    and between: "\<forall>op \<in> set ops. not_before (dp_time d) op \<and> \<not> forgets (nt_url (dp_target d)) tr op"
    and second: "send_notification targets' exclusions' r' tr clock' outcome' (fold notify_step ops st1) = (st2, ds')"
      "d' \<in> set ds'" "nt_url (dp_target d') = nt_url (dp_target d)"
    and clocks: "mono clock" "\<forall>i. dp_time d \<le> clock' i"
  shows "0 < nt_repeat (dp_target d') \<and> nt_repeat (dp_target d') * minute \<le> dp_time d' - dp_time d"
proof -
  have tr: "is_repeat_trigger tr" "tr \<noteq> ''event_spike''" "tr \<noteq> ''healthy''" "tr \<noteq> ''drain_off''"
    using later repeating
    by (auto simp: is_repeat_trigger_def is_perf_trigger_def subordinate_trigger_def split: if_splits)
  have "sent_since (dp_time d) st1 (nt_url (dp_target d)) tr"
    using first(1)
  proof (cases rule: send_result)
    case 1
    then show ?thesis using first(2) by simp
  next
    case (2 st0 st1' undos)
    then show ?thesis using notify_loop_records [OF 2(2) clocks(1) first(2) repeating later] by simp
  qed
  then have kept: "sent_since (dp_time d) (fold notify_step ops st1) (nt_url (dp_target d')) tr"
    using notify_steps_keep between second(3) by metis
  from second(1) show ?thesis
  proof (cases rule: send_result)
    case 1
    then show ?thesis using second(2) by simp
  next
    case (2 st0 st1' undos)
    have "sent_since (dp_time d) st0 (nt_url (dp_target d')) tr" using kept 2(1) tr by simp
    then show ?thesis using notify_loop_spaced [OF 2(2) _ second(2) tr(1,2)] clocks(2) by simp
  qed
qed

text \<open>
  The repeat state is kept per address, not per target: of two targets with the same address and the
  same interval (two e-mail lists behind one mail server), the later one never gets a repeating
  notification, whatever was sent before.
\<close>

theorem shared_address_starves:
  assumes "is_repeat_trigger trigger" and "trigger \<noteq> ''event_spike''"
    and "send_notification [t, t'] exclusions r trigger (\<lambda>_. now) outcome st = (st', ds)"
    and "nt_url t' = nt_url t" and "nt_repeat t' = nt_repeat t" and "t' \<noteq> t"
    and "nt_enabled t \<noteq> Some False" and "has_trigger t trigger" and "\<not> excludes_server t (nr_host r) trigger"
  shows "t' \<notin> dp_target ` set ds"
proof
  assume "t' \<in> dp_target ` set ds"
  then obtain d where d: "d \<in> set ds" "dp_target d = t'" by auto
  have th: "trigger \<noteq> ''healthy''" "trigger \<noteq> ''drain_off''"
    using assms(1) by (auto simp: is_repeat_trigger_def is_perf_trigger_def)
  from assms(3) show False
  proof (cases rule: send_result)
    case 1
    then show ?thesis using d by simp
  next
    case (2 st0 st1 undos)
    have st0: "st0 = st" using 2(1) th by simp
    have url: "nt_url t \<noteq> []" using notify_loop_routing [OF 2(2) d(1)] d(2) assms(4) by simp
    have one: "notify_one r trigger t now st =
        (if \<not> due t (get_last_sent st (nt_url t) trigger) now then None else notify_one r trigger t now st)"
      using assms by (simp add: notify_one_def)
    from 2(2)[unfolded st0] show ?thesis
    proof (cases rule: notify_loop_Cons)
      case 1
      have "\<not> due t (get_last_sent st (nt_url t) trigger) now"
        using 1(1) assms url by (auto simp: notify_one_def Let_def split: if_splits)
      then have "\<not> due t' (get_last_sent st (nt_url t') trigger) now" using assms by (simp add: due_def)
      then have "notify_one r trigger t' now st = None" using assms by (simp add: notify_one_def)
      then show ?thesis using 1(2) d by simp
    next
      case send: (2 sta ds1 undo stb ds2 undos2)
      have "get_last_sent sta (nt_url t) trigger = Some now"
        using notify_one_step(3) [OF send(1) assms(1,2), of trigger] by simp
      then have "get_last_sent stb (nt_url t) trigger = Some now"
        using notify_one_step(1) [OF send(1)] send(2) by (simp add: spike_only_def)
      then have "\<not> due t' (get_last_sent stb (nt_url t') trigger) now"
        using assms(4) by (simp add: due_def Let_def)
      then have "notify_one r trigger t' now stb = None" using assms by (simp add: notify_one_def)
      then have "ds2 = []" using send(3) by simp
      then show ?thesis using send(4) d notify_one_cases(2) [OF send(1)] assms(6) by auto
    qed
  qed
qed

text \<open>Witnesses: a web hook with a repeat interval of five minutes that hears of alerts at minutes 1 and 9.\<close>

definition sample_hook :: notify_target where
  "sample_hook = \<lparr>nt_type = ''webhook'', nt_url = ''https://h'', nt_triggers = [''alert''], nt_repeat = 5,
     nt_secret = [], nt_to = [], nt_from = [], nt_enabled = None, nt_severity = [], nt_exclusions = []\<rparr>"

definition sample_result :: notify_result where
  "sample_result = \<lparr>nr_host = ''RDS1'', nr_status = ''Alert'', nr_spike = None\<rparr>"

lemma sample_send:
  "send_notification [sample_hook] [] sample_result ''alert'' (\<lambda>_. now) (\<lambda>_. Sent) st =
   (if due sample_hook (get_last_sent st ''https://h'' ''alert'') now
    then (set_last_sent ''https://h'' ''alert'' now st,
          [\<lparr>dp_target = sample_hook, dp_status = ''Alert'', dp_time = now\<rparr>])
    else (st, []))"
  by (simp add: send_notification_def is_notification_excluded_def Let_def notify_one_def sample_hook_def
      sample_result_def has_trigger_def excludes_server_def is_repeat_trigger_def subordinate_trigger_def
      trigger_status_def)

lemma sample_due: "due sample_hook (Some s) now \<longleftrightarrow> 300000000000 \<le> now - s"
  by (auto simp: due_def sample_hook_def minute_def second_def)

lemma routing_sound_witness:
  "sample_hook \<in> set [sample_hook] \<and> nt_enabled sample_hook \<noteq> Some False \<and> nt_url sample_hook \<noteq> []
    \<and> has_trigger sample_hook ''alert'' \<and> \<not> excludes_server sample_hook (nr_host sample_result) ''alert''
    \<and> \<not> is_notification_excluded [] (nr_host sample_result)"
  using routing_sound [of "\<lparr>dp_target = sample_hook, dp_status = ''Alert'', dp_time = 0\<rparr>" "[sample_hook]" "[]"
      sample_result "''alert''" "\<lambda>_. 0" "\<lambda>_. Sent" empty_notify_state]
  by (simp add: sample_send due_def get_last_sent_def empty_notify_state_def)

lemma repeat_interval_respected_witness:
  "0 < nt_repeat sample_hook \<and> nt_repeat sample_hook * minute \<le> 9 * minute - 1 * minute"
proof -
  let ?d = "\<lambda>t. \<lparr>dp_target = sample_hook, dp_status = ''Alert'', dp_time = t\<rparr>"
  let ?st1 = "set_last_sent ''https://h'' ''alert'' (1 * minute) empty_notify_state"
  let ?mid = "Send [sample_hook] [] sample_result ''alert'' (\<lambda>_. 3 * minute) (\<lambda>_. Sent)"
  have first: "send_notification [sample_hook] [] sample_result ''alert'' (\<lambda>_. 1 * minute) (\<lambda>_. Sent) empty_notify_state
      = (?st1, [?d (1 * minute)])"
    by (simp add: sample_send due_def get_last_sent_def empty_notify_state_def)
  have mid: "fold notify_step [?mid] ?st1 = ?st1"
    by (simp add: notify_step_def sample_send sample_due minute_def second_def)
  have second: "send_notification [sample_hook] [] sample_result ''alert'' (\<lambda>_. 9 * minute) (\<lambda>_. Sent)
      (fold notify_step [?mid] ?st1) = (set_last_sent ''https://h'' ''alert'' (9 * minute) ?st1, [?d (9 * minute)])"
    unfolding mid by (simp add: sample_send sample_due minute_def second_def)
  show ?thesis
    using repeat_interval_respected [OF first, of "?d (1 * minute)" "''alert''" "[?mid]", OF _ _ _ _ _ second,
        of "?d (9 * minute)"]
    by (simp add: is_repeat_trigger_def mono_def minute_def second_def)
qed

lemma shared_address_starves_witness:
  "sample_hook\<lparr>nt_to := [''ops@x'']\<rparr> \<notin> dp_target ` set (snd (send_notification
     [sample_hook, sample_hook\<lparr>nt_to := [''ops@x'']\<rparr>] [] sample_result ''alert'' (\<lambda>_. 0) (\<lambda>_. Sent) empty_notify_state))"
  by (rule shared_address_starves [where t = sample_hook and r = sample_result and trigger = "''alert''"
        and now = 0 and outcome = "\<lambda>_. Sent" and st = empty_notify_state and exclusions = "[]"])
    (auto simp: is_repeat_trigger_def sample_hook_def has_trigger_def excludes_server_def
      intro: prod.collapse [symmetric])

end
