(* ===== verification/DrainCheck.thy ===== *)
theory DrainCheck
  imports Notifications SessionModel
begin

text \<open>
  One check of a host: the drain mode read from the registry (\<open>registry.go\<close>), its classification
  (\<open>check.go\<close>), the session summary (\<open>sessions.go\<close>, \<open>sessionlimit\<close>) and the cycle of the service that
  puts them together with the performance thresholds and the notifications (\<open>internal/svc/check.go\<close>).
  What the registry, the session enumeration, the collector and the clock deliver is an input of the
  cycle; durations are printed by an argument.
\<close>

subsection \<open>The drain mode\<close>

type_synonym drain_mode = nat

definition allow_all :: drain_mode where "allow_all = 0"
definition drain_until_boot :: drain_mode where "drain_until_boot = 1"
definition drain_persistent :: drain_mode where "drain_persistent = 2"
definition deny_all :: drain_mode where "deny_all = 3"

lemmas drain_modes = allow_all_def drain_until_boot_def drain_persistent_def deny_all_def

definition mode_string :: "drain_mode \<Rightarrow> string" where
  "mode_string m =
     (if m = allow_all then ''ALLOW_ALL_CONNECTIONS''
      else if m = drain_until_boot then ''ALLOW_RECONNECTIONS_PREVENT_NEW_LOGONS_UNTIL_RESTART''
      else if m = drain_persistent then ''ALLOW_RECONNECTIONS_PREVENT_NEW_LOGONS''
      else if m = deny_all then ''DENY_ALL_CONNECTIONS''
      else ''UNKNOWN('' @ format_uint m @ '')'')"

datatype reg_value = RegAbsent | RegFailed | RegValue nat

text \<open>The registry key as one read sees it; \<open>rk_modified\<close> is \<open>None\<close> when its last-write time cannot be read.\<close>

record registry_key =
  rk_deny :: reg_value
  rk_drain :: reg_value
  rk_modified :: "instant option"

record registry_state =
  gs_mode :: drain_mode
  gs_modified :: instant
  gs_present :: bool

definition read_drain_mode :: "registry_key option \<Rightarrow> registry_state option" where
  "read_drain_mode key =
     (case key of None \<Rightarrow> None
      | Some k \<Rightarrow>
          if rk_deny k = RegFailed then None
          else let deny = (case rk_deny k of RegValue v \<Rightarrow> v \<noteq> 0 | _ \<Rightarrow> False) in
               (case rk_drain k of
                  RegFailed \<Rightarrow> None
                | RegAbsent \<Rightarrow>
                    Option.bind (rk_modified k) (\<lambda>t. Some \<lparr>gs_mode = (if deny then deny_all else allow_all),
                      gs_modified = t, gs_present = False\<rparr>)
                | RegValue v \<Rightarrow>
                    Option.bind (rk_modified k) (\<lambda>t. Some \<lparr>gs_mode = (if deny then deny_all else v mod 2 ^ 32),
                      gs_modified = t, gs_present = True\<rparr>)))"

definition classify_state :: "(duration \<Rightarrow> string) \<Rightarrow> bool \<Rightarrow> duration \<Rightarrow> duration \<Rightarrow> string \<times> string \<times> int" where
  "classify_state fmt drain_active dur grace =
     (if drain_active \<and> dur > grace then
        (''Alert'', ''Drain mode active for '' @ fmt (dur_truncate dur second) @ '', exceeding grace period of ''
           @ fmt grace @ ''. New connections are blocked.'', 1)
      else if drain_active then
        (''Grace'', ''Drain mode active, within grace period ('' @ fmt (dur_truncate (grace - dur) second)
           @ '' remaining).'', 0)
      else (''Healthy'', ''All connections allowed.'', 0))"

definition drain_status :: "bool \<Rightarrow> duration \<Rightarrow> duration \<Rightarrow> string" where
  "drain_status drain_active dur grace = fst (classify_state (\<lambda>_. []) drain_active dur grace)"

lemma classify_status [simp]: "fst (classify_state fmt d dur grace) = drain_status d dur grace"
  by (simp add: drain_status_def classify_state_def)

text \<open>The check of the command line, which knows the state's age only from the key's last write.\<close>

record check_output =
  co_status :: string
  co_message :: string
  co_exit :: int
  co_mode :: "drain_mode option"

definition check :: "(duration \<Rightarrow> string) \<Rightarrow> registry_key option \<Rightarrow> instant \<Rightarrow> duration \<Rightarrow> string \<Rightarrow> check_output" where
  "check fmt key now grace read_error =
     (case read_drain_mode key of
        None \<Rightarrow> \<lparr>co_status = ''Error'', co_message = read_error, co_exit = 2, co_mode = None\<rparr>
      | Some s \<Rightarrow>
          (let (status, message, exit_code) = classify_state fmt (gs_mode s \<noteq> allow_all) (now - gs_modified s) grace
           in \<lparr>co_status = status, co_message = message, co_exit = exit_code, co_mode = Some (gs_mode s)\<rparr>))"

subsection \<open>Sessions\<close>

record session_summary =
  sm_active :: int
  sm_disconnected :: int
  sm_total :: int
  sm_max :: int
  sm_utilization :: int

record session_info =
  si_session_id :: u32
  si_user :: string
  si_station :: string
  si_state :: string
  si_state_value :: nat

definition wts_state_value :: "string \<Rightarrow> nat" where
  "wts_state_value s =
     (if s = ''active'' then 0 else if s = ''connected'' then 1 else if s = ''connect_query'' then 2
      else if s = ''shadow'' then 3 else if s = ''disconnected'' then 4 else if s = ''idle'' then 5
      else if s = ''listen'' then 6 else if s = ''reset'' then 7 else if s = ''down'' then 8
      else if s = ''init'' then 9 else 2 ^ 32 - 1)"

definition wts_state_name_of :: "string \<Rightarrow> string" where
  "wts_state_name_of s =
     (if s = ''active'' then ''Active'' else if s = ''connected'' then ''Connected''
      else if s = ''connect_query'' then ''ConnectQuery'' else if s = ''shadow'' then ''Shadow''
      else if s = ''disconnected'' then ''Disconnected'' else if s = ''idle'' then ''Idle''
      else if s = ''listen'' then ''Listen'' else if s = ''reset'' then ''Reset''
      else if s = ''down'' then ''Down'' else if s = ''init'' then ''Init'' else ''Unknown'')"

definition enumerate_sessions :: "session_record list \<Rightarrow> session_info list" where
  "enumerate_sessions rs =
     map (\<lambda>r. \<lparr>si_session_id = sr_session_id r,
                si_user = (case sr_user r of None \<Rightarrow> [] | Some u \<Rightarrow> u),
                si_station = (case sr_station r of None \<Rightarrow> [] | Some u \<Rightarrow> u),
                si_state = wts_state_name_of (sr_state r), si_state_value = wts_state_value (sr_state r)\<rparr>) rs"

text \<open>\<open>sessionlimit.Normalize\<close> on a \<open>uint64\<close>; the limit locations are read in order, \<open>None\<close> where one cannot be.\<close>

definition normalize_limit :: "nat \<Rightarrow> int option" where
  "normalize_limit v = (if v = 0 \<or> v \<ge> 9999 then None else Some (int v))"

fun read_max_sessions :: "nat option list \<Rightarrow> int" where
  "read_max_sessions [] = 0"
| "read_max_sessions (None # ls) = read_max_sessions ls"
| "read_max_sessions (Some v # ls) = (case normalize_limit v of Some l \<Rightarrow> l | None \<Rightarrow> read_max_sessions ls)"

definition utilization :: "int \<Rightarrow> int \<Rightarrow> int" where
  "utilization sessions maximum =
     (if maximum > 0 \<and> sessions > 0 then
        (let u = go_div (sessions * 100) maximum in if u > 100 then 100 else u) else 0)"

definition compute_session_summary :: "session_info list \<Rightarrow> int \<Rightarrow> session_summary" where
  "compute_session_summary ss maximum =
     (let m = (case normalize_limit (nat (maximum mod 2 ^ 64)) of None \<Rightarrow> 0 | Some l \<Rightarrow> l);
          active = int (length (filter (\<lambda>s. si_state_value s = 0) ss));
          disc = int (length (filter (\<lambda>s. si_state_value s = 4) ss))
      in \<lparr>sm_active = active, sm_disconnected = disc, sm_total = active + disc, sm_max = m,
          sm_utilization = utilization (active + disc) m\<rparr>)"

definition session_summary_from_records :: "session_record list \<Rightarrow> int \<Rightarrow> session_summary" where
  "session_summary_from_records rs maximum =
     (let active = int (length (filter (\<lambda>r. sr_state r = ''active'') rs));
          disc = int (length (filter (\<lambda>r. sr_state r = ''disconnected'') rs))
      in \<lparr>sm_active = active, sm_disconnected = disc, sm_total = active + disc, sm_max = maximum,
          sm_utilization = utilization (active + disc) maximum\<rparr>)"

lemma read_max_sessions_range: "0 \<le> read_max_sessions ls \<and> read_max_sessions ls < 9999"
  by (induction ls rule: read_max_sessions.induct) (auto simp: normalize_limit_def split: option.splits if_splits)

lemma wts_state_value_iff:
  "wts_state_value s = 0 \<longleftrightarrow> s = ''active''" "wts_state_value s = 4 \<longleftrightarrow> s = ''disconnected''"
  by (simp_all add: wts_state_value_def)

lemma enumerate_filter:
  "filter (\<lambda>s. P (si_state_value s)) (enumerate_sessions rs)
   = enumerate_sessions (filter (\<lambda>r. P (wts_state_value (sr_state r))) rs)"
  by (simp add: enumerate_sessions_def filter_map o_def)

text \<open>
  The summary that the service derives from the detailed session records and the one that the command
  line derives from the compatibility view of the same records agree, for every configured limit.
\<close>

theorem session_summaries_agree:
  "session_summary_from_records rs (read_max_sessions ls)
   = compute_session_summary (enumerate_sessions rs) (read_max_sessions ls)"
proof -
  have "filter (\<lambda>s. si_state_value s = 0) (enumerate_sessions rs)
      = enumerate_sessions (filter (\<lambda>r. sr_state r = ''active'') rs)"
    "filter (\<lambda>s. si_state_value s = 4) (enumerate_sessions rs)
      = enumerate_sessions (filter (\<lambda>r. sr_state r = ''disconnected'') rs)"
    using enumerate_filter [of "\<lambda>v. v = 0"] enumerate_filter [of "\<lambda>v. v = 4"] by (simp_all only: wts_state_value_iff)
  moreover have "length (enumerate_sessions l) = length l" for l by (simp add: enumerate_sessions_def)
  moreover have "(case normalize_limit (nat (read_max_sessions ls mod 2 ^ 64)) of None \<Rightarrow> 0 | Some l \<Rightarrow> l)
      = read_max_sessions ls"
    using read_max_sessions_range [of ls] nat_less_iff [of "read_max_sessions ls" 9999]
    by (auto simp: normalize_limit_def)
  ultimately show ?thesis
    by (simp add: session_summary_from_records_def compute_session_summary_def Let_def)
qed

subsection \<open>The cycle of the service\<close>

record observation =
  ob_timestamp :: instant
  ob_mode :: drain_mode
  ob_since :: instant
  ob_changed_by :: string

text \<open>
  What one cycle gets from outside. \<open>ti_event_user\<close> is the principal of the audit event that arrived in
  time (empty without one), \<open>ti_query_user\<close> what the event log query would answer; \<open>ti_later\<close> is the
  clock when the age of the state is taken.
\<close>

record check_input =
  ti_key :: "registry_key option"
  ti_host :: string
  ti_now :: instant
  ti_later :: instant
  ti_event_user :: string
  ti_query_user :: string
  ti_sessions :: "session_record list option"
  ti_limits :: "nat option list"
  ti_perf :: "perf_snapshot option"

record audit_row =
  ar_host :: string
  ar_prev :: drain_mode
  ar_new :: drain_mode
  ar_principal :: string
  ar_changed_by :: string
  ar_key_modified :: instant

record check_state =
  cs_observed :: "observation option"
  cs_perf :: perf_trigger_state

record check_report =
  cr_status :: string
  cr_exit :: int
  cr_mode :: drain_mode
  cr_transition :: bool
  cr_from :: string
  cr_changed_by :: string
  cr_since :: instant
  cr_age :: duration
  cr_summary :: "session_summary option"
  cr_triggers :: "trigger list"
  cr_audit :: "audit_row option"

definition attribute_change :: "check_input \<Rightarrow> observation \<Rightarrow> string" where
  "attribute_change i prev =
     (if ti_event_user i \<noteq> [] then ti_event_user i
      else if ti_now i - ob_timestamp prev < 24 * hour then ti_query_user i else [])"

definition drain_triggers :: "bool \<Rightarrow> drain_mode \<Rightarrow> string \<Rightarrow> trigger list" where
  "drain_triggers transition mode status =
     (if transition then [if mode \<noteq> allow_all then ''drain_on'' else ''drain_off''] else [])
     @ (if status = ''Grace'' \<and> transition then [''grace_entered''] else [])
     @ (if status = ''Alert'' then [''alert''] else [])
     @ (if status = ''Healthy'' \<and> transition then [''healthy''] else [])"

definition session_triggers :: "session_summary option \<Rightarrow> int \<Rightarrow> trigger list" where
  "session_triggers sess threshold =
     (case sess of None \<Rightarrow> []
      | Some s \<Rightarrow> if threshold > 0 \<and> sm_max s > 0 \<and> sm_utilization s \<ge> threshold then [''session_warning''] else [])"

definition promote_one :: "trigger \<Rightarrow> string \<Rightarrow> string" where
  "promote_one t status =
     (if t \<in> {''cpu_critical'', ''memory_critical'', ''input_delay_critical''} then ''Alert''
      else if t \<in> {''cpu_warning'', ''memory_warning'', ''input_delay_warning''} \<and> status = ''Healthy''
        then ''Warning'' else status)"

definition promote_status :: "trigger list \<Rightarrow> string \<Rightarrow> string" where
  "promote_status ts status = fold promote_one ts status"

text \<open>\<open>None\<close>: the registry could not be read, and the cycle ends there.\<close>

definition run_check ::
  "(float64 \<Rightarrow> float64 \<Rightarrow> float64) \<Rightarrow> duration \<Rightarrow> duration \<Rightarrow> int \<Rightarrow> perf_config \<Rightarrow> check_input \<Rightarrow> check_state
   \<Rightarrow> check_state \<times> check_report option" where
  "run_check percent grace poll threshold perf_cfg i st =
     (case read_drain_mode (ti_key i) of
        None \<Rightarrow> (st, None)
      | Some s \<Rightarrow>
          (let mode = gs_mode s;
               same = (case cs_observed st of None \<Rightarrow> False | Some p \<Rightarrow> ob_mode p = mode);
               transition = (case cs_observed st of None \<Rightarrow> False | Some p \<Rightarrow> ob_mode p \<noteq> mode);
               changed_by = (case cs_observed st of None \<Rightarrow> []
                             | Some p \<Rightarrow> if transition then attribute_change i p else ob_changed_by p);
               since = (case cs_observed st of None \<Rightarrow> ti_now i | Some p \<Rightarrow> if same then ob_since p else ti_now i);
               age = dur_truncate (ti_later i - since) second;
               status = drain_status (mode \<noteq> allow_all) age grace;
               exit_code = (if status = ''Alert'' then 1 else 0);
               sess = map_option (\<lambda>rs. session_summary_from_records rs (read_max_sessions (ti_limits i))) (ti_sessions i);
               (perf_st, perf_ts) = (case ti_perf i of None \<Rightarrow> (cs_perf st, [])
                                     | Some p \<Rightarrow> evaluate_thresholds percent (Some p) perf_cfg poll (cs_perf st));
               triggers = drain_triggers transition mode status @ session_triggers sess threshold @ perf_ts
           in (\<lparr>cs_observed = Some \<lparr>ob_timestamp = ti_now i, ob_mode = mode, ob_since = since,
                                     ob_changed_by = changed_by\<rparr>,
                cs_perf = perf_st\<rparr>,
               Some \<lparr>cr_status = promote_status triggers status, cr_exit = exit_code, cr_mode = mode,
                     cr_transition = transition,
                     cr_from = (case cs_observed st of None \<Rightarrow> []
                                | Some p \<Rightarrow> if transition then mode_string (ob_mode p) else []),
                     cr_changed_by = changed_by, cr_since = since, cr_age = age, cr_summary = sess,
                     cr_triggers = triggers,
                     cr_audit = (case cs_observed st of
                        Some p \<Rightarrow> if transition then Some \<lparr>ar_host = ti_host i, ar_prev = ob_mode p, ar_new = mode,
                            ar_principal = changed_by, ar_changed_by = changed_by, ar_key_modified = gs_modified s\<rparr>
                          else None
                      | None \<Rightarrow> None)\<rparr>)))"

text \<open>The dispatch of a cycle's triggers: one call of the notifier per trigger, in order.\<close>

fun dispatch_triggers ::
  "notify_target list \<Rightarrow> string list \<Rightarrow> notify_result \<Rightarrow> (nat \<Rightarrow> nat \<Rightarrow> instant) \<Rightarrow> (nat \<Rightarrow> nat \<Rightarrow> send_outcome)
   \<Rightarrow> trigger list \<Rightarrow> notify_state \<Rightarrow> notify_state \<times> dispatch list" where
  "dispatch_triggers targets exclusions r clock outcome [] st = (st, [])"
| "dispatch_triggers targets exclusions r clock outcome (t # ts) st =
     (let (st1, ds) = send_notification targets exclusions r t (clock 0) (outcome 0) st;
          (st2, ds') = dispatch_triggers targets exclusions r (\<lambda>i. clock (Suc i)) (\<lambda>i. outcome (Suc i)) ts st1
      in (st2, ds @ ds'))"

subsection \<open>Histories of checks\<close>

fun run_checks ::
  "(float64 \<Rightarrow> float64 \<Rightarrow> float64) \<Rightarrow> duration \<Rightarrow> duration \<Rightarrow> int \<Rightarrow> perf_config \<Rightarrow> check_input list \<Rightarrow> check_state
   \<Rightarrow> check_state \<times> check_report list" where
  "run_checks percent grace poll threshold cfg [] st = (st, [])"
| "run_checks percent grace poll threshold cfg (i # is) st =
     (let (st1, r) = run_check percent grace poll threshold cfg i st;
          (st2, rs) = run_checks percent grace poll threshold cfg is st1
      in (st2, (case r of None \<Rightarrow> rs | Some x \<Rightarrow> x # rs)))"

text \<open>
  A process starts with fresh counters and the observation that the service seeds from the stored
  audit trail (theory \<open>ServiceRun\<close>), if any.
\<close>

definition start_check :: "observation option \<Rightarrow> check_state" where
  "start_check seed = \<lparr>cs_observed = seed, cs_perf = zero_triggers\<rparr>"

text \<open>The modes that were read, in order, and the places where they change.\<close>

definition modes_read :: "check_input list \<Rightarrow> drain_mode list" where
  "modes_read is = map gs_mode (List.map_filter (\<lambda>i. read_drain_mode (ti_key i)) is)"

fun changes :: "'a list \<Rightarrow> ('a \<times> 'a) list" where
  "changes (a # b # l) = (if a = b then [] else [(a, b)]) @ changes (b # l)"
| "changes _ = []"

definition audit_changes :: "check_report list \<Rightarrow> (drain_mode \<times> drain_mode) list" where
  "audit_changes rs = map (\<lambda>a. (ar_prev a, ar_new a)) (List.map_filter cr_audit rs)"

lemma run_check_result:
  assumes "run_check percent grace poll threshold cfg i st = (st', r)"
  obtains "read_drain_mode (ti_key i) = None" and "st' = st" and "r = None"
  | s o' x where "read_drain_mode (ti_key i) = Some s" and "r = Some x" and "cs_observed st' = Some o'"
    and "ob_mode o' = gs_mode s" and "cr_mode x = gs_mode s" and "ob_since o' = cr_since x"
    and "cr_since x = (case cs_observed st of None \<Rightarrow> ti_now i
           | Some p \<Rightarrow> if ob_mode p = gs_mode s then ob_since p else ti_now i)"
    and "map_option (\<lambda>a. (ar_prev a, ar_new a)) (cr_audit x) =
           (case cs_observed st of None \<Rightarrow> None
            | Some p \<Rightarrow> if ob_mode p = gs_mode s then None else Some (ob_mode p, gs_mode s))"
    and "cr_age x = dur_truncate (ti_later i - cr_since x) second"
proof (cases "read_drain_mode (ti_key i)")
  case None
  with assms that(1) show ?thesis by (simp add: run_check_def)
next
  case (Some s)
  show ?thesis
    by (rule that(2) [OF Some, of "the r" "the (cs_observed st')"])
      (use assms Some in \<open>auto simp: run_check_def Let_def split: prod.splits option.splits\<close>)
qed

lemma run_checks_Cons:
  "fst (run_checks percent grace poll threshold cfg (i # is) st) =
     fst (run_checks percent grace poll threshold cfg is (fst (run_check percent grace poll threshold cfg i st)))"
  "snd (run_checks percent grace poll threshold cfg (i # is) st) =
     (case snd (run_check percent grace poll threshold cfg i st) of None \<Rightarrow> [] | Some x \<Rightarrow> [x])
     @ snd (run_checks percent grace poll threshold cfg is (fst (run_check percent grace poll threshold cfg i st)))"
  by (simp_all split: prod.split option.split)

declare run_checks.simps(2) [simp del]

lemma audit_changes_Cons:
  "audit_changes (x # rs) = (case map_option (\<lambda>a. (ar_prev a, ar_new a)) (cr_audit x) of None \<Rightarrow> [] | Some c \<Rightarrow> [c])
    @ audit_changes rs"
  by (simp add: audit_changes_def List.map_filter_simps split: option.split)

lemma modes_read_Cons:
  "modes_read (i # is) = (case read_drain_mode (ti_key i) of None \<Rightarrow> [] | Some s \<Rightarrow> [gs_mode s]) @ modes_read is"
  by (simp add: modes_read_def List.map_filter_simps split: option.split)

lemma run_checks_audit:
  "audit_changes (snd (run_checks percent grace poll threshold cfg is st)) =
   (case cs_observed st of None \<Rightarrow> changes (modes_read is) | Some p \<Rightarrow> changes (ob_mode p # modes_read is))"
proof (induction "is" arbitrary: st)
  case Nil
  show ?case by (simp add: audit_changes_def modes_read_def List.map_filter_simps split: option.split)
next
  case (Cons i "is")
  obtain st' r where step: "run_check percent grace poll threshold cfg i st = (st', r)" by (metis surj_pair)
  then show ?case
  proof (cases rule: run_check_result)
    case 1
    have m: "modes_read (i # is) = modes_read is" by (simp add: modes_read_Cons 1(1))
    show ?thesis unfolding m using 1 step Cons.IH [of st] by (simp add: run_checks_Cons)
  next
    case (2 s o' x)
    have "audit_changes (snd (run_checks percent grace poll threshold cfg (i # is) st)) =
        audit_changes (x # snd (run_checks percent grace poll threshold cfg is st'))"
      using step 2(2) by (simp add: run_checks_Cons)
    also have "\<dots> = (case cs_observed st of None \<Rightarrow> []
        | Some p \<Rightarrow> if ob_mode p = gs_mode s then [] else [(ob_mode p, gs_mode s)]) @ changes (gs_mode s # modes_read is)"
      using Cons.IH [of st'] 2(3,4) by (auto simp: audit_changes_Cons 2(8) split: option.split)
    also have "\<dots> = (case cs_observed st of None \<Rightarrow> changes (modes_read (i # is))
        | Some p \<Rightarrow> changes (ob_mode p # modes_read (i # is)))"
      by (simp add: modes_read_Cons 2(1) split: option.split)
    finally show ?thesis .
  qed
qed

text \<open>When the present mode was first seen: the reads with their times, and the first of the last run.\<close>

definition reads :: "check_input list \<Rightarrow> (instant \<times> drain_mode) list" where
  "reads is = List.map_filter (\<lambda>i. map_option (\<lambda>s. (ti_now i, gs_mode s)) (read_drain_mode (ti_key i))) is"

definition began :: "(instant \<times> drain_mode) list \<Rightarrow> instant" where
  "began rs = fst (last (takeWhile (\<lambda>r. snd r = snd (last rs)) (rev rs)))"

lemma reads_append: "reads (is @ js) = reads is @ reads js"
  by (induction "is") (simp_all add: reads_def List.map_filter_simps split: option.split)

lemma reads_single:
  "reads [i] = (case read_drain_mode (ti_key i) of None \<Rightarrow> [] | Some s \<Rightarrow> [(ti_now i, gs_mode s)])"
  by (simp add: reads_def List.map_filter_simps split: option.split)

lemma run_checks_append:
  "fst (run_checks percent grace poll threshold cfg (is @ js) st) =
   fst (run_checks percent grace poll threshold cfg js (fst (run_checks percent grace poll threshold cfg is st)))"
  by (induction "is" arbitrary: st) (simp_all add: run_checks_Cons)

lemma began_snoc:
  "began (rs @ [(t, m)]) = (if rs \<noteq> [] \<and> snd (last rs) = m then began rs else t)"
  by (cases rs rule: rev_cases) (auto simp: began_def)

text \<open>
  What one cycle does to the observation, in terms of the readings so far: it always names the mode of
  the last one and the start of its run.
\<close>

definition tracks :: "observation option \<Rightarrow> (instant \<times> drain_mode) list \<Rightarrow> bool" where
  "tracks seed rs = (case seed of None \<Rightarrow> rs = []
     | Some p \<Rightarrow> rs \<noteq> [] \<and> ob_mode p = snd (last rs) \<and> ob_since p = began rs)"

lemma tracks_start: "tracks None []" "tracks (Some p) [(ob_since p, ob_mode p)]"
  by (simp_all add: tracks_def began_def)

lemma run_check_tracks:
  assumes "run_check percent grace poll threshold cfg i st = (st', r)" and "tracks (cs_observed st) rs"
  shows "tracks (cs_observed st') (rs @ reads [i])"
  using assms(1)
proof (cases rule: run_check_result)
  case 1
  then show ?thesis using assms(2) by (simp add: reads_single)
next
  case (2 s o' x)
  then have "reads [i] = [(ti_now i, gs_mode s)]" by (simp add: reads_single)
  then show ?thesis using assms(2) 2 by (auto simp: tracks_def began_snoc split: option.splits)
qed

lemma perf_triggers_no_alert: "''alert'' \<notin> set (snd (evaluate_snapshot percent p cfg poll st))"
  by (auto simp: raised_set raised_def crit_trigger_def warn_trigger_def split: metric.splits if_splits)

definition perf_triggers_of ::
  "(float64 \<Rightarrow> float64 \<Rightarrow> float64) \<Rightarrow> perf_config \<Rightarrow> duration \<Rightarrow> check_input \<Rightarrow> check_state \<Rightarrow> trigger list" where
  "perf_triggers_of percent cfg poll i st =
     (case ti_perf i of None \<Rightarrow> [] | Some p \<Rightarrow> snd (evaluate_thresholds percent (Some p) cfg poll (cs_perf st)))"

lemma run_check_report:
  assumes "run_check percent grace poll threshold cfg i st = (st', Some x)"
  shows "cr_triggers x = drain_triggers (cr_transition x) (cr_mode x)
      (drain_status (cr_mode x \<noteq> allow_all) (cr_age x) grace)
      @ session_triggers (cr_summary x) threshold @ perf_triggers_of percent cfg poll i st"
    and "cr_status x = promote_status (cr_triggers x) (drain_status (cr_mode x \<noteq> allow_all) (cr_age x) grace)"
proof -
  obtain s where s: "read_drain_mode (ti_key i) = Some s"
    using assms by (cases "read_drain_mode (ti_key i)") (simp_all add: run_check_def)
  obtain perf_st perf_ts where p: "(case ti_perf i of None \<Rightarrow> (cs_perf st, [])
      | Some p \<Rightarrow> evaluate_thresholds percent (Some p) cfg poll (cs_perf st)) = (perf_st, perf_ts)"
    by (metis surj_pair)
  then have ts: "perf_triggers_of percent cfg poll i st = perf_ts"
    by (cases "ti_perf i") (simp_all add: perf_triggers_of_def)
  note x = assms [unfolded run_check_def s option.case Let_def p prod.case prod.inject option.inject,
      THEN conjunct2, symmetric]
  show "cr_triggers x = drain_triggers (cr_transition x) (cr_mode x)
      (drain_status (cr_mode x \<noteq> allow_all) (cr_age x) grace)
      @ session_triggers (cr_summary x) threshold @ perf_triggers_of percent cfg poll i st"
    unfolding ts by (simp add: x)
  show "cr_status x = promote_status (cr_triggers x) (drain_status (cr_mode x \<noteq> allow_all) (cr_age x) grace)"
    by (simp add: x)
qed

lemma run_check_alert:
  assumes "run_check percent grace poll threshold cfg i st = (st', Some x)"
  shows "''alert'' \<in> set (cr_triggers x) \<longleftrightarrow> drain_status (cr_mode x \<noteq> allow_all) (cr_age x) grace = ''Alert''"
proof -
  let ?status = "drain_status (cr_mode x \<noteq> allow_all) (cr_age x) grace"
  have "''alert'' \<in> set (drain_triggers (cr_transition x) (cr_mode x) ?status) \<longleftrightarrow> ?status = ''Alert''"
    by (simp add: drain_triggers_def)
  moreover have "''alert'' \<notin> set (session_triggers (cr_summary x) threshold)"
    by (simp add: session_triggers_def split: option.split)
  moreover have "''alert'' \<notin> set (perf_triggers_of percent cfg poll i st)"
    by (simp add: perf_triggers_of_def perf_triggers_no_alert split: option.split)
  ultimately show ?thesis using run_check_report(1) [OF assms] by simp
qed

lemma promote_alert:
  "promote_status ts status = ''Alert'' \<longleftrightarrow>
   status = ''Alert'' \<or> set ts \<inter> {''cpu_critical'', ''memory_critical'', ''input_delay_critical''} \<noteq> {}"
proof (induction ts arbitrary: status)
  case (Cons t ts)
  have "promote_one t status = ''Alert'' \<longleftrightarrow>
      status = ''Alert'' \<or> t \<in> {''cpu_critical'', ''memory_critical'', ''input_delay_critical''}"
    by (simp add: promote_one_def)
  then show ?case using Cons.IH [of "promote_one t status"] by (auto simp: promote_status_def)
qed (simp add: promote_status_def)

lemma run_check_alert_iff:
  assumes "read_drain_mode (ti_key i) = Some s" and "tracks (cs_observed st) rs"
    and "run_check percent grace poll threshold cfg i st = (st', Some x)"
  shows "''alert'' \<in> set (cr_triggers x) \<longleftrightarrow>
    gs_mode s \<noteq> allow_all \<and> grace < dur_truncate (ti_later i - began (rs @ reads [i])) second"
proof -
  have after: "tracks (cs_observed st') (rs @ reads [i])" using run_check_tracks [OF assms(3,2)] .
  from assms(3) have "cr_mode x = gs_mode s \<and> cr_since x = began (rs @ reads [i])
      \<and> cr_age x = dur_truncate (ti_later i - cr_since x) second"
    by (cases rule: run_check_result) (use assms(1) after in \<open>auto simp: tracks_def\<close>)
  then show ?thesis using run_check_alert [OF assms(3)] by (auto simp: drain_status_def classify_state_def)
qed

text \<open>
  The status a cycle reports is \<open>Alert\<close> exactly when the drain state is past its grace period or a
  critical performance trigger was raised in this very cycle, so a notification target is never needed
  for the dashboard to show it.
\<close>

theorem alert_status_iff:
  assumes "run_check percent grace poll threshold cfg i st = (st', Some x)"
  shows "cr_status x = ''Alert'' \<longleftrightarrow>
    ''alert'' \<in> set (cr_triggers x)
    \<or> set (cr_triggers x) \<inter> {''cpu_critical'', ''memory_critical'', ''input_delay_critical''} \<noteq> {}"
  using run_check_report(2) [OF assms] run_check_alert [OF assms] by (simp add: promote_alert)


text \<open>A host that reads as drained at time \<open>t\<close>.\<close>

definition sample_check :: "instant \<Rightarrow> check_input" where
  "sample_check t = \<lparr>ti_key = Some \<lparr>rk_deny = RegAbsent, rk_drain = RegValue 2, rk_modified = Some 0\<rparr>,
     ti_host = ''RDS1'', ti_now = t, ti_later = t, ti_event_user = [], ti_query_user = [], ti_sessions = None,
     ti_limits = [], ti_perf = None\<rparr>"

lemma run_check_total:
  "read_drain_mode (ti_key i) = Some s \<Longrightarrow> \<exists>st' x. run_check percent grace poll threshold cfg i st = (st', Some x)"
  by (auto simp: run_check_def Let_def split: prod.split)

lemma sample_read: "read_drain_mode (ti_key (sample_check t)) = Some \<lparr>gs_mode = 2, gs_modified = 0, gs_present = True\<rparr>"
  by (simp add: sample_check_def read_drain_mode_def)

lemma alert_status_iff_witness:
  "\<exists>st' x. run_check (\<lambda>a b. a) hour (5 * minute) 80 (cf_performance (default_config [])) (sample_check 0) (start_check None)
      = (st', Some x) \<and> (cr_status x = ''Alert'' \<longleftrightarrow> ''alert'' \<in> set (cr_triggers x)
        \<or> set (cr_triggers x) \<inter> {''cpu_critical'', ''memory_critical'', ''input_delay_critical''} \<noteq> {})"
proof -
  obtain st' x where r: "run_check (\<lambda>a b. a) hour (5 * minute) 80 (cf_performance (default_config [])) (sample_check 0)
      (start_check None) = (st', Some x)"
    using run_check_total [OF sample_read] by blast
  show ?thesis using alert_status_iff [OF r] r by blast
qed

end
