(* ===== verification/Detector.thy ===== *)
theory Detector
  imports Config
begin

text \<open>
  The statistics of the event-log spike detector (\<open>internal/evtspike/detector.go\<close>): a Gamma posterior per
  quarter of an hour and one overall, the tail and the quantile of the negative binomial that scores a
  bucket, the two-of-three confirmation and the capped update. The arithmetic of \<open>float64\<close> is an
  argument; comparisons are computed.
\<close>

unbundle bit_operations_syntax

type_synonym u8 = "8 word"

record float_ops =
  fl_add :: "float64 \<Rightarrow> float64 \<Rightarrow> float64"
  fl_sub :: "float64 \<Rightarrow> float64 \<Rightarrow> float64"
  fl_mul :: "float64 \<Rightarrow> float64 \<Rightarrow> float64"
  fl_div :: "float64 \<Rightarrow> float64 \<Rightarrow> float64"
  fl_log :: "float64 \<Rightarrow> float64"
  fl_exp :: "float64 \<Rightarrow> float64"
  fl_int :: "int \<Rightarrow> float64"

record gamma_state =
  ga_alpha :: float64
  ga_beta :: float64
  ga_n :: int

record detector_config =
  dc_min_count :: int
  dc_threshold :: float64
  dc_rho :: float64
  dc_cooldown :: duration
  dc_maturity :: int

text \<open>\<open>dx_last_alert\<close> is \<open>None\<close> for the zero time.\<close>

record detector =
  dx_slots :: "gamma_state list"
  dx_global :: gamma_state
  dx_flags :: u8
  dx_last_alert :: "instant option"
  dx_cfg :: detector_config

record bucket_result =
  br_count :: int
  br_mean :: float64
  br_tail :: float64
  br_anomalous :: bool
  br_alert :: bool
  br_overflow :: bool

definition slots_per_day :: nat where "slots_per_day = 96"
definition max_nbin_iter :: nat where "max_nbin_iter = 10000000"
definition default_maturity :: int where "default_maturity = 630"

definition f_underflow :: float64 where "f_underflow = Fin (6032057205060441 / 2 ^ 1049)"
definition f_cap_prob :: float64 where "f_cap_prob = Fin (4458563631096791 / 2 ^ 52)"
definition f_neg_ln2 :: float64 where "f_neg_ln2 = Fin (- 6243314768165359 / 2 ^ 53)"

subsection \<open>The negative binomial\<close>

definition pmf_step :: "float_ops \<Rightarrow> float64 \<Rightarrow> float64 \<Rightarrow> nat \<Rightarrow> float64 \<Rightarrow> float64" where
  "pmf_step ops alpha q k pmf =
     fl_mul ops pmf (fl_mul ops (fl_div ops (fl_add ops (fl_int ops (int k)) alpha) (fl_int ops (int k + 1))) q)"

text \<open>The loop of the upper tail; \<open>None\<close> is its early return when the sum reaches one.\<close>

function tail_loop :: "float_ops \<Rightarrow> float64 \<Rightarrow> float64 \<Rightarrow> nat \<Rightarrow> nat \<Rightarrow> float64 \<Rightarrow> float64 \<Rightarrow> float64 option" where
  "tail_loop ops alpha q bound k pmf cdf =
     (if k < bound then
        (let pmf' = pmf_step ops alpha q k pmf; cdf' = fl_add ops cdf pmf' in
         if f_leq (fint 1) cdf' then None
         else if f_less pmf' f_underflow then Some cdf'
         else tail_loop ops alpha q bound (Suc k) pmf' cdf')
      else Some cdf)"
  by pat_completeness auto
termination by (relation "measure (\<lambda>(ops, alpha, q, bound, k, pmf, cdf). bound - k)") auto

declare tail_loop.simps [simp del]

definition neg_bin_upper_tail :: "float_ops \<Rightarrow> int \<Rightarrow> float64 \<Rightarrow> float64 \<Rightarrow> float64" where
  "neg_bin_upper_tail ops y alpha beta =
     (if y \<le> 0 then fint 1
      else
        (let p = fl_div ops beta (fl_add ops beta (fint 1)); q = fl_sub ops (fint 1) p;
             log_pmf0 = fl_mul ops alpha (fl_log ops p)
         in if f_less log_pmf0 (fint (-700)) then fint 0
            else
              (let pmf = fl_exp ops log_pmf0 in
               case tail_loop ops alpha q (min (nat (y - 1)) max_nbin_iter) 0 pmf pmf of
                 None \<Rightarrow> fint 0
               | Some cdf \<Rightarrow> (let tail = fl_sub ops (fint 1) cdf in if f_less tail (fint 0) then fint 0 else tail))))"

function quantile_loop ::
  "float_ops \<Rightarrow> float64 \<Rightarrow> float64 \<Rightarrow> float64 \<Rightarrow> nat \<Rightarrow> float64 \<Rightarrow> float64 \<Rightarrow> nat \<times> bool" where
  "quantile_loop ops prob alpha q k pmf cdf =
     (if k < max_nbin_iter then
        (let pmf' = pmf_step ops alpha q k pmf; cdf' = fl_add ops cdf pmf' in
         if f_leq prob cdf' then (k + 1, True)
         else if f_less pmf' f_underflow then (max_nbin_iter, False)
         else quantile_loop ops prob alpha q (Suc k) pmf' cdf')
      else (max_nbin_iter, False))"
  by pat_completeness auto
termination by (relation "measure (\<lambda>(ops, prob, alpha, q, k, pmf, cdf). max_nbin_iter - k)") auto

declare quantile_loop.simps [simp del]

definition neg_bin_quantile :: "float_ops \<Rightarrow> float64 \<Rightarrow> float64 \<Rightarrow> float64 \<Rightarrow> nat \<times> bool" where
  "neg_bin_quantile ops prob alpha beta =
     (if f_leq prob (fint 0) then (0, True)
      else
        (let p = fl_div ops beta (fl_add ops beta (fint 1)); q = fl_sub ops (fint 1) p;
             log_pmf0 = fl_mul ops alpha (fl_log ops p)
         in if f_less log_pmf0 (fint (-700)) then (0, True)
            else
              (let pmf = fl_exp ops log_pmf0 in
               if f_leq prob pmf then (0, True) else quantile_loop ops prob alpha q 0 pmf pmf)))"

subsection \<open>The detector\<close>

definition new_detector :: "float_ops \<Rightarrow> float64 \<Rightarrow> float64 \<Rightarrow> float64 \<Rightarrow> detector_config \<Rightarrow> detector" where
  "new_detector ops mean strength half_life cfg =
     (let a = fl_mul ops mean strength; a = (if f_less a f_tenth then f_tenth else a);
          rho = (if f_less (fint 0) half_life then fl_exp ops (fl_div ops f_neg_ln2 half_life) else fint 1);
          cfg = cfg\<lparr>dc_rho := rho, dc_maturity := (if dc_maturity cfg \<le> 0 then default_maturity else dc_maturity cfg)\<rparr>;
          g = \<lparr>ga_alpha = a, ga_beta = strength, ga_n = 0\<rparr>
      in \<lparr>dx_slots = replicate slots_per_day g, dx_global = g, dx_flags = 0, dx_last_alert = None, dx_cfg = cfg\<rparr>)"

definition ewma_update :: "float_ops \<Rightarrow> float64 \<Rightarrow> float64 \<Rightarrow> gamma_state \<Rightarrow> gamma_state" where
  "ewma_update ops y rho g =
     \<lparr>ga_alpha = fl_add ops (fl_mul ops rho (ga_alpha g)) y,
      ga_beta = fl_add ops (fl_mul ops rho (ga_beta g)) (fint 1), ga_n = ga_n g + 1\<rparr>"

text \<open>The slot of a local time of day.\<close>

definition time_slot :: "nat \<Rightarrow> nat \<Rightarrow> nat" where
  "time_slot h m = (h * 60 + m) div 15"

definition push_flag :: "bool \<Rightarrow> u8 \<Rightarrow> u8" where
  "push_flag anomalous flags =
     (let f = push_bit 1 flags; f = (if anomalous then f OR 1 else f) in f AND 7)"

fun count_flags :: "nat \<Rightarrow> u8 \<Rightarrow> nat" where
  "count_flags 0 flags = 0"
| "count_flags (Suc i) flags = (if flags AND 1 = 1 then 1 else 0) + count_flags i (drop_bit 1 flags)"

definition confirmed :: "u8 \<Rightarrow> bool" where
  "confirmed flags \<longleftrightarrow> 2 \<le> count_flags 3 flags"

text \<open>\<open>Time.Sub\<close> saturates: against the zero time it is the longest duration.\<close>

definition time_since :: "instant \<Rightarrow> instant option \<Rightarrow> duration" where
  "time_since now t = (case t of None \<Rightarrow> 2 ^ 63 - 1 | Some t \<Rightarrow> max (- (2 ^ 63)) (min (2 ^ 63 - 1) (now - t)))"

definition scoring_state :: "nat \<Rightarrow> detector \<Rightarrow> gamma_state" where
  "scoring_state slot d =
     (let s = dx_slots d ! slot in
      if ga_n s < dc_maturity (dx_cfg d) \<and> ga_n (dx_global d) \<ge> 20 then dx_global d else s)"

definition bucket_anomalous :: "float_ops \<Rightarrow> nat \<Rightarrow> int \<Rightarrow> detector \<Rightarrow> bool" where
  "bucket_anomalous ops slot cnt d \<longleftrightarrow>
     (let s = scoring_state slot d in
      cnt \<ge> dc_min_count (dx_cfg d) \<and> f_less (neg_bin_upper_tail ops cnt (ga_alpha s) (ga_beta s)) (dc_threshold (dx_cfg d)))"

definition robust_cap :: "float_ops \<Rightarrow> nat \<Rightarrow> detector \<Rightarrow> nat \<times> bool" where
  "robust_cap ops slot d =
     (let s = scoring_state slot d in neg_bin_quantile ops f_cap_prob (ga_alpha s) (ga_beta s))"

text \<open>What the baseline learns from a bucket; \<open>None\<close> when the update is skipped.\<close>

definition learned_count :: "float_ops \<Rightarrow> nat \<Rightarrow> int \<Rightarrow> detector \<Rightarrow> float64 option" where
  "learned_count ops slot cnt d =
     (let y = fl_int ops cnt in
      if \<not> bucket_anomalous ops slot cnt d then Some y
      else (case robust_cap ops slot d of (cap, ok) \<Rightarrow>
              if \<not> ok then None
              else if f_less (fl_int ops (int cap)) y then Some (fl_int ops (int cap)) else Some y))"

definition observe_bucket :: "float_ops \<Rightarrow> nat \<Rightarrow> instant \<Rightarrow> int \<Rightarrow> detector \<Rightarrow> detector \<times> bucket_result" where
  "observe_bucket ops slot now cnt d =
     (let s = scoring_state slot d;
          anomalous = bucket_anomalous ops slot cnt d;
          flags = push_flag anomalous (dx_flags d);
          alert = (confirmed flags \<and> time_since now (dx_last_alert d) \<ge> dc_cooldown (dx_cfg d));
          y = learned_count ops slot cnt d;
          d1 = d\<lparr>dx_flags := flags, dx_last_alert := (if alert then Some now else dx_last_alert d)\<rparr>;
          rho = dc_rho (dx_cfg d);
          d2 = (case y of None \<Rightarrow> d1
                | Some y \<Rightarrow> d1\<lparr>dx_slots := (dx_slots d)[slot := ewma_update ops y rho (dx_slots d ! slot)],
                               dx_global := ewma_update ops y rho (dx_global d)\<rparr>)
      in (d2, \<lparr>br_count = cnt, br_mean = fl_div ops (ga_alpha s) (ga_beta s),
               br_tail = neg_bin_upper_tail ops cnt (ga_alpha s) (ga_beta s),
               br_anomalous = anomalous, br_alert = alert, br_overflow = (y = None)\<rparr>))"

subsection \<open>The series of the distribution\<close>

text \<open>The probability of \<open>k\<close> and the sum up to \<open>k\<close>, as the loops compute them.\<close>

primrec nbin_series :: "float_ops \<Rightarrow> float64 \<Rightarrow> float64 \<Rightarrow> float64 \<Rightarrow> nat \<Rightarrow> float64 \<times> float64" where
  "nbin_series ops alpha q pmf0 0 = (pmf0, pmf0)"
| "nbin_series ops alpha q pmf0 (Suc k) =
     (case nbin_series ops alpha q pmf0 k of (pmf, cdf) \<Rightarrow>
        let pmf' = pmf_step ops alpha q k pmf in (pmf', fl_add ops cdf pmf'))"

definition nbin_cdf :: "float_ops \<Rightarrow> float64 \<Rightarrow> float64 \<Rightarrow> nat \<Rightarrow> float64" where
  "nbin_cdf ops alpha beta k =
     (let p = fl_div ops beta (fl_add ops beta (fint 1)) in
      snd (nbin_series ops alpha (fl_sub ops (fint 1) p) (fl_exp ops (fl_mul ops alpha (fl_log ops p))) k))"

lemma quantile_loop_least:
  assumes "quantile_loop ops prob alpha q k pmf cdf = (y, True)"
    and "nbin_series ops alpha q pmf0 k = (pmf, cdf)"
    and "\<forall>j \<le> k. \<not> f_leq prob (snd (nbin_series ops alpha q pmf0 j))"
  shows "y \<le> max_nbin_iter \<and> f_leq prob (snd (nbin_series ops alpha q pmf0 y))
    \<and> (\<forall>j < y. \<not> f_leq prob (snd (nbin_series ops alpha q pmf0 j)))"
  using assms
proof (induction ops prob alpha q k pmf cdf rule: quantile_loop.induct)
  case (1 ops prob alpha q k pmf cdf)
  define pmf' where "pmf' = pmf_step ops alpha q k pmf"
  define cdf' where "cdf' = fl_add ops cdf pmf'"
  have series: "nbin_series ops alpha q pmf0 (Suc k) = (pmf', cdf')"
    by (simp add: "1.prems"(2) pmf'_def cdf'_def Let_def)
  have run: "quantile_loop ops prob alpha q k pmf cdf =
      (if k < max_nbin_iter then if f_leq prob cdf' then (k + 1, True)
         else if f_less pmf' f_underflow then (max_nbin_iter, False)
         else quantile_loop ops prob alpha q (Suc k) pmf' cdf'
       else (max_nbin_iter, False))"
    by (subst quantile_loop.simps) (simp add: pmf'_def cdf'_def Let_def)
  show ?case
  proof (cases "k < max_nbin_iter \<and> f_leq prob cdf'")
    case True
    then have "y = Suc k" using "1.prems"(1) run by simp
    then show ?thesis using True series "1.prems"(3) by (auto simp: less_Suc_eq_le)
  next
    case False
    then have k: "k < max_nbin_iter" "\<not> f_leq prob cdf'" "\<not> f_less pmf' f_underflow"
      and rest: "quantile_loop ops prob alpha q (Suc k) pmf' cdf' = (y, True)"
      using "1.prems"(1) run by (auto split: if_splits)
    have "\<forall>j \<le> Suc k. \<not> f_leq prob (snd (nbin_series ops alpha q pmf0 j))"
      using "1.prems"(3) k(2) series by (auto simp: le_Suc_eq)
    from "1.IH" [OF k(1) pmf'_def cdf'_def k(2) k(3) rest series this] show ?thesis .
  qed
qed

text \<open>
  A quantile that \<open>negBinQuantile\<close> returns with \<open>ok\<close> (for a positive probability and a start of the
  series that does not underflow) is the least count at which the summed distribution reaches the
  probability, and was found within the bound on the iterations.
\<close>

theorem quantile_is_least:
  assumes "neg_bin_quantile ops prob alpha beta = (y, True)" and "\<not> f_leq prob (fint 0)"
    and "\<not> f_less (fl_mul ops alpha (fl_log ops (fl_div ops beta (fl_add ops beta (fint 1))))) (fint (-700))"
  shows "y \<le> max_nbin_iter \<and> f_leq prob (nbin_cdf ops alpha beta y)
    \<and> (\<forall>j < y. \<not> f_leq prob (nbin_cdf ops alpha beta j))"
proof -
  define p where "p = fl_div ops beta (fl_add ops beta (fint 1))"
  define pmf where "pmf = fl_exp ops (fl_mul ops alpha (fl_log ops p))"
  define q where "q = fl_sub ops (fint 1) p"
  have cdf: "nbin_cdf ops alpha beta = (\<lambda>k. snd (nbin_series ops alpha q pmf k))"
    by (rule ext) (simp add: nbin_cdf_def Let_def p_def pmf_def q_def)
  have run: "neg_bin_quantile ops prob alpha beta =
      (if f_leq prob pmf then (0, True) else quantile_loop ops prob alpha q 0 pmf pmf)"
    using assms(2,3) by (simp add: neg_bin_quantile_def Let_def p_def pmf_def q_def)
  show ?thesis
  proof (cases "f_leq prob pmf")
    case True
    then show ?thesis using assms(1) run by (simp add: cdf)
  next
    case False
    then have "quantile_loop ops prob alpha q 0 pmf pmf = (y, True)" using assms(1) run by simp
    from quantile_loop_least [OF this, of pmf] False show ?thesis by (simp add: cdf)
  qed
qed

subsection \<open>Confirmation\<close>

lemma bit_push_flag: "bit (push_flag a f) i \<longleftrightarrow> i < 3 \<and> (if i = 0 then a else bit f (i - 1))"
proof -
  have seven: "(7 :: u8) = mask 3" by (simp add: mask_eq_exp_minus_1)
  define g where "g = push_bit 1 f"
  have g: "bit g j \<longleftrightarrow> 1 \<le> j \<and> j < 8 \<and> bit f (j - 1)" for j
    unfolding g_def by (simp only: bit_push_bit_iff) auto
  have "push_flag a f = (if a then g OR 1 else g) AND mask 3"
    by (simp only: push_flag_def Let_def g_def seven)
  then show ?thesis by (auto simp: bit_and_iff bit_or_iff g bit_mask_iff bit_1_iff)
qed

lemma and_one: "(f :: u8) AND 1 = 1 \<longleftrightarrow> bit f 0"
  by (simp add: and_one_eq bit_0 odd_iff_mod_2_eq_one)

lemma count_flags_3: "count_flags 3 f = of_bool (bit f 0) + of_bool (bit f 1) + of_bool (bit f 2)"
  by (simp add: numeral_3_eq_3 numeral_2_eq_2 and_one bit_drop_bit_eq)

type_synonym bucket = "nat \<times> instant \<times> int"

fun observe_all :: "float_ops \<Rightarrow> bucket list \<Rightarrow> detector \<Rightarrow> detector \<times> bucket_result list" where
  "observe_all ops [] d = (d, [])"
| "observe_all ops ((slot, now, cnt) # bs) d =
     (let (d1, r) = observe_bucket ops slot now cnt d; (d2, rs) = observe_all ops bs d1 in (d2, r # rs))"


lemma observe_all_append:
  "observe_all ops (bs @ [(slot, now, cnt)]) d =
   (let (d1, rs) = observe_all ops bs d; (d2, r) = observe_bucket ops slot now cnt d1 in (d2, rs @ [r]))"
  by (induction bs arbitrary: d) (auto simp: Let_def split: prod.split)

lemma observe_all_length: "length (snd (observe_all ops bs d)) = length bs"
proof (induction bs arbitrary: d)
  case (Cons b bs)
  obtain slot now cnt where b: "b = (slot, now, cnt)" by (cases b)
  show ?case using Cons by (simp add: b Let_def split_def)
qed simp

text \<open>The time of the last alert in a run.\<close>

definition last_alert_of :: "bucket list \<Rightarrow> bucket_result list \<Rightarrow> instant option" where
  "last_alert_of bs rs = (case filter (\<lambda>(b, r). br_alert r) (rev (zip bs rs)) of
     [] \<Rightarrow> None | ((slot, now, cnt), r) # _ \<Rightarrow> Some now)"

lemma last_alert_snoc:
  "length bs = length rs \<Longrightarrow>
   last_alert_of (bs @ [(slot, now, cnt)]) (rs @ [r]) = (if br_alert r then Some now else last_alert_of bs rs)"
  by (simp add: last_alert_of_def)

lemma observe_bucket_facts:
  assumes "observe_bucket ops slot now cnt d = (d', r)"
  shows "dx_flags d' = push_flag (br_anomalous r) (dx_flags d)"
    and "dx_last_alert d' = (if br_alert r then Some now else dx_last_alert d)"
    and "dx_cfg d' = dx_cfg d"
    and "br_alert r \<longleftrightarrow> confirmed (dx_flags d') \<and> dc_cooldown (dx_cfg d) \<le> time_since now (dx_last_alert d)"
  using assms by (auto simp: observe_bucket_def Let_def split: option.splits)

definition flags_show :: "u8 \<Rightarrow> bucket_result list \<Rightarrow> bool" where
  "flags_show f rs \<longleftrightarrow> (\<forall>i. bit f i \<longleftrightarrow> i < 3 \<and> i < length rs \<and> br_anomalous (rev rs ! i))"

lemma flags_show_push:
  assumes "flags_show f rs"
  shows "flags_show (push_flag (br_anomalous r) f) (rs @ [r])"
  unfolding flags_show_def
proof
  fix i
  show "bit (push_flag (br_anomalous r) f) i \<longleftrightarrow>
      i < 3 \<and> i < length (rs @ [r]) \<and> br_anomalous (rev (rs @ [r]) ! i)"
  proof (cases i)
    case (Suc j)
    have "bit f j \<longleftrightarrow> j < 3 \<and> j < length rs \<and> br_anomalous (rev rs ! j)"
      using assms unfolding flags_show_def by (rule spec)
    then show ?thesis unfolding Suc bit_push_flag by auto
  qed (simp add: bit_push_flag)
qed

lemma filter_take_3:
  "length (filter P (take 3 l)) =
   of_bool (0 < length l \<and> P (l ! 0)) + of_bool (1 < length l \<and> P (l ! 1)) + of_bool (2 < length l \<and> P (l ! 2))"
proof (cases l)
  case (Cons a l1)
  show ?thesis
  proof (cases l1)
    case (Cons b l2)
    with \<open>l = a # l1\<close> show ?thesis by (cases l2) simp_all
  qed (simp add: \<open>l = a # l1\<close>)
qed simp

lemma count_shown: "flags_show f rs \<Longrightarrow> count_flags 3 f = length (filter br_anomalous (take 3 (rev rs)))"
proof -
  assume "flags_show f rs"
  then have "bit f i \<longleftrightarrow> i < 3 \<and> i < length (rev rs) \<and> br_anomalous (rev rs ! i)" for i
    unfolding flags_show_def length_rev by (rule spec)
  from this [of 0] this [of 1] this [of 2] show ?thesis
    unfolding count_flags_3 filter_take_3 by simp
qed

lemma observe_all_state:
  assumes "observe_all ops bs d0 = (d, rs)" and "dx_flags d0 = 0" and "dx_last_alert d0 = None"
  shows "flags_show (dx_flags d) rs \<and> dx_last_alert d = last_alert_of bs rs \<and> dx_cfg d = dx_cfg d0"
  using assms(1)
proof (induction bs arbitrary: d rs rule: rev_induct)
  case Nil
  then show ?case using assms(2,3) by (auto simp: flags_show_def last_alert_of_def)
next
  case (snoc b bs)
  obtain slot now cnt where b: "b = (slot, now, cnt)" by (cases b)
  obtain d1 rs1 where run: "observe_all ops bs d0 = (d1, rs1)" by fastforce
  obtain r where step: "observe_bucket ops slot now cnt d1 = (d, r)" and rs: "rs = rs1 @ [r]"
    using snoc.prems run by (auto simp: b observe_all_append split: prod.splits)
  have "length bs = length rs1" using observe_all_length [of ops bs d0] run by simp
  then show ?case
    using snoc.IH [OF run] observe_bucket_facts [OF step] flags_show_push
    by (simp add: b rs last_alert_snoc)
qed

text \<open>
  C17: whatever buckets a detector has seen, a bucket raises the alert exactly when at least two of the
  last three buckets, this one included, were anomalous and the cooldown has passed since the last alert
  of the run.
\<close>

theorem alert_iff_confirmed:
  "let (d, rs) = observe_all ops bs (new_detector ops mean strength half_life cfg);
       r = snd (observe_bucket ops slot now cnt d)
   in br_alert r \<longleftrightarrow> 2 \<le> length (filter br_anomalous (take 3 (rev (rs @ [r]))))
      \<and> dc_cooldown cfg \<le> time_since now (last_alert_of bs rs)"
proof -
  define d0 where "d0 = new_detector ops mean strength half_life cfg"
  have d0: "dx_flags d0 = 0" "dx_last_alert d0 = None" "dc_cooldown (dx_cfg d0) = dc_cooldown cfg"
    by (simp_all add: d0_def new_detector_def Let_def)
  obtain d rs where run: "observe_all ops bs d0 = (d, rs)" by fastforce
  obtain d' r where step: "observe_bucket ops slot now cnt d = (d', r)" by fastforce
  note facts = observe_bucket_facts [OF step] and state = observe_all_state [OF run d0(1,2)]
  have "count_flags 3 (dx_flags d') = length (filter br_anomalous (take 3 (rev (rs @ [r]))))"
    using count_shown [OF flags_show_push [of "dx_flags d" rs r]] state facts(1) by simp
  then show ?thesis
    using facts state d0(3) by (simp add: run step confirmed_def flip: d0_def)
qed

subsection \<open>Floods\<close>

text \<open>Both counts are anomalous and beyond the cap (or no cap could be computed).\<close>

definition flooded :: "float_ops \<Rightarrow> nat \<Rightarrow> int \<Rightarrow> detector \<Rightarrow> bool" where
  "flooded ops slot cnt d \<longleftrightarrow> bucket_anomalous ops slot cnt d
     \<and> (case robust_cap ops slot d of (cap, ok) \<Rightarrow> ok \<longrightarrow> f_less (fl_int ops (int cap)) (fl_int ops cnt))"

lemma flooded_same:
  assumes "flooded ops slot c1 d" and "flooded ops slot c2 d"
  shows "learned_count ops slot c1 d = learned_count ops slot c2 d"
    and "bucket_anomalous ops slot c1 d = bucket_anomalous ops slot c2 d"
  using assms by (auto simp: flooded_def learned_count_def Let_def split: prod.splits)

lemma observe_bucket_cong:
  assumes "learned_count ops slot c1 d = learned_count ops slot c2 d"
    and "bucket_anomalous ops slot c1 d = bucket_anomalous ops slot c2 d"
  shows "fst (observe_bucket ops slot now c1 d) = fst (observe_bucket ops slot now c2 d)"
    and "br_alert (snd (observe_bucket ops slot now c1 d)) = br_alert (snd (observe_bucket ops slot now c2 d))"
  by (simp_all add: observe_bucket_def Let_def assms)

text \<open>Two histories that agree up to the size of the floods in them.\<close>

fun alike :: "float_ops \<Rightarrow> detector \<Rightarrow> bucket list \<Rightarrow> bucket list \<Rightarrow> bool" where
  "alike ops d ((slot, now, c) # bs) ((slot', now', c') # bs') \<longleftrightarrow>
     slot = slot' \<and> now = now' \<and> (c = c' \<or> flooded ops slot c d \<and> flooded ops slot c' d)
     \<and> alike ops (fst (observe_bucket ops slot now c d)) bs bs'"
| "alike ops d bs bs' \<longleftrightarrow> bs = [] \<and> bs' = []"

text \<open>
  C18: the size of a flood leaves no trace: two histories of buckets that differ only in counts that were
  anomalous and beyond the robust cap when they were seen end in the same detector, baseline included,
  and raise the same alerts.
\<close>

theorem flood_cannot_poison:
  assumes "alike ops d bs bs'"
  shows "fst (observe_all ops bs d) = fst (observe_all ops bs' d)
    \<and> map br_alert (snd (observe_all ops bs d)) = map br_alert (snd (observe_all ops bs' d))"
  using assms
proof (induction ops d bs bs' rule: alike.induct)
  case (1 ops d slot now c bs slot' now' c' bs')
  then have same: "slot' = slot" "now' = now" by auto
  have "c = c' \<or> flooded ops slot c d \<and> flooded ops slot c' d" using 1 by auto
  then have step: "fst (observe_bucket ops slot now c' d) = fst (observe_bucket ops slot now c d)"
      "br_alert (snd (observe_bucket ops slot now c' d)) = br_alert (snd (observe_bucket ops slot now c d))"
    using flooded_same [of ops slot c' d c] observe_bucket_cong [of ops slot c' d c] by auto
  have "alike ops (fst (observe_bucket ops slot now c d)) bs bs'" using 1 by auto
  from "1.IH" [OF this] show ?case by (simp add: same step split_def Let_def)
qed simp_all

lemma underflow_scores:
  assumes "scoring_state slot d = s"
    and "f_less (fl_mul ops (ga_alpha s) (fl_log ops (fl_div ops (ga_beta s) (fl_add ops (ga_beta s) (fint 1))))) (fint (-700))"
    and "0 < cnt" and "dc_min_count (dx_cfg d) \<le> cnt" and "f_less (fint 0) (dc_threshold (dx_cfg d))"
  shows "bucket_anomalous ops slot cnt d" and "robust_cap ops slot d = (0, True)"
proof -
  have tail: "neg_bin_upper_tail ops cnt (ga_alpha s) (ga_beta s) = fint 0"
    using assms(2,3) by (simp add: neg_bin_upper_tail_def Let_def)
  show "robust_cap ops slot d = (0, True)"
    using assms(2) by (simp add: robust_cap_def assms(1) neg_bin_quantile_def Let_def)
  show "bucket_anomalous ops slot cnt d"
    using assms(4,5) tail by (simp add: bucket_anomalous_def assms(1))
qed

text \<open>
  Where the expected count is so high that the probability of an empty bucket underflows (about 700
  events in ten seconds), every positive count that reaches the minimum is anomalous, the normal ones
  too, and the cap is 0, so that the baseline learns 0 from each of them.
\<close>

theorem busy_channel_always_anomalous:
  assumes "scoring_state slot d = s"
    and "f_less (fl_mul ops (ga_alpha s) (fl_log ops (fl_div ops (ga_beta s) (fl_add ops (ga_beta s) (fint 1))))) (fint (-700))"
    and "0 < cnt" and "dc_min_count (dx_cfg d) \<le> cnt" and "f_less (fint 0) (dc_threshold (dx_cfg d))"
    and "f_less (fl_int ops 0) (fl_int ops cnt)"
  shows "bucket_anomalous ops slot cnt d \<and> learned_count ops slot cnt d = Some (fl_int ops 0)"
  using underflow_scores [OF assms(1-5)] assms(6) by (simp add: learned_count_def)

subsection \<open>Witnesses\<close>

text \<open>Exact rational arithmetic with a linear stand-in for the logarithm.\<close>

definition lift_op :: "(rat \<Rightarrow> rat \<Rightarrow> rat) \<Rightarrow> float64 \<Rightarrow> float64 \<Rightarrow> float64" where
  "lift_op f x y = (case (x, y) of (Fin a, Fin b) \<Rightarrow> Fin (f a b) | _ \<Rightarrow> NaN)"

definition sample_ops :: float_ops where
  "sample_ops = \<lparr>fl_add = lift_op (+), fl_sub = lift_op (-), fl_mul = lift_op (*), fl_div = lift_op (/),
     fl_log = (\<lambda>x. lift_op (-) x (Fin 1)), fl_exp = (\<lambda>_. Fin (1 / 2)), fl_int = (\<lambda>n. Fin (of_int n))\<rparr>"

lemma sample_ops_simps [simp]:
  "fl_add sample_ops (Fin a) (Fin b) = Fin (a + b)" "fl_sub sample_ops (Fin a) (Fin b) = Fin (a - b)"
  "fl_mul sample_ops (Fin a) (Fin b) = Fin (a * b)" "fl_div sample_ops (Fin a) (Fin b) = Fin (a / b)"
  "fl_log sample_ops (Fin a) = Fin (a - 1)" "fl_exp sample_ops x = Fin (1 / 2)"
  "fl_int sample_ops n = Fin (of_int n)"
  by (simp_all add: sample_ops_def lift_op_def)

lemma quantile_is_least_witness:
  "neg_bin_quantile sample_ops (Fin (3 / 4)) (Fin 1) (Fin 1) = (1, True)
   \<and> f_leq (Fin (3 / 4)) (nbin_cdf sample_ops (Fin 1) (Fin 1) 1)"
proof -
  have y: "neg_bin_quantile sample_ops (Fin (3 / 4)) (Fin 1) (Fin 1) = (1, True)"
    by (simp add: neg_bin_quantile_def f_leq_def f_eq_def Let_def quantile_loop.simps [of _ _ _ _ 0]
        max_nbin_iter_def pmf_step_def)
  show ?thesis using quantile_is_least [OF y] y by (simp add: f_leq_def f_eq_def)
qed

text \<open>A detector of a channel with a million events a bucket.\<close>

definition busy_state :: gamma_state where
  "busy_state = \<lparr>ga_alpha = Fin 1000000, ga_beta = Fin 1, ga_n = 100\<rparr>"

definition busy_detector :: detector where
  "busy_detector = \<lparr>dx_slots = replicate slots_per_day busy_state, dx_global = busy_state, dx_flags = 0,
     dx_last_alert = None,
     dx_cfg = \<lparr>dc_min_count = 5, dc_threshold = f_1e4, dc_rho = fint 1, dc_cooldown = hour, dc_maturity = 630\<rparr>\<rparr>"

lemma busy_scoring: "scoring_state 0 busy_detector = busy_state"
  by (simp add: scoring_state_def busy_detector_def busy_state_def slots_per_day_def)

lemma busy_channel_always_anomalous_witness:
  "bucket_anomalous sample_ops 0 900000 busy_detector
   \<and> learned_count sample_ops 0 900000 busy_detector = Some (fl_int sample_ops 0)"
  by (rule busy_channel_always_anomalous [OF busy_scoring])
    (simp_all add: busy_state_def busy_detector_def f_1e4_def)

lemma flood_cannot_poison_witness:
  "fst (observe_all sample_ops [(0, 5, 900000)] busy_detector)
   = fst (observe_all sample_ops [(0, 5, 800000)] busy_detector)"
proof -
  have "flooded sample_ops 0 c busy_detector" if "c \<in> {800000, 900000}" for c
    using that underflow_scores [OF busy_scoring, of sample_ops c]
    by (auto simp: flooded_def busy_state_def busy_detector_def f_1e4_def)
  then have "alike sample_ops busy_detector [(0, 5, 900000)] [(0, 5, 800000)]" by simp
  from flood_cannot_poison [OF this] show ?thesis by blast
qed

end
