(* ===== verification/SpikeDetection.thy ===== *)
theory SpikeDetection
  imports Detector Broker "HOL-Library.AList"
begin

text \<open>
  The spike detection of a host (\<open>internal/evtspike\<close>: \<open>channels.go\<close>, \<open>baseline.go\<close>, \<open>subsystem.go\<close>,
  \<open>status.go\<close>): the channels to watch, the baseline file, one detector, counter and subscription per
  channel, and the operations of the subsystem from start to stop. Privileges, subscriptions, the clock and
  the file system answer through an argument; the Go maps are association lists. The callbacks for
  the public status are not modelled: \<open>sub_status\<close> is what they would be called with.
\<close>

subsection \<open>Channels\<close>

definition security_channel :: string where "security_channel = ''Security''"

definition default_channels :: "string list" where
  "default_channels =
    [''Application'',
     ''System'',
     ''Microsoft-FSLogix-Apps/Admin'',
     ''Microsoft-FSLogix-Apps/Operational'',
     ''Microsoft-FSLogix-CloudCache/Admin'',
     ''Microsoft-FSLogix-CloudCache/Operational'',
     ''Microsoft-Windows-RemoteApp and Desktop Connections/Admin'',
     ''Microsoft-Windows-RemoteApp and Desktop Connections/Operational'',
     ''Microsoft-Windows-RemoteDesktopServices-RdpCoreTS/Admin'',
     ''Microsoft-Windows-RemoteDesktopServices-RdpCoreTS/Operational'',
     ''Microsoft-Windows-RemoteDesktopServices-SessionServices/Operational'',
     ''Microsoft-Windows-SMBClient/Operational'',
     ''Microsoft-Windows-SmbClient/Connectivity'',
     ''Microsoft-Windows-SmbClient/Audit'',
     ''Microsoft-Windows-SmbClient/Security'',
     ''Microsoft-Windows-SMBServer/Operational'',
     ''Microsoft-Windows-SMBServer/Connectivity'',
     ''Microsoft-Windows-TerminalServices-ClientUSBDevices/Admin'',
     ''Microsoft-Windows-TerminalServices-ClientUSBDevices/Operational'',
     ''Microsoft-Windows-TerminalServices-LocalSessionManager/Admin'',
     ''Microsoft-Windows-TerminalServices-LocalSessionManager/Operational'',
     ''Microsoft-Windows-TerminalServices-PnPDevices/Admin'',
     ''Microsoft-Windows-TerminalServices-PnPDevices/Operational'',
     ''Microsoft-Windows-TerminalServices-Printers/Admin'',
     ''Microsoft-Windows-TerminalServices-Printers/Operational'',
     ''Microsoft-Windows-TerminalServices-RDPClient/Operational'',
     ''Microsoft-Windows-TerminalServices-RemoteConnectionManager/Admin'',
     ''Microsoft-Windows-TerminalServices-RemoteConnectionManager/Operational'',
     ''Microsoft-Windows-TerminalServices-ServerUSBDevices/Admin'',
     ''Microsoft-Windows-TerminalServices-ServerUSBDevices/Operational'',
     ''Microsoft-Windows-TerminalServices-SessionBroker-Client/Admin'',
     ''Microsoft-Windows-TerminalServices-SessionBroker-Client/Operational'',
     ''Microsoft-Windows-TerminalServices-TSAppSrv-TSMSI/Admin'',
     ''Microsoft-Windows-TerminalServices-TSAppSrv-TSMSI/Operational'',
     ''Microsoft-Windows-TerminalServices-TSAppSrv-TSVIP/Admin'',
     ''Microsoft-Windows-TerminalServices-TSAppSrv-TSVIP/Operational'',
     ''Microsoft-Windows-TerminalServices-TSFairShare/Admin'',
     ''Microsoft-Windows-TerminalServices-TSFairShare/Operational'',
     ''Microsoft-Windows-GroupPolicy/Operational'',
     ''Microsoft-Windows-User Profile Service/Operational'',
     ''Microsoft-Windows-PrintService/Operational'',
     ''Microsoft-Windows-Winlogon/Operational'',
     ''Microsoft-Windows-Folder Redirection/Operational'',
     ''Microsoft-Windows-Resource-Exhaustion-Detector/Operational'',
     ''Microsoft-Windows-NTLM/Operational'',
     ''Microsoft-Windows-Kerberos/Operational'',
     ''Microsoft-Windows-LSA/Operational'',
     ''Microsoft-Windows-DNS-Client/Operational'',
     ''Microsoft-Windows-TCPIP/Operational'',
     ''Microsoft-Windows-CAPI2/Operational'',
     ''Microsoft-Windows-Kernel-WHEA/Errors'',
     ''Microsoft-Windows-Windows Defender/Operational'',
     ''Microsoft-Windows-Crashdump/Operational'',
     ''Microsoft-Windows-WMI-Activity/Operational'']"

fun dedup_names :: "string list \<Rightarrow> string list \<Rightarrow> string list" where
  "dedup_names seen [] = []"
| "dedup_names seen (n # ns) =
     (if n = [] then dedup_names seen ns
      else if to_lower n \<in> set seen then dedup_names seen ns
      else n # dedup_names (to_lower n # seen) ns)"

definition resolve_channels :: "spike_config \<Rightarrow> string list" where
  "resolve_channels cfg =
     (let disabled = map to_lower (ec_disabled cfg);
          base = filter (\<lambda>n. ec_security cfg \<or> \<not> equal_fold n security_channel) default_channels
            @ (if ec_security cfg then [security_channel] else []);
          merged = filter (\<lambda>n. to_lower n \<notin> set disabled) base @ ec_added cfg
      in dedup_names [] merged)"

lemma dedup_names_lower: "to_lower ` set (dedup_names seen ns) = to_lower ` set ns - {[]} - set seen"
proof (induction seen ns rule: dedup_names.induct)
  case (2 seen n ns)
  have "to_lower n = [] \<longleftrightarrow> n = []" using length_to_lower [of n] by (metis length_0_conv)
  then show ?case using 2 by auto
qed simp

lemma dedup_names_distinct: "distinct (map to_lower (dedup_names seen ns))"
proof (induction seen ns rule: dedup_names.induct)
  case (2 seen n ns)
  have "to_lower n \<notin> to_lower ` set (dedup_names (to_lower n # seen) ns)" by (simp add: dedup_names_lower)
  then show ?case using 2 by auto
qed simp

lemma security_not_default: "n \<in> set default_channels \<Longrightarrow> \<not> equal_fold n security_channel"
proof -
  have "list_all (\<lambda>n. length n \<noteq> 8) default_channels" by (simp add: default_channels_def)
  moreover assume "n \<in> set default_channels"
  ultimately have "length n \<noteq> 8" by (simp add: list_all_iff)
  then have "length (to_lower n) \<noteq> length (to_lower security_channel)" by (simp add: security_channel_def)
  then show ?thesis unfolding equal_fold_def by metis
qed

text \<open>
  The watched channels, each once up to letter case, are exactly the added ones and those of the
  default list (and \<open>Security\<close>, when it is switched on) that are not disabled; a disabled channel that is
  also added is watched.
\<close>

theorem resolved_channels:
  "distinct (map to_lower (resolve_channels cfg))
   \<and> to_lower ` set (resolve_channels cfg)
     = (to_lower ` set (ec_added cfg)
        \<union> (to_lower ` (set default_channels \<union> (if ec_security cfg then {security_channel} else {}))
           - to_lower ` set (ec_disabled cfg))) - {[]}"
proof -
  have "filter (\<lambda>n. ec_security cfg \<or> \<not> equal_fold n security_channel) default_channels = default_channels"
    using security_not_default by (simp add: filter_id_conv)
  then show ?thesis
    by (auto simp: resolve_channels_def Let_def dedup_names_distinct dedup_names_lower)
qed

subsection \<open>The baseline file\<close>

record channel_state =
  cn_slots :: "gamma_state list"
  cn_global :: gamma_state
  cn_last_alert :: "instant option"

record baseline_file =
  bl_schema :: int
  bl_written :: "instant option"
  bl_warmup :: "instant option"
  bl_host :: string
  bl_channels :: "(string \<times> channel_state) list"

definition fresh_baseline :: baseline_file where
  "fresh_baseline = \<lparr>bl_schema = 2, bl_written = None, bl_warmup = None, bl_host = [], bl_channels = []\<rparr>"

text \<open>What is at a path; the JSON text of a readable file is left out.\<close>

datatype disk = Disk_Missing | Disk_Unreadable | Disk_Oversize | Disk_Corrupt | Disk_Holds baseline_file

definition clamp_f :: "float64 \<Rightarrow> float64" where
  "clamp_f x = (if f_less x (fint 0) then fint 0 else if f_less (fint 1000000000) x then fint 1000000000 else x)"

definition clamp_gamma :: "gamma_state \<Rightarrow> gamma_state" where
  "clamp_gamma g =
     \<lparr>ga_alpha = clamp_f (ga_alpha g), ga_beta = clamp_f (ga_beta g),
      ga_n = (if ga_n g < 0 then 0 else if ga_n g > 1000000000 then 1000000000 else ga_n g)\<rparr>"

definition clamp_channel :: "channel_state \<Rightarrow> channel_state" where
  "clamp_channel c = c\<lparr>cn_slots := map clamp_gamma (cn_slots c), cn_global := clamp_gamma (cn_global c)\<rparr>"

definition clamp_loaded :: "baseline_file \<Rightarrow> baseline_file" where
  "clamp_loaded b = b\<lparr>bl_channels := map (\<lambda>(n, c). (n, clamp_channel c)) (bl_channels b)\<rparr>"

text \<open>The file that is loaded and what is left at the path; a bad file is moved aside if that works.\<close>

definition load_baseline :: "bool \<Rightarrow> disk \<Rightarrow> baseline_file \<times> disk" where
  "load_baseline rename_ok f =
     (let aside = (fresh_baseline, if rename_ok then Disk_Missing else f) in
      case f of
        Disk_Missing \<Rightarrow> (fresh_baseline, f)
      | Disk_Unreadable \<Rightarrow> (fresh_baseline, f)
      | Disk_Oversize \<Rightarrow> aside
      | Disk_Corrupt \<Rightarrow> aside
      | Disk_Holds b \<Rightarrow>
          if bl_schema b \<noteq> 2 \<and> bl_schema b \<noteq> 1 then aside
          else (clamp_loaded (b\<lparr>bl_schema := 2\<rparr>), f))"

definition warmup_duration :: duration where "warmup_duration = 7 * 24 * hour"

definition baseline_proves_age :: "baseline_file \<Rightarrow> bool" where
  "baseline_proves_age b = list_ex (\<lambda>(n, c). list_ex (\<lambda>g. ga_n g \<ge> 90 * 7) (cn_slots c)) (bl_channels b)"

definition not_after :: "instant option \<Rightarrow> instant \<Rightarrow> bool" where
  "not_after t bound = (case t of None \<Rightarrow> False | Some t \<Rightarrow> t \<le> bound)"

definition warmup_start :: "instant \<Rightarrow> baseline_file option \<Rightarrow> instant" where
  "warmup_start now bf =
     (case bf of None \<Rightarrow> now
      | Some b \<Rightarrow>
          if not_after (bl_warmup b) now then the (bl_warmup b)
          else if not_after (bl_written b) (now - warmup_duration) then the (bl_written b)
          else if baseline_proves_age b then now - warmup_duration
          else if not_after (bl_written b) now then the (bl_written b)
          else now)"

subsection \<open>The subsystem\<close>

datatype sub_state = Subscribed | Retrying | Failed

record channel_sub =
  cb_state :: sub_state
  cb_attempts :: int

record spike_sub =
  su_cfg :: spike_config
  su_host :: string
  su_path :: string
  su_started :: bool
  su_detectors :: "(string \<times> detector) list"
  su_counters :: "(string \<times> int) list"
  su_channels :: "string list"
  su_subs :: "(string \<times> channel_sub) list"
  su_warned :: "(string \<times> instant) list"
  su_error :: "string option"
  su_last_spike :: "instant option"
  su_warmup :: "instant option"

type_synonym files = "string \<Rightarrow> disk"

text \<open>
  The answers of the surroundings to one operation: the clock, whether a channel can be subscribed,
  whether the privilege for \<open>Security\<close> can be enabled, and whether moving, removing and writing the
  file succeed. \<open>wo_default_path\<close> is the path below \<open>ProgramData\<close>, empty when that is not set.
\<close>

record world =
  wo_ops :: float_ops
  wo_default_path :: string
  wo_now :: instant
  wo_subscribe :: "string \<Rightarrow> bool"
  wo_privilege :: bool
  wo_rename :: bool
  wo_remove :: bool
  wo_write :: bool

definition resolve_baseline_path :: "world \<Rightarrow> spike_config \<Rightarrow> string" where
  "resolve_baseline_path w cfg = (if ec_baseline_path cfg \<noteq> [] then ec_baseline_path cfg else wo_default_path w)"

definition new_sub :: "world \<Rightarrow> spike_config \<Rightarrow> string \<Rightarrow> spike_sub" where
  "new_sub w cfg host =
     \<lparr>su_cfg = cfg, su_host = host, su_path = resolve_baseline_path w cfg, su_started = False,
      su_detectors = [], su_counters = [], su_channels = [], su_subs = [], su_warned = [],
      su_error = None, su_last_spike = None, su_warmup = None\<rparr>"

definition effective_cooldown :: "spike_config \<Rightarrow> string \<Rightarrow> duration" where
  "effective_cooldown cfg channel =
     (case map_of (ec_channel_cooldown cfg) channel of Some m \<Rightarrow> m | None \<Rightarrow> ec_cooldown cfg) * minute"

definition prior_detector :: "float_ops \<Rightarrow> spike_config \<Rightarrow> detector_config \<Rightarrow> detector" where
  "prior_detector ops cfg dcfg =
     new_detector ops (ec_mean_prior cfg) (ec_prior_strength cfg) (fint (ec_half_life cfg)) dcfg"

definition build_detector :: "float_ops \<Rightarrow> spike_config \<Rightarrow> baseline_file option \<Rightarrow> string \<Rightarrow> detector" where
  "build_detector ops cfg bf channel =
     (let d = prior_detector ops cfg \<lparr>dc_min_count = ec_min_count cfg, dc_threshold = ec_threshold cfg,
                dc_rho = fint 0, dc_cooldown = effective_cooldown cfg channel, dc_maturity = ec_maturity cfg\<rparr> in
      case bf of None \<Rightarrow> d
      | Some b \<Rightarrow>
          (case map_of (bl_channels b) channel of None \<Rightarrow> d
           | Some c \<Rightarrow> d\<lparr>dx_slots := cn_slots c, dx_global := cn_global c, dx_last_alert := cn_last_alert c\<rparr>))"

definition init_channels :: "world \<Rightarrow> baseline_file option \<Rightarrow> spike_sub \<Rightarrow> spike_sub" where
  "init_channels w bf s =
     (let cfg = su_cfg s;
          effective = (if ec_security cfg \<and> \<not> wo_privilege w then cfg\<lparr>ec_security := False\<rparr> else cfg);
          wanted = resolve_channels effective;
          entry = (\<lambda>ch. if wo_subscribe w ch then \<lparr>cb_state = Subscribed, cb_attempts = 0\<rparr>
                        else \<lparr>cb_state = Retrying, cb_attempts = 1\<rparr>)
      in s\<lparr>su_detectors := fold (\<lambda>ch. AList.update ch (build_detector (wo_ops w) cfg bf ch)) wanted (su_detectors s),
           su_counters := fold (\<lambda>ch. AList.update ch 0) wanted (su_counters s),
           su_subs := fold (\<lambda>ch. AList.update ch (entry ch)) wanted (su_subs s),
           su_channels := wanted,
           su_error := (if wanted \<noteq> [] \<and> \<not> list_ex (wo_subscribe w) wanted
                        then Some ''no channels subscribed'' else su_error s)\<rparr>)"

definition channel_state_of :: "detector \<Rightarrow> channel_state" where
  "channel_state_of d = \<lparr>cn_slots = dx_slots d, cn_global = dx_global d, cn_last_alert = dx_last_alert d\<rparr>"

definition write_baseline :: "world \<Rightarrow> spike_sub \<Rightarrow> files \<Rightarrow> files" where
  "write_baseline w s fs =
     (if su_path s = [] \<or> \<not> wo_write w then fs
      else fs(su_path s := Disk_Holds \<lparr>bl_schema = 2, bl_written = Some (wo_now w), bl_warmup = su_warmup s,
             bl_host = su_host s, bl_channels = map (\<lambda>(n, d). (n, channel_state_of d)) (su_detectors s)\<rparr>))"

definition start_enabled :: "world \<Rightarrow> spike_sub \<Rightarrow> files \<Rightarrow> spike_sub \<times> files" where
  "start_enabled w s fs =
     (let (bf, fs1) = (if su_path s = [] then (None, fs)
                       else (case load_baseline (wo_rename w) (fs (su_path s)) of
                               (b, f) \<Rightarrow> (Some b, fs(su_path s := f))));
          s1 = init_channels w bf s;
          s2 = s1\<lparr>su_warmup := Some (warmup_start (wo_now w) bf)\<rparr>
      in (s2, write_baseline w s2 fs1))"

definition start_sub :: "world \<Rightarrow> spike_sub \<Rightarrow> files \<Rightarrow> spike_sub \<times> files" where
  "start_sub w s fs =
     (let s1 = s\<lparr>su_started := True\<rparr> in if ec_enabled (su_cfg s1) then start_enabled w s1 fs else (s1, fs))"

definition quiesce :: "world \<Rightarrow> spike_sub \<Rightarrow> files \<Rightarrow> spike_sub \<times> files" where
  "quiesce w s fs =
     (s\<lparr>su_detectors := [], su_counters := [], su_channels := [], su_subs := [], su_warned := [],
        su_error := None, su_last_spike := None, su_warmup := None\<rparr>,
      write_baseline w s fs)"

definition stop_sub :: "world \<Rightarrow> spike_sub \<Rightarrow> files \<Rightarrow> spike_sub \<times> files" where
  "stop_sub = quiesce"

definition channel_set_changed :: "spike_config \<Rightarrow> spike_config \<Rightarrow> bool" where
  "channel_set_changed old new \<longleftrightarrow>
     ec_baseline_path old \<noteq> ec_baseline_path new \<or> resolve_channels old \<noteq> resolve_channels new"

definition restart_with_config :: "world \<Rightarrow> spike_config \<Rightarrow> spike_sub \<Rightarrow> files \<Rightarrow> spike_sub \<times> files" where
  "restart_with_config w cfg s fs =
     (let (s1, fs1) = stop_sub w s fs;
          s2 = s1\<lparr>su_cfg := cfg, su_path := resolve_baseline_path w cfg\<rparr>
      in start_enabled w s2 fs1)"

definition apply_scalars :: "float_ops \<Rightarrow> spike_config \<Rightarrow> string \<Rightarrow> detector \<Rightarrow> detector" where
  "apply_scalars ops cfg channel d =
     d\<lparr>dx_cfg := \<lparr>dc_min_count = ec_min_count cfg, dc_threshold = ec_threshold cfg,
        dc_rho = (if ec_half_life cfg > 0 then fl_exp ops (fl_div ops f_neg_ln2 (fint (ec_half_life cfg))) else fint 1),
        dc_cooldown = effective_cooldown cfg channel, dc_maturity = ec_maturity cfg\<rparr>\<rparr>"

text \<open>\<open>None\<close> in the first place is the error of a reload before the first start.\<close>

definition reload_sub :: "world \<Rightarrow> spike_config \<Rightarrow> spike_sub \<Rightarrow> files \<Rightarrow> bool \<times> spike_sub \<times> files" where
  "reload_sub w new s fs =
     (let old = su_cfg s in
      if ec_enabled old \<noteq> ec_enabled new then
        (let s1 = s\<lparr>su_cfg := new\<rparr> in
         if \<not> ec_enabled new then (True, quiesce w s1 fs)
         else if \<not> su_started s then (False, s1, fs)
         else (True, start_enabled w (s1\<lparr>su_path := resolve_baseline_path w new\<rparr>) fs))
      else if \<not> ec_enabled new then (True, s\<lparr>su_cfg := new\<rparr>, fs)
      else if channel_set_changed old new then
        (if \<not> su_started s then (False, s, fs) else (True, restart_with_config w new s fs))
      else
        (True, s\<lparr>su_detectors := map (\<lambda>(n, d). (n, apply_scalars (wo_ops w) new n d)) (su_detectors s),
                 su_cfg := old\<lparr>ec_min_count := ec_min_count new, ec_threshold := ec_threshold new,
                   ec_cooldown := ec_cooldown new, ec_channel_cooldown := ec_channel_cooldown new,
                   ec_maturity := ec_maturity new, ec_persist := ec_persist new, ec_half_life := ec_half_life new,
                   ec_prior_strength := ec_prior_strength new, ec_mean_prior := ec_mean_prior new\<rparr>\<rparr>, fs))"

definition reset_baseline :: "world \<Rightarrow> spike_sub \<Rightarrow> files \<Rightarrow> bool \<times> spike_sub \<times> files" where
  "reset_baseline w s fs =
     (let s1 = s\<lparr>su_detectors := map (\<lambda>(n, d). (n, prior_detector (wo_ops w) (su_cfg s) (dx_cfg d))) (su_detectors s),
                 su_warmup := Some (wo_now w)\<rparr>
      in if su_path s \<noteq> [] \<and> \<not> wo_remove w then (False, s1, fs)
         else (True, s1, write_baseline w s1 (if su_path s = [] then fs else fs(su_path s := Disk_Missing))))"

text \<open>\<open>onSubscriptionLoss\<close> and the retries of the supervisor.\<close>

definition subscription_loss :: "string \<Rightarrow> spike_sub \<Rightarrow> spike_sub" where
  "subscription_loss channel s =
     (case map_of (su_subs s) channel of None \<Rightarrow> s
      | Some c \<Rightarrow>
          if cb_state c = Failed then s
          else s\<lparr>su_subs := AList.update channel \<lparr>cb_state = Retrying, cb_attempts = 0\<rparr> (su_subs s)\<rparr>)"

definition retry_channel :: "bool \<Rightarrow> channel_sub \<Rightarrow> channel_sub" where
  "retry_channel ok c =
     (if cb_state c \<noteq> Retrying then c
      else if ok then \<lparr>cb_state = Subscribed, cb_attempts = 0\<rparr>
      else \<lparr>cb_state = (if cb_attempts c + 1 \<ge> 12 then Failed else Retrying), cb_attempts = cb_attempts c + 1\<rparr>)"

definition retry_once :: "world \<Rightarrow> spike_sub \<Rightarrow> spike_sub" where
  "retry_once w s = s\<lparr>su_subs := map (\<lambda>(n, c). (n, retry_channel (wo_subscribe w n) c)) (su_subs s)\<rparr>"

text \<open>An event arrives on a channel.\<close>

definition count_event :: "string \<Rightarrow> spike_sub \<Rightarrow> spike_sub" where
  "count_event channel s =
     (case map_of (su_counters s) channel of None \<Rightarrow> s
      | Some n \<Rightarrow> s\<lparr>su_counters := AList.update channel (n + 1) (su_counters s)\<rparr>)"

record spike_payload =
  sk_host :: string
  sk_channel :: string
  sk_start :: instant
  sk_end :: instant
  sk_observed :: int
  sk_expected :: float64
  sk_tail :: float64
  sk_confirmations :: nat
  sk_first_seen :: instant

definition first_seen_offset :: "u8 \<Rightarrow> nat" where
  "first_seen_offset flags =
     (if drop_bit 2 flags AND 1 = 1 then 2 else if drop_bit 1 flags AND 1 = 1 then 1 else 0)"

definition spike_payload_of :: "spike_sub \<Rightarrow> string \<Rightarrow> instant \<Rightarrow> detector \<Rightarrow> bucket_result \<Rightarrow> spike_payload" where
  "spike_payload_of s channel now d r =
     \<lparr>sk_host = su_host s, sk_channel = channel, sk_start = now, sk_end = now + 10 * second,
      sk_observed = br_count r, sk_expected = br_mean r, sk_tail = br_tail r,
      sk_confirmations = count_flags 3 (dx_flags d),
      sk_first_seen = now - int (first_seen_offset (dx_flags d)) * (10 * second)\<rparr>"

text \<open>The turn of one channel in \<open>scoreOnce\<close>; \<open>slot\<close> is the quarter of the hour of the local time.\<close>

definition score_channel ::
  "float_ops \<Rightarrow> nat \<Rightarrow> instant \<Rightarrow> string \<Rightarrow> spike_sub \<times> spike_payload list \<Rightarrow> spike_sub \<times> spike_payload list" where
  "score_channel ops slot now channel acc =
     (case acc of (s, spikes) \<Rightarrow>
      (case (map_of (su_detectors s) channel, map_of (su_counters s) channel) of
         (Some d, Some cnt) \<Rightarrow>
           (let s1 = s\<lparr>su_counters := AList.update channel 0 (su_counters s)\<rparr> in
            if map_option cb_state (map_of (su_subs s) channel) \<noteq> Some Subscribed then (s1, spikes)
            else
              (let (d', r) = observe_bucket ops slot now cnt d;
                   s2 = s1\<lparr>su_detectors := AList.update channel d' (su_detectors s),
                           su_last_spike := (if br_alert r then Some now else su_last_spike s),
                           su_warned := (if br_overflow r \<and> hour \<le> time_since now (map_of (su_warned s) channel)
                                         then AList.update channel now (su_warned s) else su_warned s)\<rparr>
               in (s2, if br_alert r then spikes @ [spike_payload_of s channel now d' r] else spikes)))
       | _ \<Rightarrow> (s, spikes)))"

definition score_once :: "float_ops \<Rightarrow> nat \<Rightarrow> instant \<Rightarrow> spike_sub \<Rightarrow> spike_sub \<times> spike_payload list" where
  "score_once ops slot now s = fold (score_channel ops slot now) (su_channels s) (s, [])"

subsection \<open>The public status\<close>

definition derive_state :: "bool \<Rightarrow> nat \<Rightarrow> nat \<Rightarrow> instant option \<Rightarrow> instant \<Rightarrow> bool \<Rightarrow> string" where
  "derive_state enabled enabled_channels mature_channels warmup now failed =
     (if \<not> enabled then ''disabled''
      else if failed \<or> enabled_channels = 0 then ''error''
      else if (case warmup of None \<Rightarrow> True | Some t \<Rightarrow> now < t + warmup_duration) then ''training''
      else if mature_channels * 2 \<ge> enabled_channels then ''healthy'' else ''training'')"

definition detector_mature :: "detector \<Rightarrow> int \<Rightarrow> bool" where
  "detector_mature d thresh =
     (let thresh = (if thresh \<le> 0 then default_maturity else thresh) in list_ex (\<lambda>g. ga_n g \<ge> thresh) (dx_slots d))"

definition sub_status :: "instant \<Rightarrow> spike_sub \<Rightarrow> detector_status" where
  "sub_status now s =
     (let live = filter (\<lambda>(n, c). cb_state c = Subscribed) (su_subs s);
          mature = filter (\<lambda>(n, c). case map_of (su_detectors s) n of None \<Rightarrow> False
                                    | Some d \<Rightarrow> detector_mature d (ec_maturity (su_cfg s))) live
      in \<lparr>de_host = su_host s,
          de_state = derive_state (ec_enabled (su_cfg s)) (length live) (length mature) (su_warmup s) now (su_error s \<noteq> None),
          de_enabled = int (length live), de_mature = int (length mature), de_warmup = su_warmup s,
          de_error = (case su_error s of None \<Rightarrow> [] | Some e \<Rightarrow> e), de_last_spike = su_last_spike s\<rparr>)"

subsection \<open>Starting and stopping\<close>

lemma map_of_fold_update:
  "map_of (fold (\<lambda>k. AList.update k (f k)) ks al) k = (if k \<in> set ks then Some (f k) else map_of al k)"
  by (induction ks arbitrary: al) (auto simp: update_conv')

lemma map_of_map_values: "map_of (map (\<lambda>(n, d). (n, f d)) al) k = map_option f (map_of al k)"
  by (induction al) auto

lemma fold_update_values:
  "(n, v) \<in> set (fold (\<lambda>k. AList.update k (f k)) ks al) \<Longrightarrow> (n, v) \<in> set al \<or> (n \<in> set ks \<and> v = f n)"
proof (induction ks arbitrary: al)
  case (Cons k ks)
  have "set (AList.update k (f k) al) \<subseteq> set al \<union> {(k, f k)}" for al :: "('a \<times> 'b) list"
    by (induction al) auto
  with Cons show ?case by fastforce
qed simp

text \<open>The sufficient statistics of a detector within the range that loading accepts.\<close>

definition gamma_in_range :: "gamma_state \<Rightarrow> bool" where
  "gamma_in_range g \<longleftrightarrow> f_leq (fint 0) (ga_alpha g) \<and> f_leq (ga_alpha g) (fint 1000000000)
     \<and> f_leq (fint 0) (ga_beta g) \<and> f_leq (ga_beta g) (fint 1000000000) \<and> 0 \<le> ga_n g \<and> ga_n g \<le> 1000000000"

definition detector_in_range :: "detector \<Rightarrow> bool" where
  "detector_in_range d \<longleftrightarrow> list_all gamma_in_range (dx_slots d) \<and> gamma_in_range (dx_global d)"

lemma clamp_f_id: "f_leq (fint 0) x \<Longrightarrow> f_leq x (fint 1000000000) \<Longrightarrow> clamp_f x = x"
  using f_less_asym by (auto simp: clamp_f_def f_leq_def f_eq_def)

lemma clamp_gamma_id: "gamma_in_range g \<Longrightarrow> clamp_gamma g = g"
  by (simp add: clamp_gamma_def gamma_in_range_def clamp_f_id)

lemma clamp_channel_id: "detector_in_range d \<Longrightarrow> clamp_channel (channel_state_of d) = channel_state_of d"
  by (simp add: detector_in_range_def clamp_channel_def channel_state_of_def clamp_gamma_id list_all_iff map_idI)

lemma clamp_loaded_id:
  assumes "\<forall>(n, d) \<in> set ds. detector_in_range d"
  shows "map (\<lambda>(n, c). (n, clamp_channel c)) (map (\<lambda>(n, d). (n, channel_state_of d)) ds)
    = map (\<lambda>(n, d). (n, channel_state_of d)) ds"
  using assms by (auto simp: clamp_channel_id)

lemma build_detector_state:
  "map_of (bl_channels b) ch = Some c \<Longrightarrow> channel_state_of (build_detector ops cfg (Some b) ch) = c"
  by (simp add: build_detector_def channel_state_of_def Let_def)

lemma build_detector_fresh: "map_of (bl_channels b) ch = None \<Longrightarrow> ga_n (dx_global (build_detector ops cfg (Some b) ch)) = 0"
  by (simp add: build_detector_def prior_detector_def new_detector_def Let_def)

lemma start_enabled_parts:
  assumes "start_enabled w s fs = (s', fs')" and "su_path s \<noteq> []"
    and "load_baseline (wo_rename w) (fs (su_path s)) = (b, f)" and "su_detectors s = []"
  shows "su_detectors s' = fold (\<lambda>ch. AList.update ch (build_detector (wo_ops w) (su_cfg s) (Some b) ch)) (su_channels s') []"
    and "su_warmup s' = Some (warmup_start (wo_now w) (Some b))"
  using assms by (auto simp: start_enabled_def init_channels_def Let_def)

text \<open>
  C19: stopping and starting again with the same configuration keeps what was learned: every watched
  channel that had a detector gets one with the same statistics and the same last alert, and the warm-up
  clock goes on, provided the statistics are in the range that loading accepts and the file was written.
\<close>

theorem restart_keeps_learning:
  assumes "stop_sub w1 s fs = (s1, fs1)" and "wo_write w1" and "ec_enabled (su_cfg s)"
    and "start_sub w2 (new_sub w2 (su_cfg s) (su_host s)) fs1 = (s2, fs2)"
    and "su_path s = resolve_baseline_path w2 (su_cfg s)" and "su_path s \<noteq> []"
    and "\<forall>(n, d) \<in> set (su_detectors s). detector_in_range d"
  shows "(\<forall>ch \<in> set (su_channels s2). \<forall>d. map_of (su_detectors s) ch = Some d \<longrightarrow>
      map_option channel_state_of (map_of (su_detectors s2) ch) = Some (channel_state_of d))
    \<and> (\<forall>t. su_warmup s = Some t \<and> t \<le> wo_now w2 \<longrightarrow> su_warmup s2 = Some t)"
proof -
  define s0 where "s0 = (new_sub w2 (su_cfg s) (su_host s))\<lparr>su_started := True\<rparr>"
  define b where "b = \<lparr>bl_schema = 2, bl_written = Some (wo_now w1), bl_warmup = su_warmup s, bl_host = su_host s,
    bl_channels = map (\<lambda>(n, d). (n, channel_state_of d)) (su_detectors s)\<rparr>"
  have fs1: "fs1 (su_path s) = Disk_Holds b"
    using assms(1,2,6) by (auto simp: stop_sub_def quiesce_def write_baseline_def b_def)
  have s0: "su_path s0 = su_path s" "su_detectors s0 = []" "su_cfg s0 = su_cfg s"
    by (simp_all add: s0_def new_sub_def assms(5))
  have run: "start_enabled w2 s0 fs1 = (s2, fs2)"
    using assms(3,4) by (simp add: start_sub_def Let_def new_sub_def s0_def)
  have load: "load_baseline (wo_rename w2) (fs1 (su_path s0)) = (b, Disk_Holds b)"
    using clamp_loaded_id [OF assms(7)] by (simp add: s0 fs1 load_baseline_def clamp_loaded_def b_def)
  note parts = start_enabled_parts [OF run _ load s0(2)]
  have "map_option channel_state_of (map_of (su_detectors s2) ch) = Some (channel_state_of d)"
    if "ch \<in> set (su_channels s2)" and "map_of (su_detectors s) ch = Some d" for ch d
  proof -
    have "map_of (bl_channels b) ch = Some (channel_state_of d)"
      using that(2) by (simp add: b_def map_of_map_values)
    then show ?thesis
      using that(1) assms(6) s0(1) by (simp add: parts(1) map_of_fold_update build_detector_state)
  qed
  moreover have "su_warmup s2 = Some t" if "su_warmup s = Some t" and "t \<le> wo_now w2" for t
    using parts(2) assms(6) s0(1) that by (simp add: warmup_start_def b_def not_after_def)
  ultimately show ?thesis by blast
qed

text \<open>
  C38: when the detection is switched off in the configuration, starting and stopping the service
  overwrites the baseline file, whatever it held, with an empty one: a later start with the
  detection switched on again begins with detectors that have seen nothing.
\<close>

theorem disabled_stop_erases_baseline:
  assumes "\<not> ec_enabled cfg" and "ec_baseline_path cfg \<noteq> []" and "wo_write w2"
    and "start_sub w1 (new_sub w1 cfg host) fs = (s1, fs1)" and "stop_sub w2 s1 fs1 = (s2, fs2)"
    and "start_sub w3 (new_sub w3 (cfg\<lparr>ec_enabled := True\<rparr>) host) fs2 = (s3, fs3)"
  shows "\<exists>b. fs2 (ec_baseline_path cfg) = Disk_Holds b \<and> bl_channels b = []
    \<and> (\<forall>(n, d) \<in> set (su_detectors s3). ga_n (dx_global d) = 0)"
proof -
  define b where "b = \<lparr>bl_schema = 2, bl_written = Some (wo_now w2), bl_warmup = None, bl_host = host, bl_channels = []\<rparr>"
  have s1: "s1 = (new_sub w1 cfg host)\<lparr>su_started := True\<rparr>" "fs1 = fs"
    using assms(1,4) by (auto simp: start_sub_def new_sub_def)
  have fs2: "fs2 (ec_baseline_path cfg) = Disk_Holds b"
    using assms(2,3,5) by (auto simp: s1 stop_sub_def quiesce_def write_baseline_def new_sub_def
        resolve_baseline_path_def b_def)
  define s0 where "s0 = (new_sub w3 (cfg\<lparr>ec_enabled := True\<rparr>) host)\<lparr>su_started := True\<rparr>"
  have s0: "su_path s0 = ec_baseline_path cfg" "su_detectors s0 = []"
    using assms(2) by (simp_all add: s0_def new_sub_def resolve_baseline_path_def)
  have run: "start_enabled w3 s0 fs2 = (s3, fs3)"
    using assms(6) by (simp add: start_sub_def Let_def new_sub_def s0_def)
  have load: "load_baseline (wo_rename w3) (fs2 (su_path s0)) = (b, Disk_Holds b)"
    by (simp add: s0 fs2 load_baseline_def clamp_loaded_def b_def)
  have "ga_n (dx_global d) = 0" if "(n, d) \<in> set (su_detectors s3)" for n d
  proof -
    have "su_path s0 \<noteq> []" using assms(2) s0(1) by simp
    from start_enabled_parts(1) [OF run this load s0(2)]
    have "d = build_detector (wo_ops w3) (su_cfg s0) (Some b) n"
      using that fold_update_values [of n d] by fastforce
    then show ?thesis by (simp add: build_detector_fresh b_def)
  qed
  then show ?thesis using fs2 by (auto simp: b_def)
qed

subsection \<open>Scoring, losses and retries\<close>

datatype sub_op =
    Score nat instant
  | Event string
  | Loss string
  | Retry world
  | Reset world

definition sub_step :: "float_ops \<Rightarrow> sub_op \<Rightarrow> spike_sub \<Rightarrow> spike_sub" where
  "sub_step ops op s =
     (case op of Score slot now \<Rightarrow> fst (score_once ops slot now s)
      | Event ch \<Rightarrow> count_event ch s
      | Loss ch \<Rightarrow> subscription_loss ch s
      | Retry w \<Rightarrow> retry_once w s
      | Reset w \<Rightarrow> fst (snd (reset_baseline w s (\<lambda>_. Disk_Missing))))"

text \<open>What one channel's turn does, in the terms the properties need.\<close>

lemma score_channel_keeps:
  assumes "score_channel ops slot now ch (s, spikes) = (s', spikes')"
  shows "su_subs s' = su_subs s" "su_error s' = su_error s" "su_cfg s' = su_cfg s" "su_channels s' = su_channels s"
    and "su_host s' = su_host s" "su_warmup s' = su_warmup s"
    and "map_of (su_counters s') k = (if k = ch \<and> map_of (su_detectors s) ch \<noteq> None \<and> map_of (su_counters s) ch \<noteq> None
      then Some 0 else map_of (su_counters s) k)"
    and "map_of (su_detectors s') k \<noteq> map_of (su_detectors s) k \<Longrightarrow>
      k = ch \<and> map_option cb_state (map_of (su_subs s) ch) = Some Subscribed"
    and "(map_of (su_detectors s') k = None) = (map_of (su_detectors s) k = None)"
    and "p \<in> set spikes' \<Longrightarrow> p \<in> set spikes \<or>
      sk_channel p = ch \<and> map_option cb_state (map_of (su_subs s) ch) = Some Subscribed"
  using assms
  by (auto simp: score_channel_def Let_def update_conv' spike_payload_of_def
      split: option.splits if_splits prod.splits)

abbreviation live :: "spike_sub \<Rightarrow> string \<Rightarrow> bool" where
  "live s ch \<equiv> map_option cb_state (map_of (su_subs s) ch) = Some Subscribed"

lemma score_fold:
  assumes "fold (score_channel ops slot now) chs (s, spikes) = (s', spikes')"
  shows "su_subs s' = su_subs s \<and> su_error s' = su_error s \<and> su_cfg s' = su_cfg s"
    and "k \<in> set chs \<Longrightarrow> map_of (su_detectors s) k \<noteq> None \<Longrightarrow> map_of (su_counters s) k \<noteq> None \<Longrightarrow>
      map_of (su_counters s') k = Some 0"
    and "\<not> live s k \<Longrightarrow> map_of (su_detectors s') k = map_of (su_detectors s) k"
    and "p \<in> set spikes' \<Longrightarrow> p \<in> set spikes \<or> sk_channel p \<in> set chs \<and> live s (sk_channel p)"
proof -
  have "(su_subs s' = su_subs s \<and> su_error s' = su_error s \<and> su_cfg s' = su_cfg s)
    \<and> (map_of (su_detectors s) k \<noteq> None \<and> map_of (su_counters s) k \<noteq> None \<and> (k \<in> set chs \<or> map_of (su_counters s) k = Some 0)
        \<longrightarrow> map_of (su_counters s') k = Some 0)
    \<and> (\<not> live s k \<longrightarrow> map_of (su_detectors s') k = map_of (su_detectors s) k)
    \<and> (p \<in> set spikes' \<longrightarrow> p \<in> set spikes \<or> sk_channel p \<in> set chs \<and> live s (sk_channel p))"
    using assms
  proof (induction chs arbitrary: s spikes)
    case (Cons ch chs)
    obtain s1 sp1 where one: "score_channel ops slot now ch (s, spikes) = (s1, sp1)" by fastforce
    note keeps = score_channel_keeps [OF one]
    have "fold (score_channel ops slot now) chs (s1, sp1) = (s', spikes')" using Cons.prems one by simp
    note IH = Cons.IH [OF this]
    have det: "map_of (su_detectors s1) k = None \<longleftrightarrow> map_of (su_detectors s) k = None" by (rule keeps(9))
    have "\<not> live s k \<Longrightarrow> map_of (su_detectors s1) k = map_of (su_detectors s) k" using keeps(8) by blast
    moreover have "p \<in> set sp1 \<Longrightarrow> p \<in> set spikes \<or> sk_channel p = ch \<and> live s ch" by (rule keeps(10))
    moreover have "map_of (su_counters s1) k = (if k = ch \<and> map_of (su_detectors s) ch \<noteq> None \<and> map_of (su_counters s) ch \<noteq> None
      then Some 0 else map_of (su_counters s) k)" by (rule keeps(7))
    ultimately show ?case using IH keeps(1-3) det by (auto split: if_splits)
  qed simp
  then show "su_subs s' = su_subs s \<and> su_error s' = su_error s \<and> su_cfg s' = su_cfg s"
    and "k \<in> set chs \<Longrightarrow> map_of (su_detectors s) k \<noteq> None \<Longrightarrow> map_of (su_counters s) k \<noteq> None \<Longrightarrow>
      map_of (su_counters s') k = Some 0"
    and "\<not> live s k \<Longrightarrow> map_of (su_detectors s') k = map_of (su_detectors s) k"
    and "p \<in> set spikes' \<Longrightarrow> p \<in> set spikes \<or> sk_channel p \<in> set chs \<and> live s (sk_channel p)"
    by blast+
qed

text \<open>
  A scoring round clears the counter of every watched channel, so that no event is counted in two
  buckets; a channel whose subscription is being retried or has failed learns nothing from the events it
  had and reports no spike.
\<close>

theorem only_subscribed_learn:
  "let (s', spikes) = score_once ops slot now s in
    (\<forall>ch \<in> set (su_channels s). map_of (su_detectors s) ch \<noteq> None \<and> map_of (su_counters s) ch \<noteq> None \<longrightarrow>
        map_of (su_counters s') ch = Some 0)
    \<and> (\<forall>ch. \<not> live s ch \<longrightarrow> map_of (su_detectors s') ch = map_of (su_detectors s) ch)
    \<and> (\<forall>p \<in> set spikes. sk_channel p \<in> set (su_channels s) \<and> live s (sk_channel p))"
proof -
  obtain s' spikes where run: "score_once ops slot now s = (s', spikes)" by fastforce
  note facts = score_fold [OF run [unfolded score_once_def]]
  show ?thesis unfolding run using facts(2,3) facts(4) [where p = p for p] by auto
qed

text \<open>The budget of retries: what the state of a subscription says about its failed attempts.\<close>

definition sub_budget :: "channel_sub \<Rightarrow> bool" where
  "sub_budget c = (case cb_state c of
     Subscribed \<Rightarrow> cb_attempts c = 0
   | Retrying \<Rightarrow> 0 \<le> cb_attempts c \<and> cb_attempts c < 12
   | Failed \<Rightarrow> cb_attempts c = 12)"

definition subs_ok :: "spike_sub \<Rightarrow> bool" where
  "subs_ok s \<longleftrightarrow> (\<forall>(n, c) \<in> set (su_subs s). sub_budget c)"

lemma update_values: "(n, v) \<in> set (AList.update k x al) \<Longrightarrow> (n, v) \<in> set al \<or> v = x"
  by (induction al) (auto split: if_splits)

lemma retry_budget_step: "sub_budget c \<Longrightarrow> sub_budget (retry_channel ok c)"
  by (cases "cb_state c") (auto simp: sub_budget_def retry_channel_def)

lemma score_once_keeps:
  "su_subs (fst (score_once ops slot now s)) = su_subs s" "su_error (fst (score_once ops slot now s)) = su_error s"
  "su_cfg (fst (score_once ops slot now s)) = su_cfg s"
  using score_fold(1) [of ops slot now "su_channels s" s "[]"] unfolding score_once_def
  by (metis prod.collapse)+

lemma subs_ok_step: "subs_ok s \<Longrightarrow> subs_ok (sub_step ops op s)"
proof (cases op)
  case (Loss ch)
  assume "subs_ok s"
  then show ?thesis
    by (auto simp: Loss sub_step_def subs_ok_def subscription_loss_def sub_budget_def
        dest!: update_values split: option.split)
next
  case (Retry w)
  assume "subs_ok s"
  then show ?thesis by (auto simp: Retry sub_step_def subs_ok_def retry_once_def retry_budget_step)
qed (auto simp: sub_step_def subs_ok_def score_once_keeps count_event_def reset_baseline_def Let_def
    split: option.split)

interpretation subscriptions: step_invariant "sub_step ops" subs_ok for ops
  by unfold_locales (rule subs_ok_step)

lemma init_subs_ok: "subs_ok s \<Longrightarrow> subs_ok (init_channels w bf s)"
  by (auto simp: subs_ok_def init_channels_def Let_def sub_budget_def dest!: fold_update_values split: if_splits)

lemma subs_ok_warmup [simp]: "subs_ok (s\<lparr>su_warmup := t\<rparr>) = subs_ok s"
  by (simp add: subs_ok_def)

lemma start_sub_cases:
  assumes "start_sub w (new_sub w cfg host) fs = (s, fs')"
  obtains "\<not> ec_enabled cfg" and "s = (new_sub w cfg host)\<lparr>su_started := True\<rparr>"
  | bf t where "ec_enabled cfg" and "s = (init_channels w bf ((new_sub w cfg host)\<lparr>su_started := True\<rparr>))\<lparr>su_warmup := t\<rparr>"
proof (cases "ec_enabled cfg")
  case True
  have "su_cfg (new_sub w cfg host) = cfg" by (simp add: new_sub_def)
  with True that(2) show ?thesis
    using assms by (auto simp: start_sub_def start_enabled_def Let_def split: if_splits prod.splits)
next
  case False
  have "su_cfg (new_sub w cfg host) = cfg" by (simp add: new_sub_def)
  with False that(1) show ?thesis using assms by (auto simp: start_sub_def)
qed

lemma started_subs_ok:
  assumes "start_sub w (new_sub w cfg host) fs = (s, fs')"
  shows "subs_ok s"
proof -
  have "subs_ok ((new_sub w cfg host)\<lparr>su_started := True\<rparr>)" by (simp add: subs_ok_def new_sub_def)
  with init_subs_ok show ?thesis by (rule_tac start_sub_cases [OF assms]) auto
qed

text \<open>
  In every history after a start (scoring rounds, events, losses, retries, resets) a subscription
  that is being retried has failed fewer than twelve times in a row, one that was given up has failed
  exactly twelve times, and a working one has no failure on record.
\<close>

theorem retries_are_bounded:
  assumes "start_sub w (new_sub w cfg host) fs = (s, fs')"
  shows "\<forall>(n, c) \<in> set (su_subs (fold (sub_step ops) sub_ops s)). (case cb_state c of
     Subscribed \<Rightarrow> cb_attempts c = 0 | Retrying \<Rightarrow> 0 \<le> cb_attempts c \<and> cb_attempts c < 12
   | Failed \<Rightarrow> cb_attempts c = 12)"
  using subscriptions.inv_run [OF started_subs_ok [OF assms], of ops sub_ops]
  by (simp add: subs_ok_def sub_budget_def)

lemma error_step:
  "su_error (sub_step ops op s) = su_error s \<and> ec_enabled (su_cfg (sub_step ops op s)) = ec_enabled (su_cfg s)"
  by (cases op) (auto simp: sub_step_def score_once_keeps count_event_def subscription_loss_def retry_once_def
      reset_baseline_def Let_def split: option.split)

lemma error_run:
  "su_error (fold (sub_step ops) sub_ops s) = su_error s
   \<and> ec_enabled (su_cfg (fold (sub_step ops) sub_ops s)) = ec_enabled (su_cfg s)"
  by (induction sub_ops arbitrary: s) (simp_all add: error_step)

text \<open>
  A start at which no channel could be subscribed is reported as an error from then on: whatever
  retries succeed afterwards, the public status stays \<open>error\<close> until the detection is stopped or reloaded.
\<close>

theorem failed_start_stays_error:
  assumes "start_sub w (new_sub w cfg host) fs = (s, fs')" and "ec_enabled cfg"
    and "su_channels s \<noteq> []" and "\<forall>ch. \<not> wo_subscribe w ch"
  shows "de_state (sub_status now (fold (sub_step ops) sub_ops s)) = ''error''"
proof (rule start_sub_cases [OF assms(1)])
  fix bf t
  assume s: "s = (init_channels w bf ((new_sub w cfg host)\<lparr>su_started := True\<rparr>))\<lparr>su_warmup := t\<rparr>"
  have err: "su_error s = Some ''no channels subscribed''" and on: "ec_enabled (su_cfg s)"
    using assms(2-4) by (auto simp: s init_channels_def Let_def new_sub_def list_ex_iff)
  have "su_error (fold (sub_step ops) sub_ops s) \<noteq> None" and "ec_enabled (su_cfg (fold (sub_step ops) sub_ops s))"
    using err on error_run [of ops sub_ops s] by simp_all
  then show ?thesis by (simp add: sub_status_def Let_def derive_state_def)
qed (use assms(2) in simp)

subsection \<open>Witnesses\<close>

text \<open>A configuration that watches one added channel only, and surroundings where everything works or nothing can be subscribed.\<close>

definition watch_config :: "bool \<Rightarrow> spike_config" where
  "watch_config enabled =
     \<lparr>ec_enabled = enabled, ec_min_count = 5, ec_threshold = f_1e4, ec_cooldown = 60, ec_channel_cooldown = [],
      ec_maturity = 630, ec_persist = 900, ec_half_life = 1000, ec_prior_strength = fint 10,
      ec_mean_prior = f_tenth, ec_baseline_path = ''baseline'', ec_disabled = default_channels,
      ec_added = [''A''], ec_security = False\<rparr>"

definition sample_world :: "bool \<Rightarrow> instant \<Rightarrow> world" where
  "sample_world subscribes now =
     \<lparr>wo_ops = sample_ops, wo_default_path = [], wo_now = now, wo_subscribe = (\<lambda>_. subscribes),
      wo_privilege = True, wo_rename = True, wo_remove = True, wo_write = True\<rparr>"

lemma watch_channels: "resolve_channels (watch_config e) = [''A'']"
proof -
  have "filter (\<lambda>n. to_lower n \<notin> to_lower ` set default_channels)
      (filter (\<lambda>n. \<not> equal_fold n security_channel) default_channels) = []"
    by (auto simp: filter_empty_conv)
  then show ?thesis by (simp add: resolve_channels_def watch_config_def Let_def)
qed

lemma watch_start_channels:
  assumes "start_sub (sample_world ok now) (new_sub (sample_world ok now) (watch_config True) host) fs = (s, fs')"
  shows "su_channels s = [''A'']"
proof (rule start_sub_cases [OF assms])
  fix bf t
  assume "s = (init_channels (sample_world ok now) bf
      ((new_sub (sample_world ok now) (watch_config True) host)\<lparr>su_started := True\<rparr>))\<lparr>su_warmup := t\<rparr>"
  moreover have "ec_security (watch_config True) = False" by (simp add: watch_config_def)
  ultimately show ?thesis by (simp add: init_channels_def Let_def new_sub_def watch_channels)
qed (simp add: watch_config_def)

definition learned_sub :: spike_sub where
  "learned_sub = (new_sub (sample_world True 0) (watch_config True) ''RDS1'')
     \<lparr>su_detectors := [(''A'', busy_detector)], su_warmup := Some 0\<rparr>"

definition failed_sub :: spike_sub where
  "failed_sub = learned_sub\<lparr>su_channels := [''A''], su_counters := [(''A'', 900000)],
     su_subs := [(''A'', \<lparr>cb_state = Failed, cb_attempts = 12\<rparr>)]\<rparr>"

lemma only_subscribed_learn_witness:
  "map_of (su_counters (fst (score_once sample_ops 0 5 failed_sub))) ''A'' = Some 0
   \<and> map_of (su_detectors (fst (score_once sample_ops 0 5 failed_sub))) ''A'' = Some busy_detector
   \<and> snd (score_once sample_ops 0 5 failed_sub) = []"
proof -
  have dead: "\<not> live failed_sub ch" for ch by (simp add: failed_sub_def)
  have start: "su_channels failed_sub = [''A'']" "map_of (su_detectors failed_sub) ''A'' = Some busy_detector"
    "map_of (su_counters failed_sub) ''A'' = Some 900000"
    by (simp_all add: failed_sub_def learned_sub_def)
  obtain s' spikes where run: "score_once sample_ops 0 5 failed_sub = (s', spikes)" by fastforce
  note all = only_subscribed_learn [of sample_ops 0 5 failed_sub, unfolded run Let_def prod.case]
  have kept: "map_of (su_counters s') ''A'' = Some 0" "map_of (su_detectors s') ''A'' = Some busy_detector"
    using all dead [of "''A''"] by (simp_all add: start del: not_None_eq)
  have "\<forall>p \<in> set spikes. live failed_sub (sk_channel p)" using all by blast
  then have "spikes = []" using dead by (cases spikes) auto
  then show ?thesis using kept by (simp add: run)
qed

lemma restart_keeps_learning_witness:
  "\<exists>s2 fs2. start_sub (sample_world True 9) (new_sub (sample_world True 9) (watch_config True) ''RDS1'')
        (snd (stop_sub (sample_world True 5) learned_sub (\<lambda>_. Disk_Missing))) = (s2, fs2)
    \<and> map_option channel_state_of (map_of (su_detectors s2) ''A'') = Some (channel_state_of busy_detector)
    \<and> su_warmup s2 = Some 0"
proof -
  have cfg: "su_cfg learned_sub = watch_config True" "su_host learned_sub = ''RDS1''"
      "su_detectors learned_sub = [(''A'', busy_detector)]" "su_warmup learned_sub = Some 0"
      "su_path learned_sub = ''baseline''"
    by (simp_all add: learned_sub_def new_sub_def resolve_baseline_path_def watch_config_def)
  obtain s1 fs1 where stop: "stop_sub (sample_world True 5) learned_sub (\<lambda>_. Disk_Missing) = (s1, fs1)" by fastforce
  obtain s2 fs2 where start: "start_sub (sample_world True 9) (new_sub (sample_world True 9) (watch_config True) ''RDS1'')
      fs1 = (s2, fs2)" by fastforce
  have "detector_in_range busy_detector"
    by (simp add: detector_in_range_def busy_detector_def busy_state_def gamma_in_range_def f_leq_def f_eq_def list_all_iff)
  then have "(\<forall>ch \<in> set (su_channels s2). \<forall>d. map_of (su_detectors learned_sub) ch = Some d \<longrightarrow>
      map_option channel_state_of (map_of (su_detectors s2) ch) = Some (channel_state_of d))
    \<and> (\<forall>t. su_warmup learned_sub = Some t \<and> t \<le> wo_now (sample_world True 9) \<longrightarrow> su_warmup s2 = Some t)"
    using restart_keeps_learning [OF stop _ _ start [folded cfg(1,2)]]
    by (simp add: cfg sample_world_def watch_config_def resolve_baseline_path_def)
  then show ?thesis
    using stop start watch_start_channels [OF start] by (simp add: cfg sample_world_def)
qed

lemma disabled_stop_erases_baseline_witness:
  "let w = sample_world True 0;
       (s1, fs1) = start_sub w (new_sub w (watch_config False) ''RDS1'') (\<lambda>_. Disk_Missing);
       (s2, fs2) = stop_sub w s1 fs1
   in \<exists>b. fs2 ''baseline'' = Disk_Holds b \<and> bl_channels b = []"
proof -
  define w where "w = sample_world True 0"
  obtain s1 fs1 where 1: "start_sub w (new_sub w (watch_config False) ''RDS1'') (\<lambda>_. Disk_Missing) = (s1, fs1)" by fastforce
  obtain s2 fs2 where 2: "stop_sub w s1 fs1 = (s2, fs2)" by fastforce
  obtain s3 fs3 where 3: "start_sub w (new_sub w ((watch_config False)\<lparr>ec_enabled := True\<rparr>) ''RDS1'') fs2 = (s3, fs3)"
    by fastforce
  have "\<not> ec_enabled (watch_config False)" "ec_baseline_path (watch_config False) = ''baseline''" "wo_write w"
    by (simp_all add: watch_config_def w_def sample_world_def)
  then show ?thesis using disabled_stop_erases_baseline [OF _ _ _ 1 2 3] 1 2 by (auto simp flip: w_def)
qed

lemma retries_are_bounded_witness:
  "let s = fst (start_sub (sample_world False 0) (new_sub (sample_world False 0) (watch_config True) ''RDS1'')
                  (\<lambda>_. Disk_Missing))
   in \<forall>(n, c) \<in> set (su_subs (fold (sub_step sample_ops) (replicate 20 (Retry (sample_world False 0))) s)).
        cb_state c = Failed \<longrightarrow> cb_attempts c = 12"
proof -
  obtain s fs where start: "start_sub (sample_world False 0) (new_sub (sample_world False 0) (watch_config True) ''RDS1'')
      (\<lambda>_. Disk_Missing) = (s, fs)" by fastforce
  show ?thesis using retries_are_bounded [OF start, of sample_ops "replicate 20 (Retry (sample_world False 0))"] start
    by (auto split: sub_state.splits)
qed

lemma failed_start_stays_error_witness:
  "let s = fst (start_sub (sample_world False 0) (new_sub (sample_world False 0) (watch_config True) ''RDS1'')
                  (\<lambda>_. Disk_Missing))
   in de_state (sub_status 9 (fold (sub_step sample_ops) [Retry (sample_world True 0)] s)) = ''error''"
proof -
  obtain s fs where start: "start_sub (sample_world False 0) (new_sub (sample_world False 0) (watch_config True) ''RDS1'')
      (\<lambda>_. Disk_Missing) = (s, fs)" by fastforce
  have "ec_enabled (watch_config True)" "su_channels s \<noteq> []" "\<forall>ch. \<not> wo_subscribe (sample_world False 0) ch"
    using watch_start_channels [OF start] by (simp_all add: watch_config_def sample_world_def)
  from failed_start_stays_error [OF start this, of 9 sample_ops "[Retry (sample_world True 0)]"]
  show ?thesis using start by simp
qed

end
