(* ===== verification/SqlTables.thy ===== *)
theory SqlTables
  imports Prelude
begin

text \<open>
  What the telemetry tables share. A table with a primary key is the list of its rows in the order in
  which they were first stored; \<open>ON CONFLICT DO NOTHING\<close>, \<open>ON CONFLICT DO UPDATE\<close>, \<open>GROUP BY\<close> and a
  lookup by key are functions on such lists, with the lemmas that say which row a key finds afterwards.
  SQL integers divide towards zero, and \<open>AVG\<close>, \<open>MIN\<close> and \<open>MAX\<close> are taken over rationals: the rounding of
  REAL columns is not modelled.
\<close>

subsection \<open>Rows by key\<close>

definition row_at :: "('r \<Rightarrow> 'k) \<Rightarrow> 'k \<Rightarrow> 'r list \<Rightarrow> 'r option" where
  "row_at key k rows = List.find (\<lambda>r. key r = k) rows"

definition insert_new :: "('r \<Rightarrow> 'k) \<Rightarrow> 'r \<Rightarrow> 'r list \<Rightarrow> 'r list" where
  "insert_new key r rows = (if list_ex (\<lambda>x. key x = key r) rows then rows else rows @ [r])"

fun upsert :: "('r \<Rightarrow> 'k) \<Rightarrow> 'r \<Rightarrow> 'r list \<Rightarrow> 'r list" where
  "upsert key r [] = [r]"
| "upsert key r (x # xs) = (if key x = key r then r # xs else x # upsert key r xs)"

definition group_by :: "('r \<Rightarrow> 'k) \<Rightarrow> ('k \<Rightarrow> 'r list \<Rightarrow> 'b) \<Rightarrow> 'r list \<Rightarrow> 'b list" where
  "group_by key agg rows = map (\<lambda>k. agg k (filter (\<lambda>r. key r = k) rows)) (remdups (map key rows))"

definition has_pk :: "('r \<Rightarrow> 'k) \<Rightarrow> 'r list \<Rightarrow> bool" where
  "has_pk key rows \<longleftrightarrow> distinct (map key rows)"

lemma row_at_simps [simp]:
  "row_at key k [] = None"
  "row_at key k (r # rows) = (if key r = k then Some r else row_at key k rows)"
  by (simp_all add: row_at_def)

lemma row_at_append [simp]:
  "row_at key k (xs @ ys) = (case row_at key k xs of None \<Rightarrow> row_at key k ys | Some r \<Rightarrow> Some r)"
  by (induction xs) auto

lemma row_at_None: "row_at key k rows = None \<longleftrightarrow> k \<notin> key ` set rows"
  by (induction rows) auto

lemma row_at_Some: "row_at key k rows = Some r \<Longrightarrow> r \<in> set rows \<and> key r = k"
  by (induction rows) (auto split: if_splits)

lemma row_at_iff: "has_pk key rows \<Longrightarrow> row_at key k rows = Some r \<longleftrightarrow> r \<in> set rows \<and> key r = k"
  by (induction rows) (auto simp: has_pk_def)

lemma row_at_filter: "(\<And>r. key r = k \<Longrightarrow> P r) \<Longrightarrow> row_at key k (filter P rows) = row_at key k rows"
  by (induction rows) auto

lemma has_pk_filter [simp]: "has_pk key rows \<Longrightarrow> has_pk key (filter P rows)"
  by (simp add: has_pk_def distinct_map_filter)

lemma has_pk_distinct: "has_pk key rows \<Longrightarrow> distinct rows"
  by (auto simp: has_pk_def distinct_map)

lemma row_at_insert_new:
  "row_at key k (insert_new key r rows)
     = (case row_at key k rows of Some x \<Rightarrow> Some x | None \<Rightarrow> if key r = k then Some r else None)"
  by (auto simp: insert_new_def list_ex_iff row_at_None split: option.split dest!: row_at_Some)

lemma has_pk_insert_new [simp]: "has_pk key rows \<Longrightarrow> has_pk key (insert_new key r rows)"
  by (auto simp: has_pk_def insert_new_def list_ex_iff)

lemma upsert_keys: "key ` set (upsert key r rows) = insert (key r) (key ` set rows)"
  by (induction rows) auto

lemma has_pk_upsert [simp]: "has_pk key rows \<Longrightarrow> has_pk key (upsert key r rows)"
proof (induction rows)
  case (Cons x xs)
  then show ?case using upsert_keys [of key r xs] by (auto simp: has_pk_def simp flip: image_set)
qed (simp add: has_pk_def)

lemma row_at_upsert [simp]: "row_at key k (upsert key r rows) = (if key r = k then Some r else row_at key k rows)"
  by (induction rows) auto

lemma row_at_fold_upsert:
  "has_pk key new \<Longrightarrow> row_at key k (fold (upsert key) new rows)
     = (case row_at key k new of Some r \<Rightarrow> Some r | None \<Rightarrow> row_at key k rows)"
proof (induction new arbitrary: rows)
  case (Cons r new)
  have "has_pk key new" and fresh: "key r \<notin> key ` set new" using Cons.prems by (auto simp: has_pk_def)
  then have "row_at key (key r) new = None" by (simp add: row_at_None)
  with Cons.IH [OF \<open>has_pk key new\<close>] show ?case by (auto split: option.split)
qed simp

lemma has_pk_fold_upsert [simp]: "has_pk key rows \<Longrightarrow> has_pk key (fold (upsert key) new rows)"
  by (induction new arbitrary: rows) simp_all

lemma has_pk_fold_insert_new [simp]: "has_pk key rows \<Longrightarrow> has_pk key (fold (insert_new key) new rows)"
  by (induction new arbitrary: rows) simp_all

text \<open>Two tables with a primary key that agree at every key have the same rows.\<close>

lemma same_rows:
  assumes "has_pk key xs" and "has_pk key ys"
    and "\<And>k. k \<in> K \<Longrightarrow> row_at key k xs = row_at key k ys"
  shows "{r \<in> set xs. key r \<in> K} = {r \<in> set ys. key r \<in> K}"
  using assms by (auto simp: row_at_iff) (metis row_at_iff)+

lemma sum_list_rows:
  "has_pk key xs \<Longrightarrow> has_pk key' ys \<Longrightarrow> set xs = set ys
     \<Longrightarrow> sum_list (map f xs) = (sum_list (map f ys) :: 'a::comm_monoid_add)"
  by (simp add: has_pk_distinct sum_list_distinct_conv_sum_set)

subsection \<open>Groups\<close>

lemma set_group_by: "set (group_by key agg rows) = (\<lambda>k. agg k (filter (\<lambda>r. key r = k) rows)) ` key ` set rows"
  by (simp add: group_by_def)

lemma has_pk_group_by:
  assumes "\<And>k rs. key' (agg k rs) = k"
  shows "has_pk key' (group_by key agg rows)"
proof -
  have "map key' (group_by key agg rows) = remdups (map key rows)"
    unfolding group_by_def map_map comp_def assms by simp
  then show ?thesis unfolding has_pk_def by (metis distinct_remdups)
qed

lemma row_at_group_by:
  assumes "\<And>k rs. key' (agg k rs) = k"
  shows "row_at key' k (group_by key agg rows)
    = (if k \<in> key ` set rows then Some (agg k (filter (\<lambda>r. key r = k) rows)) else None)"
proof -
  have *: "row_at key' k (map (\<lambda>k. agg k (filter (\<lambda>r. key r = k) rows)) ks)
      = (if k \<in> set ks then Some (agg k (filter (\<lambda>r. key r = k) rows)) else None)" for ks
    by (induction ks) (auto simp: assms)
  show ?thesis by (simp add: group_by_def *)
qed

text \<open>A sum over the rows is the sum of the sums over the groups.\<close>

lemma sum_list_remove_key:
  fixes f :: "'r \<Rightarrow> 'a::comm_monoid_add"
  shows "sum_list (map f rows)
    = sum_list (map f (filter (\<lambda>r. key r = k) rows)) + sum_list (map f (filter (\<lambda>r. key r \<noteq> k) rows))"
  by (induction rows) (auto simp: ac_simps)

lemma sum_list_groups:
  fixes f :: "'r \<Rightarrow> 'a::comm_monoid_add"
  assumes "distinct ks" and "key ` set rows \<subseteq> set ks"
  shows "sum_list (map (\<lambda>k. sum_list (map f (filter (\<lambda>r. key r = k) rows))) ks) = sum_list (map f rows)"
  using assms
proof (induction ks arbitrary: rows)
  case (Cons k ks)
  let ?rest = "filter (\<lambda>r. key r \<noteq> k) rows"
  have "sum_list (map (\<lambda>k. sum_list (map f (filter (\<lambda>r. key r = k) rows))) ks)
      = sum_list (map (\<lambda>k. sum_list (map f (filter (\<lambda>r. key r = k) ?rest))) ks)"
    using Cons.prems(1)
    by (intro arg_cong [where f = sum_list] map_cong refl arg_cong [where f = "map f"]) (auto intro!: filter_cong)
  also have "\<dots> = sum_list (map f ?rest)" using Cons.prems by (intro Cons.IH) auto
  finally show ?case by (simp add: sum_list_remove_key [of f rows key k])
qed simp

text \<open>Minima and maxima over groups, and an average weighted by the sizes of the groups.\<close>

lemma Min_groups:
  fixes f :: "'k \<Rightarrow> 'a::linorder set"
  assumes "finite K" and "K \<noteq> {}" and "\<And>k. k \<in> K \<Longrightarrow> finite (f k) \<and> f k \<noteq> {}"
  shows "Min ((\<lambda>k. Min (f k)) ` K) = Min (\<Union>k \<in> K. f k)"
proof (rule Min_eqI)
  show "finite ((\<lambda>k. Min (f k)) ` K)" using assms(1) by simp
  show "Min (\<Union>k \<in> K. f k) \<le> y" if "y \<in> (\<lambda>k. Min (f k)) ` K" for y
  proof -
    from that obtain k where k: "k \<in> K" "y = Min (f k)" by blast
    then have "y \<in> (\<Union>k \<in> K. f k)" using Min_in [of "f k"] assms(3) by blast
    then show ?thesis using assms by (intro Min_le) auto
  qed
  have "Min (\<Union>k \<in> K. f k) \<in> (\<Union>k \<in> K. f k)" using assms by (intro Min_in) auto
  then obtain k where k: "k \<in> K" "Min (\<Union>k \<in> K. f k) \<in> f k" by blast
  have lo: "Min (f k) \<le> Min (\<Union>k \<in> K. f k)" using k assms(3) by simp
  have "Min (f k) \<in> (\<Union>k \<in> K. f k)" using Min_in [of "f k"] assms(3) k(1) by blast
  then have up: "Min (\<Union>k \<in> K. f k) \<le> Min (f k)" using assms by (intro Min_le) auto
  show "Min (\<Union>k \<in> K. f k) \<in> (\<lambda>k. Min (f k)) ` K" using antisym [OF lo up] k(1) by force
qed

lemma Max_groups:
  fixes f :: "'k \<Rightarrow> 'a::linorder set"
  assumes "finite K" and "K \<noteq> {}" and "\<And>k. k \<in> K \<Longrightarrow> finite (f k) \<and> f k \<noteq> {}"
  shows "Max ((\<lambda>k. Max (f k)) ` K) = Max (\<Union>k \<in> K. f k)"
proof (rule Max_eqI)
  show "finite ((\<lambda>k. Max (f k)) ` K)" using assms(1) by simp
  show "y \<le> Max (\<Union>k \<in> K. f k)" if "y \<in> (\<lambda>k. Max (f k)) ` K" for y
  proof -
    from that obtain k where k: "k \<in> K" "y = Max (f k)" by blast
    then have "y \<in> (\<Union>k \<in> K. f k)" using Max_in [of "f k"] assms(3) by blast
    then show ?thesis using assms by (intro Max_ge) auto
  qed
  have "Max (\<Union>k \<in> K. f k) \<in> (\<Union>k \<in> K. f k)" using assms by (intro Max_in) auto
  then obtain k where k: "k \<in> K" "Max (\<Union>k \<in> K. f k) \<in> f k" by blast
  have lo: "Max (\<Union>k \<in> K. f k) \<le> Max (f k)" using k assms(3) by simp
  have "Max (f k) \<in> (\<Union>k \<in> K. f k)" using Max_in [of "f k"] assms(3) k(1) by blast
  then have up: "Max (f k) \<le> Max (\<Union>k \<in> K. f k)" using assms by (intro Max_ge) auto
  show "Max (\<Union>k \<in> K. f k) \<in> (\<lambda>k. Max (f k)) ` K" using antisym [OF lo up] k(1) by force
qed

subsection \<open>SQL arithmetic\<close>

text \<open>\<open>(ts / w) * w\<close>, with SQLite's division towards zero.\<close>

definition bucket_start :: "int \<Rightarrow> int \<Rightarrow> int" where
  "bucket_start w ts = go_div ts w * w"

definition sql_avg :: "rat list \<Rightarrow> rat" where
  "sql_avg xs = sum_list xs / of_nat (length xs)"

lemma sql_avg_weight: "sql_avg xs * of_nat (length xs) = sum_list xs"
  by (cases "xs = []") (simp_all add: sql_avg_def)

text \<open>\<open>Time.Truncate\<close> for a divisor of the day: the instants of Go's era are counted from a midnight.\<close>

definition time_floor :: "duration \<Rightarrow> instant \<Rightarrow> instant" where
  "time_floor d t = t div d * d"

lemma go_div_neg: "a \<le> 0 \<Longrightarrow> 0 < b \<Longrightarrow> go_div a b = - (- a div b)"
  by (cases "a = 0") (auto simp: go_div_def)

lemma go_div_go_div:
  assumes "0 < m" and "0 < n"
  shows "go_div (go_div a m) n = go_div a (m * n)"
proof (cases "0 \<le> a")
  case True
  then show ?thesis using assms by (simp add: go_div_pos pos_imp_zdiv_nonneg_iff zdiv_zmult2_eq)
next
  case False
  then have "0 \<le> - a div m" using assms by (simp add: pos_imp_zdiv_nonneg_iff)
  then show ?thesis using False assms by (simp add: go_div_neg zdiv_zmult2_eq)
qed

lemma go_div_mult: "0 < m \<Longrightarrow> go_div (a * m) m = a"
  by (cases "a = 0") (auto simp: go_div_def abs_mult sgn_mult mult_sgn_abs)

lemma bucket_start_nested:
  assumes "0 < m" and "0 < n"
  shows "bucket_start (m * n) (bucket_start m ts) = bucket_start (m * n) ts"
proof -
  have "go_div (go_div ts m * m) (m * n) = go_div ts (m * n)"
    using go_div_go_div [OF assms, of "go_div ts m * m"] go_div_mult [OF assms(1)] go_div_go_div [OF assms, of ts] by simp
  then show ?thesis by (simp add: bucket_start_def)
qed

end
