(* ===== verification/MetricTiers.thy ===== *)
theory MetricTiers
  imports SqlTables
begin

text \<open>
  The metric tables of \<open>telemetry/schema.go\<close>, \<open>Append\<close> of \<open>metrics.go\<close> and the two roll-ups of
  \<open>aggregator.go\<close>: raw samples, five-minute buckets and hourly buckets, each keyed by host, time and
  counter. The lemmas show that an hourly row is the aggregate of the raw samples of its hour although
  it is computed from the five-minute rows, and what a later pass of the aggregator can change.
\<close>

subsection \<open>The tables\<close>

type_synonym metric_key = "string \<times> int \<times> string"

record raw_row =
  rr_ts :: int
  rr_host :: string
  rr_counter :: string
  rr_value :: rat

record bucket_row =
  bk_ts :: int
  bk_host :: string
  bk_counter :: string
  bk_avg :: rat
  bk_min :: rat
  bk_max :: rat
  bk_count :: int

record metric_tables =
  mt_raw :: "raw_row list"
  mt_5min :: "bucket_row list"
  mt_hourly :: "bucket_row list"

definition raw_key :: "raw_row \<Rightarrow> metric_key" where
  "raw_key r = (rr_host r, rr_ts r, rr_counter r)"

definition bucket_key :: "bucket_row \<Rightarrow> metric_key" where
  "bucket_key r = (bk_host r, bk_ts r, bk_counter r)"

subsection \<open>Appending samples\<close>

record metric_sample =
  me_ts :: instant
  me_host :: string
  me_counter :: string
  me_value :: rat

definition raw_of_sample :: "metric_sample \<Rightarrow> raw_row" where
  "raw_of_sample s = \<lparr>rr_ts = unix_milli (me_ts s), rr_host = me_host s, rr_counter = me_counter s, rr_value = me_value s\<rparr>"

datatype append_error = StoreClosed

text \<open>\<open>is_open\<close> says that the prepared statement has not been closed.\<close>

definition append_samples :: "bool \<Rightarrow> metric_sample list \<Rightarrow> metric_tables \<Rightarrow> append_error + metric_tables" where
  "append_samples is_open samples t =
     (if samples = [] then Inr t
      else if \<not> is_open then Inl StoreClosed
      else Inr (t\<lparr>mt_raw := fold (insert_new raw_key) (map raw_of_sample samples) (mt_raw t)\<rparr>))"

subsection \<open>The roll-ups\<close>

abbreviation five_min_ms :: int where "five_min_ms \<equiv> 300000"
abbreviation hour_ms :: int where "hour_ms \<equiv> 3600000"

definition five_min_watermark :: duration where "five_min_watermark = 5 * minute + 5 * minute"
definition hourly_watermark :: duration where "hourly_watermark = hour + 5 * minute"

definition max_5min_bucket :: "instant \<Rightarrow> int" where
  "max_5min_bucket now = unix_milli (time_floor (5 * minute) (now - five_min_watermark))"

definition max_hourly_bucket :: "instant \<Rightarrow> int" where
  "max_hourly_bucket now = unix_milli (time_floor hour (now - hourly_watermark))"

definition raw_bucket :: "int \<Rightarrow> raw_row \<Rightarrow> metric_key" where
  "raw_bucket w r = (rr_host r, bucket_start w (rr_ts r), rr_counter r)"

definition hour_bucket :: "bucket_row \<Rightarrow> metric_key" where
  "hour_bucket r = (bk_host r, bucket_start hour_ms (bk_ts r), bk_counter r)"

definition aggregate_raw :: "metric_key \<Rightarrow> raw_row list \<Rightarrow> bucket_row" where
  "aggregate_raw k rs = (case k of (host, ts, counter) \<Rightarrow>
     \<lparr>bk_ts = ts, bk_host = host, bk_counter = counter, bk_avg = sql_avg (map rr_value rs),
      bk_min = Min (rr_value ` set rs), bk_max = Max (rr_value ` set rs), bk_count = int (length rs)\<rparr>)"

definition aggregate_5min :: "metric_key \<Rightarrow> bucket_row list \<Rightarrow> bucket_row" where
  "aggregate_5min k rs = (case k of (host, ts, counter) \<Rightarrow>
     \<lparr>bk_ts = ts, bk_host = host, bk_counter = counter,
      bk_avg = sum_list (map (\<lambda>r. bk_avg r * of_int (bk_count r)) rs) / of_int (sum_list (map bk_count rs)),
      bk_min = Min (bk_min ` set rs), bk_max = Max (bk_max ` set rs), bk_count = sum_list (map bk_count rs)\<rparr>)"

definition roll_5min :: "instant \<Rightarrow> metric_tables \<Rightarrow> metric_tables" where
  "roll_5min now t =
     (let due = filter (\<lambda>r. bucket_start five_min_ms (rr_ts r) \<le> max_5min_bucket now) (mt_raw t)
      in t\<lparr>mt_5min := fold (upsert bucket_key) (group_by (raw_bucket five_min_ms) aggregate_raw due) (mt_5min t)\<rparr>)"

definition roll_hourly :: "instant \<Rightarrow> metric_tables \<Rightarrow> metric_tables" where
  "roll_hourly now t =
     (let due = filter (\<lambda>r. bucket_start hour_ms (bk_ts r) \<le> max_hourly_bucket now) (mt_5min t)
      in t\<lparr>mt_hourly := fold (upsert bucket_key) (group_by hour_bucket aggregate_5min due) (mt_hourly t)\<rparr>)"

definition roll_once :: "instant \<Rightarrow> metric_tables \<Rightarrow> metric_tables" where
  "roll_once now t = roll_hourly now (roll_5min now t)"

subsection \<open>What a pass leaves in a bucket\<close>

abbreviation row_5min :: "metric_tables \<Rightarrow> metric_key \<Rightarrow> bucket_row option" where
  "row_5min t k \<equiv> row_at bucket_key k (mt_5min t)"

abbreviation row_hourly :: "metric_tables \<Rightarrow> metric_key \<Rightarrow> bucket_row option" where
  "row_hourly t k \<equiv> row_at bucket_key k (mt_hourly t)"

definition tables_ok :: "metric_tables \<Rightarrow> bool" where
  "tables_ok t \<longleftrightarrow> has_pk raw_key (mt_raw t) \<and> has_pk bucket_key (mt_5min t) \<and> has_pk bucket_key (mt_hourly t)"

lemma bucket_key_aggregates [simp]:
  "bucket_key (aggregate_raw k rs) = k" "bucket_key (aggregate_5min k bs) = k"
  by (cases k; simp add: aggregate_raw_def aggregate_5min_def bucket_key_def)+

lemma roll_keeps [simp]:
  "mt_raw (roll_5min now t) = mt_raw t" "mt_hourly (roll_5min now t) = mt_hourly t"
  "mt_raw (roll_hourly now t) = mt_raw t" "mt_5min (roll_hourly now t) = mt_5min t"
  by (simp_all add: roll_5min_def roll_hourly_def Let_def)

lemma row_5min_roll:
  "row_5min (roll_5min now t) k =
    (let rs = filter (\<lambda>r. raw_bucket five_min_ms r = k) (mt_raw t) in
     if rs \<noteq> [] \<and> fst (snd k) \<le> max_5min_bucket now then Some (aggregate_raw k rs) else row_5min t k)"
proof -
  let ?due = "filter (\<lambda>r. bucket_start five_min_ms (rr_ts r) \<le> max_5min_bucket now) (mt_raw t)"
  have "filter (\<lambda>r. raw_bucket five_min_ms r = k) ?due
      = (if fst (snd k) \<le> max_5min_bucket now then filter (\<lambda>r. raw_bucket five_min_ms r = k) (mt_raw t) else [])"
    by (auto simp: raw_bucket_def filter_empty_conv intro!: filter_cong)
  moreover have "k \<in> raw_bucket five_min_ms ` set ?due \<longleftrightarrow>
      filter (\<lambda>r. raw_bucket five_min_ms r = k) (mt_raw t) \<noteq> [] \<and> fst (snd k) \<le> max_5min_bucket now"
    by (auto simp: raw_bucket_def filter_empty_conv image_iff)
  ultimately show ?thesis
    by (simp add: roll_5min_def Let_def row_at_fold_upsert has_pk_group_by row_at_group_by)
qed

lemma row_hourly_roll:
  "row_hourly (roll_hourly now t) k =
    (let rs = filter (\<lambda>r. hour_bucket r = k) (mt_5min t) in
     if rs \<noteq> [] \<and> fst (snd k) \<le> max_hourly_bucket now then Some (aggregate_5min k rs) else row_hourly t k)"
proof -
  let ?due = "filter (\<lambda>r. bucket_start hour_ms (bk_ts r) \<le> max_hourly_bucket now) (mt_5min t)"
  have "filter (\<lambda>r. hour_bucket r = k) ?due
      = (if fst (snd k) \<le> max_hourly_bucket now then filter (\<lambda>r. hour_bucket r = k) (mt_5min t) else [])"
    by (auto simp: hour_bucket_def filter_empty_conv intro!: filter_cong)
  moreover have "k \<in> hour_bucket ` set ?due \<longleftrightarrow>
      filter (\<lambda>r. hour_bucket r = k) (mt_5min t) \<noteq> [] \<and> fst (snd k) \<le> max_hourly_bucket now"
    by (auto simp: hour_bucket_def filter_empty_conv image_iff)
  ultimately show ?thesis
    by (simp add: roll_hourly_def Let_def row_at_fold_upsert has_pk_group_by row_at_group_by)
qed

lemma tables_ok_append: "tables_ok t \<Longrightarrow> append_samples is_open samples t = Inr t' \<Longrightarrow> tables_ok t'"
  by (auto simp: append_samples_def tables_ok_def split: if_splits)

lemma tables_ok_roll: "tables_ok t \<Longrightarrow> tables_ok (roll_5min now t)" "tables_ok t \<Longrightarrow> tables_ok (roll_hourly now t)"
  by (simp_all add: tables_ok_def roll_5min_def roll_hourly_def Let_def)

subsection \<open>An hourly row is the aggregate of its raw samples\<close>

definition hour_of :: "metric_key \<Rightarrow> metric_key" where
  "hour_of k = (case k of (host, ts, counter) \<Rightarrow> (host, bucket_start hour_ms ts, counter))"

lemma hour_bucket_of: "hour_bucket b = hour_of (bucket_key b)"
  by (simp add: hour_bucket_def hour_of_def bucket_key_def)

lemma hour_of_raw [simp]: "hour_of (raw_bucket five_min_ms r) = raw_bucket hour_ms r"
  using bucket_start_nested [of five_min_ms 12 "rr_ts r"] by (simp add: hour_of_def raw_bucket_def)

lemma five_min_in_hour: "bucket_start five_min_ms ts \<le> bucket_start hour_ms ts + 11 * five_min_ms"
proof -
  have q: "go_div ts hour_ms = go_div (go_div ts five_min_ms) 12" by (simp add: go_div_go_div)
  have "p \<le> 12 * go_div p 12 + 11" for p
  proof (cases "0 \<le> p")
    case True then show ?thesis by (simp add: go_div_pos)
  next
    case False then show ?thesis by (simp add: go_div_neg)
  qed
  from this [of "go_div ts five_min_ms"] show ?thesis unfolding bucket_start_def q by linarith
qed

lemma max_bucket_value:
  "max_5min_bucket now = (now - 600 * second) div (300 * second) * five_min_ms"
  "max_hourly_bucket now = (now - 3900 * second) div (3600 * second) * hour_ms"
  by (simp_all add: max_5min_bucket_def max_hourly_bucket_def unix_milli_def time_floor_def five_min_watermark_def
      hourly_watermark_def second_def minute_def hour_def)

text \<open>An hour is not due before each of its twelve five-minute buckets is.\<close>

lemma watermarks_agree:
  assumes "bucket_start hour_ms ts \<le> max_hourly_bucket now"
  shows "bucket_start five_min_ms ts \<le> max_5min_bucket now"
proof -
  define p where "p = go_div ts five_min_ms"
  define Q where "Q = (now - 3900 * second) div (3600 * second)"
  have "p * five_min_ms \<le> Q * hour_ms + 11 * five_min_ms"
    using five_min_in_hour [of ts] assms by (simp add: bucket_start_def p_def max_bucket_value Q_def)
  then have "p \<le> 12 * Q + 11" by linarith
  moreover have "Q * (3600 * second) \<le> now - 3900 * second" unfolding Q_def by (simp add: second_def)
  ultimately have "p * (300 * second) \<le> now - 600 * second" by (simp add: second_def)
  from zdiv_mono1 [OF this, of "300 * second"] have "p \<le> (now - 600 * second) div (300 * second)"
    by (simp add: second_def)
  then show ?thesis by (simp add: bucket_start_def p_def max_bucket_value)
qed

lemma aggregate_of_aggregates:
  assumes "set bs = (\<lambda>k. aggregate_raw k (filter (\<lambda>r. g r = k) rs)) ` g ` set rs" and "has_pk bucket_key bs" and "rs \<noteq> []"
  shows "aggregate_5min k bs = aggregate_raw k rs"
proof -
  define ks where "ks = remdups (map g rs)"
  let ?grp = "\<lambda>k. filter (\<lambda>r. g r = k) rs"
  define cs where "cs = map (\<lambda>k. aggregate_raw k (?grp k)) ks"
  have ks: "distinct ks" "set ks = g ` set rs" by (simp_all add: ks_def)
  have cs: "has_pk bucket_key cs" "set bs = set cs"
    using ks assms(1) by (simp_all add: cs_def has_pk_def comp_def)
  have sums: "sum_list (map f bs) = sum_list (map (\<lambda>k. f (aggregate_raw k (?grp k))) ks)" for f :: "_ \<Rightarrow> rat"
    using sum_list_rows [OF assms(2) cs] by (simp add: cs_def comp_def)
  have counts: "sum_list (map bk_count bs) = sum_list (map (\<lambda>k. bk_count (aggregate_raw k (?grp k))) ks)"
    using sum_list_rows [OF assms(2) cs] by (simp add: cs_def comp_def)
  have one: "bk_count (aggregate_raw k xs) = sum_list (map (\<lambda>_. 1) xs)" for k xs
    by (cases k) (simp add: aggregate_raw_def sum_list_triv)
  have weight: "bk_avg (aggregate_raw k xs) * of_int (bk_count (aggregate_raw k xs)) = sum_list (map rr_value xs)" for k xs
    using sql_avg_weight [of "map rr_value xs"] by (cases k) (simp add: aggregate_raw_def)
  have "sum_list (map bk_count bs) = int (length rs)"
    using sum_list_groups [OF ks(1), of g rs "\<lambda>_. 1 :: int"] ks(2) by (simp add: counts one sum_list_triv)
  moreover have "sum_list (map (\<lambda>b. bk_avg b * of_int (bk_count b)) bs) = sum_list (map rr_value rs)"
    using sum_list_groups [OF ks(1), of g rs rr_value] ks(2) by (simp add: sums weight)
  moreover have lows: "bk_min ` set bs = (\<lambda>k. Min (rr_value ` set (?grp k))) ` set ks"
    and highs: "bk_max ` set bs = (\<lambda>k. Max (rr_value ` set (?grp k))) ` set ks"
    unfolding cs(2) cs_def by (auto simp: aggregate_raw_def image_image split: prod.split)
  have all: "(\<Union>k \<in> set ks. rr_value ` set (?grp k)) = rr_value ` set rs" and "set ks \<noteq> {}"
    using ks(2) assms(3) by auto
  have grp: "finite (rr_value ` set (?grp k)) \<and> rr_value ` set (?grp k) \<noteq> {}" if "k \<in> set ks" for k
    using that ks(2) by (auto simp: filter_empty_conv)
  have "Min (bk_min ` set bs) = Min (rr_value ` set rs)" "Max (bk_max ` set bs) = Max (rr_value ` set rs)"
    unfolding lows highs all [symmetric] using \<open>set ks \<noteq> {}\<close> grp by (intro Min_groups Max_groups; simp)+
  ultimately show ?thesis by (cases k) (simp add: aggregate_5min_def aggregate_raw_def sql_avg_def)
qed

lemma hour_rows:
  assumes "tables_ok t" and due: "fst (snd k) \<le> max_hourly_bucket now"
    and fresh: "\<forall>b \<in> set (mt_5min t). hour_bucket b = k \<longrightarrow>
      (\<exists>s \<in> set (mt_raw t). raw_bucket five_min_ms s = bucket_key b)"
  shows "set (filter (\<lambda>b. hour_bucket b = k) (mt_5min (roll_5min now t)))
    = (\<lambda>q. aggregate_raw q (filter (\<lambda>r. raw_bucket five_min_ms r = q) (filter (\<lambda>r. raw_bucket hour_ms r = k) (mt_raw t))))
        ` raw_bucket five_min_ms ` set (filter (\<lambda>r. raw_bucket hour_ms r = k) (mt_raw t))" (is "?L = ?agg ` ?Q")
proof -
  let ?t = "roll_5min now t"
  have ok: "has_pk bucket_key (mt_5min ?t)" using tables_ok_roll(1) [OF assms(1)] by (simp add: tables_ok_def)
  have Q: "q \<in> ?Q \<longleftrightarrow> hour_of q = k \<and> filter (\<lambda>r. raw_bucket five_min_ms r = q) (mt_raw t) \<noteq> []" for q
    by (auto simp: filter_empty_conv simp flip: hour_of_raw)
  have grp: "filter (\<lambda>r. raw_bucket five_min_ms r = q) (filter (\<lambda>r. raw_bucket hour_ms r = k) (mt_raw t))
      = filter (\<lambda>r. raw_bucket five_min_ms r = q) (mt_raw t)" if "hour_of q = k" for q
    using that by (auto intro!: filter_cong simp flip: hour_of_raw)
  have at: "row_5min ?t q = (if q \<in> ?Q then Some (?agg q) else None)" if "hour_of q = k" for q
  proof -
    obtain h ts c where q: "q = (h, ts, c)" by (cases q)
    have none: "row_5min t q = None" if "q \<notin> ?Q"
    proof (rule ccontr)
      assume "row_5min t q \<noteq> None"
      then obtain b where b: "b \<in> set (mt_5min t)" "bucket_key b = q" by (auto dest: row_at_Some)
      with fresh \<open>hour_of q = k\<close> obtain s where "s \<in> set (mt_raw t)" "raw_bucket five_min_ms s = q"
        by (auto simp: hour_bucket_of)
      then show False using that \<open>hour_of q = k\<close> Q [of q] by (auto simp: filter_empty_conv)
    qed
    have "fst (snd q) \<le> max_5min_bucket now" if "q \<in> ?Q"
    proof -
      from that obtain r where r: "q = raw_bucket five_min_ms r" by blast
      then have "k = raw_bucket hour_ms r" using \<open>hour_of q = k\<close> by simp
      then have "bucket_start hour_ms (rr_ts r) \<le> max_hourly_bucket now" using due by (simp add: raw_bucket_def)
      then show ?thesis using watermarks_agree r by (simp add: raw_bucket_def)
    qed
    then show ?thesis using none Q [of q] that grp [OF that] by (simp add: row_5min_roll Let_def)
  qed
  have "b \<in> ?L \<longleftrightarrow> hour_of (bucket_key b) = k \<and> row_5min ?t (bucket_key b) = Some b" for b
    using row_at_iff [OF ok, of "bucket_key b" b] by (auto simp: hour_bucket_of)
  moreover have "hour_of (bucket_key b) = k \<and> row_5min ?t (bucket_key b) = Some b \<longleftrightarrow> b \<in> ?agg ` ?Q" for b
  proof
    assume "hour_of (bucket_key b) = k \<and> row_5min ?t (bucket_key b) = Some b"
    then show "b \<in> ?agg ` ?Q" using at [of "bucket_key b"] by (auto split: if_splits simp del: set_filter)
  next
    assume "b \<in> ?agg ` ?Q"
    then obtain q where q: "q \<in> ?Q" "b = ?agg q" by blast
    then show "hour_of (bucket_key b) = k \<and> row_5min ?t (bucket_key b) = Some b"
      using at [of q] Q [of q] by simp
  qed
  ultimately show ?thesis by blast
qed

lemma hourly_from_raw:
  assumes "tables_ok t" and due: "fst (snd k) \<le> max_hourly_bucket now"
    and "\<forall>b \<in> set (mt_5min t). hour_bucket b = k \<longrightarrow>
      (\<exists>s \<in> set (mt_raw t). raw_bucket five_min_ms s = bucket_key b)"
    and some: "filter (\<lambda>r. raw_bucket hour_ms r = k) (mt_raw t) \<noteq> []"
  shows "row_hourly (roll_once now t) k = Some (aggregate_raw k (filter (\<lambda>r. raw_bucket hour_ms r = k) (mt_raw t)))"
proof -
  let ?bs = "filter (\<lambda>b. hour_bucket b = k) (mt_5min (roll_5min now t))"
  have "has_pk bucket_key ?bs" using tables_ok_roll(1) [OF assms(1)] by (simp add: tables_ok_def)
  from aggregate_of_aggregates [OF hour_rows [OF assms(1-3)] this some]
  have "aggregate_5min k ?bs = aggregate_raw k (filter (\<lambda>r. raw_bucket hour_ms r = k) (mt_raw t))" .
  moreover have "set ?bs \<noteq> {}" unfolding hour_rows [OF assms(1-3)] using some by (simp del: set_filter)
  then have "?bs \<noteq> []" by force
  ultimately show ?thesis using due by (simp add: roll_once_def row_hourly_roll Let_def)
qed

text \<open>
  C14: when an hour becomes due, one pass of the aggregator stores for every host and counter exactly
  the average, the minimum, the maximum and the number of the raw samples of that hour, although the
  hourly row is computed from the five-minute rows, weighted by their sample counts; provided no
  five-minute row of the hour has lost its raw samples.
\<close>

theorem hourly_is_raw_aggregate:
  assumes "tables_ok t" and "hr \<le> max_hourly_bucket now"
    and "\<forall>b \<in> set (mt_5min t). hour_bucket b = (host, hr, counter) \<longrightarrow>
      (\<exists>s \<in> set (mt_raw t). raw_bucket five_min_ms s = bucket_key b)"
    and "samples = filter (\<lambda>r. rr_host r = host \<and> rr_counter r = counter \<and> bucket_start hour_ms (rr_ts r) = hr) (mt_raw t)"
    and "samples \<noteq> []"
  shows "row_hourly (roll_once now t) (host, hr, counter) =
    Some \<lparr>bk_ts = hr, bk_host = host, bk_counter = counter, bk_avg = sql_avg (map rr_value samples),
      bk_min = Min (rr_value ` set samples), bk_max = Max (rr_value ` set samples), bk_count = int (length samples)\<rparr>"
proof -
  have "samples = filter (\<lambda>r. raw_bucket hour_ms r = (host, hr, counter)) (mt_raw t)"
    unfolding assms(4) by (rule filter_cong) (auto simp: raw_bucket_def)
  then show ?thesis using hourly_from_raw [of t "(host, hr, counter)" now] assms(1-3,5)
    by (simp add: aggregate_raw_def)
qed

definition sample_raw :: "int \<Rightarrow> rat \<Rightarrow> raw_row" where
  "sample_raw ts v = \<lparr>rr_ts = ts, rr_host = ''H'', rr_counter = ''cpu'', rr_value = v\<rparr>"

definition sample_tables :: metric_tables where
  "sample_tables = \<lparr>mt_raw = [sample_raw 0 10, sample_raw 60000 20, sample_raw 400000 60], mt_5min = [], mt_hourly = []\<rparr>"

lemma hourly_is_raw_aggregate_witness:
  "row_hourly (roll_once (2 * hour) sample_tables) (''H'', 0, ''cpu'')
     = Some \<lparr>bk_ts = 0, bk_host = ''H'', bk_counter = ''cpu'', bk_avg = 30, bk_min = 10, bk_max = 60, bk_count = 3\<rparr>"
proof -
  have "0 \<le> max_hourly_bucket (2 * hour)" by (simp add: max_bucket_value second_def minute_def hour_def)
  moreover have "tables_ok sample_tables"
    by (simp add: tables_ok_def has_pk_def sample_tables_def raw_key_def sample_raw_def)
  moreover have "filter (\<lambda>r. rr_host r = ''H'' \<and> rr_counter r = ''cpu'' \<and> bucket_start hour_ms (rr_ts r) = 0) (mt_raw sample_tables)
      = mt_raw sample_tables"
    by (simp add: sample_tables_def sample_raw_def bucket_start_def go_div_def)
  ultimately show ?thesis
    using hourly_is_raw_aggregate [of sample_tables 0 "2 * hour" "''H''" "''cpu''", OF _ _ _ refl]
    by (simp add: sample_tables_def sample_raw_def sql_avg_def)
qed

end
