(* ===== verification/WorkloadTiers.thy ===== *)
theory WorkloadTiers
  imports SqlTables SnapshotStore
begin

text \<open>
  The roll-up of the session workload rows (\<open>telemetry/session_workload.go\<close>): the rows of a host are
  decoded, merged into buckets of five minutes or an hour, their per-minute series laid side by side, and
  stored again; one undecodable row, or a series that does not fit, stops the pass before anything is
  written. The lemmas say what each stored bucket holds in terms of the rows it was made from.
\<close>

subsection \<open>Reading a row\<close>

text \<open>A row with its key; the columns are those of \<open>workload_row\<close>.\<close>

record tier_row =
  tw_bucket :: int
  tw_host :: string
  tw_row :: workload_row

definition tier_key :: "tier_row \<Rightarrow> string \<times> int" where
  "tier_key r = (tw_host r, tw_bucket r)"

record scanned_row =
  sx_bucket :: int
  sx_host :: string
  sx_agg :: workload_aggregate
  sx_observed :: "u64 list"
  sx_ge5 :: "u64 list"
  sx_ge20 :: "u64 list"

definition scan_workload_row :: "tier_row \<Rightarrow> scanned_row option" where
  "scan_workload_row r =
     (let w = tw_row r in
      case decode_cpu_histogram (ww_cpu_histogram w) of
        None \<Rightarrow> None
      | Some cpu \<Rightarrow>
     (case decode_memory_histogram (ww_mem_histogram w) of
        None \<Rightarrow> None
      | Some (zero, memory) \<Rightarrow>
          if zero \<noteq> ww_mem_zero w then None
          else
     (case (decode_count_series (ww_observed_series w), decode_count_series (ww_ge5_series w),
            decode_count_series (ww_ge20_series w)) of
        (Some observed, Some ge5, Some ge20) \<Rightarrow>
          if length observed \<noteq> length ge5 \<or> length ge5 \<noteq> length ge20 then None
          else Some \<lparr>sx_bucket = tw_bucket r, sx_host = tw_host r,
                     sx_agg = \<lparr>wa_base = ww_base w, wa_empty = ww_empty w, wa_error = ww_error w,
                       wa_cpu_sum = ww_cpu_sum w, wa_cpu_count = ww_cpu_count w, wa_cpu_hist = cpu,
                       wa_ge5 = ww_ge5 w, wa_ge20 = ww_ge20 w, wa_mem_sum = ww_mem_sum w,
                       wa_mem_count = ww_mem_count w, wa_mem_zero = ww_mem_zero w, wa_mem_hist = memory\<rparr>,
                     sx_observed = observed, sx_ge5 = ge5, sx_ge20 = ge20\<rparr>
      | _ \<Rightarrow> None)))"

subsection \<open>Merging rows into buckets\<close>

record rolled =
  rl_agg :: workload_aggregate
  rl_observed :: "u64 list"
  rl_ge5 :: "u64 list"
  rl_ge20 :: "u64 list"

definition series_length :: "int \<Rightarrow> nat" where
  "series_length w = nat (go_div w 60000)"

definition empty_rolled :: "int \<Rightarrow> rolled" where
  "empty_rolled w = \<lparr>rl_agg = zero_aggregate, rl_observed = replicate (series_length w) 0,
     rl_ge5 = replicate (series_length w) 0, rl_ge20 = replicate (series_length w) 0\<rparr>"

text \<open>\<open>for i := range values { acc[offset+i] += values[i] }\<close>.\<close>

definition add_at :: "nat \<Rightarrow> u64 list \<Rightarrow> u64 list \<Rightarrow> u64 list" where
  "add_at offset vs acc = fold (\<lambda>i xs. xs[offset + i := xs ! (offset + i) + vs ! i]) [0 ..< length vs] acc"

definition roll_row :: "float_ops \<Rightarrow> int \<Rightarrow> scanned_row \<Rightarrow> rolled \<Rightarrow> rolled option" where
  "roll_row fo start r g =
     (let offset = go_div (sx_bucket r - start) 60000 in
      if offset < 0 \<or> offset + int (length (sx_observed r)) > int (length (rl_observed g)) then None
      else (let at0 = nat offset in
            Some \<lparr>rl_agg = merge_workload fo (rl_agg g) (sx_agg r), rl_observed = add_at at0 (sx_observed r) (rl_observed g),
                  rl_ge5 = add_at at0 (sx_ge5 r) (rl_ge5 g), rl_ge20 = add_at at0 (sx_ge20 r) (rl_ge20 g)\<rparr>))"

definition roll_key :: "int \<Rightarrow> tier_row \<Rightarrow> string \<times> int" where
  "roll_key w r = (tw_host r, bucket_start w (tw_bucket r))"

datatype rollup_error = UndecodableRow | SeriesOverflow

text \<open>The loop over the rows, with the map of the groups so far.\<close>

fun roll_groups ::
  "float_ops \<Rightarrow> int \<Rightarrow> tier_row list \<Rightarrow> ((string \<times> int) \<times> rolled) list \<Rightarrow>
     rollup_error + ((string \<times> int) \<times> rolled) list" where
  "roll_groups fo w [] gs = Inr gs"
| "roll_groups fo w (r # rs) gs =
     (case scan_workload_row r of
        None \<Rightarrow> Inl UndecodableRow
      | Some x \<Rightarrow>
          (let k = roll_key w r; g = (case map_of gs k of None \<Rightarrow> empty_rolled w | Some g \<Rightarrow> g)
           in case roll_row fo (snd k) x g of
                None \<Rightarrow> Inl SeriesOverflow
              | Some g' \<Rightarrow> roll_groups fo w rs (AList.update k g' gs)))"

definition tier_row_of :: "(string \<times> int) \<times> rolled \<Rightarrow> tier_row" where
  "tier_row_of g = \<lparr>tw_bucket = snd (fst g), tw_host = fst (fst g),
     tw_row = workload_row_of (rl_agg (snd g)) (rl_observed (snd g)) (rl_ge5 (snd g)) (rl_ge20 (snd g))\<rparr>"

text \<open>\<open>w\<close> is the width of the target in milliseconds and \<open>max_bucket\<close> the newest bucket that is due.\<close>

definition roll_session_workload ::
  "float_ops \<Rightarrow> int \<Rightarrow> int \<Rightarrow> tier_row list \<Rightarrow> tier_row list \<Rightarrow> rollup_error + tier_row list" where
  "roll_session_workload fo w max_bucket source target =
     (let due = sort_key tier_key (filter (\<lambda>r. bucket_start w (tw_bucket r) \<le> max_bucket) source)
      in case roll_groups fo w due [] of
           Inl e \<Rightarrow> Inl e
         | Inr gs \<Rightarrow> Inr (fold (upsert tier_key) (map tier_row_of gs) target))"

subsection \<open>What a bucket holds\<close>

lemma length_add_at [simp]: "length (add_at offset vs acc) = length acc"
proof -
  have "length (fold (\<lambda>i xs. xs[offset + i := xs ! (offset + i) + vs ! i]) js acc) = length acc" for js
    by (induction js arbitrary: acc) simp_all
  then show ?thesis by (simp add: add_at_def)
qed

lemma nth_add_at:
  assumes "offset + length vs \<le> length acc" and "j < length acc"
  shows "add_at offset vs acc ! j = acc ! j + (if offset \<le> j \<and> j < offset + length vs then vs ! (j - offset) else 0)"
proof -
  have "n \<le> length vs \<Longrightarrow> length (fold (\<lambda>i xs. xs[offset + i := xs ! (offset + i) + vs ! i]) [0 ..< n] acc) = length acc
    \<and> fold (\<lambda>i xs. xs[offset + i := xs ! (offset + i) + vs ! i]) [0 ..< n] acc ! j
      = acc ! j + (if offset \<le> j \<and> j < offset + n then vs ! (j - offset) else 0)" for n
  proof (induction n)
    case (Suc n)
    then show ?case using assms by (auto simp: nth_list_update)
  qed auto
  then show ?thesis by (simp add: add_at_def)
qed

text \<open>The groups of one key depend on the rows of that key alone.\<close>

fun roll_all :: "float_ops \<Rightarrow> int \<Rightarrow> tier_row list \<Rightarrow> rolled \<Rightarrow> rolled option" where
  "roll_all fo start [] g = Some g"
| "roll_all fo start (r # rs) g =
     (case scan_workload_row r of None \<Rightarrow> None
      | Some x \<Rightarrow> (case roll_row fo start x g of None \<Rightarrow> None | Some g' \<Rightarrow> roll_all fo start rs g'))"

lemma roll_groups_key:
  assumes "roll_groups fo w rows gs = Inr gs'"
  shows "(let mine = filter (\<lambda>r. roll_key w r = k) rows in
    if mine = [] then map_of gs' k = map_of gs k
    else \<exists>g. roll_all fo (snd k) mine (case map_of gs k of None \<Rightarrow> empty_rolled w | Some g \<Rightarrow> g) = Some g \<and> map_of gs' k = Some g)"
  using assms
proof (induction rows arbitrary: gs)
  case (Cons r rows)
  obtain x g' where x: "scan_workload_row r = Some x"
    and g': "roll_row fo (snd (roll_key w r)) x (case map_of gs (roll_key w r) of None \<Rightarrow> empty_rolled w | Some g \<Rightarrow> g) = Some g'"
    and rest: "roll_groups fo w rows (AList.update (roll_key w r) g' gs) = Inr gs'"
    using Cons.prems by (auto simp: Let_def split: option.splits)
  note ih = Cons.IH [OF rest]
  show ?case
  proof (cases "roll_key w r = k")
    case True
    then show ?thesis using ih x g' by (auto simp: Let_def update_conv split: if_splits)
  next
    case False
    then show ?thesis using ih by (simp add: Let_def update_conv split: if_splits)
  qed
qed simp

lemma distinct_roll_groups:
  "roll_groups fo w rows gs = Inr gs' \<Longrightarrow> distinct (map fst gs) \<Longrightarrow> distinct (map fst gs')"
proof (induction rows arbitrary: gs)
  case (Cons r rows)
  then show ?case by (auto simp: Let_def distinct_update split: option.splits)
qed simp

text \<open>What a row adds to minute \<open>j\<close> of a series of its bucket.\<close>

definition minute_share :: "(workload_row \<Rightarrow> string) \<Rightarrow> int \<Rightarrow> nat \<Rightarrow> tier_row \<Rightarrow> u64" where
  "minute_share sel start j r =
     (case decode_count_series (sel (tw_row r)) of
        None \<Rightarrow> 0
      | Some vs \<Rightarrow>
          (let offset = nat (go_div (tw_bucket r - start) 60000)
           in if offset \<le> j \<and> j < offset + length vs then vs ! (j - offset) else 0))"

definition series_aligned :: "nat \<Rightarrow> rolled \<Rightarrow> bool" where
  "series_aligned n g \<longleftrightarrow> length (rl_observed g) = n \<and> length (rl_ge5 g) = n \<and> length (rl_ge20 g) = n"

lemma scan_facts:
  assumes "scan_workload_row r = Some x"
  shows "wa_base (sx_agg x) = ww_base (tw_row r)" "wa_empty (sx_agg x) = ww_empty (tw_row r)"
    "wa_error (sx_agg x) = ww_error (tw_row r)" "wa_cpu_count (sx_agg x) = ww_cpu_count (tw_row r)"
    "wa_ge5 (sx_agg x) = ww_ge5 (tw_row r)" "wa_ge20 (sx_agg x) = ww_ge20 (tw_row r)"
    "wa_mem_count (sx_agg x) = ww_mem_count (tw_row r)" "wa_mem_zero (sx_agg x) = ww_mem_zero (tw_row r)"
    "sx_bucket x = tw_bucket r"
    "decode_count_series (ww_observed_series (tw_row r)) = Some (sx_observed x)"
    "decode_count_series (ww_ge5_series (tw_row r)) = Some (sx_ge5 x)"
    "decode_count_series (ww_ge20_series (tw_row r)) = Some (sx_ge20 x)"
    "length (sx_ge5 x) = length (sx_observed x)" "length (sx_ge20 x) = length (sx_observed x)"
  using assms by (auto simp: scan_workload_row_def Let_def split: option.splits prod.splits if_splits)

lemma roll_row_facts:
  assumes "scan_workload_row r = Some x" and "roll_row fo start x g = Some g'" and "series_aligned n g" and "j < n"
  shows "series_aligned n g'" "rl_agg g' = merge_workload fo (rl_agg g) (sx_agg x)"
    "rl_observed g' ! j = rl_observed g ! j + minute_share ww_observed_series start j r"
    "rl_ge5 g' ! j = rl_ge5 g ! j + minute_share ww_ge5_series start j r"
    "rl_ge20 g' ! j = rl_ge20 g ! j + minute_share ww_ge20_series start j r"
  using assms(2-4) scan_facts [OF assms(1)]
  by (auto simp: roll_row_def Let_def series_aligned_def nth_add_at minute_share_def split: if_splits)

text \<open>What a row adds to bin \<open>j\<close> of the CPU histogram of its bucket.\<close>

definition bin_share :: "nat \<Rightarrow> tier_row \<Rightarrow> u64" where
  "bin_share j r = (case decode_cpu_histogram (ww_cpu_histogram (tw_row r)) of None \<Rightarrow> 0 | Some h \<Rightarrow> h ! j)"

abbreviation row_total :: "(workload_row \<Rightarrow> u64) \<Rightarrow> tier_row list \<Rightarrow> u64" where
  "row_total f rows \<equiv> sum_list (map (\<lambda>r. f (tw_row r)) rows)"

lemma merge_facts:
  assumes "scan_workload_row r = Some x" and "a' = merge_workload fo a (sx_agg x)"
  shows "wa_base a' = wa_base a + ww_base (tw_row r)" "wa_empty a' = wa_empty a + ww_empty (tw_row r)"
    "wa_error a' = wa_error a + ww_error (tw_row r)" "wa_cpu_count a' = wa_cpu_count a + ww_cpu_count (tw_row r)"
    "wa_ge5 a' = wa_ge5 a + ww_ge5 (tw_row r)" "wa_ge20 a' = wa_ge20 a + ww_ge20 (tw_row r)"
    "wa_mem_count a' = wa_mem_count a + ww_mem_count (tw_row r)" "wa_mem_zero a' = wa_mem_zero a + ww_mem_zero (tw_row r)"
    "length (wa_cpu_hist a) = cpu_bins \<Longrightarrow> length (wa_cpu_hist a') = cpu_bins"
    "length (wa_cpu_hist a) = cpu_bins \<Longrightarrow> j < cpu_bins \<Longrightarrow> wa_cpu_hist a' ! j = wa_cpu_hist a ! j + bin_share j r"
proof -
  have h: "decode_cpu_histogram (ww_cpu_histogram (tw_row r)) = Some (wa_cpu_hist (sx_agg x))"
    using assms(1) by (auto simp: scan_workload_row_def Let_def split: option.splits prod.splits if_splits)
  then have len: "length (wa_cpu_hist (sx_agg x)) = cpu_bins" by (rule cpu_histogram.dec_ok)
  show "length (wa_cpu_hist a) = cpu_bins \<Longrightarrow> length (wa_cpu_hist a') = cpu_bins"
    and "length (wa_cpu_hist a) = cpu_bins \<Longrightarrow> j < cpu_bins \<Longrightarrow> wa_cpu_hist a' ! j = wa_cpu_hist a ! j + bin_share j r"
    using len by (simp_all add: assms(2) merge_workload_def bin_share_def h)
qed (use assms scan_facts [OF assms(1)] in \<open>simp_all add: merge_workload_def\<close>)

lemma roll_row_agg: "roll_row fo start x g = Some g' \<Longrightarrow> rl_agg g' = merge_workload fo (rl_agg g) (sx_agg x)"
  by (auto simp: roll_row_def Let_def split: if_splits)

lemma roll_all_totals:
  assumes "roll_all fo start rows g = Some g'"
  shows "wa_base (rl_agg g') = wa_base (rl_agg g) + row_total ww_base rows
    \<and> wa_empty (rl_agg g') = wa_empty (rl_agg g) + row_total ww_empty rows
    \<and> wa_error (rl_agg g') = wa_error (rl_agg g) + row_total ww_error rows
    \<and> wa_cpu_count (rl_agg g') = wa_cpu_count (rl_agg g) + row_total ww_cpu_count rows
    \<and> wa_ge5 (rl_agg g') = wa_ge5 (rl_agg g) + row_total ww_ge5 rows
    \<and> wa_ge20 (rl_agg g') = wa_ge20 (rl_agg g) + row_total ww_ge20 rows
    \<and> wa_mem_count (rl_agg g') = wa_mem_count (rl_agg g) + row_total ww_mem_count rows
    \<and> wa_mem_zero (rl_agg g') = wa_mem_zero (rl_agg g) + row_total ww_mem_zero rows"
  using assms
proof (induction rows arbitrary: g)
  case (Cons r rows)
  obtain x h where x: "scan_workload_row r = Some x" and h: "roll_row fo start x g = Some h"
    and rest: "roll_all fo start rows h = Some g'"
    using Cons.prems by (auto split: option.splits)
  note facts = merge_facts [OF x roll_row_agg [OF h]]
  show ?case using Cons.IH [OF rest] unfolding facts(1-8) by simp
qed simp

lemma roll_all_bins:
  assumes "roll_all fo start rows g = Some g'" and "length (wa_cpu_hist (rl_agg g)) = cpu_bins"
  shows "length (wa_cpu_hist (rl_agg g')) = cpu_bins \<and> (\<forall>j < cpu_bins.
    wa_cpu_hist (rl_agg g') ! j = wa_cpu_hist (rl_agg g) ! j + sum_list (map (bin_share j) rows))"
  using assms
proof (induction rows arbitrary: g)
  case (Cons r rows)
  obtain x h where x: "scan_workload_row r = Some x" and h: "roll_row fo start x g = Some h"
    and rest: "roll_all fo start rows h = Some g'"
    using Cons.prems by (auto split: option.splits)
  note facts = merge_facts(9,10) [OF x roll_row_agg [OF h] Cons.prems(2)]
  show ?case using Cons.IH [OF rest facts(1)] facts(2) by (simp add: add.assoc)
qed simp

lemma roll_all_facts:
  assumes "roll_all fo start rows g = Some g'" and "series_aligned n g" and "j < n"
  shows "series_aligned n g'
    \<and> rl_observed g' ! j = rl_observed g ! j + sum_list (map (minute_share ww_observed_series start j) rows)
    \<and> rl_ge5 g' ! j = rl_ge5 g ! j + sum_list (map (minute_share ww_ge5_series start j) rows)
    \<and> rl_ge20 g' ! j = rl_ge20 g ! j + sum_list (map (minute_share ww_ge20_series start j) rows)"
  using assms
proof (induction rows arbitrary: g)
  case (Cons r rows)
  obtain x h where x: "scan_workload_row r = Some x" and h: "roll_row fo start x g = Some h"
    and rest: "roll_all fo start rows h = Some g'"
    using Cons.prems(1) by (auto split: option.splits)
  note facts = roll_row_facts [OF x h Cons.prems(2,3)]
  show ?case using Cons.IH [OF rest facts(1) Cons.prems(3)] facts by (simp add: add.assoc)
qed simp

lemma sum_list_sorted: "sum_list (map f (sort_key k xs)) = (sum_list (map f xs) :: 'a::comm_monoid_add)"
  by (metis mset_map mset_sort sum_mset_sum_list)

lemma tier_row_at:
  assumes "distinct (map fst gs)"
  shows "row_at tier_key k (map tier_row_of gs) = map_option (\<lambda>g. tier_row_of (k, g)) (map_of gs k)"
    and "has_pk tier_key (map tier_row_of gs)"
proof -
  have key: "tier_key (tier_row_of g) = fst g" for g by (simp add: tier_key_def tier_row_of_def)
  show "row_at tier_key k (map tier_row_of gs) = map_option (\<lambda>g. tier_row_of (k, g)) (map_of gs k)"
    by (induction gs) (auto simp: key)
  show "has_pk tier_key (map tier_row_of gs)" using assms by (simp add: has_pk_def comp_def key)
qed

lemma rolled_bucket:
  assumes run: "roll_session_workload fo w max_bucket source target = Inr target'"
    and rows: "rows = filter (\<lambda>r. roll_key w r = k) source" "rows \<noteq> []" and due: "snd k \<le> max_bucket"
  obtains g where "roll_all fo (snd k) (sort_key tier_key rows) (empty_rolled w) = Some g"
    "row_at tier_key k target' = Some (tier_row_of (k, g))"
proof -
  let ?due = "filter (\<lambda>r. bucket_start w (tw_bucket r) \<le> max_bucket) source"
  obtain gs where gs: "roll_groups fo w (sort_key tier_key ?due) [] = Inr gs"
    "target' = fold (upsert tier_key) (map tier_row_of gs) target"
    using run by (auto simp: roll_session_workload_def Let_def split: sum.splits)
  have "filter (\<lambda>r. roll_key w r = k) ?due = rows"
    using due by (auto simp: rows(1) roll_key_def intro!: filter_cong)
  then have mine: "filter (\<lambda>r. roll_key w r = k) (sort_key tier_key ?due) = sort_key tier_key rows"
    by (simp add: filter_sort)
  have "sort_key tier_key rows \<noteq> []" using rows(2) by (metis length_0_conv length_sort)
  then obtain g where g: "roll_all fo (snd k) (sort_key tier_key rows) (empty_rolled w) = Some g" "map_of gs k = Some g"
    using roll_groups_key [OF gs(1), of k] by (auto simp: mine)
  have "distinct (map fst gs)" using distinct_roll_groups [OF gs(1)] by simp
  then have "row_at tier_key k target' = Some (tier_row_of (k, g))"
    using g(2) by (simp add: gs(2) row_at_fold_upsert tier_row_at)
  with g(1) show ?thesis by (rule that)
qed

text \<open>
  C30: when the roll-up of the session workload succeeds, every due bucket that has source rows is stored
  with their totals (samples, empty and failed ones, sessions with a CPU value, with a memory value,
  with a memory value of zero, above 5 and above 20 percent), a CPU histogram that is their sum bin by bin and, for each minute
  of the bucket, the counts of the rows that cover the minute; the histogram and the three series decode
  again, the series to one count per minute. Counts are 64-bit; the two floating-point sums and the memory
  histogram are merged as in \<open>merge_workload\<close> and not stated here.
\<close>

theorem workload_rollup_exact:
  assumes "roll_session_workload fo w max_bucket source target = Inr target'"
    and "rows = filter (\<lambda>r. tw_host r = host \<and> bucket_start w (tw_bucket r) = b) source" and "rows \<noteq> []"
    and "b \<le> max_bucket" and "w \<in> {300000, 3600000}"
  shows "\<exists>row hist observed ge5 ge20. row_at tier_key (host, b) target' = Some row
    \<and> ww_base (tw_row row) = sum_list (map (\<lambda>r. ww_base (tw_row r)) rows)
    \<and> ww_cpu_count (tw_row row) = sum_list (map (\<lambda>r. ww_cpu_count (tw_row r)) rows)
    \<and> ww_mem_count (tw_row row) = sum_list (map (\<lambda>r. ww_mem_count (tw_row r)) rows)
    \<and> ww_ge20 (tw_row row) = sum_list (map (\<lambda>r. ww_ge20 (tw_row r)) rows)
    \<and> ww_ge5 (tw_row row) = sum_list (map (\<lambda>r. ww_ge5 (tw_row r)) rows)
    \<and> ww_empty (tw_row row) = sum_list (map (\<lambda>r. ww_empty (tw_row r)) rows)
    \<and> ww_error (tw_row row) = sum_list (map (\<lambda>r. ww_error (tw_row r)) rows)
    \<and> ww_mem_zero (tw_row row) = sum_list (map (\<lambda>r. ww_mem_zero (tw_row r)) rows)
    \<and> decode_cpu_histogram (ww_cpu_histogram (tw_row row)) = Some hist
    \<and> (\<forall>j < cpu_bins. hist ! j = sum_list (map (bin_share j) rows))
    \<and> decode_count_series (ww_observed_series (tw_row row)) = Some observed
    \<and> decode_count_series (ww_ge5_series (tw_row row)) = Some ge5
    \<and> decode_count_series (ww_ge20_series (tw_row row)) = Some ge20
    \<and> length observed = series_length w \<and> length ge5 = series_length w \<and> length ge20 = series_length w
    \<and> (\<forall>j < series_length w. observed ! j = sum_list (map (minute_share ww_observed_series b j) rows)
        \<and> ge5 ! j = sum_list (map (minute_share ww_ge5_series b j) rows)
        \<and> ge20 ! j = sum_list (map (minute_share ww_ge20_series b j) rows))"
proof -
  have rows: "rows = filter (\<lambda>r. roll_key w r = (host, b)) source"
    unfolding assms(2) by (rule filter_cong) (auto simp: roll_key_def)
  obtain g where g: "roll_all fo b (sort_key tier_key rows) (empty_rolled w) = Some g"
    "row_at tier_key (host, b) target' = Some (tier_row_of ((host, b), g))"
    using rolled_bucket [OF assms(1) rows assms(3)] assms(4) by auto
  have n: "0 < series_length w" "series_length w \<le> 60" using assms(5) by (auto simp: series_length_def go_div_def)
  have start: "series_aligned (series_length w) (empty_rolled w)" by (simp add: series_aligned_def empty_rolled_def)
  note facts = roll_all_facts [OF g(1) start] and totals = roll_all_totals [OF g(1)]
  have len: "length (rl_observed g) = series_length w" "length (rl_ge5 g) = series_length w" "length (rl_ge20 g) = series_length w"
    using facts [OF n(1)] by (simp_all add: series_aligned_def)
  have bins: "length (wa_cpu_hist (rl_agg g)) = cpu_bins"
    "\<forall>j < cpu_bins. wa_cpu_hist (rl_agg g) ! j = sum_list (map (bin_share j) rows)"
    using roll_all_bins [OF g(1)] by (simp_all add: empty_rolled_def zero_aggregate_def sum_list_sorted)
  have codec: "decode_count_series (encode_count_series vs) = Some vs" if "length vs = series_length w" for vs
    using that n(2) by (simp add: count_series.dec_enc)
  show ?thesis
    using facts totals len bins codec [OF len(1)] codec [OF len(2)] codec [OF len(3)] cpu_histogram.dec_enc [OF bins(1)]
    by (intro exI [of _ "tier_row_of ((host, b), g)"] exI [of _ "wa_cpu_hist (rl_agg g)"] exI [of _ "rl_observed g"]
        exI [of _ "rl_ge5 g"] exI [of _ "rl_ge20 g"])
      (simp add: g(2) tier_row_of_def workload_row_of_def sum_list_sorted empty_rolled_def zero_aggregate_def)
qed

subsection \<open>A witness\<close>

definition sample_tier_row :: tier_row where
  "sample_tier_row = \<lparr>tw_bucket = 60000, tw_host = ''H'',
     tw_row = workload_row_of (zero_aggregate\<lparr>wa_base := 1\<rparr>) [3] [2] [1]\<rparr>"

lemma empty_memory_histogram: "decode_memory_histogram (encode_memory_histogram 0 []) = Some (0, [])"
  using uvarint_put [of 0 "[]"] by (simp add: decode_memory_histogram_def encode_memory_histogram_def sorted_bins_def)

lemma sample_scan: "scan_workload_row sample_tier_row =
  Some \<lparr>sx_bucket = 60000, sx_host = ''H'', sx_agg = zero_aggregate\<lparr>wa_base := 1\<rparr>,
    sx_observed = [3], sx_ge5 = [2], sx_ge20 = [1]\<rparr>"
  by (simp add: scan_workload_row_def sample_tier_row_def workload_row_of_def zero_aggregate_def
      count_series.dec_enc cpu_histogram.dec_enc empty_memory_histogram)

lemma workload_rollup_exact_witness:
  "\<exists>target' row. roll_session_workload example_float_ops 300000 0 [sample_tier_row] [] = Inr target'
    \<and> row_at tier_key (''H'', 0) target' = Some row \<and> ww_base (tw_row row) = 1"
proof -
  have key: "tw_host sample_tier_row = ''H''" "bucket_start 300000 (tw_bucket sample_tier_row) = 0"
    by (simp_all add: sample_tier_row_def bucket_start_def go_div_def)
  have "\<exists>g. roll_row example_float_ops 0 (the (scan_workload_row sample_tier_row)) (empty_rolled 300000) = Some g"
    by (simp add: sample_scan roll_row_def Let_def go_div_def empty_rolled_def series_length_def)
  then obtain target' where run: "roll_session_workload example_float_ops 300000 0 [sample_tier_row] [] = Inr target'"
    by (auto simp: roll_session_workload_def key roll_key_def sample_scan Let_def)
  have "filter (\<lambda>r. tw_host r = ''H'' \<and> bucket_start 300000 (tw_bucket r) = 0) [sample_tier_row] = [sample_tier_row]"
    by (simp add: key)
  from workload_rollup_exact [OF run this [symmetric]]
  obtain row where "row_at tier_key (''H'', 0) target' = Some row" "ww_base (tw_row row) = ww_base (tw_row sample_tier_row)"
    by auto
  then show ?thesis using run by (auto simp: sample_tier_row_def workload_row_of_def zero_aggregate_def)
qed

end
