(* ===== verification/MaintenanceJobs.thy ===== *)
theory MaintenanceJobs
  imports SqlTables
begin

text \<open>
  \<open>telemetry/maintenance.go\<close>: the last run of every background job, one row for each name. The
  aggregator, the retention pass and the start-up reconciliation record their outcomes here.
\<close>

record job_result =
  jr_started :: instant
  jr_finished :: instant
  jr_outcome :: string
  jr_reason :: string
  jr_rows :: int

record job_row =
  jb_name :: string
  jb_started :: int
  jb_finished :: int
  jb_duration :: int
  jb_outcome :: string
  jb_reason :: string
  jb_rows :: int

definition upsert_job :: "string \<Rightarrow> job_result \<Rightarrow> job_row list \<Rightarrow> job_row list" where
  "upsert_job name run jobs =
     (let start_ms = unix_milli (jr_started run); finish_ms = unix_milli (jr_finished run);
          dur_ms = finish_ms - start_ms; dur_ms = (if dur_ms < 0 then 0 else dur_ms)
      in upsert jb_name \<lparr>jb_name = name, jb_started = start_ms, jb_finished = finish_ms, jb_duration = dur_ms,
           jb_outcome = jr_outcome run, jb_reason = jr_reason run, jb_rows = jr_rows run\<rparr> jobs)"

definition list_jobs :: "job_row list \<Rightarrow> job_row list" where
  "list_jobs jobs = sort_key jb_name jobs"

text \<open>\<open>Job.Finished\<close> is read back from its milliseconds.\<close>

definition is_overdue :: "int \<Rightarrow> instant \<Rightarrow> job_row \<Rightarrow> bool" where
  "is_overdue interval now j \<longleftrightarrow> interval > 0 \<and> now - jb_finished j * 1000000 > 2 * interval * second"

lemma job_at_upsert [simp]:
  "row_at jb_name n (upsert_job name run jobs) =
    (if name = n then row_at jb_name n (upsert_job name run []) else row_at jb_name n jobs)"
  by (simp add: upsert_job_def Let_def)

lemma has_pk_upsert_job [simp]: "has_pk jb_name jobs \<Longrightarrow> has_pk jb_name (upsert_job name run jobs)"
  by (simp add: upsert_job_def Let_def)

end
