(* ===== verification/AuditTrail.thy ===== *)
theory AuditTrail
  imports MaintenanceJobs DrainCheck Updater ActionRequests
begin

text \<open>
  The stored audit trail: \<open>telemetry/audit.go\<close> (append, the paged query, the latest row of each host),
  \<open>telemetry/reconcile.go\<close> (the row written at start-up for a change that happened while the service
  was down), the query behind \<open>drainctl history\<close> (\<open>history.go\<close>) and the handler
  \<open>dashboard/handlers_audit.go\<close>. The JSON and base64 forms of the cursors, the time parser and SHA-256
  are arguments. The lemmas show that following the cursors yields every matching row exactly once, that
  the trail is append-only, and that reconciliation leaves the trail in step with the registry.
\<close>

subsection \<open>The table\<close>

record audit_record =
  ad_ts :: instant
  ad_host :: string
  ad_prev :: int
  ad_new :: int
  ad_principal :: string
  ad_changed_by :: string
  ad_reason :: string
  ad_key_modified :: "instant option"
  ad_reconciliation :: bool
  ad_before :: "instant option"

text \<open>A row has the same columns with times in milliseconds; its key is \<open>(ts, host, new_state)\<close>.\<close>

type_synonym stored_audit = audit_record
type_synonym audit_key = "int \<times> string \<times> int"

definition stored_of :: "audit_record \<Rightarrow> stored_audit" where
  "stored_of r = r\<lparr>ad_ts := unix_milli (ad_ts r), ad_key_modified := map_option unix_milli (ad_key_modified r),
     ad_before := map_option unix_milli (ad_before r)\<rparr>"

definition of_stored :: "stored_audit \<Rightarrow> audit_record" where
  "of_stored r = r\<lparr>ad_ts := ad_ts r * 1000000, ad_key_modified := map_option (\<lambda>t. t * 1000000) (ad_key_modified r),
     ad_before := map_option (\<lambda>t. t * 1000000) (ad_before r)\<rparr>"

definition audit_key :: "stored_audit \<Rightarrow> audit_key" where
  "audit_key r = (ad_ts r, ad_host r, ad_new r)"

datatype audit_error = AuditReadOnly | InvalidCursor

definition audit_append :: "bool \<Rightarrow> audit_record \<Rightarrow> stored_audit list \<Rightarrow> audit_error + stored_audit list" where
  "audit_append writable r table =
     (if \<not> writable then Inl AuditReadOnly else Inr (insert_new audit_key (stored_of r) table))"

subsection \<open>The paged query\<close>

record audit_filter =
  af_from :: "instant option"
  af_to :: "instant option"
  af_host :: string
  af_actor :: string
  af_limit :: int
  af_cursor :: string
  af_changes_only :: bool

definition audit_matches :: "audit_filter \<Rightarrow> stored_audit \<Rightarrow> bool" where
  "audit_matches f r \<longleftrightarrow>
     (case af_from f of None \<Rightarrow> True | Some t \<Rightarrow> ad_ts r \<ge> unix_milli t)
     \<and> (case af_to f of None \<Rightarrow> True | Some t \<Rightarrow> ad_ts r < unix_milli t)
     \<and> (af_host f \<noteq> [] \<longrightarrow> ad_host r = af_host f)
     \<and> (af_actor f \<noteq> [] \<longrightarrow> ad_changed_by r = af_actor f)
     \<and> (af_changes_only f \<longrightarrow> ad_prev r \<noteq> ad_new r)"

definition newest_first :: "stored_audit list \<Rightarrow> stored_audit list" where
  "newest_first rows = rev (sort_key audit_key rows)"

text \<open>
  One row more than the page is fetched, so that the last page has no cursor. \<open>enc\<close> and \<open>dec\<close> are the
  base64 and JSON form of a cursor.
\<close>

definition audit_page :: "(audit_key \<Rightarrow> string) \<Rightarrow> int \<Rightarrow> stored_audit list \<Rightarrow> audit_record list \<times> string" where
  "audit_page enc limit rows =
     (if limit > 0 then
        (let fetched = take (nat limit + 1) rows in
         if int (length fetched) > limit
         then (let kept = take (nat limit) fetched in (map of_stored kept, enc (audit_key (last kept))))
         else (map of_stored fetched, []))
      else (map of_stored rows, []))"

definition after_cursor :: "(string \<Rightarrow> audit_key option) \<Rightarrow> string \<Rightarrow> stored_audit list \<Rightarrow> stored_audit list option" where
  "after_cursor dec cursor rows =
     (if cursor = [] then Some rows
      else (case dec cursor of None \<Rightarrow> None | Some c \<Rightarrow> Some (filter (\<lambda>r. audit_key r < c) rows)))"

definition audit_query_range ::
  "(audit_key \<Rightarrow> string) \<Rightarrow> (string \<Rightarrow> audit_key option) \<Rightarrow> audit_filter \<Rightarrow> stored_audit list \<Rightarrow>
     audit_error + audit_record list \<times> string" where
  "audit_query_range enc dec f table =
     (let limit = (if af_limit f > 5000 then 5000 else af_limit f)
      in case after_cursor dec (af_cursor f) (newest_first (filter (audit_matches f) table)) of
           None \<Rightarrow> Inl InvalidCursor
         | Some rows \<Rightarrow> Inr (audit_page enc limit rows))"

text \<open>A client that follows the cursors, with the page size \<open>psize i\<close> at step \<open>i\<close>, for at most \<open>n\<close> pages.\<close>

fun audit_walk ::
  "(audit_key \<Rightarrow> string) \<Rightarrow> (string \<Rightarrow> audit_key option) \<Rightarrow> (nat \<Rightarrow> int) \<Rightarrow> nat \<Rightarrow> nat \<Rightarrow> audit_filter \<Rightarrow>
     stored_audit list \<Rightarrow> audit_record list option" where
  "audit_walk enc dec psize i 0 f table = None"
| "audit_walk enc dec psize i (Suc n) f table =
     (case audit_query_range enc dec (f\<lparr>af_limit := psize i\<rparr>) table of
        Inl e \<Rightarrow> None
      | Inr (rows, nxt) \<Rightarrow>
          if nxt = [] then Some rows
          else map_option ((@) rows) (audit_walk enc dec psize (Suc i) n (f\<lparr>af_cursor := nxt\<rparr>) table))"

subsection \<open>The latest row of each host\<close>

definition latest_by_host :: "stored_audit list \<Rightarrow> string \<Rightarrow> audit_record option" where
  "latest_by_host table host =
     (case newest_first (filter (\<lambda>r. ad_host r = host) table) of [] \<Rightarrow> None | r # rs \<Rightarrow> Some (of_stored r))"

subsection \<open>Reconciliation at start-up\<close>

record drain_probe =
  dp_host :: string
  dp_mode :: int
  dp_modified :: "instant option"

definition drift_reason :: "int \<Rightarrow> int \<Rightarrow> string" where
  "drift_reason last_known observed =
     ''service-downtime drift: last-known '' @ format_int last_known @ '', observed '' @ format_int observed"

definition drift_row :: "drain_probe \<Rightarrow> instant \<Rightarrow> audit_record \<Rightarrow> audit_record" where
  "drift_row probe now prior =
     \<lparr>ad_ts = now, ad_host = dp_host probe, ad_prev = ad_new prior, ad_new = dp_mode probe, ad_principal = [],
      ad_changed_by = [], ad_reason = drift_reason (ad_new prior) (dp_mode probe), ad_key_modified = dp_modified probe,
      ad_reconciliation = True, ad_before = Some (ad_ts prior)\<rparr>"

definition needs_drift_row :: "drain_probe \<Rightarrow> audit_record \<Rightarrow> bool" where
  "needs_drift_row probe prior \<longleftrightarrow>
     ad_new prior \<noteq> dp_mode probe
     \<or> (case dp_modified probe of None \<Rightarrow> False | Some t \<Rightarrow> t > ad_ts prior)"

definition drift_job :: "instant \<Rightarrow> instant \<Rightarrow> string \<Rightarrow> string \<Rightarrow> int \<Rightarrow> job_row list \<Rightarrow> job_row list" where
  "drift_job started finished outcome reason rows jobs =
     upsert_job ''drift_reconciliation'' \<lparr>jr_started = started, jr_finished = finished, jr_outcome = outcome,
       jr_reason = reason, jr_rows = rows\<rparr> jobs"

definition reconcile ::
  "bool \<Rightarrow> drain_probe \<Rightarrow> instant \<Rightarrow> instant \<Rightarrow> stored_audit list \<times> job_row list \<Rightarrow>
     audit_error option \<times> stored_audit list \<times> job_row list" where
  "reconcile writable probe now finished db =
     (case db of (table, jobs) \<Rightarrow>
      (case latest_by_host table (dp_host probe) of
         None \<Rightarrow> (None, table, drift_job now finished ''success'' [] 0 jobs)
       | Some prior \<Rightarrow>
           if needs_drift_row probe prior then
             (case audit_append writable (drift_row probe now prior) table of
                Inl e \<Rightarrow> (Some e, table,
                   drift_job now finished ''failure'' ''telemetry: audit Append called on read-only store'' 0 jobs)
              | Inr table' \<Rightarrow> (None, table', drift_job now finished ''success'' [] 1 jobs))
           else (None, table, drift_job now finished ''success'' [] 0 jobs)))"

subsection \<open>The history command\<close>

definition history_filter :: "int \<Rightarrow> bool \<Rightarrow> instant option \<Rightarrow> instant option \<Rightarrow> audit_filter" where
  "history_filter limit changes_only since until =
     \<lparr>af_from = since, af_to = map_option (\<lambda>t. t + 1000000) until, af_host = [], af_actor = [], af_limit = limit,
      af_cursor = [], af_changes_only = changes_only\<rparr>"

record history_record =
  hi_ts :: instant
  hi_host :: string
  hi_mode :: nat
  hi_label :: string
  hi_changed_by :: string
  hi_changed :: bool
  hi_reconciliation :: bool
  hi_reason :: string
  hi_key_modified :: "instant option"

text \<open>\<open>DrainMode\<close> is 32 bits wide.\<close>

definition mode_of_state :: "int \<Rightarrow> nat" where
  "mode_of_state s = nat (s mod 2 ^ 32)"

definition audit_from_telemetry :: "audit_record \<Rightarrow> history_record" where
  "audit_from_telemetry r =
     \<lparr>hi_ts = ad_ts r, hi_host = ad_host r, hi_mode = mode_of_state (ad_new r),
      hi_label = mode_string (mode_of_state (ad_new r)), hi_changed_by = ad_changed_by r,
      hi_changed = (ad_prev r \<noteq> ad_new r), hi_reconciliation = ad_reconciliation r, hi_reason = ad_reason r,
      hi_key_modified = ad_key_modified r\<rparr>"

definition get_history ::
  "(audit_key \<Rightarrow> string) \<Rightarrow> (string \<Rightarrow> audit_key option) \<Rightarrow> int \<Rightarrow> bool \<Rightarrow> instant option \<Rightarrow> instant option \<Rightarrow>
     stored_audit list \<Rightarrow> audit_error + history_record list" where
  "get_history enc dec limit changes_only since until table =
     (case audit_query_range enc dec (history_filter limit changes_only since until) table of
        Inl e \<Rightarrow> Inl e | Inr (rows, _) \<Rightarrow> Inr (map audit_from_telemetry rows))"

subsection \<open>The handler of the dashboard\<close>

record audit_view =
  av_record :: audit_record
  av_prev_label :: string
  av_new_label :: string
  av_before :: "instant option"

datatype audit_reply = AuditRefused nat string | AuditPage "audit_view list" "string option"

record audit_codecs =
  ac_parse_time :: "string \<Rightarrow> instant option"
  ac_digest :: "string \<Rightarrow> string"
  ac_cursor :: "audit_key \<Rightarrow> string"
  ac_read_cursor :: "string \<Rightarrow> audit_key option"
  ac_wrap :: "string \<times> string \<Rightarrow> string"
  ac_unwrap :: "string \<Rightarrow> (string \<times> string) option"

definition view_of :: "audit_record \<Rightarrow> audit_view" where
  "view_of r = \<lparr>av_record = r, av_prev_label = mode_string (mode_of_state (ad_prev r)),
     av_new_label = mode_string (mode_of_state (ad_new r)),
     av_before = (if ad_reconciliation r then ad_before r else None)\<rparr>"

definition nul :: string where "nul = [char_of (0 :: nat)]"

definition audit_filter_signature :: "audit_codecs \<Rightarrow> audit_filter \<Rightarrow> string" where
  "audit_filter_signature ac f =
     (let ms = (\<lambda>t. case t of None \<Rightarrow> - 1 | Some t \<Rightarrow> unix_milli t)
      in ac_digest ac (af_host f @ nul @ af_actor f @ nul @ format_int (ms (af_from f)) @ nul
           @ format_int (ms (af_to f)) @ nul @ (if af_changes_only f then ''true'' else ''false'')))"

definition unwrap_audit_cursor :: "audit_codecs \<Rightarrow> string \<Rightarrow> string \<Rightarrow> string option" where
  "unwrap_audit_cursor ac raw want =
     (case ac_unwrap ac raw of None \<Rightarrow> None | Some (sig, inner) \<Rightarrow> if sig \<noteq> want then None else Some inner)"

text \<open>A query parameter that is absent reads as the empty string; the inner result is the refusal.\<close>

definition audit_time_param :: "audit_codecs \<Rightarrow> string \<Rightarrow> instant option option" where
  "audit_time_param ac s =
     (if s = [] then Some None else (case ac_parse_time ac s of None \<Rightarrow> None | Some t \<Rightarrow> Some (Some t)))"

definition changes_only_param :: "string \<Rightarrow> bool option" where
  "changes_only_param s =
     (if s = [] then Some True
      else if to_lower s \<in> {''true'', ''1''} then Some True
      else if to_lower s \<in> {''false'', ''0''} then Some False
      else None)"

definition audit_limit_param :: "string \<Rightarrow> int option" where
  "audit_limit_param s =
     (if s = [] then Some 500
      else (case atoi s of None \<Rightarrow> None
            | Some n \<Rightarrow> if n < 1 then None else Some (if n > 5000 then 5000 else n)))"

definition audit_request_filter :: "audit_codecs \<Rightarrow> (string \<Rightarrow> string) \<Rightarrow> audit_filter option" where
  "audit_request_filter ac q =
     (case (audit_time_param ac (q ''from''), audit_time_param ac (q ''to'')) of
        (Some from_t, Some to_t) \<Rightarrow>
          if (case (from_t, to_t) of (Some a, Some b) \<Rightarrow> \<not> b > a | _ \<Rightarrow> False) then None
          else (case (changes_only_param (q ''changes_only''), audit_limit_param (q ''limit'')) of
             (Some c, Some n) \<Rightarrow>
               Some \<lparr>af_from = from_t, af_to = to_t, af_host = q ''host'', af_actor = q ''actor'', af_limit = n,
                     af_cursor = [], af_changes_only = c\<rparr>
           | _ \<Rightarrow> None)
      | _ \<Rightarrow> None)"

definition handle_audit :: "audit_codecs \<Rightarrow> stored_audit list option \<Rightarrow> (string \<Rightarrow> string) \<Rightarrow> audit_reply" where
  "handle_audit ac store q =
     (case store of
        None \<Rightarrow> AuditRefused 500 ''storage_error''
      | Some table \<Rightarrow>
          (case audit_request_filter ac q of
             None \<Rightarrow> AuditRefused 400 ''invalid_range''
           | Some f \<Rightarrow>
               (let sig = audit_filter_signature ac f;
                    inner = (if q ''cursor'' = [] then Some [] else unwrap_audit_cursor ac (q ''cursor'') sig)
                in case inner of
                     None \<Rightarrow> AuditRefused 400 ''invalid_cursor''
                   | Some c \<Rightarrow>
                       (case audit_query_range (ac_cursor ac) (ac_read_cursor ac) (f\<lparr>af_cursor := c\<rparr>) table of
                          Inl e \<Rightarrow> AuditRefused 400 ''invalid_cursor''
                        | Inr (rows, nxt) \<Rightarrow>
                            AuditPage (map view_of rows) (if nxt = [] then None else Some (ac_wrap ac (sig, nxt)))))))"

subsection \<open>Following the cursors\<close>

abbreviation newer_before :: "stored_audit \<Rightarrow> stored_audit \<Rightarrow> bool" where
  "newer_before a b \<equiv> audit_key b < audit_key a"

lemma newest_first_sorted: "has_pk audit_key rows \<Longrightarrow> sorted_wrt newer_before (newest_first rows)"
proof -
  assume "has_pk audit_key rows"
  then have "distinct (map audit_key (sort_key audit_key rows))"
    by (simp add: has_pk_def distinct_map)
  then have "sorted_wrt (<) (map audit_key (sort_key audit_key rows))" by (simp add: strict_sorted_iff)
  then show ?thesis by (simp add: newest_first_def sorted_wrt_rev sorted_wrt_map)
qed

lemma set_newest_first [simp]: "set (newest_first rows) = set rows" "length (newest_first rows) = length rows"
  by (simp_all add: newest_first_def)

lemma after_last:
  assumes "sorted_wrt newer_before (xs @ ys)" and "xs \<noteq> []"
  shows "filter (\<lambda>r. audit_key r < audit_key (last xs)) (xs @ ys) = ys"
proof -
  have "filter (\<lambda>r. audit_key r < audit_key (last xs)) xs = []"
  proof (cases xs rule: rev_cases)
    case (snoc zs z)
    then show ?thesis using assms(1) by (auto simp: filter_empty_conv sorted_wrt_append)
  qed simp
  moreover have "filter (\<lambda>r. audit_key r < audit_key (last xs)) ys = ys"
    using assms by (auto simp: filter_id_conv sorted_wrt_append)
  ultimately show ?thesis by simp
qed

lemma walk_from:
  assumes codec: "codec enc dec ok" and oks: "\<forall>r \<in> set table. ok (audit_key r) \<and> enc (audit_key r) \<noteq> []"
    and pk: "has_pk audit_key table" and sizes: "\<And>i. 0 < psize i"
  shows "newest_first (filter (audit_matches f) table) = before @ rest \<Longrightarrow>
    after_cursor dec (af_cursor f) (before @ rest) = Some rest \<Longrightarrow> length rest < n \<Longrightarrow>
    audit_walk enc dec psize i n f table = Some (map of_stored rest)"
proof (induction n arbitrary: f before rest i)
  case (Suc n)
  define l where "l = nat (if psize i > 5000 then 5000 else psize i)"
  have l: "int l = (if psize i > 5000 then 5000 else psize i)" "0 < l" using sizes [of i] by (auto simp: l_def)
  have matches: "audit_matches (f\<lparr>af_limit := m\<rparr>) = audit_matches f" "audit_matches (f\<lparr>af_cursor := c\<rparr>) = audit_matches f" for m c
    by (auto simp: audit_matches_def fun_eq_iff)
  have query: "audit_query_range enc dec (f\<lparr>af_limit := psize i\<rparr>) table = Inr (audit_page enc (int l) rest)"
    using Suc.prems by (simp add: audit_query_range_def l(1) matches)
  show ?case
  proof (cases "length rest \<le> l")
    case True
    then show ?thesis using query l(2) by (simp add: audit_page_def)
  next
    case False
    let ?kept = "take l rest"
    let ?c = "enc (audit_key (last ?kept))"
    have kept: "?kept \<noteq> []" "last ?kept \<in> set rest"
      using False l(2) by (auto intro: in_set_takeD [OF last_in_set])
    have "last ?kept \<in> set table" using kept(2) Suc.prems(1) by (metis Un_iff set_append set_newest_first(1) filter_is_subset subsetD)
    then have ok: "ok (audit_key (last ?kept))" "?c \<noteq> []" using oks by auto
    have sorted: "sorted_wrt newer_before ((before @ ?kept) @ drop l rest)"
      using newest_first_sorted [of "filter (audit_matches f) table"] pk Suc.prems(1) by simp
    have page: "audit_page enc (int l) rest = (map of_stored ?kept, ?c)"
      using False l(2) by (simp add: audit_page_def Let_def min_def)
    have "after_cursor dec ?c ((before @ ?kept) @ drop l rest) = Some (drop l rest)"
      using after_last [OF sorted] kept(1) ok codec.dec_enc [OF codec ok(1)] by (simp add: after_cursor_def)
    then have "audit_walk enc dec psize (Suc i) n (f\<lparr>af_cursor := ?c\<rparr>) table = Some (map of_stored (drop l rest))"
      using Suc.prems False l(2) by (intro Suc.IH [where before = "before @ ?kept"]) (auto simp: matches)
    then show ?thesis
      using query page ok(2) by (simp flip: map_append)
  qed
qed simp

text \<open>
  C16: a client that follows the cursors of the audit query over an unchanged table gets every row that
  matches its filter exactly once and newest first, whatever positive page sizes it asks for, and it is done after at most one page
  more than there are rows.
\<close>

theorem cursors_list_everything:
  assumes "codec enc dec ok" and "\<forall>r \<in> set table. ok (audit_key r) \<and> enc (audit_key r) \<noteq> []"
    and "has_pk audit_key table" and "\<And>i. 0 < psize i" and "af_cursor f = []"
  shows "\<exists>rows. audit_walk enc dec psize 0 (Suc (length table)) f table = Some (map of_stored rows)
    \<and> set rows = {r \<in> set table. audit_matches f r} \<and> sorted_wrt (\<lambda>a b. audit_key a > audit_key b) rows"
proof (intro exI conjI)
  let ?rows = "newest_first (filter (audit_matches f) table)"
  have "length ?rows < Suc (length table)" by (simp add: le_imp_less_Suc)
  then show "audit_walk enc dec psize 0 (Suc (length table)) f table = Some (map of_stored ?rows)"
    using walk_from [OF assms(1-3), of psize f "[]" ?rows "Suc (length table)" 0] assms(4,5)
    by (simp add: after_cursor_def del: audit_walk.simps)
  show "sorted_wrt (\<lambda>a b. audit_key a > audit_key b) ?rows" using assms(3) by (simp add: newest_first_sorted)
qed simp

subsection \<open>Reconciliation\<close>

lemma latest_by_host_cases:
  assumes "latest_by_host table host = Some prior"
  obtains p where "p \<in> set table" "ad_host p = host" "prior = of_stored p"
    "\<And>r. r \<in> set table \<Longrightarrow> ad_host r = host \<Longrightarrow> audit_key r \<le> audit_key p"
proof -
  let ?rows = "filter (\<lambda>r. ad_host r = host) table"
  obtain p ps where p: "newest_first ?rows = p # ps" "prior = of_stored p"
    using assms by (auto simp: latest_by_host_def split: list.splits)
  then have sorted: "sort_key audit_key ?rows = rev ps @ [p]" by (simp add: newest_first_def rev_swap)
  have "audit_key r \<le> audit_key p" if "r \<in> set ?rows" for r
  proof -
    have "r \<in> set (rev ps @ [p])" using that by (simp flip: sorted)
    moreover have "sorted (map audit_key (rev ps @ [p]))" by (simp only: flip: sorted) simp
    ultimately show ?thesis by (auto simp: sorted_append)
  qed
  moreover have "p \<in> set ?rows" using p(1) set_newest_first(1) [of ?rows] by (metis list.set_intros(1))
  ultimately show ?thesis using that p(2) by auto
qed

lemma latest_by_host_append:
  assumes "has_pk audit_key (table @ [r])" and "ad_host r = host"
    and "\<And>q. q \<in> set table \<Longrightarrow> ad_host q = host \<Longrightarrow> audit_key q < audit_key r"
  shows "latest_by_host (table @ [r]) host = Some (of_stored r)"
proof -
  let ?rows = "filter (\<lambda>q. ad_host q = host) table"
  have "sort_key audit_key (?rows @ [r]) = sort_key audit_key ?rows @ [r]"
  proof (rule sort_key_inj_key_eq)
    show "inj_on audit_key (set (?rows @ [r]))"
      using has_pk_filter [OF assms(1), of "\<lambda>q. ad_host q = host"] assms(2) by (auto simp: has_pk_def distinct_map)
    show "sorted (map audit_key (sort_key audit_key ?rows @ [r]))"
      using assms(3) by (auto simp: sorted_append intro: less_imp_le)
  qed simp
  then show ?thesis using assms(2) by (simp add: latest_by_host_def newest_first_def)
qed

text \<open>
  C29: a reconciliation at start-up that finds earlier rows of the host ends with the observed drain mode
  as the latest state of the trail: it adds at most one row, keeps every row there was, and reconciling
  again with the same reading adds nothing. The clock must have moved on since the last row, and the
  registry change must not be later than the millisecond of the reconciliation.
\<close>

theorem reconcile_catches_up:
  assumes "has_pk audit_key table" and "latest_by_host table (dp_host probe) = Some prior"
    and "ad_ts prior < unix_milli now * 1000000"
    and "\<forall>t. dp_modified probe = Some t \<longrightarrow> t \<le> unix_milli now * 1000000"
    and "reconcile True probe now finished (table, jobs) = (err, table', jobs')"
  shows "err = None \<and> (\<exists>rows. table' = table @ rows \<and> length rows \<le> 1)
    \<and> map_option ad_new (latest_by_host table' (dp_host probe)) = Some (dp_mode probe)
    \<and> fst (snd (reconcile True probe now2 finished2 (table', jobs'))) = table'"
proof (cases "needs_drift_row probe prior")
  case False
  then show ?thesis using assms(2,5) by (auto simp: reconcile_def needs_drift_row_def)
next
  case True
  define r where "r = stored_of (drift_row probe now prior)"
  have r: "ad_ts r = unix_milli now" "ad_host r = dp_host probe" "ad_new r = dp_mode probe"
    by (simp_all add: r_def stored_of_def drift_row_def)
  obtain p where p: "p \<in> set table" "ad_host p = dp_host probe" "prior = of_stored p"
      "\<And>q. q \<in> set table \<Longrightarrow> ad_host q = dp_host probe \<Longrightarrow> audit_key q \<le> audit_key p"
    using latest_by_host_cases [OF assms(2)] by blast
  have "ad_ts p < unix_milli now" using assms(3) by (simp add: p(3) of_stored_def)
  then have less: "audit_key q < audit_key r" if "q \<in> set table" "ad_host q = dp_host probe" for q
    using p(4) [OF that] r by (auto simp: audit_key_def less_eq_prod_def less_prod_def)
  then have fresh: "audit_key r \<noteq> audit_key q" if "q \<in> set table" for q
  proof (cases "ad_host q = dp_host probe")
    case True then show ?thesis using less [OF that] by simp
  next
    case False then show ?thesis using r(2) by (simp add: audit_key_def)
  qed
  then have "insert_new audit_key r table = table @ [r]" unfolding insert_new_def list_ex_iff by metis
  then have run: "err = None" "table' = table @ [r]"
    using assms(2,5) True by (auto simp: reconcile_def audit_append_def r_def)
  have pk: "has_pk audit_key (table @ [r])" using assms(1) fresh by (force simp: has_pk_def)
  have latest: "latest_by_host table' (dp_host probe) = Some (of_stored r)"
    unfolding run(2) by (rule latest_by_host_append [OF pk r(2) less])
  have "\<not> needs_drift_row probe (of_stored r)"
    using assms(4) r by (auto simp: needs_drift_row_def of_stored_def split: option.splits)
  then have "fst (snd (reconcile True probe now2 finished2 (table', jobs'))) = table'" by (simp add: reconcile_def latest)
  then show ?thesis using run latest r(3) by (simp add: of_stored_def)
qed

subsection \<open>Witnesses\<close>

definition sample_audit :: "int \<Rightarrow> int \<Rightarrow> int \<Rightarrow> stored_audit" where
  "sample_audit ts a b = \<lparr>ad_ts = ts, ad_host = ''H'', ad_prev = a, ad_new = b, ad_principal = [], ad_changed_by = [],
     ad_reason = [], ad_key_modified = None, ad_reconciliation = False, ad_before = None\<rparr>"

definition sample_trail :: "stored_audit list" where
  "sample_trail = [sample_audit 1 0 2, sample_audit 2 2 0]"

lemma sample_trail_pk: "has_pk audit_key sample_trail"
  by (simp add: has_pk_def sample_trail_def audit_key_def sample_audit_def)

text \<open>A stand-in for the cursor texts: one character for each of the two rows.\<close>

definition sample_enc :: "audit_key \<Rightarrow> string" where
  "sample_enc c = (if c = (1, ''H'', 2) then ''1'' else ''2'')"

definition sample_dec :: "string \<Rightarrow> audit_key option" where
  "sample_dec s = (if s = ''1'' then Some (1, ''H'', 2) else if s = ''2'' then Some (2, ''H'', 0) else None)"

definition all_audit :: audit_filter where
  "all_audit = \<lparr>af_from = None, af_to = None, af_host = [], af_actor = [], af_limit = 0, af_cursor = [], af_changes_only = True\<rparr>"

lemma sample_cursors: "codec sample_enc sample_dec (\<lambda>c. c = (1, ''H'', 2) \<or> c = (2, ''H'', 0))"
  by unfold_locales (auto simp: sample_enc_def sample_dec_def split: if_splits)

lemma cursors_list_everything_witness:
  "\<exists>rows. audit_walk sample_enc sample_dec (\<lambda>_. 1) 0 (Suc (length sample_trail)) all_audit sample_trail = Some (map of_stored rows)
    \<and> set rows = set sample_trail"
proof -
  have "\<forall>r \<in> set sample_trail. (audit_key r = (1, ''H'', 2) \<or> audit_key r = (2, ''H'', 0)) \<and> sample_enc (audit_key r) \<noteq> []"
    by (simp add: sample_trail_def audit_key_def sample_audit_def sample_enc_def)
  from cursors_list_everything [OF sample_cursors this sample_trail_pk, of "\<lambda>_. 1" all_audit]
  obtain rows where rows: "audit_walk sample_enc sample_dec (\<lambda>_. 1) 0 (Suc (length sample_trail)) all_audit sample_trail
      = Some (map of_stored rows)" "set rows = {r \<in> set sample_trail. audit_matches all_audit r}"
    by (auto simp: all_audit_def)
  moreover have "{r \<in> set sample_trail. audit_matches all_audit r} = set sample_trail"
    by (auto simp: sample_trail_def sample_audit_def audit_matches_def all_audit_def)
  ultimately show ?thesis by auto
qed

lemma reconcile_catches_up_witness:
  "let (err, table', jobs') = reconcile True \<lparr>dp_host = ''H'', dp_mode = 3, dp_modified = None\<rparr> 9000000 9000000 (sample_trail, [])
   in err = None \<and> map_option ad_new (latest_by_host table' ''H'') = Some 3"
proof -
  let ?probe = "\<lparr>dp_host = ''H'', dp_mode = 3, dp_modified = None\<rparr>"
  obtain prior where prior: "latest_by_host sample_trail ''H'' = Some prior" "ad_ts prior = 2000000"
    by (simp add: latest_by_host_def newest_first_def sample_trail_def sample_audit_def of_stored_def audit_key_def less_eq_prod_def)
  obtain err table' jobs' where run: "reconcile True ?probe 9000000 9000000 (sample_trail, []) = (err, table', jobs')"
    by (metis prod_cases3)
  show ?thesis
    using reconcile_catches_up [of sample_trail ?probe prior 9000000, OF sample_trail_pk _ _ _ run] prior
    by (simp add: run unix_milli_def)
qed

end
