(* ===== verification/EventSpikes.thy ===== *)
theory EventSpikes
  imports SqlTables SpikeDetection Access Roster Updater
begin

text \<open>
  The confirmed spikes on the dashboard: \<open>telemetry/event_spikes.go\<close> (insert, recent, range),
  \<open>dashboard/spike_ingest.go\<close> and the handlers of \<open>dashboard/evtspike.go\<close>. The time parser, the roster and
  whether the database answers are arguments. The lemmas show that a spike that is reported again is
  neither stored nor announced again, that identifiers only grow, what a range query says of its
  completeness, and which spikes a query by host cannot find.
\<close>

subsection \<open>The table\<close>

record event_spike =
  ek_id :: int
  ek_host :: string
  ek_channel :: string
  ek_start :: instant
  ek_end :: instant
  ek_observed :: int
  ek_expected :: float64
  ek_tail :: float64
  ek_confirmations :: nat
  ek_first_seen :: instant

text \<open>
  A row has the columns of the record with times in milliseconds. \<open>es_sequence\<close> is the counter behind
  \<open>AUTOINCREMENT\<close>: a new identifier is above every one that was ever given, by at least one; the
  argument \<open>gap\<close> is what SQLite skips, also when the insert is a duplicate.
\<close>

type_synonym spike_row = event_spike
type_synonym spike_key = "string \<times> string \<times> int"

record spike_table =
  es_rows :: "spike_row list"
  es_sequence :: int

definition spike_key :: "spike_row \<Rightarrow> spike_key" where
  "spike_key r = (ek_host r, ek_channel r, ek_start r)"

definition spike_row_of :: "event_spike \<Rightarrow> spike_row" where
  "spike_row_of s = s\<lparr>ek_start := unix_milli (ek_start s), ek_end := unix_milli (ek_end s),
     ek_first_seen := unix_milli (ek_first_seen s)\<rparr>"

definition scan_spike :: "spike_row \<Rightarrow> event_spike" where
  "scan_spike r = r\<lparr>ek_start := ek_start r * 1000000, ek_end := ek_end r * 1000000,
     ek_first_seen := ek_first_seen r * 1000000\<rparr>"

definition insert_event_spike :: "nat \<Rightarrow> event_spike \<Rightarrow> spike_table \<Rightarrow> (event_spike \<times> bool) \<times> spike_table" where
  "insert_event_spike gap s t =
     (case row_at spike_key (spike_key (spike_row_of s)) (es_rows t) of
        Some r \<Rightarrow> ((scan_spike r, False), t\<lparr>es_sequence := es_sequence t + int gap\<rparr>)
      | None \<Rightarrow>
          (let i = es_sequence t + 1 + int gap; s' = s\<lparr>ek_id := i\<rparr>
           in ((s', True), \<lparr>es_rows = es_rows t @ [spike_row_of s'], es_sequence = i\<rparr>)))"

subsection \<open>Queries\<close>

text \<open>\<open>ORDER BY window_start_ms DESC, id DESC\<close>.\<close>

definition spikes_newest_first :: "spike_row list \<Rightarrow> spike_row list" where
  "spikes_newest_first rows = rev (sort_key (\<lambda>r. (ek_start r, ek_id r)) rows)"

definition recent_spikes :: "string \<Rightarrow> int \<Rightarrow> spike_table \<Rightarrow> event_spike list" where
  "recent_spikes host limit t =
     (if limit \<le> 0 then []
      else map scan_spike (take (nat limit) (spikes_newest_first (filter (\<lambda>r. ek_host r = host) (es_rows t)))))"

record spike_range =
  sg_spikes :: "event_spike list"
  sg_total :: int
  sg_truncated :: bool
  sg_as_of :: int

definition spikes_between :: "string \<Rightarrow> instant \<Rightarrow> instant \<Rightarrow> spike_table \<Rightarrow> spike_row list" where
  "spikes_between host from_t to_t t =
     filter (\<lambda>r. ek_host r = host \<and> unix_milli from_t \<le> ek_start r \<and> ek_start r < unix_milli to_t) (es_rows t)"

definition range_spikes :: "string \<Rightarrow> instant \<Rightarrow> instant \<Rightarrow> int \<Rightarrow> spike_table \<Rightarrow> spike_range" where
  "range_spikes host from_t to_t max_limit t =
     (let max_limit = (if max_limit < 0 then 0 else max_limit);
          found = spikes_between host from_t to_t t;
          rows = take (nat max_limit) (spikes_newest_first found)
      in \<lparr>sg_spikes = map scan_spike rows, sg_total = int (length found),
          sg_truncated = (int (length found) > int (length rows)),
          sg_as_of = (if found = [] then 0 else Max (ek_id ` set found))\<rparr>)"

subsection \<open>Ingestion\<close>

text \<open>An entry of the wire: the spike with its identifier. \<open>None\<close> as a store means that there is none.\<close>

type_synonym spike_entry = "int \<times> spike_payload"

definition event_spike_of :: "spike_payload \<Rightarrow> event_spike" where
  "event_spike_of p = \<lparr>ek_id = 0, ek_host = sk_host p, ek_channel = sk_channel p, ek_start = sk_start p, ek_end = sk_end p,
     ek_observed = sk_observed p, ek_expected = sk_expected p, ek_tail = sk_tail p,
     ek_confirmations = sk_confirmations p, ek_first_seen = sk_first_seen p\<rparr>"

definition to_recent_entry :: "event_spike \<Rightarrow> spike_entry" where
  "to_recent_entry r = (ek_id r, \<lparr>sk_host = ek_host r, sk_channel = ek_channel r, sk_start = ek_start r, sk_end = ek_end r,
     sk_observed = ek_observed r, sk_expected = ek_expected r, sk_tail = ek_tail r,
     sk_confirmations = ek_confirmations r, sk_first_seen = ek_first_seen r\<rparr>)"

text \<open>\<open>db_ok\<close> says whether the insert succeeds.\<close>

definition insert_spike ::
  "bool \<Rightarrow> nat \<Rightarrow> spike_payload \<Rightarrow> spike_table option \<Rightarrow> (spike_entry \<times> bool) \<times> spike_table option" where
  "insert_spike db_ok gap p store =
     (case store of
        None \<Rightarrow> (((0, p), False), None)
      | Some t \<Rightarrow>
          if \<not> db_ok then (((0, p), False), Some t)
          else (case insert_event_spike gap (event_spike_of p) t of
                  ((s, inserted), t') \<Rightarrow> (((ek_id s, p), inserted), Some t')))"

text \<open>The callback of the local detector; the list holds the entries that are broadcast.\<close>

definition ingest_local ::
  "bool \<Rightarrow> nat \<Rightarrow> spike_payload \<Rightarrow> spike_table option \<Rightarrow> spike_entry list \<times> spike_table option" where
  "ingest_local db_ok gap p store =
     (case insert_spike db_ok gap p store of ((e, inserted), store') \<Rightarrow> (if inserted then [e] else [], store'))"

record spike_server =
  sw_store :: "spike_table option"
  sw_roster :: roster_db
  sw_group :: string

record spike_request =
  sq_body :: "spike_payload option"
  sq_auth :: "auth_info option"
  sq_db_ok :: bool
  sq_gap :: nat

text \<open>
  \<open>handleReportSpike\<close>: the status, the broadcast entries and the new state; \<open>sq_body\<close> is \<open>None\<close> when the
  body cannot be read or decoded, \<open>ef\<close> is \<open>strings.EqualFold\<close>.
\<close>

definition handle_report_spike ::
  "(string \<Rightarrow> string \<Rightarrow> bool) \<Rightarrow> spike_request \<Rightarrow> spike_server \<Rightarrow> nat \<times> spike_entry list \<times> spike_server" where
  "handle_report_spike ef r s =
     (case sq_body r of
        None \<Rightarrow> (400, [], s)
      | Some p \<Rightarrow>
          if sk_host p = [] then (400, [], s)
          else if \<not> is_registered (sk_host p) (sw_roster s) then (403, [], s)
          else if sq_auth r \<noteq> None \<and> \<not> is_authorized_for_host ef (sq_auth r) (sk_host p) (sw_group s) then (403, [], s)
          else if sw_store s = None then (200, [], s)
          else (case insert_spike (sq_db_ok r) (sq_gap r) p (sw_store s) of
                  ((e, inserted), store') \<Rightarrow> (200, if inserted then [e] else [], s\<lparr>sw_store := store'\<rparr>)))"

subsection \<open>The list handler\<close>

datatype spikes_reply =
    SpikesRefused nat string
  | SpikesRecent "spike_entry list"
  | SpikesRange "spike_entry list" int bool int

definition recent_limit :: "string \<Rightarrow> int" where
  "recent_limit raw =
     (if raw = [] then 20
      else (case atoi raw of None \<Rightarrow> 20
            | Some n \<Rightarrow> let n = (if n < 1 then 1 else n) in if n > 50 then 50 else n))"

definition handle_evt_spike_spikes ::
  "(string \<Rightarrow> instant option) \<Rightarrow> bool \<Rightarrow> (string \<Rightarrow> string) \<Rightarrow> spike_server \<Rightarrow> spikes_reply" where
  "handle_evt_spike_spikes parse db_ok q s =
     (let raw = q ''host'' in
      if raw = [] \<or> \<not> is_registered raw (sw_roster s) then SpikesRefused 404 ''unknown_host''
      else
        (let host = canonical_hostname raw; from_raw = q ''from''; to_raw = q ''to'' in
         if from_raw \<noteq> [] \<or> to_raw \<noteq> [] then
           (if from_raw = [] \<or> to_raw = [] then SpikesRefused 400 ''from_and_to_both_required''
            else (case parse from_raw of
                    None \<Rightarrow> SpikesRefused 400 ''invalid_from''
                  | Some from_t \<Rightarrow>
                      (case parse to_raw of
                         None \<Rightarrow> SpikesRefused 400 ''invalid_to''
                       | Some to_t \<Rightarrow>
                           if \<not> to_t > from_t then SpikesRefused 400 ''to_must_be_after_from''
                           else (case sw_store s of
                                   None \<Rightarrow> SpikesRange [] 0 False 0
                                 | Some t \<Rightarrow>
                                     if \<not> db_ok then SpikesRefused 500 ''storage_error''
                                     else (let g = range_spikes host from_t to_t 500 t
                                           in SpikesRange (map to_recent_entry (sg_spikes g)) (sg_total g)
                                                (sg_truncated g) (sg_as_of g))))))
         else (case sw_store s of
                 None \<Rightarrow> SpikesRecent []
               | Some t \<Rightarrow>
                   if \<not> db_ok then SpikesRefused 500 ''storage_error''
                   else SpikesRecent (map to_recent_entry (recent_spikes host (recent_limit (q ''limit'')) t)))))"

subsection \<open>A spike is announced once\<close>

definition spike_table_ok :: "spike_table \<Rightarrow> bool" where
  "spike_table_ok t \<longleftrightarrow> has_pk spike_key (es_rows t) \<and> (\<forall>r \<in> set (es_rows t). ek_id r \<le> es_sequence t)"

definition payload_key :: "spike_payload \<Rightarrow> spike_key" where
  "payload_key p = (sk_host p, sk_channel p, unix_milli (sk_start p))"

lemma spike_key_row [simp]:
  "spike_key (spike_row_of (event_spike_of p)) = payload_key p"
  "spike_key (spike_row_of (s\<lparr>ek_id := i\<rparr>)) = spike_key (spike_row_of s)"
  "ek_id (spike_row_of s) = ek_id s" "ek_id (scan_spike s) = ek_id s"
  by (simp_all add: spike_key_def spike_row_of_def event_spike_of_def payload_key_def scan_spike_def)

text \<open>What one insert of a payload does to a well-formed table.\<close>

lemma insert_spike_cases:
  assumes "insert_spike db_ok gap p (Some t) = ((e, inserted), store')" and "spike_table_ok t"
  obtains t' where "store' = Some t'" "spike_table_ok t'" "snd e = p" "es_sequence t \<le> es_sequence t'"
    "inserted \<Longrightarrow> es_sequence t < fst e \<and> fst e \<le> es_sequence t'"
    "inserted \<Longrightarrow> payload_key p \<notin> spike_key ` set (es_rows t)"
    "inserted \<Longrightarrow> payload_key p \<in> spike_key ` set (es_rows t')"
    "spike_key ` set (es_rows t) \<subseteq> spike_key ` set (es_rows t')"
proof (cases "db_ok \<and> row_at spike_key (payload_key p) (es_rows t) = None")
  case True
  let ?i = "es_sequence t + 1 + int gap"
  let ?r = "spike_row_of ((event_spike_of p)\<lparr>ek_id := ?i\<rparr>)"
  have new: "payload_key p \<notin> spike_key ` set (es_rows t)" using True by (simp add: row_at_None)
  have e: "e = (?i, p)" "inserted" "store' = Some \<lparr>es_rows = es_rows t @ [?r], es_sequence = ?i\<rparr>"
    using assms(1) True by (auto simp: insert_spike_def insert_event_spike_def Let_def)
  have "spike_table_ok \<lparr>es_rows = es_rows t @ [?r], es_sequence = ?i\<rparr>"
    using assms(2) new by (force simp: spike_table_ok_def has_pk_def)
  with e new show ?thesis by (intro that [of "\<lparr>es_rows = es_rows t @ [?r], es_sequence = ?i\<rparr>"]) auto
next
  case False
  then obtain t' where t': "store' = Some t'" "es_rows t' = es_rows t" "es_sequence t \<le> es_sequence t'" "\<not> inserted" "snd e = p"
    using assms(1) by (auto simp: insert_spike_def insert_event_spike_def split: if_splits option.splits)
  then show ?thesis using assms(2) by (intro that [of t']) (auto simp: spike_table_ok_def)
qed

datatype spike_op = LocalSpike bool nat spike_payload | RemoteSpike spike_request

definition spike_step :: "(string \<Rightarrow> string \<Rightarrow> bool) \<Rightarrow> spike_op \<Rightarrow> spike_server \<Rightarrow> spike_entry list \<times> spike_server" where
  "spike_step ef op s =
     (case op of
        LocalSpike ok gap p \<Rightarrow> (case ingest_local ok gap p (sw_store s) of (es, store') \<Rightarrow> (es, s\<lparr>sw_store := store'\<rparr>))
      | RemoteSpike r \<Rightarrow> snd (handle_report_spike ef r s))"

fun spike_run :: "(string \<Rightarrow> string \<Rightarrow> bool) \<Rightarrow> spike_op list \<Rightarrow> spike_server \<Rightarrow> spike_entry list \<times> spike_server" where
  "spike_run ef [] s = ([], s)"
| "spike_run ef (op # spike_ops) s =
     (case spike_step ef op s of (es, s1) \<Rightarrow> (case spike_run ef spike_ops s1 of (es', s2) \<Rightarrow> (es @ es', s2)))"

lemma spike_step_cases:
  assumes "spike_step ef op s = (es, s')" and "sw_store s = Some t" and "spike_table_ok t"
  obtains t' where "sw_store s' = Some t'" "spike_table_ok t'" "es_sequence t \<le> es_sequence t'" "length es \<le> 1"
    "\<And>e. e \<in> set es \<Longrightarrow> es_sequence t < fst e \<and> fst e \<le> es_sequence t'
      \<and> payload_key (snd e) \<notin> spike_key ` set (es_rows t) \<and> payload_key (snd e) \<in> spike_key ` set (es_rows t')"
    "spike_key ` set (es_rows t) \<subseteq> spike_key ` set (es_rows t')"
proof -
  have "es = [] \<and> sw_store s' = Some t \<or>
      (\<exists>ok gap p e ins. insert_spike ok gap p (Some t) = ((e, ins), sw_store s') \<and> es = (if ins then [e] else []))"
    using assms(1,2)
    by (fastforce simp: spike_step_def ingest_local_def handle_report_spike_def
        split: spike_op.splits option.splits if_splits prod.splits)
  then show ?thesis
  proof (elim disjE exE conjE)
    assume "es = []" "sw_store s' = Some t"
    then show ?thesis using assms(3) by (intro that [of t]) auto
  next
    fix ok gap p e ins
    assume run: "insert_spike ok gap p (Some t) = ((e, ins), sw_store s')" and es: "es = (if ins then [e] else [])"
    show ?thesis
      by (rule insert_spike_cases [OF run assms(3)], rule that) (auto simp: es split: if_splits)
  qed
qed

lemma spike_run_facts:
  assumes "spike_run ef spike_ops s = (es, s')" and "sw_store s = Some t" and "spike_table_ok t"
  shows "sorted_wrt (<) (map fst es) \<and> distinct (map (payload_key \<circ> snd) es)
    \<and> (\<forall>e \<in> set es. es_sequence t < fst e \<and> payload_key (snd e) \<notin> spike_key ` set (es_rows t))"
  using assms
proof (induction spike_ops arbitrary: s t es)
  case (Cons op spike_ops)
  obtain es1 s1 where step: "spike_step ef op s = (es1, s1)" by fastforce
  obtain es2 where run: "spike_run ef spike_ops s1 = (es2, s')" and es: "es = es1 @ es2"
    using Cons.prems(1) step by (auto split: prod.splits)
  obtain t1 where t1: "sw_store s1 = Some t1" "spike_table_ok t1" "es_sequence t \<le> es_sequence t1" "length es1 \<le> 1"
    "\<And>e. e \<in> set es1 \<Longrightarrow> es_sequence t < fst e \<and> fst e \<le> es_sequence t1
      \<and> payload_key (snd e) \<notin> spike_key ` set (es_rows t) \<and> payload_key (snd e) \<in> spike_key ` set (es_rows t1)"
    "spike_key ` set (es_rows t) \<subseteq> spike_key ` set (es_rows t1)"
    using spike_step_cases [OF step Cons.prems(2,3)] by blast
  note rest = Cons.IH [OF run t1(1,2)]
  from t1(4) consider "es1 = []" | e where "es1 = [e]" by (cases es1) auto
  then show ?case
  proof cases
    case 1 then show ?thesis using rest t1(3,6) es by fastforce
  next
    case 2
    have e: "es_sequence t < fst e" "fst e \<le> es_sequence t1" "payload_key (snd e) \<notin> spike_key ` set (es_rows t)"
      "payload_key (snd e) \<in> spike_key ` set (es_rows t1)"
      using t1(5) [of e] 2 by auto
    have later: "es_sequence t1 < fst x" "payload_key (snd x) \<notin> spike_key ` set (es_rows t1)" if "x \<in> set es2" for x
      using rest that by auto
    have "sorted_wrt (<) (map fst es)" using rest later(1) e(2) by (force simp: es 2)
    moreover have "distinct (map (payload_key \<circ> snd) es)"
    proof -
      have "payload_key (snd e) \<notin> (payload_key \<circ> snd) ` set es2"
      proof
        assume "payload_key (snd e) \<in> (payload_key \<circ> snd) ` set es2"
        then obtain x where "x \<in> set es2" "payload_key (snd x) = payload_key (snd e)" by auto
        then show False using later(2) e(4) by metis
      qed
      moreover have "distinct (map (payload_key \<circ> snd) es2)" using rest by blast
      ultimately show ?thesis by (simp add: es 2)
    qed
    moreover have "es_sequence t < fst x \<and> payload_key (snd x) \<notin> spike_key ` set (es_rows t)" if "x \<in> set es" for x
    proof (cases "x = e")
      case True then show ?thesis using e by simp
    next
      case False
      then have "x \<in> set es2" using that by (simp add: es 2)
      from later [OF this] show ?thesis using t1(3,6) by auto
    qed
    ultimately show ?thesis by blast
  qed
qed simp

text \<open>
  C24: in every sequence of spikes from the local detector and from remote agents, with repeated reports,
  refused ones and failed inserts, no two announced entries have the same host, channel and start of the
  window, and the identifiers of the announced entries strictly grow, above every one given before. No
  retention pass deletes stored spikes within the sequence.
\<close>

theorem spikes_announced_once:
  assumes "sw_store s = Some t" and "spike_table_ok t" and "spike_run ef spike_ops s = (es, s')"
  shows "sorted_wrt (<) (map fst es) \<and> distinct (map (payload_key \<circ> snd) es)
    \<and> (\<forall>e \<in> set es. es_sequence t < fst e \<and> payload_key (snd e) \<notin> spike_key ` set (es_rows t))"
  using spike_run_facts [OF assms(3,1,2)] .

subsection \<open>What a query by host finds\<close>

lemma canonical_no_lower: "c \<in> set (canonical_hostname h) \<Longrightarrow> \<not> is_lower c"
  by (auto simp: canonical_hostname_def to_upper_def is_lower_def ord_upper_byte split: if_splits)

lemma to_recent_host: "sk_host (snd (to_recent_entry (scan_spike r))) = ek_host r"
  by (simp add: to_recent_entry_def scan_spike_def)

lemma listed_hosts:
  "e \<in> set (map to_recent_entry (recent_spikes host limit t)) \<Longrightarrow> sk_host (snd e) = host"
  "e \<in> set (map to_recent_entry (sg_spikes (range_spikes host a b n t))) \<Longrightarrow> sk_host (snd e) = host"
  by (auto simp: recent_spikes_def range_spikes_def spikes_between_def spikes_newest_first_def Let_def to_recent_host
      split: if_splits dest!: in_set_takeD)

definition reply_entries :: "spikes_reply \<Rightarrow> spike_entry list" where
  "reply_entries r = (case r of SpikesRefused _ _ \<Rightarrow> [] | SpikesRecent es \<Rightarrow> es | SpikesRange es _ _ _ \<Rightarrow> es)"

lemma reply_hosts:
  "e \<in> set (reply_entries (handle_evt_spike_spikes parse ok q s)) \<Longrightarrow> sk_host (snd e) = canonical_hostname (q ''host'')"
  by (auto simp: reply_entries_def handle_evt_spike_spikes_def Let_def split: if_splits option.splits dest: listed_hosts
      simp del: set_map)

text \<open>
  C39: the spike of a registered host that reports its name with a lower-case letter is accepted, stored and
  announced, but no answer of the list handler contains a spike under that name: the handler stores the name as
  reported and looks up the upper-case form.
\<close>

theorem lower_case_spikes_not_listed:
  assumes "c \<in> set (sk_host p)" and "is_lower c"
    and "is_registered (sk_host p) (sw_roster s)" and "sw_store s = Some t"
    and "payload_key p \<notin> spike_key ` set (es_rows t)" and "is_authorized_for_host ef auth (sk_host p) (sw_group s)"
    and "handle_report_spike ef \<lparr>sq_body = Some p, sq_auth = auth, sq_db_ok = True, sq_gap = gap\<rparr> s = (status, es, s')"
  shows "status = 200 \<and> map snd es = [p]
    \<and> (\<exists>t'. sw_store s' = Some t' \<and> payload_key p \<in> spike_key ` set (es_rows t'))
    \<and> (\<forall>parse ok q. \<forall>e \<in> set (reply_entries (handle_evt_spike_spikes parse ok q s')). sk_host (snd e) \<noteq> sk_host p)"
proof -
  have "sk_host p \<noteq> []" using assms(1) by auto
  moreover have "row_at spike_key (payload_key p) (es_rows t) = None" using assms(5) by (simp add: row_at_None)
  ultimately have "status = 200" "map snd es = [p]" "\<exists>t'. sw_store s' = Some t' \<and> payload_key p \<in> spike_key ` set (es_rows t')"
    using assms(3,4,6,7) by (auto simp: handle_report_spike_def insert_spike_def insert_event_spike_def Let_def)
  moreover have "sk_host (snd e) \<noteq> sk_host p"
    if "e \<in> set (reply_entries (handle_evt_spike_spikes parse ok q s'))" for parse ok q e
    using reply_hosts [OF that] assms(1,2) canonical_no_lower by metis
  ultimately show ?thesis by blast
qed

subsection \<open>The status handler\<close>

text \<open>\<open>local_status\<close> is the provider the service installs, \<open>remote_status\<close> the cache of the heartbeats, which holds the zero status for a host it does not know.\<close>

definition handle_evt_spike_status ::
  "(string \<Rightarrow> detector_status) option \<Rightarrow> (string \<Rightarrow> detector_status option) \<Rightarrow> string \<Rightarrow> roster_db \<Rightarrow> detector_status option" where
  "handle_evt_spike_status local_status remote_status host db =
     (if host = [] \<or> \<not> is_registered host db then None
      else
        (let none = \<lparr>de_host = [], de_state = [], de_enabled = 0, de_mature = 0, de_warmup = None, de_error = [],
               de_last_spike = None\<rparr>;
             st = (case local_status of None \<Rightarrow> none | Some f \<Rightarrow> f host);
             st = (if de_state st = [] then (case remote_status (canonical_hostname host) of None \<Rightarrow> none | Some r \<Rightarrow> r) else st);
             st = st\<lparr>de_host := host\<rparr>
         in Some (if de_state st = [] then st\<lparr>de_state := ''disabled''\<rparr> else st)))"

subsection \<open>Witnesses\<close>

definition sample_payload :: "string \<Rightarrow> spike_payload" where
  "sample_payload host = \<lparr>sk_host = host, sk_channel = ''A'', sk_start = 10 * second, sk_end = 20 * second, sk_observed = 900,
     sk_expected = fint 1, sk_tail = fint 0, sk_confirmations = 2, sk_first_seen = 0\<rparr>"

definition sample_server :: "string \<Rightarrow> spike_server" where
  "sample_server host = \<lparr>sw_store = Some \<lparr>es_rows = [], es_sequence = 0\<rparr>,
     sw_roster = insert_server (canonical_hostname host) 0 empty_roster, sw_group = ''Admins''\<rparr>"

lemma sample_registered: "is_registered host (sw_roster (sample_server host))"
  by (simp add: is_registered_def sample_server_def server_known_def insert_server_def empty_roster_def nocase_def)

lemma sample_table_ok: "spike_table_ok \<lparr>es_rows = [], es_sequence = 0\<rparr>"
  by (simp add: spike_table_ok_def has_pk_def)

lemma spikes_announced_once_witness:
  "let es = fst (spike_run (=) [LocalSpike True 0 (sample_payload ''RDS1''), LocalSpike True 3 (sample_payload ''RDS1'')]
       (sample_server ''RDS1''))
   in sorted_wrt (<) (map fst es) \<and> map fst es = [1]"
proof -
  let ?ops = "[LocalSpike True 0 (sample_payload ''RDS1''), LocalSpike True 3 (sample_payload ''RDS1'')]"
  obtain es s' where run: "spike_run (=) ?ops (sample_server ''RDS1'') = (es, s')" by fastforce
  have "sw_store (sample_server ''RDS1'') = Some \<lparr>es_rows = [], es_sequence = 0\<rparr>" by (simp add: sample_server_def)
  from spikes_announced_once [OF this sample_table_ok run] have "sorted_wrt (<) (map fst es)" by simp
  moreover have "map fst es = [1]"
    using run by (auto simp: spike_step_def ingest_local_def insert_spike_def insert_event_spike_def sample_server_def Let_def)
  ultimately show ?thesis by (simp only: run Let_def fst_conv simp_thms)
qed

lemma lower_case_spikes_not_listed_witness:
  "let (status, es, s') = handle_report_spike (=) \<lparr>sq_body = Some (sample_payload ''rds1''),
       sq_auth = Some \<lparr>ai_user = ''u'', ai_groups = [''Admins'']\<rparr>, sq_db_ok = True, sq_gap = 0\<rparr> (sample_server ''rds1'')
   in status = 200 \<and> length es = 1
      \<and> (\<forall>e \<in> set (reply_entries (handle_evt_spike_spikes (\<lambda>_. None) True (\<lambda>p. if p = ''host'' then ''rds1'' else []) s')).
            sk_host (snd e) \<noteq> ''rds1'')"
proof -
  let ?p = "sample_payload ''rds1''" and ?auth = "Some \<lparr>ai_user = ''u'', ai_groups = [''Admins'']\<rparr>"
  obtain status es s' where run: "handle_report_spike (=) \<lparr>sq_body = Some ?p, sq_auth = ?auth, sq_db_ok = True, sq_gap = 0\<rparr>
      (sample_server ''rds1'') = (status, es, s')" by (metis prod_cases3)
  have "CHR ''r'' \<in> set (sk_host ?p)" "is_lower CHR ''r''" by (simp_all add: sample_payload_def is_lower_def)
  moreover have "is_registered (sk_host ?p) (sw_roster (sample_server ''rds1''))"
    using sample_registered [of "''rds1''"] by (simp add: sample_payload_def)
  moreover have "sw_store (sample_server ''rds1'') = Some \<lparr>es_rows = [], es_sequence = 0\<rparr>" by (simp add: sample_server_def)
  moreover have "payload_key ?p \<notin> spike_key ` set (es_rows \<lparr>es_rows = [], es_sequence = 0\<rparr>)" by simp
  moreover have "is_authorized_for_host (=) ?auth (sk_host ?p) (sw_group (sample_server ''rds1''))"
    by (simp add: is_authorized_for_host_def ends_with_dollar_def is_dashboard_admin_def sample_server_def)
  ultimately have facts: "status = 200 \<and> map snd es = [?p]
      \<and> (\<exists>t'. sw_store s' = Some t' \<and> payload_key ?p \<in> spike_key ` set (es_rows t'))
      \<and> (\<forall>parse ok q. \<forall>e \<in> set (reply_entries (handle_evt_spike_spikes parse ok q s')). sk_host (snd e) \<noteq> sk_host ?p)"
    by (rule lower_case_spikes_not_listed [OF _ _ _ _ _ _ run])
  then have "length es = 1" using length_map [of snd es] by simp
  moreover have "sk_host ?p = ''rds1''" by (simp add: sample_payload_def)
  ultimately show ?thesis using facts unfolding run prod.case Let_def by metis
qed

end
