(* ===== verification/DataRetention.thy ===== *)
theory DataRetention
  imports MetricTiers WorkloadTiers AuditTrail EventSpikes
begin

text \<open>
  The background jobs on the whole telemetry database: one pass of \<open>Aggregator.RollOnce\<close> (both roll-ups of
  the metrics and of the session workload) and one pass of \<open>Retention.RunOnce\<close> with its chunked deletes.
  The lemmas show that a chunked delete ends and removes exactly the expired rows, that the retention
  pass deletes whole buckets only, and that hourly history survives it as long as it should.
\<close>

record telemetry_db =
  td_metrics :: metric_tables
  td_wraw :: "tier_row list"
  td_w5min :: "tier_row list"
  td_whourly :: "tier_row list"
  td_audit :: "stored_audit list"
  td_spikes :: spike_table
  td_jobs :: "job_row list"

subsection \<open>The aggregator\<close>

definition rollup_reason :: "rollup_error \<Rightarrow> string" where
  "rollup_reason e = (case e of
     UndecodableRow \<Rightarrow> ''telemetry: decode workload rollup: sessiondata: invalid workload histogram''
   | SeriesOverflow \<Rightarrow> ''sessiondata: invalid workload histogram'')"

definition agg_job :: "string \<Rightarrow> instant \<Rightarrow> instant \<Rightarrow> int \<Rightarrow> rollup_error option \<Rightarrow> job_row list \<Rightarrow> job_row list" where
  "agg_job name started finished rows err jobs =
     upsert_job name \<lparr>jr_started = started, jr_finished = finished,
       jr_outcome = (case err of None \<Rightarrow> ''success'' | Some _ \<Rightarrow> ''failure''),
       jr_reason = (case err of None \<Rightarrow> [] | Some e \<Rightarrow> rollup_reason e), jr_rows = rows\<rparr> jobs"

definition workload_or_keep :: "rollup_error + tier_row list \<Rightarrow> tier_row list \<Rightarrow> rollup_error option \<times> tier_row list" where
  "workload_or_keep r old = (case r of Inl e \<Rightarrow> (Some e, old) | Inr new \<Rightarrow> (None, new))"

definition aggregator_5min :: "Workload.float_ops \<Rightarrow> instant \<Rightarrow> instant \<Rightarrow> telemetry_db \<Rightarrow> telemetry_db" where
  "aggregator_5min fo now finished db =
     (let due = filter (\<lambda>r. bucket_start five_min_ms (rr_ts r) \<le> max_5min_bucket now) (mt_raw (td_metrics db));
          rows = int (length (remdups (map (raw_bucket five_min_ms) due)));
          (err, w) = workload_or_keep
             (roll_session_workload fo five_min_ms (max_5min_bucket now) (td_wraw db) (td_w5min db)) (td_w5min db)
      in db\<lparr>td_metrics := roll_5min now (td_metrics db), td_w5min := w,
            td_jobs := agg_job ''aggregator_5min'' now finished rows err (td_jobs db)\<rparr>)"

definition aggregator_hourly :: "Workload.float_ops \<Rightarrow> instant \<Rightarrow> instant \<Rightarrow> telemetry_db \<Rightarrow> telemetry_db" where
  "aggregator_hourly fo now finished db =
     (let due = filter (\<lambda>r. bucket_start hour_ms (bk_ts r) \<le> max_hourly_bucket now) (mt_5min (td_metrics db));
          rows = int (length (remdups (map hour_bucket due)));
          (err, w) = workload_or_keep
             (roll_session_workload fo hour_ms (max_hourly_bucket now) (td_w5min db) (td_whourly db)) (td_whourly db)
      in db\<lparr>td_metrics := roll_hourly now (td_metrics db), td_whourly := w,
            td_jobs := agg_job ''aggregator_hourly'' now finished rows err (td_jobs db)\<rparr>)"

definition aggregator_roll_once :: "Workload.float_ops \<Rightarrow> instant \<Rightarrow> instant \<Rightarrow> instant \<Rightarrow> telemetry_db \<Rightarrow> telemetry_db" where
  "aggregator_roll_once fo now fin5 finh db = aggregator_hourly fo now finh (aggregator_5min fo now fin5 db)"

subsection \<open>Deleting in chunks\<close>

definition chunk_size :: nat where "chunk_size = 10000"

text \<open>
  One \<open>DELETE ... WHERE key IN (SELECT key ... LIMIT 10000)\<close>. SQLite chooses in which order it visits
  the rows; \<open>scan\<close> is that order.
\<close>

definition delete_chunk :: "('r list \<Rightarrow> 'r list) \<Rightarrow> ('r \<Rightarrow> 'k) \<Rightarrow> ('r \<Rightarrow> bool) \<Rightarrow> 'r list \<Rightarrow> 'r list" where
  "delete_chunk scan key expired rows =
     (let doomed = key ` set (take chunk_size (filter expired (scan rows)))
      in filter (\<lambda>r. key r \<notin> doomed) rows)"

text \<open>
  The loop: \<open>running i\<close> says that the context is not cancelled before statement \<open>i\<close>. The result is the
  number of deleted rows, whether the loop came to its end, and the table.
\<close>

partial_function (option) delete_chunked ::
  "('r list \<Rightarrow> 'r list) \<Rightarrow> ('r \<Rightarrow> 'k) \<Rightarrow> ('r \<Rightarrow> bool) \<Rightarrow> (nat \<Rightarrow> bool) \<Rightarrow> nat \<Rightarrow> int \<Rightarrow> 'r list \<Rightarrow>
     (int \<times> bool \<times> 'r list) option" where
  "delete_chunked scan key expired running i deleted rows =
     (if \<not> running i then Some (deleted, False, rows)
      else if int (length rows) - int (length (delete_chunk scan key expired rows)) < int chunk_size
      then Some (deleted + (int (length rows) - int (length (delete_chunk scan key expired rows))), True,
                 delete_chunk scan key expired rows)
      else delete_chunked scan key expired running (Suc i)
             (deleted + (int (length rows) - int (length (delete_chunk scan key expired rows))))
             (delete_chunk scan key expired rows))"

lemma length_filter_split: "length rows = length (filter P rows) + length (filter (\<lambda>r. \<not> P r) rows)"
  by (simp add: sum_length_filter_compl)

lemma delete_chunk_facts:
  assumes "\<And>xs. mset (scan xs) = mset xs" and "has_pk key rows"
  shows "length (delete_chunk scan key expired rows) + min chunk_size (length (filter expired rows)) = length rows"
    and "filter (\<lambda>r. \<not> expired r) (delete_chunk scan key expired rows) = filter (\<lambda>r. \<not> expired r) rows"
    and "length (filter expired rows) < chunk_size \<Longrightarrow>
      delete_chunk scan key expired rows = filter (\<lambda>r. \<not> expired r) rows"
    and "has_pk key (delete_chunk scan key expired rows)"
proof -
  define found where "found = filter expired (scan rows)"
  have set: "set (scan rows) = set rows" using assms(1) by (metis set_mset_mset)
  have dist: "distinct found"
    using has_pk_distinct [OF assms(2)] assms(1) by (metis found_def distinct_filter mset_eq_imp_distinct_iff)
  have len: "length found = length (filter expired rows)"
    using assms(1) [of rows] by (metis found_def mset_filter size_mset)
  have inj: "inj_on key (set rows)" using assms(2) by (simp add: has_pk_def distinct_map)
  have sub: "set (take chunk_size found) \<subseteq> {r \<in> set rows. expired r}"
  proof -
    have "set found = {r \<in> set rows. expired r}" unfolding found_def set_filter set by simp
    then show ?thesis using set_take_subset [of chunk_size found] by simp
  qed
  have rest: "delete_chunk scan key expired rows = filter (\<lambda>r. r \<notin> set (take chunk_size found)) rows"
    unfolding delete_chunk_def Let_def found_def [symmetric]
    using inj sub by (intro filter_cong refl) (auto simp: inj_on_def dest: subsetD)
  have "length (filter (\<lambda>r. r \<in> set (take chunk_size found)) rows)
      = card (set (filter (\<lambda>r. r \<in> set (take chunk_size found)) rows))"
    using distinct_card [OF distinct_filter [OF has_pk_distinct [OF assms(2)]]] by metis
  also have "set (filter (\<lambda>r. r \<in> set (take chunk_size found)) rows) = set (take chunk_size found)" using sub by auto
  also have "card \<dots> = min chunk_size (length (filter expired rows))"
    using distinct_card [OF distinct_take [OF dist]] by (simp add: len min.commute)
  finally show "length (delete_chunk scan key expired rows) + min chunk_size (length (filter expired rows)) = length rows"
    using length_filter_split [of rows "\<lambda>r. r \<in> set (take chunk_size found)"] by (simp add: rest)
  show "filter (\<lambda>r. \<not> expired r) (delete_chunk scan key expired rows) = filter (\<lambda>r. \<not> expired r) rows"
    unfolding rest filter_filter using sub by (intro filter_cong refl) auto
  show "delete_chunk scan key expired rows = filter (\<lambda>r. \<not> expired r) rows" if "length (filter expired rows) < chunk_size"
  proof -
    have "set (take chunk_size found) = {r \<in> set rows. expired r}" using that len set by (auto simp: found_def)
    then show ?thesis unfolding rest by (intro filter_cong refl) auto
  qed
  show "has_pk key (delete_chunk scan key expired rows)" unfolding rest using assms(2) by simp
qed

lemma delete_chunked_result:
  assumes "\<And>xs. mset (scan xs) = mset xs"
  shows "has_pk key rows \<Longrightarrow>
    \<exists>n ok rows'. delete_chunked scan key expired running i deleted rows = Some (deleted + n, ok, rows')
      \<and> n = int (length rows) - int (length rows') \<and> has_pk key rows'
      \<and> filter (\<lambda>r. \<not> expired r) rows' = filter (\<lambda>r. \<not> expired r) rows
      \<and> (ok \<longrightarrow> rows' = filter (\<lambda>r. \<not> expired r) rows)
      \<and> ((\<forall>j \<le> length (filter expired rows) div chunk_size. running (i + j)) \<longrightarrow> ok)"
proof (induction "length (filter expired rows)" arbitrary: rows i deleted rule: less_induct)
  case less
  let ?next = "delete_chunk scan key expired rows"
  note facts = delete_chunk_facts [OF assms less.prems, of expired]
  show ?case
  proof (cases "running i")
    case False
    then have "\<not> (\<forall>j \<le> length (filter expired rows) div chunk_size. running (i + j))" by (metis add_0_right le0)
    moreover have "delete_chunked scan key expired running i deleted rows = Some (deleted + 0, False, rows)"
      using False by (simp add: delete_chunked.simps)
    ultimately show ?thesis using less.prems by (intro exI [of _ "0 :: int"] exI [of _ False] exI [of _ rows]) simp
  next
    case True
    note step = delete_chunked.simps [of scan key expired running i deleted rows]
    show ?thesis
    proof (cases "length (filter expired rows) < chunk_size")
      case small: True
      then have n: "int (length rows) - int (length ?next) = int (length (filter expired rows))" using facts(1) by simp
      then have "delete_chunked scan key expired running i deleted rows
          = Some (deleted + int (length (filter expired rows)), True, ?next)"
        using step True small by simp
      then show ?thesis using facts(2-4) n small
        by (intro exI [of _ "int (length (filter expired rows))"] exI [of _ True] exI [of _ ?next]) simp
    next
      case False
      then have n: "int (length rows) - int (length ?next) = int chunk_size" using facts(1) by simp
      then have run: "delete_chunked scan key expired running i deleted rows
          = delete_chunked scan key expired running (Suc i) (deleted + int chunk_size) ?next"
        using step True by simp
      have left: "length (filter expired ?next) + chunk_size = length (filter expired rows)"
        using facts(1,2) False length_filter_split [of rows expired] length_filter_split [of ?next expired] by simp
      have pos: "0 < chunk_size" by (simp add: chunk_size_def)
      have div: "length (filter expired rows) div chunk_size = Suc (length (filter expired ?next) div chunk_size)"
        using pos by (simp flip: left)
      have "length (filter expired ?next) < length (filter expired rows)" using left pos by linarith
      from less.hyps [OF this facts(4), of "Suc i" "deleted + int chunk_size"]
      obtain m ok rows' where ih: "delete_chunked scan key expired running (Suc i) (deleted + int chunk_size) ?next
            = Some (deleted + int chunk_size + m, ok, rows')"
          "m = int (length ?next) - int (length rows')" "has_pk key rows'"
          "filter (\<lambda>r. \<not> expired r) rows' = filter (\<lambda>r. \<not> expired r) ?next"
          "ok \<longrightarrow> rows' = filter (\<lambda>r. \<not> expired r) ?next"
          "(\<forall>j \<le> length (filter expired ?next) div chunk_size. running (Suc i + j)) \<longrightarrow> ok" by blast
      have "ok" if "\<forall>j \<le> length (filter expired rows) div chunk_size. running (i + j)"
        using ih(6) that by (metis div Suc_le_mono add_Suc add_Suc_right)
      then show ?thesis using ih run n facts(2)
        by (intro exI [of _ "int chunk_size + m"] exI [of _ ok] exI [of _ rows']) simp
    qed
  qed
qed

text \<open>
  C28: a chunked delete ends, whatever the table and the order in which SQLite visits it: it never removes
  a row that is not expired, it reports how many rows it removed, and when the context lives for one
  statement more than there are full chunks, exactly the expired rows are gone.
\<close>

theorem chunked_delete_ends:
  assumes "\<And>xs. mset (scan xs) = mset xs" and "has_pk key rows"
  shows "\<exists>n ok rows'. delete_chunked scan key expired running 0 0 rows = Some (n, ok, rows')
    \<and> n = int (length rows) - int (length rows')
    \<and> filter (\<lambda>r. \<not> expired r) rows' = filter (\<lambda>r. \<not> expired r) rows
    \<and> ((\<forall>j \<le> length (filter expired rows) div chunk_size. running j) \<longrightarrow>
        ok \<and> rows' = filter (\<lambda>r. \<not> expired r) rows)"
  using delete_chunked_result [OF assms, of expired running 0 0] by auto

subsection \<open>The retention pass\<close>

definition raw_cutoff :: "instant \<Rightarrow> int" where
  "raw_cutoff now = unix_milli (time_floor (5 * minute) (now - 25 * hour))"

definition five_min_cutoff :: "instant \<Rightarrow> int" where
  "five_min_cutoff now = unix_milli (time_floor hour (now - 6 * 24 * hour))"

definition days_cutoff :: "instant \<Rightarrow> int \<Rightarrow> int" where
  "days_cutoff now days = unix_milli (now - days * 24 * hour)"

record retention_settings =
  rs_metrics_days :: int
  rs_audit_days :: int

text \<open>
  What a pass gets from outside: the scan orders, the life of the context by table and statement, the
  text of its error, the time of the end and whether the final record is written.
\<close>

record retention_env =
  re_raw :: "raw_row list \<Rightarrow> raw_row list"
  re_bucket :: "bucket_row list \<Rightarrow> bucket_row list"
  re_tier :: "tier_row list \<Rightarrow> tier_row list"
  re_audit :: "stored_audit list \<Rightarrow> stored_audit list"
  re_spike :: "spike_row list \<Rightarrow> spike_row list"
  re_running :: "string \<Rightarrow> nat \<Rightarrow> bool"
  re_cause :: string
  re_finished :: instant
  re_recorded :: bool

text \<open>The outcome of one table is added to the result: the first failure names its table.\<close>

definition note_tier :: "string \<Rightarrow> string \<Rightarrow> int \<times> bool \<Rightarrow> job_result \<Rightarrow> job_result" where
  "note_tier label cause d r =
     (let r1 = r\<lparr>jr_rows := jr_rows r + fst d\<rparr>
      in if \<not> snd d \<and> jr_outcome r \<noteq> ''failure''
         then r1\<lparr>jr_outcome := ''failure'', jr_reason := label @ '': '' @ cause\<rparr> else r1)"

definition prune ::
  "('r list \<Rightarrow> 'r list) \<Rightarrow> ('r \<Rightarrow> 'k) \<Rightarrow> ('r \<Rightarrow> bool) \<Rightarrow> (nat \<Rightarrow> bool) \<Rightarrow> 'r list \<Rightarrow> ((int \<times> bool) \<times> 'r list) option" where
  "prune scan key expired running rows =
     (case delete_chunked scan key expired running 0 0 rows of
        None \<Rightarrow> None | Some (n, ok, rows') \<Rightarrow> Some ((n, ok), rows'))"

definition retention_run ::
  "retention_env \<Rightarrow> retention_settings \<Rightarrow> instant \<Rightarrow> telemetry_db \<Rightarrow> (job_result \<times> telemetry_db) option" where
  "retention_run env cfg now db =
     (let rc = raw_cutoff now; fc = five_min_cutoff now; hc = days_cutoff now (rs_metrics_days cfg);
          ac = days_cutoff now (rs_audit_days cfg); m = td_metrics db; lv = re_running env
      in case prune (re_raw env) raw_key (\<lambda>r. rr_ts r < rc) (lv ''metrics_raw'') (mt_raw m) of
           None \<Rightarrow> None | Some (d1, raw) \<Rightarrow>
        (case prune (re_bucket env) bucket_key (\<lambda>r. bk_ts r < fc) (lv ''metrics_5min'') (mt_5min m) of
           None \<Rightarrow> None | Some (d2, b5) \<Rightarrow>
        (case prune (re_bucket env) bucket_key (\<lambda>r. bk_ts r < hc) (lv ''metrics_hourly'') (mt_hourly m) of
           None \<Rightarrow> None | Some (d3, bh) \<Rightarrow>
        (case prune (re_tier env) tier_key (\<lambda>r. tw_bucket r < rc) (lv ''session_workload_raw'') (td_wraw db) of
           None \<Rightarrow> None | Some (d4, wr) \<Rightarrow>
        (case prune (re_tier env) tier_key (\<lambda>r. tw_bucket r < fc) (lv ''session_workload_5min'') (td_w5min db) of
           None \<Rightarrow> None | Some (d5, w5) \<Rightarrow>
        (case prune (re_tier env) tier_key (\<lambda>r. tw_bucket r < hc) (lv ''session_workload_hourly'') (td_whourly db) of
           None \<Rightarrow> None | Some (d6, wh) \<Rightarrow>
        (case prune (re_audit env) audit_key (\<lambda>r. ad_ts r < ac) (lv ''audit'') (td_audit db) of
           None \<Rightarrow> None | Some (d7, au) \<Rightarrow>
        (case prune (re_spike env) ek_id (\<lambda>r. ek_start r < ac) (lv ''event_spikes'') (es_rows (td_spikes db)) of
           None \<Rightarrow> None | Some (d8, sp) \<Rightarrow>
          (let notes = [(''metrics_raw'', d1), (''metrics_5min'', d2), (''metrics_hourly'', d3),
                 (''session_workload_raw'', d4), (''session_workload_5min'', d5), (''session_workload_hourly'', d6),
                 (''audit'', d7), (''event_spikes'', d8)];
               r0 = \<lparr>jr_started = now, jr_finished = re_finished env, jr_outcome = ''success'', jr_reason = [], jr_rows = 0\<rparr>;
               r = fold (\<lambda>(label, d). note_tier label (re_cause env) d) notes r0
           in Some (r, db\<lparr>td_metrics := \<lparr>mt_raw = raw, mt_5min = b5, mt_hourly = bh\<rparr>, td_wraw := wr, td_w5min := w5,
                td_whourly := wh, td_audit := au, td_spikes := (td_spikes db)\<lparr>es_rows := sp\<rparr>,
                td_jobs := (if re_recorded env then upsert_job ''retention'' r (td_jobs db) else td_jobs db)\<rparr>))))))))))"

definition env_fair :: "retention_env \<Rightarrow> bool" where
  "env_fair env \<longleftrightarrow> (\<forall>xs. mset (re_raw env xs) = mset xs) \<and> (\<forall>xs. mset (re_bucket env xs) = mset xs)
     \<and> (\<forall>xs. mset (re_tier env xs) = mset xs) \<and> (\<forall>xs. mset (re_audit env xs) = mset xs)
     \<and> (\<forall>xs. mset (re_spike env xs) = mset xs) \<and> (\<forall>l i. re_running env l i)"

definition db_ok :: "telemetry_db \<Rightarrow> bool" where
  "db_ok db \<longleftrightarrow> tables_ok (td_metrics db) \<and> has_pk tier_key (td_wraw db) \<and> has_pk tier_key (td_w5min db)
     \<and> has_pk tier_key (td_whourly db) \<and> has_pk audit_key (td_audit db) \<and> has_pk ek_id (es_rows (td_spikes db))"

text \<open>What a complete delete reports.\<close>

definition pruned :: "('r \<Rightarrow> bool) \<Rightarrow> 'r list \<Rightarrow> int \<times> bool" where
  "pruned expired rows = (int (length (filter expired rows)), True)"

lemma prune_all:
  assumes "\<forall>xs. mset (scan xs) = mset xs" and "has_pk key rows" and "\<forall>l i. running l i"
  shows "prune scan key expired (running l) rows = Some (pruned expired rows, filter (\<lambda>r. \<not> expired r) rows)"
proof -
  obtain n ok rows' where "delete_chunked scan key expired (running l) 0 0 rows = Some (0 + n, ok, rows')"
    "n = int (length rows) - int (length rows')" "ok \<longrightarrow> rows' = filter (\<lambda>r. \<not> expired r) rows" ok
    using delete_chunked_result [of scan, OF _ assms(2), of expired "running l" 0 0] assms(1,3) by blast
  then show ?thesis using length_filter_split [of rows expired] by (simp add: prune_def pruned_def)
qed

lemma note_pruned: "jr_outcome (note_tier label cause (pruned P rows) r) = jr_outcome r"
  by (simp add: note_tier_def pruned_def)

definition metrics_retained :: "instant \<Rightarrow> int \<Rightarrow> metric_tables \<Rightarrow> metric_tables" where
  "metrics_retained now days t =
     \<lparr>mt_raw = filter (\<lambda>r. raw_cutoff now \<le> rr_ts r) (mt_raw t),
      mt_5min = filter (\<lambda>r. five_min_cutoff now \<le> bk_ts r) (mt_5min t),
      mt_hourly = filter (\<lambda>r. days_cutoff now days \<le> bk_ts r) (mt_hourly t)\<rparr>"

text \<open>In a fair pass every table loses exactly its expired rows and the outcome is a success.\<close>

lemma retention_run_eq:
  assumes "env_fair env" and "db_ok db"
  obtains r db' where "retention_run env cfg now db = Some (r, db')"
    "td_metrics db' = metrics_retained now (rs_metrics_days cfg) (td_metrics db)"
    "td_audit db' = filter (\<lambda>a. \<not> ad_ts a < days_cutoff now (rs_audit_days cfg)) (td_audit db)"
    "jr_outcome r = ''success''"
proof -
  have fair: "\<forall>xs. mset (re_raw env xs) = mset xs" "\<forall>xs. mset (re_bucket env xs) = mset xs"
      "\<forall>xs. mset (re_tier env xs) = mset xs" "\<forall>xs. mset (re_audit env xs) = mset xs"
      "\<forall>xs. mset (re_spike env xs) = mset xs" "\<forall>l i. re_running env l i"
    using assms(1) by (simp_all add: env_fair_def)
  have pk: "has_pk raw_key (mt_raw (td_metrics db))" "has_pk bucket_key (mt_5min (td_metrics db))"
      "has_pk bucket_key (mt_hourly (td_metrics db))" "has_pk tier_key (td_wraw db)" "has_pk tier_key (td_w5min db)"
      "has_pk tier_key (td_whourly db)" "has_pk audit_key (td_audit db)" "has_pk ek_id (es_rows (td_spikes db))"
    using assms(2) by (simp_all add: db_ok_def tables_ok_def)
  note prunes = prune_all [OF fair(1) pk(1) fair(6)] prune_all [OF fair(2) pk(2) fair(6)]
    prune_all [OF fair(2) pk(3) fair(6)] prune_all [OF fair(3) pk(4) fair(6)] prune_all [OF fair(3) pk(5) fair(6)]
    prune_all [OF fair(3) pk(6) fair(6)] prune_all [OF fair(4) pk(7) fair(6)] prune_all [OF fair(5) pk(8) fair(6)]
  show ?thesis
    by (rule that, simp only: retention_run_def Let_def prunes option.case prod.case)
      (simp_all add: metrics_retained_def not_less note_pruned)
qed

subsection \<open>Hourly history survives the retention of its sources\<close>

lemma cutoff_values:
  "raw_cutoff now = (now - 90000 * second) div (300 * second) * five_min_ms"
  "five_min_cutoff now = (now - 518400 * second) div (3600 * second) * hour_ms"
  by (simp_all add: raw_cutoff_def five_min_cutoff_def unix_milli_def time_floor_def second_def minute_def hour_def)

lemma five_min_before_raw: "five_min_cutoff now \<le> raw_cutoff now"
  unfolding cutoff_values by (simp add: second_def)

text \<open>A cut at a multiple of the width keeps a bucket whole.\<close>

lemma bucket_whole:
  assumes "0 < w" and "0 \<le> ts"
  shows "c * w \<le> ts \<longleftrightarrow> c * w \<le> bucket_start w ts"
proof -
  have "ts div w * w \<le> ts" using div_mult_mod_eq [of ts w] pos_mod_sign [OF assms(1), of ts] by linarith
  moreover have "c \<le> ts div w" if "c * w \<le> ts" using zdiv_mono1 [OF that assms(1)] assms(1) by simp
  moreover have "c * w \<le> ts div w * w" if "c \<le> ts div w" using that assms(1) by (simp add: mult_right_mono)
  moreover have "bucket_start w ts = ts div w * w" using assms by (simp add: bucket_start_def go_div_pos)
  ultimately show ?thesis by (metis order_trans)
qed

lemma below_bucket_end:
  assumes "0 < w"
  shows "ts < bucket_start w ts + w"
proof (cases "0 \<le> ts")
  case True
  have "ts < ts div w * w + w" using div_mult_mod_eq [of ts w] pos_mod_bound [OF assms, of ts] by linarith
  then show ?thesis using True assms by (simp add: bucket_start_def go_div_pos)
next
  case False
  have "- ts div w * w \<le> - ts" using div_mult_mod_eq [of "- ts" w] pos_mod_sign [OF assms, of "- ts"] by linarith
  then show ?thesis using False assms by (simp add: bucket_start_def go_div_neg)
qed

lemma aggregate_5min_cong:
  assumes "has_pk bucket_key xs" and "has_pk bucket_key ys" and "set xs = set ys"
  shows "aggregate_5min k xs = aggregate_5min k ys"
  using sum_list_rows [OF assms, of bk_count] sum_list_rows [OF assms, of "\<lambda>r. bk_avg r * of_int (bk_count r)"] assms(3)
  by (cases k) (simp add: aggregate_5min_def)

text \<open>A pass of the aggregator computes an hour from the five-minute rows of that hour alone.\<close>

lemma row_hourly_cong:
  assumes "tables_ok t" and "tables_ok t'" and due: "fst (snd k) \<le> max_hourly_bucket now" "fst (snd k) \<le> max_hourly_bucket now'"
    and same: "\<And>q. hour_of q = k \<Longrightarrow> row_5min t q = row_5min t' q"
  shows "row_hourly (roll_hourly now t) k =
    (if filter (\<lambda>b. hour_bucket b = k) (mt_5min t') = [] then row_hourly t k else row_hourly (roll_hourly now' t') k)"
proof -
  have pk: "has_pk bucket_key (mt_5min t)" "has_pk bucket_key (mt_5min t')" using assms(1,2) by (simp_all add: tables_ok_def)
  have "set (filter (\<lambda>b. hour_bucket b = k) (mt_5min t)) = set (filter (\<lambda>b. hour_bucket b = k) (mt_5min t'))"
    using same_rows [OF pk, of "{q. hour_of q = k}"] same by (simp add: hour_bucket_of)
  then have "aggregate_5min k (filter (\<lambda>b. hour_bucket b = k) (mt_5min t))
      = aggregate_5min k (filter (\<lambda>b. hour_bucket b = k) (mt_5min t'))"
    and "filter (\<lambda>b. hour_bucket b = k) (mt_5min t) = [] \<longleftrightarrow> filter (\<lambda>b. hour_bucket b = k) (mt_5min t') = []"
    using pk by (auto intro: aggregate_5min_cong simp: filter_empty_conv)
  then show ?thesis using due by (simp add: row_hourly_roll Let_def)
qed

lemma max_hourly_mono: "now \<le> now' \<Longrightarrow> max_hourly_bucket now \<le> max_hourly_bucket now'"
  by (simp add: max_bucket_value second_def zdiv_mono1)

text \<open>The five-minute rows of a due hour that the retention keeps come out of the next pass unchanged.\<close>

lemma kept_hour_unchanged:
  assumes late: "\<forall>r \<in> set (mt_raw t). 0 \<le> rr_ts r" and due: "fst (snd k) \<le> max_hourly_bucket now1" and "now1 \<le> now3"
    and kept: "five_min_cutoff now2 \<le> fst (snd k)" and k: "hour_of q = k" and pos: "0 \<le> fst (snd q)"
  shows "row_5min (roll_5min now3 (metrics_retained now2 days (roll_once now1 t))) q = row_5min (roll_once now1 t) q"
proof -
  let ?t1 = "roll_once now1 t" and ?t2 = "metrics_retained now2 days (roll_once now1 t)"
  let ?rs = "\<lambda>rows. filter (\<lambda>r. raw_bucket five_min_ms r = q) rows"
  have start: "fst (snd k) = bucket_start hour_ms (fst (snd q))" using k by (cases q) (auto simp: hour_of_def)
  have due5: "bucket_start five_min_ms ts \<le> max_5min_bucket now3" "bucket_start five_min_ms ts \<le> max_5min_bucket now1"
    if "raw_bucket five_min_ms r = q" "ts = rr_ts r" for ts r
  proof -
    have "k = raw_bucket hour_ms r" using k that(1) by (simp flip: hour_of_raw)
    then have "fst (snd k) = bucket_start hour_ms ts" using that(2) by (simp add: raw_bucket_def)
    then show "bucket_start five_min_ms ts \<le> max_5min_bucket now3" "bucket_start five_min_ms ts \<le> max_5min_bucket now1"
      using due max_hourly_mono [OF assms(3)] watermarks_agree by (force intro: order_trans)+
  qed
  have keep5: "row_5min ?t2 q = row_5min ?t1 q"
  proof -
    obtain c where c: "five_min_cutoff now2 = c * hour_ms" by (simp add: cutoff_values)
    have "five_min_cutoff now2 \<le> fst (snd q)" using kept bucket_whole [of hour_ms "fst (snd q)" c] pos by (simp add: start c)
    then show ?thesis by (auto simp: metrics_retained_def bucket_key_def intro!: row_at_filter)
  qed
  have raw2: "?rs (mt_raw ?t2) = (if raw_cutoff now2 \<le> fst (snd q) then ?rs (mt_raw t) else [])"
  proof -
    obtain c where c: "raw_cutoff now2 = c * five_min_ms" by (simp add: cutoff_values)
    have "raw_cutoff now2 \<le> rr_ts r \<longleftrightarrow> raw_cutoff now2 \<le> fst (snd q)"
      if "r \<in> set (mt_raw t)" "raw_bucket five_min_ms r = q" for r
      using bucket_whole [of five_min_ms "rr_ts r" c] late that by (auto simp: c raw_bucket_def)
    then show ?thesis
      by (auto simp: metrics_retained_def roll_once_def filter_empty_conv intro!: filter_cong)
  qed
  have q_due: "fst (snd q) \<le> max_5min_bucket now3 \<and> fst (snd q) \<le> max_5min_bucket now1" if "?rs (mt_raw t) \<noteq> []"
  proof -
    from that obtain r where r: "raw_bucket five_min_ms r = q" by (auto simp: filter_empty_conv)
    show ?thesis using due5 [OF r refl] r by (auto simp: raw_bucket_def)
  qed
  have t1: "row_5min ?t1 q = (if ?rs (mt_raw t) \<noteq> [] then Some (aggregate_raw q (?rs (mt_raw t))) else row_5min t q)"
    using q_due by (simp add: roll_once_def row_5min_roll Let_def)
  show ?thesis
  proof (cases "?rs (mt_raw ?t2) = []")
    case True
    then show ?thesis using keep5 by (simp add: row_5min_roll Let_def)
  next
    case False
    then have "?rs (mt_raw ?t2) = ?rs (mt_raw t)" "?rs (mt_raw t) \<noteq> []" using raw2 by (auto split: if_splits)
    then show ?thesis using t1 q_due by (simp add: row_5min_roll Let_def)
  qed
qed

lemma bucket_start_pos: "0 < w \<Longrightarrow> 0 < bucket_start w ts \<Longrightarrow> 0 \<le> ts"
proof (rule ccontr)
  assume "0 < w" "0 < bucket_start w ts" "\<not> 0 \<le> ts"
  then have "0 \<le> - ts div w * w" by (simp add: pos_imp_zdiv_nonneg_iff)
  then show False using \<open>0 < w\<close> \<open>0 < bucket_start w ts\<close> \<open>\<not> 0 \<le> ts\<close>
    by (simp add: bucket_start_def go_div_neg)
qed

text \<open>Of an hour before the cut of the five-minute rows nothing is left to compute it from.\<close>

lemma dropped_hour_empty:
  assumes "fst (snd k) + hour_ms \<le> five_min_cutoff now2"
  shows "filter (\<lambda>b. hour_bucket b = k) (mt_5min (roll_5min now3 (metrics_retained now2 days t))) = []"
proof -
  let ?t = "metrics_retained now2 days t"
  have below: "ts < five_min_cutoff now2" if "bucket_start hour_ms ts = fst (snd k)" for ts
    using below_bucket_end [of hour_ms ts] that assms by simp
  have "b \<notin> set (mt_5min (roll_5min now3 ?t))" if "hour_bucket b = k" for b
  proof
    assume "b \<in> set (mt_5min (roll_5min now3 ?t))"
    then have "row_5min (roll_5min now3 ?t) (bucket_key b) \<noteq> None" by (auto simp: row_at_None)
    then consider r where "r \<in> set (mt_raw ?t)" "raw_bucket five_min_ms r = bucket_key b"
      | b' where "b' \<in> set (mt_5min ?t)" "bucket_key b' = bucket_key b"
      by (auto simp: row_5min_roll Let_def filter_empty_conv split: if_splits dest: row_at_Some)
    then show False
    proof cases
      case 1
      then have "raw_bucket hour_ms r = k" using that by (simp add: hour_bucket_of flip: hour_of_raw)
      then have "rr_ts r < five_min_cutoff now2" using below by (auto simp: raw_bucket_def)
      then show False using 1(1) five_min_before_raw [of now2] by (auto simp: metrics_retained_def)
    next
      case 2
      then have "hour_bucket b' = k" using that by (simp add: hour_bucket_of)
      then have "bk_ts b' < five_min_cutoff now2" using below by (auto simp: hour_bucket_def)
      then show False using 2(1) by (auto simp: metrics_retained_def)
    qed
  qed
  then show ?thesis by (auto simp: filter_empty_conv)
qed

lemma tables_ok_retained: "tables_ok t \<Longrightarrow> tables_ok (metrics_retained now days t)"
  by (simp add: tables_ok_def metrics_retained_def)

lemma tables_ok_roll_once: "tables_ok t \<Longrightarrow> tables_ok (roll_once now t)"
  by (simp add: roll_once_def tables_ok_roll)

text \<open>An hour that was due is, after a retention pass and the next roll-up, what it was, or what the retention left of it.\<close>

lemma hour_after_retention:
  assumes ok: "tables_ok t" and late: "\<forall>r \<in> set (mt_raw t). 0 \<le> rr_ts r"
    and due: "fst (snd k) \<le> max_hourly_bucket now1" and "now1 \<le> now3" and pos: "0 < fst (snd k)"
    and t1_def: "t1 = roll_once now1 t" and t2_def: "t2 = metrics_retained now2 days t1"
  shows "row_hourly (roll_once now3 t2) k =
    (if five_min_cutoff now2 \<le> fst (snd k) \<and> filter (\<lambda>b. hour_bucket b = k) (mt_5min t1) \<noteq> []
     then row_hourly t1 k else row_hourly t2 k)"
proof (cases "five_min_cutoff now2 \<le> fst (snd k)")
  case True
  have same: "row_5min (roll_5min now3 t2) q = row_5min (roll_5min now1 t) q" if "hour_of q = k" for q
  proof -
    have "0 \<le> fst (snd q)" using bucket_start_pos [of hour_ms "fst (snd q)"] pos that by (cases q) (auto simp: hour_of_def)
    then show ?thesis
      using kept_hour_unchanged [OF late due assms(4) True that, of days] by (simp add: t1_def t2_def roll_once_def)
  qed
  have oks: "tables_ok (roll_5min now3 t2)" "tables_ok (roll_5min now1 t)"
    unfolding t2_def t1_def using ok by (intro tables_ok_roll tables_ok_retained tables_ok_roll_once; assumption)+
  have "fst (snd k) \<le> max_hourly_bucket now3" using due max_hourly_mono [OF assms(4)] by simp
  from row_hourly_cong [OF oks this due same]
  show ?thesis using True by (simp add: roll_once_def t1_def)
next
  case False
  obtain c where "five_min_cutoff now2 = c * hour_ms" by (simp add: cutoff_values)
  moreover have "fst (snd k) < five_min_cutoff now2" using False by simp
  ultimately have cut: "five_min_cutoff now2 = c * hour_ms" "fst (snd k) < five_min_cutoff now2" by simp_all
  show ?thesis
  proof (cases "fst (snd k) + hour_ms \<le> five_min_cutoff now2")
    case gone: True
    then show ?thesis using False
      using dropped_hour_empty [OF gone, of now3 days t1]
      by (simp add: roll_once_def [of now3] row_hourly_roll Let_def t2_def)
  next
    case odd: False
    have "hour_bucket b \<noteq> k" for b
    proof
      assume "hour_bucket b = k"
      then obtain d where "fst (snd k) = d * hour_ms" by (auto simp: hour_bucket_def bucket_start_def)
      then have "d < c" "\<not> (d + 1) * hour_ms \<le> c * hour_ms"
        using odd cut by simp_all
      then show False by simp
    qed
    then show ?thesis using False by (simp add: roll_once_def [of now3] row_hourly_roll Let_def)
  qed
qed

lemma td_metrics_roll [simp]: "td_metrics (aggregator_roll_once fo now f5 fh db) = roll_once now (td_metrics db)"
  by (simp add: aggregator_roll_once_def aggregator_hourly_def aggregator_5min_def roll_once_def Let_def split: prod.split)

lemma workload_keeps_pk:
  assumes "has_pk tier_key old" and "workload_or_keep (roll_session_workload fo w m src old) old = (err, new)"
  shows "has_pk tier_key new"
  using assms by (auto simp: workload_or_keep_def roll_session_workload_def Let_def split: sum.splits)

lemma db_ok_roll: "db_ok db \<Longrightarrow> db_ok (aggregator_roll_once fo now f5 fh db)"
  by (auto simp: db_ok_def aggregator_roll_once_def aggregator_hourly_def aggregator_5min_def Let_def
      tables_ok_roll workload_keeps_pk split: prod.split)

text \<open>
  C13: an hour that was due at one pass of the aggregator keeps its hourly row: a retention pass and the
  next pass of the aggregator change nothing in it, although its raw samples and later its five-minute
  rows are deleted underneath. The hour must still be within the configured number of days when the
  retention runs, the deletes of the pass must run to their end, and no samples may arrive between the
  two passes of the aggregator.
\<close>

theorem hourly_history_survives:
  assumes "db_ok db" and "env_fair env" and "\<forall>r \<in> set (mt_raw (td_metrics db)). 0 \<le> rr_ts r"
    and "retention_run env cfg now2 (aggregator_roll_once fo now1 f1 g1 db) = Some (res, db2)"
    and "hr \<le> max_hourly_bucket now1" and "now1 \<le> now3" and "0 < hr"
    and "days_cutoff now2 (rs_metrics_days cfg) \<le> hr"
  shows "row_hourly (td_metrics (aggregator_roll_once fo now3 f3 g3 db2)) (host, hr, counter)
    = row_hourly (td_metrics (aggregator_roll_once fo now1 f1 g1 db)) (host, hr, counter)"
proof -
  let ?k = "(host, hr, counter)" and ?t1 = "roll_once now1 (td_metrics db)"
  have t2: "td_metrics db2 = metrics_retained now2 (rs_metrics_days cfg) ?t1"
    using retention_run_eq [OF assms(2) db_ok_roll [OF assms(1)]] assms(4) by (metis Pair_inject option.inject td_metrics_roll)
  have "row_hourly (td_metrics db2) ?k = row_hourly ?t1 ?k"
    using assms(8) by (auto simp: t2 metrics_retained_def bucket_key_def intro!: row_at_filter)
  moreover have "tables_ok (td_metrics db)" using assms(1) by (simp add: db_ok_def)
  ultimately show ?thesis
    using hour_after_retention [OF _ assms(3) _ assms(6) _ refl t2, of ?k] assms(5,7) by simp
qed

text \<open>
  With fewer than six days of metrics history an hourly row does not stay deleted: the retention pass
  removes the row of an hour whose five-minute rows it keeps, and the next pass of the aggregator stores
  it again.
\<close>

theorem expired_hours_return:
  assumes "db_ok db" and "env_fair env" and "\<forall>r \<in> set (mt_raw (td_metrics db)). 0 \<le> rr_ts r"
    and "retention_run env cfg now2 (aggregator_roll_once fo now1 f1 g1 db) = Some (res, db2)"
    and "hr \<le> max_hourly_bucket now1" and "now1 \<le> now3" and "0 < hr"
    and "hr < days_cutoff now2 (rs_metrics_days cfg)" and "five_min_cutoff now2 \<le> hr"
    and "b \<in> set (mt_5min (td_metrics (aggregator_roll_once fo now1 f1 g1 db)))" and "hour_bucket b = (host, hr, counter)"
  shows "row_hourly (td_metrics db2) (host, hr, counter) = None
    \<and> row_hourly (td_metrics (aggregator_roll_once fo now3 f3 g3 db2)) (host, hr, counter) \<noteq> None"
proof -
  let ?k = "(host, hr, counter)" and ?t1 = "roll_once now1 (td_metrics db)"
  have t2: "td_metrics db2 = metrics_retained now2 (rs_metrics_days cfg) ?t1"
    using retention_run_eq [OF assms(2) db_ok_roll [OF assms(1)]] assms(4) by (metis Pair_inject option.inject td_metrics_roll)
  have "row_hourly (td_metrics db2) ?k = None"
    using assms(8) by (auto simp: t2 metrics_retained_def bucket_key_def row_at_None)
  moreover have ok: "tables_ok (td_metrics db)" using assms(1) by (simp add: db_ok_def)
  have some: "filter (\<lambda>b. hour_bucket b = ?k) (mt_5min ?t1) \<noteq> []" using assms(10,11) by (auto simp: filter_empty_conv)
  then have "row_hourly ?t1 ?k \<noteq> None" using assms(5) by (simp add: roll_once_def row_hourly_roll Let_def)
  then have "row_hourly (roll_once now3 (td_metrics db2)) ?k \<noteq> None"
    using hour_after_retention [OF ok assms(3) _ assms(6) _ refl t2, of ?k] assms(5,7,9) some by simp
  ultimately show ?thesis by simp
qed

subsection \<open>Witnesses\<close>

lemma chunked_delete_ends_witness:
  "\<exists>rows'. delete_chunked (\<lambda>xs. xs) (\<lambda>r. r) (\<lambda>r. r < 5) (\<lambda>_. True) 0 0 [3, 7, 4 :: nat] = Some (2, True, rows') \<and> rows' = [7]"
proof -
  have "has_pk (\<lambda>r. r) [3, 7, 4 :: nat]" by (simp add: has_pk_def)
  from chunked_delete_ends [of "\<lambda>xs. xs", OF refl this, of "\<lambda>r. r < 5" "\<lambda>_. True"]
  show ?thesis by auto
qed

definition sample_db :: telemetry_db where
  "sample_db = \<lparr>td_metrics = \<lparr>mt_raw = [sample_raw 3600000 10, sample_raw 3660000 20], mt_5min = [], mt_hourly = []\<rparr>,
     td_wraw = [], td_w5min = [], td_whourly = [], td_audit = [], td_spikes = \<lparr>es_rows = [], es_sequence = 0\<rparr>, td_jobs = []\<rparr>"

definition sample_env :: retention_env where
  "sample_env = \<lparr>re_raw = (\<lambda>xs. xs), re_bucket = (\<lambda>xs. xs), re_tier = (\<lambda>xs. xs), re_audit = (\<lambda>xs. xs),
     re_spike = (\<lambda>xs. xs), re_running = (\<lambda>_ _. True), re_cause = [], re_finished = 0, re_recorded = True\<rparr>"

lemma sample_facts:
  "db_ok sample_db" "env_fair sample_env" "\<forall>r \<in> set (mt_raw (td_metrics sample_db)). 0 \<le> rr_ts r"
  "3600000 \<le> max_hourly_bucket (4 * hour)"
  by (simp_all add: db_ok_def tables_ok_def has_pk_def sample_db_def raw_key_def sample_raw_def env_fair_def sample_env_def
      max_bucket_value second_def minute_def hour_def)

text \<open>The history is read 30 hours later: with 30 days of history, and with one.\<close>

lemma hourly_history_survives_witness:
  "\<exists>res db2. retention_run sample_env \<lparr>rs_metrics_days = 30, rs_audit_days = 30\<rparr> (34 * hour)
      (aggregator_roll_once example_float_ops (4 * hour) 0 0 sample_db) = Some (res, db2)
    \<and> row_hourly (td_metrics (aggregator_roll_once example_float_ops (35 * hour) 0 0 db2)) (''H'', 3600000, ''cpu'')
      = row_hourly (td_metrics (aggregator_roll_once example_float_ops (4 * hour) 0 0 sample_db)) (''H'', 3600000, ''cpu'')"
proof -
  obtain res db2 where run: "retention_run sample_env \<lparr>rs_metrics_days = 30, rs_audit_days = 30\<rparr> (34 * hour)
      (aggregator_roll_once example_float_ops (4 * hour) 0 0 sample_db) = Some (res, db2)"
    using retention_run_eq [OF sample_facts(2) db_ok_roll [OF sample_facts(1)]] by metis
  have "days_cutoff (34 * hour) 30 \<le> 3600000" "4 * hour \<le> 35 * hour"
    by (simp_all add: days_cutoff_def unix_milli_def hour_def minute_def second_def)
  then show ?thesis
    using hourly_history_survives [OF sample_facts(1-3) run sample_facts(4)] run by auto
qed

lemma expired_hours_return_witness:
  "\<exists>res db2. retention_run sample_env \<lparr>rs_metrics_days = 1, rs_audit_days = 30\<rparr> (34 * hour)
      (aggregator_roll_once example_float_ops (4 * hour) 0 0 sample_db) = Some (res, db2)
    \<and> row_hourly (td_metrics db2) (''H'', 3600000, ''cpu'') = None
    \<and> row_hourly (td_metrics (aggregator_roll_once example_float_ops (35 * hour) 0 0 db2)) (''H'', 3600000, ''cpu'') \<noteq> None"
proof -
  let ?k = "(''H'', 3600000, ''cpu'')"
  obtain res db2 where run: "retention_run sample_env \<lparr>rs_metrics_days = 1, rs_audit_days = 30\<rparr> (34 * hour)
      (aggregator_roll_once example_float_ops (4 * hour) 0 0 sample_db) = Some (res, db2)"
    using retention_run_eq [OF sample_facts(2) db_ok_roll [OF sample_facts(1)]] by metis
  have times: "3600000 < days_cutoff (34 * hour) 1" "4 * hour \<le> 35 * hour" "five_min_cutoff (34 * hour) \<le> 3600000"
    by (simp_all add: days_cutoff_def cutoff_values unix_milli_def hour_def minute_def second_def)
  have "max_5min_bucket (4 * hour) = 13800000" by (simp add: max_bucket_value hour_def minute_def second_def)
  then have "row_5min (roll_5min (4 * hour) (td_metrics sample_db)) ?k \<noteq> None"
    by (simp add: row_5min_roll Let_def sample_db_def sample_raw_def raw_bucket_def bucket_start_def go_div_def)
  then obtain b where "b \<in> set (mt_5min (roll_5min (4 * hour) (td_metrics sample_db)))" "bucket_key b = ?k"
    by (auto dest: row_at_Some)
  then have b: "b \<in> set (mt_5min (td_metrics (aggregator_roll_once example_float_ops (4 * hour) 0 0 sample_db)))"
    "hour_bucket b = ?k"
    by (simp_all add: roll_once_def hour_bucket_of hour_of_def bucket_start_def go_div_def)
  show ?thesis
    using expired_hours_return [OF sample_facts(1-3) run sample_facts(4) times(2) _ _ times(3) b] times(1) run by auto
qed

end
