(* ===== verification/MetricQueries.thy ===== *)
theory MetricQueries
  imports MetricTiers "HOL-Library.AList"
begin

text \<open>
  Reading the metrics of one host, from \<open>telemetry/metrics.go\<close>: the series of a window in each tier,
  the span of time a tier holds, and the samples nearest to an instant. The lemmas show that a series
  holds one point per bucket, in time order and in arrays of one length. An error of the database is
  not modelled, and neither is the rounding of its averages.
\<close>

subsection \<open>Series\<close>

datatype tier = TierRaw | TierOneMin | TierFiveMin | TierHourly

definition tier_name :: "tier \<Rightarrow> string" where
  "tier_name t = (case t of TierRaw \<Rightarrow> ''raw'' | TierOneMin \<Rightarrow> ''1min'' | TierFiveMin \<Rightarrow> ''5min'' | TierHourly \<Rightarrow> ''hourly'')"

record counter_series =
  cs_t :: "int list"
  cs_avg :: "rat list"
  cs_min :: "rat list"
  cs_max :: "rat list"
  cs_p50 :: "rat list"

type_synonym series_data = "(string \<times> counter_series) list"

record metric_series =
  se_host :: string
  se_tier :: tier
  se_from :: instant
  se_to :: instant
  se_oldest :: "instant option"
  se_newest :: "instant option"
  se_data :: series_data

definition empty_counter :: counter_series where
  "empty_counter = \<lparr>cs_t = [], cs_avg = [], cs_min = [], cs_max = [], cs_p50 = []\<rparr>"

text \<open>A row of a result: bucket, counter, average, minimum and maximum.\<close>

record point_row =
  pt_bucket :: int
  pt_counter :: string
  pt_avg :: rat
  pt_min :: rat
  pt_max :: rat

text \<open>\<open>getOrMakeCounter\<close> and the appends of one scanned row; the host queries also set the median.\<close>

definition add_point :: "bool \<Rightarrow> point_row \<Rightarrow> series_data \<Rightarrow> series_data" where
  "add_point p50 r data =
     (let cs = (case map_of data (pt_counter r) of None \<Rightarrow> empty_counter | Some cs \<Rightarrow> cs)
      in AList.update (pt_counter r)
           \<lparr>cs_t = cs_t cs @ [pt_bucket r], cs_avg = cs_avg cs @ [pt_avg r], cs_min = cs_min cs @ [pt_min r],
            cs_max = cs_max cs @ [pt_max r], cs_p50 = cs_p50 cs @ (if p50 then [pt_avg r] else [])\<rparr> data)"

definition wanted :: "string list \<Rightarrow> string \<Rightarrow> bool" where
  "wanted counters c \<longleftrightarrow> counters = [] \<or> c \<in> set counters"

text \<open>\<open>ORDER BY counter, bucket\<close>.\<close>

definition by_counter :: "point_row list \<Rightarrow> point_row list" where
  "by_counter rows = sort_key (\<lambda>r. (pt_counter r, pt_bucket r)) rows"

subsection \<open>One host\<close>

definition raw_points :: "string \<Rightarrow> int \<Rightarrow> int \<Rightarrow> string list \<Rightarrow> metric_tables \<Rightarrow> point_row list" where
  "raw_points host from_ms to_ms counters t =
     by_counter (map (\<lambda>r. \<lparr>pt_bucket = rr_ts r, pt_counter = rr_counter r, pt_avg = rr_value r, pt_min = rr_value r,
                            pt_max = rr_value r\<rparr>)
       (filter (\<lambda>r. rr_host r = host \<and> from_ms \<le> rr_ts r \<and> rr_ts r < to_ms \<and> wanted counters (rr_counter r)) (mt_raw t)))"

definition one_min_points :: "string \<Rightarrow> int \<Rightarrow> int \<Rightarrow> string list \<Rightarrow> metric_tables \<Rightarrow> point_row list" where
  "one_min_points host from_ms to_ms counters t =
     (let from_ms = bucket_start 60000 from_ms; to_ms = bucket_start 60000 to_ms
      in by_counter (group_by (\<lambda>r. (rr_counter r, bucket_start 60000 (rr_ts r)))
           (\<lambda>k rs. \<lparr>pt_bucket = snd k, pt_counter = fst k, pt_avg = sql_avg (map rr_value rs),
                     pt_min = Min (rr_value ` set rs), pt_max = Max (rr_value ` set rs)\<rparr>)
           (filter (\<lambda>r. rr_host r = host \<and> from_ms \<le> rr_ts r \<and> rr_ts r < to_ms \<and> wanted counters (rr_counter r)) (mt_raw t))))"

definition agg_points :: "string \<Rightarrow> int \<Rightarrow> int \<Rightarrow> string list \<Rightarrow> bucket_row list \<Rightarrow> point_row list" where
  "agg_points host from_ms to_ms counters rows =
     by_counter (map (\<lambda>r. \<lparr>pt_bucket = bk_ts r, pt_counter = bk_counter r, pt_avg = bk_avg r, pt_min = bk_min r, pt_max = bk_max r\<rparr>)
       (filter (\<lambda>r. bk_host r = host \<and> from_ms \<le> bk_ts r \<and> bk_ts r < to_ms \<and> wanted counters (bk_counter r)) rows))"

text \<open>\<open>tierBoundsSQL\<close>: the one-minute tier is computed from the raw table and shares its bounds.\<close>

definition span_of :: "int list \<Rightarrow> instant option \<times> instant option" where
  "span_of ts = (if ts = [] then (None, None) else (Some (Min (set ts) * 1000000), Some (Max (set ts) * 1000000)))"

definition tier_times :: "string list \<Rightarrow> tier \<Rightarrow> metric_tables \<Rightarrow> int list" where
  "tier_times hosts tr t =
     (case tr of
        TierRaw \<Rightarrow> map rr_ts (filter (\<lambda>r. rr_host r \<in> set hosts) (mt_raw t))
      | TierOneMin \<Rightarrow> map rr_ts (filter (\<lambda>r. rr_host r \<in> set hosts) (mt_raw t))
      | TierFiveMin \<Rightarrow> map bk_ts (filter (\<lambda>r. bk_host r \<in> set hosts) (mt_5min t))
      | TierHourly \<Rightarrow> map bk_ts (filter (\<lambda>r. bk_host r \<in> set hosts) (mt_hourly t)))"

definition bounds_for_tier :: "string \<Rightarrow> tier \<Rightarrow> metric_tables \<Rightarrow> instant option \<times> instant option" where
  "bounds_for_tier host tr t = span_of (tier_times [host] tr t)"

definition tier_points :: "string \<Rightarrow> instant \<Rightarrow> instant \<Rightarrow> tier \<Rightarrow> string list \<Rightarrow> metric_tables \<Rightarrow> point_row list" where
  "tier_points host from_t to_t tr counters t =
     (case tr of
        TierRaw \<Rightarrow> raw_points host (unix_milli from_t) (unix_milli to_t) counters t
      | TierOneMin \<Rightarrow> one_min_points host (unix_milli from_t) (unix_milli to_t) counters t
      | TierFiveMin \<Rightarrow> agg_points host (unix_milli from_t) (unix_milli to_t) counters (mt_5min t)
      | TierHourly \<Rightarrow> agg_points host (unix_milli from_t) (unix_milli to_t) counters (mt_hourly t))"

definition query_range :: "string \<Rightarrow> instant \<Rightarrow> instant \<Rightarrow> tier \<Rightarrow> string list \<Rightarrow> metric_tables \<Rightarrow> metric_series" where
  "query_range host from_t to_t tr counters t =
     (let (oldest, newest) = bounds_for_tier host tr t
      in \<lparr>se_host = host, se_tier = tr, se_from = from_t, se_to = to_t, se_oldest = oldest, se_newest = newest,
          se_data = fold (add_point True) (tier_points host from_t to_t tr counters t) []\<rparr>)"

subsection \<open>The samples nearest to an instant\<close>

text \<open>
  SQL leaves open which of several rows at the least distance \<open>ROW_NUMBER\<close> puts first: \<open>pick\<close> is the
  choice of the database, a function from the rows at the least distance to one of them.
\<close>

definition nearest_counters ::
  "(raw_row list \<Rightarrow> raw_row) \<Rightarrow> string \<Rightarrow> instant \<Rightarrow> int \<Rightarrow> string list \<Rightarrow> metric_tables \<Rightarrow> (string \<times> rat) list" where
  "nearest_counters pick host target tolerance counters t =
     (if counters = [] then []
      else let target_ms = unix_milli target;
               near = filter (\<lambda>r. rr_host r = host \<and> target_ms - tolerance \<le> rr_ts r \<and> rr_ts r \<le> target_ms + tolerance
                                  \<and> rr_counter r \<in> set counters) (mt_raw t)
           in group_by rr_counter
                (\<lambda>c rs. (c, rr_value (pick (filter (\<lambda>r. \<bar>rr_ts r - target_ms\<bar> = Min ((\<lambda>r. \<bar>rr_ts r - target_ms\<bar>) ` set rs)) rs)))) near)"

subsection \<open>The points of a counter\<close>

definition column :: "bool \<Rightarrow> point_row list \<Rightarrow> counter_series" where
  "column p50 rs = \<lparr>cs_t = map pt_bucket rs, cs_avg = map pt_avg rs, cs_min = map pt_min rs, cs_max = map pt_max rs,
                    cs_p50 = (if p50 then map pt_avg rs else [])\<rparr>"

abbreviation points_of :: "string \<Rightarrow> point_row list \<Rightarrow> point_row list" where
  "points_of c rows \<equiv> filter (\<lambda>r. pt_counter r = c) rows"

abbreviation point_key :: "point_row \<Rightarrow> string \<times> int" where
  "point_key r \<equiv> (pt_counter r, pt_bucket r)"

definition parallel :: "counter_series \<Rightarrow> bool" where
  "parallel cs \<longleftrightarrow> length (cs_avg cs) = length (cs_t cs) \<and> length (cs_min cs) = length (cs_t cs)
     \<and> length (cs_max cs) = length (cs_t cs) \<and> length (cs_p50 cs) = length (cs_t cs)"

lemma map_of_points:
  "map_of (fold (add_point p50) rows []) c
     = (if points_of c rows = [] then None else Some (column p50 (points_of c rows)))"
proof (induction rows rule: rev_induct)
  case (snoc r rows)
  then show ?case
    by (auto simp: add_point_def update_conv' column_def empty_counter_def Let_def split: option.splits if_splits)
qed simp

lemma by_counter_mset [simp]: "mset (by_counter rows) = mset rows"
  by (simp add: by_counter_def)

lemma set_by_counter [simp]: "set (by_counter rows) = set rows"
  by (simp add: by_counter_def)

lemma points_of_order:
  assumes "has_pk point_key rows"
  shows "sorted_wrt (<) (map pt_bucket (points_of c (by_counter rows)))"
proof -
  let ?ps = "points_of c (by_counter rows)"
  have "mset (map point_key (by_counter rows)) = mset (map point_key rows)" by simp
  then have "distinct (map point_key (by_counter rows))"
    using assms unfolding has_pk_def by (metis mset_eq_imp_distinct_iff)
  moreover have "sorted (map point_key (by_counter rows))" by (simp add: by_counter_def)
  ultimately have keys: "sorted_wrt (<) (map point_key ?ps)"
    by (simp add: strict_sorted_iff sorted_filter distinct_map_filter)
  have "sorted_wrt (\<lambda>r r'. point_key r < point_key r') ?ps" using keys by (simp add: sorted_wrt_map)
  then have "sorted_wrt (\<lambda>r r'. pt_bucket r < pt_bucket r') ?ps"
    by (rule sorted_wrt_mono_rel [rotated]) auto
  then show ?thesis by (simp add: sorted_wrt_map)
qed

lemma column_parallel [simp]: "parallel (column True rs)"
  by (simp add: parallel_def column_def)

subsection \<open>The series of a host\<close>

lemma has_pk_map:
  assumes "has_pk key rows"
    and "\<And>r r'. r \<in> set rows \<Longrightarrow> r' \<in> set rows \<Longrightarrow> key' (f r) = key' (f r') \<Longrightarrow> key r = key r'"
  shows "has_pk key' (map f rows)"
proof -
  have "inj_on (key' \<circ> f) (set rows)"
  proof (rule inj_onI)
    fix r r' assume in_rows: "r \<in> set rows" "r' \<in> set rows" and eq: "(key' \<circ> f) r = (key' \<circ> f) r'"
    have "key r = key r'" by (rule assms(2) [OF in_rows eq [unfolded comp_def]])
    moreover have "inj_on key (set rows)" using assms(1) by (simp add: has_pk_def distinct_map)
    ultimately show "r = r'" using in_rows by (blast dest: inj_onD)
  qed
  then show ?thesis using has_pk_distinct [OF assms(1)] by (simp add: has_pk_def distinct_map)
qed

lemma has_pk_by_counter [simp]: "has_pk point_key (by_counter rows) \<longleftrightarrow> has_pk point_key rows"
proof -
  have "mset (map point_key (by_counter rows)) = mset (map point_key rows)" by simp
  then show ?thesis unfolding has_pk_def by (rule mset_eq_imp_distinct_iff)
qed

lemma by_counter_idem [simp]: "by_counter (by_counter rows) = by_counter rows"
  by (simp add: by_counter_def sort_key_id_if_sorted)

lemma tier_points_pk:
  "has_pk raw_key (mt_raw t) \<Longrightarrow> has_pk point_key (raw_points host from_ms to_ms counters t)"
  "has_pk point_key (one_min_points host from_ms to_ms counters t)"
  "has_pk bucket_key rows \<Longrightarrow> has_pk point_key (agg_points host from_ms to_ms counters rows)"
proof -
  show "has_pk point_key (raw_points host from_ms to_ms counters t)" if pk: "has_pk raw_key (mt_raw t)"
    unfolding raw_points_def has_pk_by_counter
    by (rule has_pk_map [OF has_pk_filter [OF pk]]) (simp add: raw_key_def)
  show "has_pk point_key (one_min_points host from_ms to_ms counters t)"
    unfolding one_min_points_def Let_def has_pk_by_counter by (rule has_pk_group_by) simp
  show "has_pk point_key (agg_points host from_ms to_ms counters rows)" if pk: "has_pk bucket_key rows"
    unfolding agg_points_def has_pk_by_counter
    by (rule has_pk_map [OF has_pk_filter [OF pk]]) (simp add: bucket_key_def)
qed

lemma query_range_data:
  "se_data (query_range host from_t to_t tr counters t) = fold (add_point True) (tier_points host from_t to_t tr counters t) []"
  by (simp add: query_range_def split: prod.split)

lemma tier_points_ordered: "by_counter (tier_points host from_t to_t tr counters t) = tier_points host from_t to_t tr counters t"
  by (simp add: tier_points_def raw_points_def one_min_points_def agg_points_def Let_def split: tier.split)

lemma tier_points_key:
  "tables_ok t \<Longrightarrow> has_pk point_key (tier_points host from_t to_t tr counters t)"
  by (auto simp: tier_points_def tables_ok_def tier_points_pk split: tier.split)

lemma host_series_in_order:
  assumes "tables_ok t" and "map_of (se_data (query_range host from_t to_t tr counters t)) c = Some cs"
  shows "parallel cs \<and> sorted_wrt (<) (cs_t cs) \<and> cs_t cs \<noteq> [] \<and> cs_p50 cs = cs_avg cs"
proof -
  let ?ps = "tier_points host from_t to_t tr counters t"
  have cs: "cs = column True (points_of c ?ps)" and some: "points_of c ?ps \<noteq> []"
    using assms(2) by (simp_all add: query_range_data map_of_points split: if_splits)
  have "sorted_wrt (<) (map pt_bucket (points_of c (by_counter ?ps)))"
    using tier_points_key [OF assms(1)] by (rule points_of_order)
  then show ?thesis using some by (simp add: cs column_def parallel_def tier_points_ordered)
qed

text \<open>The raw tier returns every stored sample of the window, and nothing else.\<close>

lemma raw_series_exact:
  assumes "map_of (se_data (query_range host from_t to_t TierRaw counters t)) c = Some cs"
  shows "set (zip (cs_t cs) (cs_avg cs))
    = {(rr_ts r, rr_value r) | r. r \<in> set (mt_raw t) \<and> rr_host r = host \<and> rr_counter r = c \<and> wanted counters c
         \<and> unix_milli from_t \<le> rr_ts r \<and> rr_ts r < unix_milli to_t}"
proof -
  let ?ps = "tier_points host from_t to_t TierRaw counters t"
  have cs: "cs = column True (points_of c ?ps)"
    using assms by (simp_all add: query_range_data map_of_points split: if_splits)
  have points: "set (points_of c ?ps) = (\<lambda>r. \<lparr>pt_bucket = rr_ts r, pt_counter = rr_counter r, pt_avg = rr_value r,
      pt_min = rr_value r, pt_max = rr_value r\<rparr>) ` {r \<in> set (mt_raw t). rr_host r = host \<and> rr_counter r = c
      \<and> unix_milli from_t \<le> rr_ts r \<and> rr_ts r < unix_milli to_t \<and> wanted counters c}"
    by (auto simp: tier_points_def raw_points_def)
  have "set (zip (cs_t cs) (cs_avg cs)) = (\<lambda>p. (pt_bucket p, pt_avg p)) ` set (points_of c ?ps)"
    by (simp add: cs column_def zip_map_map zip_same_conv_map image_image)
  then show ?thesis unfolding points image_image by auto
qed

text \<open>The nearest samples are samples of the host inside the tolerance, and none is nearer.\<close>

lemma nearest_counters_sound:
  assumes pick: "\<And>rs. rs \<noteq> [] \<Longrightarrow> pick rs \<in> set rs"
    and found: "(c, v) \<in> set (nearest_counters pick host target tolerance counters t)"
  shows "c \<in> set counters \<and> (\<exists>r \<in> set (mt_raw t). rr_host r = host \<and> rr_counter r = c \<and> rr_value r = v
       \<and> \<bar>rr_ts r - unix_milli target\<bar> \<le> tolerance
       \<and> (\<forall>r' \<in> set (mt_raw t). rr_host r' = host \<longrightarrow> rr_counter r' = c
            \<longrightarrow> \<bar>rr_ts r - unix_milli target\<bar> \<le> \<bar>rr_ts r' - unix_milli target\<bar>))"
proof -
  let ?d = "\<lambda>r. \<bar>rr_ts r - unix_milli target\<bar>"
  let ?near = "filter (\<lambda>r. rr_host r = host \<and> unix_milli target - tolerance \<le> rr_ts r
      \<and> rr_ts r \<le> unix_milli target + tolerance \<and> rr_counter r \<in> set counters) (mt_raw t)"
  let ?rs = "filter (\<lambda>r. rr_counter r = c) ?near"
  let ?best = "filter (\<lambda>r. ?d r = Min (?d ` set ?rs)) ?rs"
  have v: "v = rr_value (pick ?best)" and c: "c \<in> rr_counter ` set ?near"
    using found by (auto simp: nearest_counters_def Let_def set_group_by split: if_splits)
  from c have ne: "?d ` set ?rs \<noteq> {}" by auto
  then have "Min (?d ` set ?rs) \<in> ?d ` set ?rs" by (intro Min_in) auto
  then have "?best \<noteq> []" by (auto simp: filter_empty_conv)
  then have "pick ?best \<in> set ?best" by (rule pick)
  then obtain r where r: "r = pick ?best" "r \<in> set ?rs" "?d r = Min (?d ` set ?rs)" by auto
  have least: "?d r \<le> ?d r'" if "r' \<in> set (mt_raw t)" "rr_host r' = host" "rr_counter r' = c" for r'
  proof (cases "r' \<in> set ?rs")
    case True
    then show ?thesis unfolding r(3) by (intro Min_le) auto
  next
    case False
    then have "tolerance < ?d r'" using that c by auto
    moreover have "?d r \<le> tolerance" using r(2) by auto
    ultimately show ?thesis by linarith
  qed
  have "r \<in> set (mt_raw t)" "rr_host r = host" "rr_counter r = c" "?d r \<le> tolerance" using r(2) by auto
  moreover have "rr_value r = v" by (simp only: v r(1))
  moreover have "c \<in> set counters" using c by auto
  ultimately show ?thesis using least by blast
qed

end
