(* ===== verification/FleetMetrics.thy ===== *)
theory FleetMetrics
  imports MetricQueries
begin

text \<open>
  Reading the metrics of the fleet, from \<open>telemetry/metrics.go\<close>: the values of the hosts in a bucket,
  their sum, average, minimum and maximum, the synthetic memory counter, and the loops that attach the
  median of the hosts to each bucket. The lemmas show that the loop over the sorted rows computes the
  median of every bucket, that the compaction in place keeps exactly the buckets that have one, and
  that the medians of the memory counter stay aligned with its buckets.
\<close>

subsection \<open>The values of the hosts\<close>

text \<open>The value of one host in one bucket: the inner query of the fleet queries.\<close>

record host_point =
  hp_bucket :: int
  hp_counter :: string
  hp_host :: string
  hp_avg :: rat
  hp_min :: rat
  hp_max :: rat

definition min_raw_fleet_bucket_ms :: int where "min_raw_fleet_bucket_ms = 30000"

definition fleet_width :: "tier \<Rightarrow> int \<Rightarrow> int" where
  "fleet_width tr raw_bucket_ms =
     (if tr = TierOneMin then 60000
      else if raw_bucket_ms < min_raw_fleet_bucket_ms then min_raw_fleet_bucket_ms else raw_bucket_ms)"

definition fleet_raw_rows :: "int \<Rightarrow> string list \<Rightarrow> int \<Rightarrow> int \<Rightarrow> metric_tables \<Rightarrow> raw_row list" where
  "fleet_raw_rows w hosts from_ms to_ms t =
     filter (\<lambda>r. rr_host r \<in> set hosts \<and> bucket_start w from_ms \<le> rr_ts r \<and> rr_ts r < bucket_start w to_ms) (mt_raw t)"

definition raw_host_points :: "int \<Rightarrow> string list \<Rightarrow> int \<Rightarrow> int \<Rightarrow> string list \<Rightarrow> metric_tables \<Rightarrow> host_point list" where
  "raw_host_points w hosts from_ms to_ms counters t =
     group_by (\<lambda>r. (bucket_start w (rr_ts r), rr_counter r, rr_host r))
       (\<lambda>k rs. \<lparr>hp_bucket = fst k, hp_counter = fst (snd k), hp_host = snd (snd k), hp_avg = sql_avg (map rr_value rs),
                 hp_min = Min (rr_value ` set rs), hp_max = Max (rr_value ` set rs)\<rparr>)
       (filter (\<lambda>r. wanted counters (rr_counter r)) (fleet_raw_rows w hosts from_ms to_ms t))"

definition fleet_bucket_rows :: "string list \<Rightarrow> int \<Rightarrow> int \<Rightarrow> bucket_row list \<Rightarrow> bucket_row list" where
  "fleet_bucket_rows hosts from_ms to_ms rows =
     filter (\<lambda>r. bk_host r \<in> set hosts \<and> from_ms \<le> bk_ts r \<and> bk_ts r < to_ms) rows"

definition point_of_bucket :: "bucket_row \<Rightarrow> host_point" where
  "point_of_bucket r = \<lparr>hp_bucket = bk_ts r, hp_counter = bk_counter r, hp_host = bk_host r, hp_avg = bk_avg r,
                        hp_min = bk_min r, hp_max = bk_max r\<rparr>"

definition bucket_host_points :: "string list \<Rightarrow> int \<Rightarrow> int \<Rightarrow> string list \<Rightarrow> bucket_row list \<Rightarrow> host_point list" where
  "bucket_host_points hosts from_ms to_ms counters rows =
     map point_of_bucket (filter (\<lambda>r. wanted counters (bk_counter r)) (fleet_bucket_rows hosts from_ms to_ms rows))"

subsection \<open>Aggregates over the hosts\<close>

definition summable_fleet_counters :: "string list" where
  "summable_fleet_counters = [''sessions_total'', ''sessions_active'', ''sessions_disconnected'',
     ''session_cpu_observed_count'', ''session_cpu_ge_5_count'', ''session_cpu_ge_20_count'']"

text \<open>\<open>sessionlimit.Unlimited\<close>, the capacity a host without a limit reports.\<close>

definition unlimited :: rat where "unlimited = 9999"

text \<open>\<open>summableCase\<close>: capacities leave unlimited hosts out, counts are summed, the rest is \<open>otherwise\<close>.\<close>

definition summable_case ::
  "('h \<Rightarrow> rat) \<Rightarrow> ('h list \<Rightarrow> rat) \<Rightarrow> ('h \<Rightarrow> rat) \<Rightarrow> ('h \<Rightarrow> rat) \<Rightarrow> string \<Rightarrow> 'h list \<Rightarrow> rat" where
  "summable_case summed otherwise capacity cap_max counter hs =
     (if counter = ''sessions_max'' then sum_list (map (\<lambda>h. if cap_max h \<ge> unlimited then 0 else capacity h) hs)
      else if counter \<in> set summable_fleet_counters then sum_list (map summed hs)
      else otherwise hs)"

definition fleet_raw_points :: "host_point list \<Rightarrow> point_row list" where
  "fleet_raw_points hps =
     by_counter (group_by (\<lambda>h. (hp_counter h, hp_bucket h))
       (\<lambda>k hs. \<lparr>pt_bucket = snd k, pt_counter = fst k,
          pt_avg = summable_case hp_avg (\<lambda>hs. sql_avg (map hp_avg hs)) hp_avg hp_max (fst k) hs,
          pt_min = summable_case hp_avg (\<lambda>hs. Min (hp_min ` set hs)) hp_avg hp_max (fst k) hs,
          pt_max = summable_case hp_avg (\<lambda>hs. Max (hp_max ` set hs)) hp_avg hp_max (fst k) hs\<rparr>) hps)"

text \<open>\<open>SUM(avg * count) / NULLIF(SUM(count), 0)\<close>; a stored count is positive, so the quotient is never NULL.\<close>

definition fleet_agg_points :: "string list \<Rightarrow> bucket_row list \<Rightarrow> point_row list" where
  "fleet_agg_points counters rows =
     by_counter (group_by (\<lambda>r. (bk_counter r, bk_ts r))
       (\<lambda>k rs. \<lparr>pt_bucket = snd k, pt_counter = fst k,
          pt_avg = summable_case bk_avg
             (\<lambda>rs. sum_list (map (\<lambda>r. bk_avg r * of_int (bk_count r)) rs) / of_int (sum_list (map bk_count rs)))
             bk_avg bk_max (fst k) rs,
          pt_min = summable_case bk_min (\<lambda>rs. Min (bk_min ` set rs)) bk_min bk_max (fst k) rs,
          pt_max = summable_case bk_max (\<lambda>rs. Max (bk_max ` set rs)) bk_max bk_max (fst k) rs\<rparr>)
       (filter (\<lambda>r. wanted counters (bk_counter r)) rows))"

subsection \<open>The synthetic memory counter\<close>

abbreviation mem_used_pct :: string where "mem_used_pct \<equiv> ''mem_used_pct''"
abbreviation mem_avail_mb :: string where "mem_avail_mb \<equiv> ''mem_avail_mb''"
abbreviation mem_total_mb :: string where "mem_total_mb \<equiv> ''mem_total_mb''"

record mem_point =
  mp_bucket :: int
  mp_host :: string
  mp_avail :: "rat option"
  mp_total :: "rat option"

text \<open>\<open>AVG\<close> and \<open>MAX\<close> of a column that may hold no value.\<close>

definition avg_null :: "rat list \<Rightarrow> rat option" where
  "avg_null xs = (if xs = [] then None else Some (sql_avg xs))"

definition max_null :: "rat list \<Rightarrow> rat option" where
  "max_null xs = (if xs = [] then None else Some (Max (set xs)))"

definition host_pct :: "mem_point \<Rightarrow> rat option" where
  "host_pct m = (case (mp_avail m, mp_total m) of
      (Some a, Some s) \<Rightarrow> if s = 0 then None else Some ((1 - a / s) * 100)
    | _ \<Rightarrow> None)"

definition raw_mem_points :: "int \<Rightarrow> string list \<Rightarrow> int \<Rightarrow> int \<Rightarrow> metric_tables \<Rightarrow> mem_point list" where
  "raw_mem_points w hosts from_ms to_ms t =
     group_by (\<lambda>r. (bucket_start w (rr_ts r), rr_host r))
       (\<lambda>k rs. \<lparr>mp_bucket = fst k, mp_host = snd k,
          mp_avail = avg_null (map rr_value (filter (\<lambda>r. rr_counter r = mem_avail_mb) rs)),
          mp_total = avg_null (map rr_value (filter (\<lambda>r. rr_counter r = mem_total_mb) rs))\<rparr>)
       (filter (\<lambda>r. rr_counter r \<in> {mem_avail_mb, mem_total_mb}) (fleet_raw_rows w hosts from_ms to_ms t))"

definition bucket_mem_points :: "string list \<Rightarrow> int \<Rightarrow> int \<Rightarrow> bucket_row list \<Rightarrow> mem_point list" where
  "bucket_mem_points hosts from_ms to_ms rows =
     group_by (\<lambda>r. (bk_ts r, bk_host r))
       (\<lambda>k rs. \<lparr>mp_bucket = fst k, mp_host = snd k,
          mp_avail = max_null (map bk_avg (filter (\<lambda>r. bk_counter r = mem_avail_mb) rs)),
          mp_total = max_null (map bk_avg (filter (\<lambda>r. bk_counter r = mem_total_mb) rs))\<rparr>)
       (filter (\<lambda>r. bk_counter r \<in> {mem_avail_mb, mem_total_mb}) (fleet_bucket_rows hosts from_ms to_ms rows))"

definition mem_fleet_points :: "mem_point list \<Rightarrow> point_row list" where
  "mem_fleet_points ms =
     sort_key pt_bucket (group_by mp_bucket
       (\<lambda>b hs. let ps = map (\<lambda>m. the (host_pct m)) hs in
          \<lparr>pt_bucket = b, pt_counter = mem_used_pct, pt_avg = sql_avg ps, pt_min = Min (set ps), pt_max = Max (set ps)\<rparr>)
       (filter (\<lambda>m. host_pct m \<noteq> None) ms))"

definition split_mem_used_pct :: "string list \<Rightarrow> string list \<times> bool \<times> bool" where
  "split_mem_used_pct counters =
     (if counters = [] then (counters, True, True)
      else let rest = filter (\<lambda>c. c \<noteq> mem_used_pct) counters
           in (rest, mem_used_pct \<in> set counters, rest \<noteq> []))"

subsection \<open>What each tier reads\<close>

definition fleet_host_points ::
  "tier \<Rightarrow> string list \<Rightarrow> int \<Rightarrow> int \<Rightarrow> string list \<Rightarrow> int \<Rightarrow> metric_tables \<Rightarrow> host_point list" where
  "fleet_host_points tr hosts from_ms to_ms counters raw_ms t =
     (case tr of
        TierFiveMin \<Rightarrow> bucket_host_points hosts from_ms to_ms counters (mt_5min t)
      | TierHourly \<Rightarrow> bucket_host_points hosts from_ms to_ms counters (mt_hourly t)
      | _ \<Rightarrow> raw_host_points (fleet_width tr raw_ms) hosts from_ms to_ms counters t)"

definition fleet_points ::
  "tier \<Rightarrow> string list \<Rightarrow> int \<Rightarrow> int \<Rightarrow> string list \<Rightarrow> int \<Rightarrow> metric_tables \<Rightarrow> point_row list" where
  "fleet_points tr hosts from_ms to_ms counters raw_ms t =
     (case tr of
        TierFiveMin \<Rightarrow> fleet_agg_points counters (fleet_bucket_rows hosts from_ms to_ms (mt_5min t))
      | TierHourly \<Rightarrow> fleet_agg_points counters (fleet_bucket_rows hosts from_ms to_ms (mt_hourly t))
      | _ \<Rightarrow> fleet_raw_points (raw_host_points (fleet_width tr raw_ms) hosts from_ms to_ms counters t))"

definition fleet_mem_points :: "tier \<Rightarrow> string list \<Rightarrow> int \<Rightarrow> int \<Rightarrow> int \<Rightarrow> metric_tables \<Rightarrow> mem_point list" where
  "fleet_mem_points tr hosts from_ms to_ms raw_ms t =
     (case tr of
        TierFiveMin \<Rightarrow> bucket_mem_points hosts from_ms to_ms (mt_5min t)
      | TierHourly \<Rightarrow> bucket_mem_points hosts from_ms to_ms (mt_hourly t)
      | _ \<Rightarrow> raw_mem_points (fleet_width tr raw_ms) hosts from_ms to_ms t)"

definition bounds_for_tier_fleet :: "string list \<Rightarrow> tier \<Rightarrow> metric_tables \<Rightarrow> instant option \<times> instant option" where
  "bounds_for_tier_fleet hosts tr t = (if hosts = [] then (None, None) else span_of (tier_times hosts tr t))"

subsection \<open>Medians\<close>

text \<open>\<open>sort.Search\<close>: the bisection of \<open>[0, n)\<close>.\<close>

function search_between :: "(nat \<Rightarrow> bool) \<Rightarrow> nat \<Rightarrow> nat \<Rightarrow> nat" where
  "search_between f i j =
     (if i < j then let h = (i + j) div 2 in if \<not> f h then search_between f (h + 1) j else search_between f i h else i)"
  by auto
termination by (relation "measure (\<lambda>(f, i, j). j - i)") auto

declare search_between.simps [simp del]

definition bucket_at :: "int list \<Rightarrow> int \<Rightarrow> bool" where
  "bucket_at ts b = (let i = search_between (\<lambda>i. ts ! i \<ge> b) 0 (length ts) in \<not> (i = length ts \<or> ts ! i \<noteq> b))"

definition median_of :: "rat list \<Rightarrow> rat" where
  "median_of values =
     (let vs = sort values; mid = length vs div 2
      in if length vs mod 2 = 0 then (vs ! (mid - 1) + vs ! mid) / 2 else vs ! mid)"

type_synonym medians = "string \<times> int \<Rightarrow> rat option"

text \<open>\<open>flush\<close> of \<open>populateFleetP50\<close>; a group is a counter, a bucket and the values collected for them.\<close>

definition flush_group :: "series_data \<Rightarrow> (string \<times> int) \<times> rat list \<Rightarrow> medians \<Rightarrow> medians" where
  "flush_group data g m =
     (if snd g = [] then m
      else case map_of data (fst (fst g)) of
             None \<Rightarrow> m
           | Some cs \<Rightarrow> if bucket_at (cs_t cs) (snd (fst g)) then m(fst g \<mapsto> median_of (snd g)) else m)"

definition takes_part :: "host_point \<Rightarrow> bool" where
  "takes_part h \<longleftrightarrow> hp_counter h \<noteq> ''sessions_max'' \<or> hp_max h < unlimited"

abbreviation host_group :: "host_point \<Rightarrow> string \<times> int" where
  "host_group h \<equiv> (hp_counter h, hp_bucket h)"

definition p50_step :: "series_data \<Rightarrow> host_point \<Rightarrow> ((string \<times> int) \<times> rat list) \<times> medians \<Rightarrow> ((string \<times> int) \<times> rat list) \<times> medians" where
  "p50_step data h s =
     (let (g, m) = (if host_group h \<noteq> fst (fst s) then ((host_group h, []), flush_group data (fst s) (snd s)) else s)
      in ((fst g, if takes_part h then snd g @ [hp_avg h] else snd g), m))"

definition fleet_medians :: "series_data \<Rightarrow> host_point list \<Rightarrow> medians" where
  "fleet_medians data rows =
     (let (g, m) = fold (p50_step data) rows (((''''  , 0), []), Map.empty) in flush_group data g m)"

text \<open>The compaction in place: entry \<open>i\<close> moves to position \<open>out\<close> when its bucket has a median.\<close>

definition compact_step :: "(int \<Rightarrow> rat option) \<Rightarrow> nat \<Rightarrow> counter_series \<times> nat \<Rightarrow> counter_series \<times> nat" where
  "compact_step m i s =
     (let (cs, out) = s
      in case m (cs_t cs ! i) of
           None \<Rightarrow> (cs, out)
         | Some p50 \<Rightarrow>
             (\<lparr>cs_t = (cs_t cs)[out := cs_t cs ! i], cs_avg = (cs_avg cs)[out := cs_avg cs ! i],
               cs_min = (cs_min cs)[out := cs_min cs ! i], cs_max = (cs_max cs)[out := cs_max cs ! i],
               cs_p50 = (cs_p50 cs)[out := p50]\<rparr>, out + 1))"

definition compact_series :: "(int \<Rightarrow> rat option) \<Rightarrow> counter_series \<Rightarrow> counter_series" where
  "compact_series m cs =
     (let n = length (cs_t cs);
          (cs, out) = fold (compact_step m) [0..<n] (cs\<lparr>cs_p50 := replicate n 0\<rparr>, 0)
      in \<lparr>cs_t = take out (cs_t cs), cs_avg = take out (cs_avg cs), cs_min = take out (cs_min cs),
          cs_max = take out (cs_max cs), cs_p50 = take out (cs_p50 cs)\<rparr>)"

definition populate_fleet_p50 :: "host_point list \<Rightarrow> series_data \<Rightarrow> series_data" where
  "populate_fleet_p50 hps data =
     (let m = fleet_medians data (sort_key (\<lambda>h. (hp_counter h, hp_bucket h, hp_host h)) hps)
      in map (\<lambda>(c, cs). (c, if c = mem_used_pct then cs else compact_series (\<lambda>b. m (c, b)) cs)) data)"

text \<open>The memory counter: the medians are appended in the order of the buckets.\<close>

definition flush_mem :: "int list \<Rightarrow> int \<Rightarrow> rat list \<Rightarrow> rat list \<Rightarrow> rat list" where
  "flush_mem ts b values p50s = (if values = [] \<or> \<not> bucket_at ts b then p50s else p50s @ [median_of values])"

definition mem_step :: "int list \<Rightarrow> mem_point \<Rightarrow> int \<times> rat list \<times> rat list \<Rightarrow> int \<times> rat list \<times> rat list" where
  "mem_step ts r s =
     (let (b, values, p50s) = (if mp_bucket r \<noteq> fst s then (mp_bucket r, [], flush_mem ts (fst s) (fst (snd s)) (snd (snd s))) else s)
      in (b, if the (mp_total r) > 0 then values @ [(1 - the (mp_avail r) / the (mp_total r)) * 100] else values, p50s))"

definition populate_mem_p50 :: "mem_point list \<Rightarrow> series_data \<Rightarrow> series_data" where
  "populate_mem_p50 ms data =
     (case map_of data mem_used_pct of
        None \<Rightarrow> data
      | Some cs \<Rightarrow>
          let rows = sort_key (\<lambda>r. (mp_bucket r, mp_host r)) (filter (\<lambda>r. mp_avail r \<noteq> None \<and> mp_total r \<noteq> None) ms);
              (b, values, p50s) = fold (mem_step (cs_t cs)) rows (0, [], cs_p50 cs)
          in AList.update mem_used_pct (cs\<lparr>cs_p50 := flush_mem (cs_t cs) b values p50s\<rparr>) data)"

subsection \<open>The query\<close>

definition fleet_data ::
  "tier \<Rightarrow> string list \<Rightarrow> int \<Rightarrow> int \<Rightarrow> string list \<Rightarrow> int \<Rightarrow> metric_tables \<Rightarrow> series_data" where
  "fleet_data tr hosts from_ms to_ms counters raw_ms t =
     (let (rest, want_virtual, run_regular) = split_mem_used_pct counters;
          data = fold (add_point False)
            ((if run_regular then fleet_points tr hosts from_ms to_ms rest raw_ms t else [])
             @ (if want_virtual then mem_fleet_points (fleet_mem_points tr hosts from_ms to_ms raw_ms t) else [])) [];
          data = populate_fleet_p50 (fleet_host_points tr hosts from_ms to_ms rest raw_ms t) data
      in if want_virtual then populate_mem_p50 (fleet_mem_points tr hosts from_ms to_ms raw_ms t) data else data)"

definition query_range_fleet ::
  "string list \<Rightarrow> instant \<Rightarrow> instant \<Rightarrow> tier \<Rightarrow> string list \<Rightarrow> int \<Rightarrow> metric_tables \<Rightarrow> metric_series" where
  "query_range_fleet hosts from_t to_t tr counters raw_ms t =
     (let (oldest, newest) = bounds_for_tier_fleet hosts tr t
      in \<lparr>se_host = ''_fleet'', se_tier = tr, se_from = from_t, se_to = to_t, se_oldest = oldest, se_newest = newest,
          se_data = (if hosts = [] then []
                     else fleet_data tr hosts (unix_milli from_t) (unix_milli to_t) counters raw_ms t)\<rparr>)"

subsection \<open>Bisection and median\<close>

lemma search_between_spec:
  assumes "\<And>k k'. i \<le> k \<Longrightarrow> k \<le> k' \<Longrightarrow> k' < j \<Longrightarrow> f k \<Longrightarrow> f k'" and "i \<le> j"
  shows "i \<le> search_between f i j \<and> search_between f i j \<le> j
     \<and> (\<forall>k. i \<le> k \<and> k < j \<longrightarrow> f k = (search_between f i j \<le> k))"
  using assms
proof (induction f i j rule: search_between.induct)
  case (1 f i j)
  show ?case
  proof (cases "i < j")
    case True
    let ?h = "(i + j) div 2"
    have h: "i \<le> ?h" "?h < j" using True by auto
    show ?thesis
    proof (cases "f ?h")
      case True
      have eq: "search_between f i j = search_between f i ?h"
        using search_between.simps [of f i j] \<open>i < j\<close> True by (simp add: Let_def)
      have rec: "i \<le> search_between f i ?h \<and> search_between f i ?h \<le> ?h
          \<and> (\<forall>k. i \<le> k \<and> k < ?h \<longrightarrow> f k = (search_between f i ?h \<le> k))"
      proof (rule "1.IH"(2) [OF \<open>i < j\<close> refl])
        show "\<not> \<not> f ?h" using True by simp
        show "f k'" if "i \<le> k" "k \<le> k'" "k' < ?h" "f k" for k k'
          using "1.prems"(1) [OF that(1,2) less_trans [OF that(3) h(2)] that(4)] .
        show "i \<le> ?h" by (rule h(1))
      qed
      have "f k = (search_between f i ?h \<le> k)" if "i \<le> k" "k < j" for k
      proof (cases "k < ?h")
        case False
        then have "?h \<le> k" by simp
        from "1.prems"(1) [OF h(1) this that(2) True] show ?thesis using rec \<open>?h \<le> k\<close> by linarith
      qed (use rec that in simp)
      then show ?thesis using rec h unfolding eq by auto
    next
      case False
      have eq: "search_between f i j = search_between f (?h + 1) j"
        using search_between.simps [of f i j] \<open>i < j\<close> False by (simp add: Let_def)
      have rec: "?h + 1 \<le> search_between f (?h + 1) j \<and> search_between f (?h + 1) j \<le> j
          \<and> (\<forall>k. ?h + 1 \<le> k \<and> k < j \<longrightarrow> f k = (search_between f (?h + 1) j \<le> k))"
      proof (rule "1.IH"(1) [OF \<open>i < j\<close> refl False])
        show "f k'" if "?h + 1 \<le> k" "k \<le> k'" "k' < j" "f k" for k k'
        proof -
          have "i \<le> k" using that(1) h(1) by linarith
          then show ?thesis using "1.prems"(1) that(2-4) by blast
        qed
        show "?h + 1 \<le> j" using h(2) by simp
      qed
      have "f k = (search_between f (?h + 1) j \<le> k)" if "i \<le> k" "k < j" for k
      proof (cases "k < ?h + 1")
        case True
        then have "\<not> f k" using "1.prems"(1) [of k ?h] h False that by auto
        then show ?thesis using True rec by linarith
      next
        case False
        then show ?thesis using rec that by simp
      qed
      then show ?thesis using rec h unfolding eq by auto
    qed
  next
    case False
    then show ?thesis using search_between.simps [of f i j] "1.prems"(2) by auto
  qed
qed

lemma bucket_at_iff:
  assumes "sorted ts"
  shows "bucket_at ts b \<longleftrightarrow> b \<in> set ts"
proof -
  let ?i = "search_between (\<lambda>i. b \<le> ts ! i) 0 (length ts)"
  have found: "?i \<le> length ts" "\<And>k. k < length ts \<Longrightarrow> b \<le> ts ! k \<longleftrightarrow> ?i \<le> k"
    using search_between_spec [of 0 "length ts" "\<lambda>i. b \<le> ts ! i"] assms
    by (auto simp: sorted_iff_nth_mono intro: order_trans)
  have "ts ! ?i = b \<and> ?i < length ts" if "b \<in> set ts"
  proof -
    from that obtain k where k: "k < length ts" "ts ! k = b" by (auto simp: in_set_conv_nth)
    then have "?i \<le> k" using found(2) [OF k(1)] by simp
    moreover from this have "ts ! ?i \<le> ts ! k" using assms k(1) by (auto simp: sorted_iff_nth_mono)
    moreover have "b \<le> ts ! ?i" using found(2) [of ?i] \<open>?i \<le> k\<close> k(1) by simp
    ultimately show ?thesis using k by auto
  qed
  moreover have "b \<in> set ts" if "?i \<noteq> length ts" "ts ! ?i = b"
    using nth_mem [of ?i ts] found(1) that by (metis le_neq_implies_less)
  ultimately show ?thesis unfolding bucket_at_def Let_def using less_irrefl by metis
qed

lemma median_of_perm: "mset xs = mset ys \<Longrightarrow> median_of xs = median_of ys"
  by (metis median_of_def sorted_list_of_multiset_mset)

subsection \<open>The median of every bucket\<close>

text \<open>The values that enter the median of a counter in a bucket.\<close>

definition host_values :: "string \<Rightarrow> int \<Rightarrow> host_point list \<Rightarrow> rat list" where
  "host_values c b hps = map hp_avg (filter (\<lambda>h. host_group h = (c, b) \<and> takes_part h) hps)"

definition reported :: "series_data \<Rightarrow> string \<times> int \<Rightarrow> bool" where
  "reported data k \<longleftrightarrow> (\<exists>cs. map_of data (fst k) = Some cs \<and> bucket_at (cs_t cs) (snd k))"

definition p50_run :: "series_data \<Rightarrow> host_point list \<Rightarrow> ((string \<times> int) \<times> rat list) \<times> medians \<Rightarrow> medians" where
  "p50_run data rows s = (let (g, m) = fold (p50_step data) rows s in flush_group data g m)"

lemma p50_run_simps [simp]:
  "p50_run data [] (g, m) = flush_group data g m"
  "p50_run data (h # rows) s = p50_run data rows (p50_step data h s)"
  by (simp_all add: p50_run_def)

lemma flush_group_at:
  "flush_group data (k, vs) m k' = (if k' = k \<and> vs \<noteq> [] \<and> reported data k then Some (median_of vs) else m k')"
  by (auto simp: flush_group_def reported_def split: option.split)

lemma host_values_simps [simp]:
  "host_values c b [] = []"
  "host_values c b (h # hps) = (if host_group h = (c, b) \<and> takes_part h then [hp_avg h] else []) @ host_values c b hps"
  by (simp_all add: host_values_def)

lemma host_values_later: "\<forall>h \<in> set hps. (c, b) < host_group h \<Longrightarrow> host_values c b hps = []"
  by (auto simp: host_values_def filter_empty_conv)

lemma p50_run_at:
  assumes "sorted (map host_group rows)" and "\<forall>h \<in> set rows. k \<le> host_group h"
  shows "p50_run data rows ((k, vs), m) (c, b)
    = (let ws = (if (c, b) = k then vs else []) @ host_values c b rows
       in if ws \<noteq> [] \<and> reported data (c, b) then Some (median_of ws) else m (c, b))"
  using assms
proof (induction rows arbitrary: k vs m)
  case Nil
  then show ?case by (auto simp: flush_group_at Let_def)
next
  case (Cons h rows)
  let ?v = "if takes_part h then [hp_avg h] else []"
  have later: "sorted (map host_group rows)" "\<forall>h' \<in> set rows. host_group h \<le> host_group h'"
    using Cons.prems(1) by auto
  show ?case
  proof (cases "host_group h = k")
    case True
    then have "p50_step data h ((k, vs), m) = ((k, vs @ ?v), m)" by (simp add: p50_step_def)
    then show ?thesis using Cons.IH [OF later(1), of k "vs @ ?v" m] later(2) True by (auto simp: Let_def)
  next
    case False
    then have step: "p50_step data h ((k, vs), m) = ((host_group h, ?v), flush_group data (k, vs) m)"
      by (auto simp: p50_step_def)
    have "k \<le> host_group h" using Cons.prems(2) by simp
    then have less: "k < host_group h" using False by (simp add: order_less_le)
    have "k < host_group h'" if "h' \<in> set (h # rows)" for h'
      using that less order_less_le_trans [OF less] later(2) by (auto simp del: less_prod_simp less_eq_prod_simp)
    then have none: "host_values (fst k) (snd k) (h # rows) = []" by (intro host_values_later) (simp only: prod.collapse, blast)
    show ?thesis
      unfolding p50_run_simps step Cons.IH [OF later] using none False
      by (cases "(c, b) = k") (auto simp: Let_def flush_group_at)
  qed
qed

lemma fleet_medians_at:
  assumes "sorted (map host_group rows)"
  shows "fleet_medians data rows (c, b)
    = (if host_values c b rows \<noteq> [] \<and> reported data (c, b) then Some (median_of (host_values c b rows)) else None)"
proof (cases rows)
  case (Cons h tail)
  let ?v = "if takes_part h then [hp_avg h] else []"
  have "p50_step data h ((('''', 0), []), Map.empty) = ((host_group h, ?v), Map.empty)"
    by (auto simp: p50_step_def flush_group_def)
  then have "fleet_medians data rows = p50_run data tail ((host_group h, ?v), Map.empty)"
    by (simp add: fleet_medians_def p50_run_def Cons)
  then show ?thesis using p50_run_at [of tail "host_group h" data ?v Map.empty c b] assms by (auto simp: Cons Let_def)
qed (simp add: fleet_medians_def flush_group_def)

subsection \<open>The compaction\<close>

lemma moved_entry:
  assumes "out \<le> i" and "i < length zs" and "length xs = length zs" and "drop i xs = drop i zs"
  shows "xs ! i = zs ! i" and "length (xs[out := x]) = length zs"
    and "take (Suc out) (xs[out := x]) = take out xs @ [x]" and "drop (Suc i) (xs[out := x]) = drop (Suc i) zs"
proof -
  show "xs ! i = zs ! i" using assms by (metis hd_drop_conv_nth)
  show "length (xs[out := x]) = length zs" using assms(3) by simp
  show "take (Suc out) (xs[out := x]) = take out xs @ [x]" using assms by (simp add: take_Suc_conv_app_nth)
  have "drop (Suc i) xs = drop (Suc i) zs" using assms(4) by (metis drop_drop plus_1_eq_Suc)
  then show "drop (Suc i) (xs[out := x]) = drop (Suc i) zs" using assms(1) by simp
qed

text \<open>After \<open>i\<close> entries of a column, \<open>out\<close> of them have been kept and the rest is as it was.\<close>

definition kept :: "('r \<Rightarrow> 'a) \<Rightarrow> ('r \<Rightarrow> bool) \<Rightarrow> 'r list \<Rightarrow> nat \<Rightarrow> 'a list \<Rightarrow> bool" where
  "kept f P rs i xs \<longleftrightarrow> length xs = length rs \<and> take (length (filter P (take i rs))) xs = map f (filter P (take i rs))
     \<and> drop i xs = drop i (map f rs)"

lemma kept_start: "kept f P rs 0 (map f rs)"
  by (simp add: kept_def)

lemma kept_step:
  assumes "kept f P rs i xs" and "i < length rs"
  shows "xs ! i = f (rs ! i)" and "\<not> P (rs ! i) \<Longrightarrow> kept f P rs (Suc i) xs"
    and "P (rs ! i) \<Longrightarrow> kept f P rs (Suc i) (xs[length (filter P (take i rs)) := f (rs ! i)])"
proof -
  let ?out = "length (filter P (take i rs))"
  have out: "?out \<le> i" using length_filter_le [of P "take i rs"] by simp
  have xs: "length xs = length (map f rs)" "drop i xs = drop i (map f rs)" "i < length (map f rs)"
    using assms by (simp_all add: kept_def)
  note moved = moved_entry [OF out xs(3,1,2)]
  show "xs ! i = f (rs ! i)" using moved(1) assms(2) by simp
  have next_i: "filter P (take (Suc i) rs) = filter P (take i rs) @ (if P (rs ! i) then [rs ! i] else [])"
    using assms(2) by (simp add: take_Suc_conv_app_nth)
  show "kept f P rs (Suc i) xs" if "\<not> P (rs ! i)"
    using assms(1) that xs(2) unfolding kept_def next_i by (simp, metis drop_drop plus_1_eq_Suc)
  show "kept f P rs (Suc i) (xs[?out := f (rs ! i)])" if "P (rs ! i)"
    using assms(1) that moved(2-4) unfolding kept_def next_i by simp
qed

definition kept_column :: "(int \<Rightarrow> rat option) \<Rightarrow> point_row list \<Rightarrow> nat \<Rightarrow> counter_series \<Rightarrow> bool" where
  "kept_column m rs i cs \<longleftrightarrow>
     (let P = (\<lambda>r. m (pt_bucket r) \<noteq> None)
      in kept pt_bucket P rs i (cs_t cs) \<and> kept pt_avg P rs i (cs_avg cs) \<and> kept pt_min P rs i (cs_min cs)
         \<and> kept pt_max P rs i (cs_max cs) \<and> length (cs_p50 cs) = length rs
         \<and> take (length (filter P (take i rs))) (cs_p50 cs) = map (\<lambda>r. the (m (pt_bucket r))) (filter P (take i rs)))"

lemma kept_column_step:
  assumes "kept_column m rs i cs" and "i < length rs"
    and out_def: "out = length (filter (\<lambda>r. m (pt_bucket r) \<noteq> None) (take i rs))"
  shows "kept_column m rs (Suc i) (fst (compact_step m i (cs, out)))
    \<and> snd (compact_step m i (cs, out)) = length (filter (\<lambda>r. m (pt_bucket r) \<noteq> None) (take (Suc i) rs))"
proof -
  let ?P = "\<lambda>r. m (pt_bucket r) \<noteq> None"
  have k: "kept pt_bucket ?P rs i (cs_t cs)" "kept pt_avg ?P rs i (cs_avg cs)" "kept pt_min ?P rs i (cs_min cs)"
    "kept pt_max ?P rs i (cs_max cs)" "length (cs_p50 cs) = length rs"
    "take out (cs_p50 cs) = map (\<lambda>r. the (m (pt_bucket r))) (filter ?P (take i rs))"
    using assms(1) by (simp_all add: kept_column_def Let_def out_def)
  have out: "out < length rs"
    using length_filter_le [of ?P "take i rs"] assms(2) by (simp add: out_def)
  have next_i: "filter ?P (take (Suc i) rs) = filter ?P (take i rs) @ (if ?P (rs ! i) then [rs ! i] else [])"
    using assms(2) by (simp add: take_Suc_conv_app_nth)
  note at_i = kept_step(1) [OF k(1) assms(2)] kept_step(1) [OF k(2) assms(2)] kept_step(1) [OF k(3) assms(2)]
    kept_step(1) [OF k(4) assms(2)]
  show ?thesis
  proof (cases "m (pt_bucket (rs ! i))")
    case None
    then show ?thesis
      using kept_step(2) [OF k(1) assms(2)] kept_step(2) [OF k(2) assms(2)] kept_step(2) [OF k(3) assms(2)]
        kept_step(2) [OF k(4) assms(2)] k(5,6)
      by (simp add: compact_step_def at_i kept_column_def next_i out_def Let_def del: not_None_eq)
  next
    case (Some p)
    then show ?thesis
      using kept_step(3) [OF k(1) assms(2)] kept_step(3) [OF k(2) assms(2)] kept_step(3) [OF k(3) assms(2)]
        kept_step(3) [OF k(4) assms(2)] k(5,6) out
      by (simp add: compact_step_def at_i kept_column_def next_i Let_def take_Suc_conv_app_nth del: not_None_eq flip: out_def)
  qed
qed

lemma compact_column:
  "compact_series m (column False rs)
    = (let rs' = filter (\<lambda>r. m (pt_bucket r) \<noteq> None) rs
       in (column False rs')\<lparr>cs_p50 := map (\<lambda>r. the (m (pt_bucket r))) rs'\<rparr>)"
proof -
  let ?P = "\<lambda>r. m (pt_bucket r) \<noteq> None"
  let ?start = "((column False rs)\<lparr>cs_p50 := replicate (length rs) 0\<rparr>, 0)"
  have run: "kept_column m rs i (fst (fold (compact_step m) [0..<i] ?start))
      \<and> snd (fold (compact_step m) [0..<i] ?start) = length (filter ?P (take i rs))" if "i \<le> length rs" for i
    using that
  proof (induction i)
    case 0
    then show ?case by (simp add: kept_column_def column_def kept_start)
  next
    case (Suc i)
    obtain cs out where res: "fold (compact_step m) [0..<i] ?start = (cs, out)" by force
    then show ?case using Suc kept_column_step [of m rs i cs out] by (simp del: not_None_eq)
  qed
  obtain cs out where res: "fold (compact_step m) [0..<length rs] ?start = (cs, out)" by force
  have "kept_column m rs (length rs) cs" "out = length (filter ?P rs)" using run [of "length rs"] by (simp_all add: res del: not_None_eq)
  then show ?thesis
    using res by (simp add: compact_series_def kept_column_def kept_def Let_def column_def del: not_None_eq)
qed

subsection \<open>The series of the fleet\<close>

lemma perm_empty: "mset xs = mset ys \<Longrightarrow> xs = [] \<longleftrightarrow> ys = []"
  by auto

lemma mset_host_values: "mset (host_values c b (sort_key f hps)) = mset (host_values c b hps)"
  by (simp add: host_values_def mset_filter)

lemma host_values_sorted:
  "host_values c b (sort_key f hps) = [] \<longleftrightarrow> host_values c b hps = []"
  "median_of (host_values c b (sort_key f hps)) = median_of (host_values c b hps)"
  using mset_host_values [of c b f hps] by (rule perm_empty, rule median_of_perm)

lemma sorted_host_groups: "sorted (map host_group (sort_key (\<lambda>h. (hp_counter h, hp_bucket h, hp_host h)) hps))"
proof -
  let ?rows = "sort_key (\<lambda>h. (hp_counter h, hp_bucket h, hp_host h)) hps"
  have "sorted_wrt (\<lambda>h h'. (hp_counter h, hp_bucket h, hp_host h) \<le> (hp_counter h', hp_bucket h', hp_host h')) ?rows"
    using sorted_sort_key [of "\<lambda>h. (hp_counter h, hp_bucket h, hp_host h)" hps] by (simp only: sorted_map)
  then have "sorted_wrt (\<lambda>h h'. host_group h \<le> host_group h') ?rows"
    by (rule sorted_wrt_mono_rel [rotated]) auto
  then show ?thesis by (simp only: sorted_map)
qed

lemma fleet_points_ordered: "by_counter (fleet_points tr hosts lo hi cs raw_ms t) = fleet_points tr hosts lo hi cs raw_ms t"
  by (simp add: fleet_points_def fleet_raw_points_def fleet_agg_points_def split: tier.split)

lemma fleet_points_pk: "has_pk point_key (fleet_points tr hosts lo hi cs raw_ms t)"
  by (cases tr) (auto simp: fleet_points_def fleet_raw_points_def fleet_agg_points_def intro: has_pk_group_by)

lemma fleet_points_groups:
  "point_key ` set (fleet_points tr hosts lo hi cs raw_ms t)
     = host_group ` set (fleet_host_points tr hosts lo hi cs raw_ms t)"
  by (cases tr) (simp_all add: fleet_points_def fleet_raw_points_def fleet_agg_points_def fleet_host_points_def
      set_group_by image_image bucket_host_points_def point_of_bucket_def)

lemma mem_fleet_points_counter: "p \<in> set (mem_fleet_points ms) \<Longrightarrow> pt_counter p = mem_used_pct"
  by (auto simp: mem_fleet_points_def set_group_by Let_def)

lemma points_of_mem: "c \<noteq> mem_used_pct \<Longrightarrow> points_of c (mem_fleet_points ms) = []"
  by (auto simp: filter_empty_conv dest: mem_fleet_points_counter)

lemma map_of_map_key: "map_of (map (\<lambda>(k, v). (k, f k v)) al) k = map_option (f k) (map_of al k)"
  by (induction al) auto

lemma map_of_populate_p50:
  "map_of (populate_fleet_p50 hps data) c
    = map_option (\<lambda>cs. if c = mem_used_pct then cs
        else compact_series (\<lambda>b. fleet_medians data (sort_key (\<lambda>h. (hp_counter h, hp_bucket h, hp_host h)) hps) (c, b)) cs)
       (map_of data c)"
  by (simp add: populate_fleet_p50_def Let_def map_of_map_key)

lemma map_of_populate_mem: "c \<noteq> mem_used_pct \<Longrightarrow> map_of (populate_mem_p50 ms data) c = map_of data c"
  by (simp add: populate_mem_p50_def update_conv' Let_def split: option.split prod.split)

abbreviation real_counters :: "string list \<Rightarrow> string list" where
  "real_counters counters \<equiv> fst (split_mem_used_pct counters)"

lemma fleet_series_medians:
  assumes "map_of (fleet_data tr hosts lo hi counters raw_ms t) c = Some cs" and "c \<noteq> mem_used_pct"
    and hps_def: "hps = fleet_host_points tr hosts lo hi (real_counters counters) raw_ms t"
  shows "parallel cs \<and> sorted_wrt (<) (cs_t cs) \<and> set (cs_t cs) = {b. host_values c b hps \<noteq> []}
    \<and> cs_p50 cs = map (\<lambda>b. median_of (host_values c b hps)) (cs_t cs)"
proof -
  obtain rest virt reg where split: "split_mem_used_pct counters = (rest, virt, reg)" by (cases "split_mem_used_pct counters")
  let ?fleet = "fleet_points tr hosts lo hi rest raw_ms t"
  let ?mem = "mem_fleet_points (fleet_mem_points tr hosts lo hi raw_ms t)"
  let ?points = "(if reg then ?fleet else []) @ (if virt then ?mem else [])"
  obtain data where data: "data = fold (add_point False) ?points []" by blast
  let ?rows = "sort_key (\<lambda>h. (hp_counter h, hp_bucket h, hp_host h)) hps"
  obtain m where m: "m = (\<lambda>b. fleet_medians data ?rows (c, b))" by blast
  have "map_of (populate_fleet_p50 hps data) c = Some cs"
    using assms by (auto simp: fleet_data_def split data map_of_populate_mem split: if_splits)
  then obtain cs0 where cs0: "map_of data c = Some cs0" and cs: "cs = compact_series m cs0"
    using assms(2) by (auto simp: map_of_populate_p50 m)
  have reg: "reg" and cs0_col: "cs0 = column False (points_of c ?fleet)"
    using cs0 unfolding data map_of_points by (auto simp: points_of_mem [OF assms(2)] split: if_splits)
  have order: "sorted_wrt (<) (map pt_bucket (points_of c ?fleet))"
    using points_of_order [OF fleet_points_pk, of c] by (simp only: fleet_points_ordered)
  have in_fleet: "b \<in> pt_bucket ` set (points_of c ?fleet) \<longleftrightarrow> (c, b) \<in> host_group ` set hps" for b
  proof -
    have "b \<in> pt_bucket ` set (points_of c ?fleet) \<longleftrightarrow> (c, b) \<in> point_key ` set ?fleet" by auto
    then show ?thesis by (simp only: fleet_points_groups hps_def split fst_conv)
  qed
  have "reported data (c, b)" if "b \<in> pt_bucket ` set (points_of c ?fleet)" for b
    using that order cs0 unfolding reported_def cs0_col by (auto simp: column_def bucket_at_iff strict_sorted_iff)
  then have med: "m b = (if host_values c b hps \<noteq> [] then Some (median_of (host_values c b hps)) else None)"
    if "b \<in> pt_bucket ` set (points_of c ?fleet)" for b
    using that unfolding m by (simp add: fleet_medians_at [OF sorted_host_groups] host_values_sorted)
  let ?kept = "filter (\<lambda>r. host_values c (pt_bucket r) hps \<noteq> []) (points_of c ?fleet)"
  have kept: "filter (\<lambda>r. m (pt_bucket r) \<noteq> None) (points_of c ?fleet) = ?kept"
    by (rule filter_cong [OF refl]) (simp add: med)
  have cs_eq: "cs = (column False ?kept)\<lparr>cs_p50 := map (\<lambda>r. median_of (host_values c (pt_bucket r) hps)) ?kept\<rparr>"
    unfolding cs cs0_col compact_column Let_def kept by (simp add: med)
  have "sorted_wrt (<) (map pt_bucket ?kept)"
    using order unfolding sorted_wrt_map by (rule sorted_wrt_filter)
  moreover have "set (map pt_bucket ?kept) = {b. host_values c b hps \<noteq> []}"
  proof -
    have "b \<in> pt_bucket ` set (points_of c ?fleet)" if "host_values c b hps \<noteq> []" for b
      using that unfolding in_fleet by (auto simp: host_values_def filter_empty_conv image_iff)
    then show ?thesis by auto
  qed
  ultimately show ?thesis by (simp add: cs_eq column_def parallel_def)
qed

subsection \<open>The medians of the memory counter\<close>

definition host_pcts :: "int \<Rightarrow> mem_point list \<Rightarrow> rat list" where
  "host_pcts b ms = map (\<lambda>m. the (host_pct m)) (filter (\<lambda>m. mp_bucket m = b \<and> host_pct m \<noteq> None) ms)"

definition p50_pcts :: "int \<Rightarrow> mem_point list \<Rightarrow> rat list" where
  "p50_pcts b rows = map (\<lambda>r. (1 - the (mp_avail r) / the (mp_total r)) * 100)
     (filter (\<lambda>r. mp_bucket r = b \<and> 0 < the (mp_total r)) rows)"

definition mem_run :: "int list \<Rightarrow> mem_point list \<Rightarrow> int \<times> rat list \<times> rat list \<Rightarrow> rat list" where
  "mem_run ts rows s = (let (b, values, p50s) = fold (mem_step ts) rows s in flush_mem ts b values p50s)"

lemma mem_run_simps [simp]:
  "mem_run ts [] (b, values, p50s) = flush_mem ts b values p50s"
  "mem_run ts (r # rows) s = mem_run ts rows (mem_step ts r s)"
  by (simp_all add: mem_run_def)

lemma p50_pcts_simps [simp]:
  "p50_pcts b [] = []"
  "p50_pcts b (r # rows) = (if mp_bucket r = b \<and> 0 < the (mp_total r)
     then [(1 - the (mp_avail r) / the (mp_total r)) * 100] else []) @ p50_pcts b rows"
  by (simp_all add: p50_pcts_def)

lemma p50_pcts_later: "\<forall>r \<in> set rows. b < mp_bucket r \<Longrightarrow> p50_pcts b rows = []"
  by (auto simp: p50_pcts_def filter_empty_conv)

lemma mem_run_medians:
  assumes "sorted (map mp_bucket rows)" and "\<forall>r \<in> set rows. b \<le> mp_bucket r"
  shows "mem_run ts rows (b, vs, ps)
    = (let V = (\<lambda>b'. (if b' = b then vs else []) @ p50_pcts b' rows)
       in ps @ map (\<lambda>b'. median_of (V b')) (filter (\<lambda>b'. V b' \<noteq> [] \<and> bucket_at ts b') (remdups_adj (b # map mp_bucket rows))))"
  using assms
proof (induction rows arbitrary: b vs ps)
  case Nil
  then show ?case by (simp add: flush_mem_def)
next
  case (Cons r rows)
  let ?v = "if 0 < the (mp_total r) then [(1 - the (mp_avail r) / the (mp_total r)) * 100] else []"
  have later: "sorted (map mp_bucket rows)" "\<forall>r' \<in> set rows. mp_bucket r \<le> mp_bucket r'" using Cons.prems(1) by auto
  show ?case
  proof (cases "mp_bucket r = b")
    case True
    then have "mem_step ts r (b, vs, ps) = (b, vs @ ?v, ps)" by (simp add: mem_step_def)
    moreover have "(if b' = b then vs @ ?v else []) @ p50_pcts b' rows = (if b' = b then vs else []) @ p50_pcts b' (r # rows)"
      for b' using True by simp
    ultimately show ?thesis using Cons.IH [OF later(1), of b "vs @ ?v" ps] later(2) True by (simp only: mem_run_simps) simp
  next
    case False
    then have step: "mem_step ts r (b, vs, ps) = (mp_bucket r, ?v, flush_mem ts b vs ps)" by (simp add: mem_step_def)
    have "b < mp_bucket r" using Cons.prems(2) False by (auto simp: order_less_le)
    then have after: "\<forall>r' \<in> set (r # rows). b < mp_bucket r'" using later(2) by auto
    have none: "p50_pcts b (r # rows) = []" by (rule p50_pcts_later [OF after])
    let ?bs = "remdups_adj (mp_bucket r # map mp_bucket rows)"
    have bs: "remdups_adj (b # map mp_bucket (r # rows)) = b # ?bs" using False by simp
    let ?V = "\<lambda>b'. (if b' = b then vs else []) @ p50_pcts b' (r # rows)"
    let ?W = "\<lambda>b'. (if b' = mp_bucket r then ?v else []) @ p50_pcts b' rows"
    have same: "?W b' = ?V b'" if "b' \<in> set ?bs" for b' using that after by auto
    have "mem_run ts (r # rows) (b, vs, ps)
        = flush_mem ts b vs ps @ map (\<lambda>b'. median_of (?W b')) (filter (\<lambda>b'. ?W b' \<noteq> [] \<and> bucket_at ts b') ?bs)"
      unfolding mem_run_simps step using Cons.IH [OF later, of ?v "flush_mem ts b vs ps"] by (simp only: Let_def)
    also have "filter (\<lambda>b'. ?W b' \<noteq> [] \<and> bucket_at ts b') ?bs = filter (\<lambda>b'. ?V b' \<noteq> [] \<and> bucket_at ts b') ?bs"
      by (rule filter_cong [OF refl]) (simp only: same)
    also have "map (\<lambda>b'. median_of (?W b')) \<dots> = map (\<lambda>b'. median_of (?V b')) \<dots>"
      by (rule map_cong [OF refl]) (simp only: same set_filter mem_Collect_eq)
    finally show ?thesis unfolding Let_def bs using none by (simp add: flush_mem_def)
  qed
qed

lemma strict_remdups_adj: "sorted xs \<Longrightarrow> sorted_wrt (<) (remdups_adj xs)"
proof (induction xs rule: remdups_adj.induct)
  case (3 x y xs)
  then have "\<forall>z \<in> set (remdups_adj (y # xs)). x \<le> z" by (metis remdups_adj_set sorted_simps(2))
  then show ?case using 3 by (auto simp: order_less_le)
qed simp_all

lemma mem_medians:
  assumes "sorted (map mp_bucket rows)"
  shows "mem_run ts rows (0, [], [])
    = map (\<lambda>b. median_of (p50_pcts b rows))
        (filter (\<lambda>b. p50_pcts b rows \<noteq> [] \<and> bucket_at ts b) (remdups_adj (map mp_bucket rows)))"
proof (cases rows)
  case (Cons r tail)
  let ?v = "if 0 < the (mp_total r) then [(1 - the (mp_avail r) / the (mp_total r)) * 100] else []"
  have "mem_step ts r (0, [], []) = (mp_bucket r, ?v, [])" by (simp add: mem_step_def flush_mem_def)
  moreover have "p50_pcts b rows = (if b = mp_bucket r then ?v else []) @ p50_pcts b tail" for b
    by (auto simp: Cons)
  ultimately show ?thesis
    using mem_run_medians [of tail "mp_bucket r" ts ?v "[]"] assms unfolding Cons by (simp only: mem_run_simps Let_def) simp
qed (simp add: flush_mem_def)

lemma host_pcts_simps [simp]:
  "host_pcts b [] = []"
  "host_pcts b (m # ms) = (if mp_bucket m = b \<and> host_pct m \<noteq> None then [the (host_pct m)] else []) @ host_pcts b ms"
  by (simp_all add: host_pcts_def)

lemma host_pct_inputs: "host_pct m \<noteq> None \<Longrightarrow> mp_avail m \<noteq> None \<and> mp_total m \<noteq> None"
  by (auto simp: host_pct_def split: option.splits)

lemma p50_pcts_are_host_pcts:
  assumes "\<And>m s. m \<in> set ms \<Longrightarrow> mp_total m = Some s \<Longrightarrow> 0 \<le> s"
  shows "p50_pcts b (filter (\<lambda>r. mp_avail r \<noteq> None \<and> mp_total r \<noteq> None) ms) = host_pcts b ms"
  using assms
proof (induction ms)
  case (Cons m ms)
  have "p50_pcts b (filter (\<lambda>r. mp_avail r \<noteq> None \<and> mp_total r \<noteq> None) ms) = host_pcts b ms"
    by (rule Cons.IH) (use Cons.prems in auto)
  moreover have "0 \<le> s" if "mp_total m = Some s" for s using that Cons.prems [of m s] by simp
  ultimately show ?case
    by (cases "mp_avail m"; cases "mp_total m") (auto simp: host_pct_def order_less_le)
qed simp

lemma p50_pcts_sorted: "mset (p50_pcts b (sort_key f rows)) = mset (p50_pcts b rows)"
  by (simp add: p50_pcts_def mset_filter)

lemma sorted_mem_buckets: "sorted (map mp_bucket (sort_key (\<lambda>r. (mp_bucket r, mp_host r)) rows))"
proof -
  let ?rows = "sort_key (\<lambda>r. (mp_bucket r, mp_host r)) rows"
  have "sorted_wrt (\<lambda>r r'. (mp_bucket r, mp_host r) \<le> (mp_bucket r', mp_host r')) ?rows"
    using sorted_sort_key [of "\<lambda>r. (mp_bucket r, mp_host r)" rows] by (simp only: sorted_map)
  then have "sorted_wrt (\<lambda>r r'. mp_bucket r \<le> mp_bucket r') ?rows"
    by (rule sorted_wrt_mono_rel [rotated]) auto
  then show ?thesis by (simp only: sorted_map)
qed

lemma mem_points_order: "sorted_wrt (<) (map pt_bucket (mem_fleet_points ms))"
proof -
  let ?agg = "\<lambda>b hs. let ps = map (\<lambda>m. the (host_pct m)) hs in
     \<lparr>pt_bucket = b, pt_counter = mem_used_pct, pt_avg = sql_avg ps, pt_min = Min (set ps), pt_max = Max (set ps)\<rparr>"
  let ?groups = "group_by mp_bucket ?agg (filter (\<lambda>m. host_pct m \<noteq> None) ms)"
  have pk: "distinct (map pt_bucket ?groups)"
    unfolding has_pk_def [symmetric] by (rule has_pk_group_by) (simp add: Let_def)
  have perm: "mset (map pt_bucket (mem_fleet_points ms)) = mset (map pt_bucket ?groups)"
    unfolding mem_fleet_points_def mset_map mset_sort ..
  have "distinct (map pt_bucket (mem_fleet_points ms))"
    using mset_eq_imp_distinct_iff [OF perm] pk by blast
  moreover have "sorted (map pt_bucket (mem_fleet_points ms))"
    unfolding mem_fleet_points_def by (rule sorted_sort_key)
  ultimately show ?thesis by (simp only: strict_sorted_iff)
qed

lemma mem_points_buckets: "pt_bucket ` set (mem_fleet_points ms) = {b. host_pcts b ms \<noteq> []}"
proof -
  have "pt_bucket ` set (mem_fleet_points ms) = mp_bucket ` {m \<in> set ms. host_pct m \<noteq> None}"
    unfolding mem_fleet_points_def set_sort set_group_by image_image Let_def by simp
  also have "\<dots> = {b. host_pcts b ms \<noteq> []}" by (auto simp: host_pcts_def filter_empty_conv)
  finally show ?thesis .
qed

lemma mem_points_avg: "p \<in> set (mem_fleet_points ms) \<Longrightarrow> pt_avg p = sql_avg (host_pcts (pt_bucket p) ms)"
  unfolding mem_fleet_points_def set_sort set_group_by image_image Let_def
  by (elim imageE) (simp add: host_pcts_def conj_commute)

lemma fleet_mem_medians:
  assumes series: "map_of (fleet_data tr hosts lo hi counters raw_ms t) mem_used_pct = Some cs"
    and not_stored: "\<And>h. h \<in> set (fleet_host_points tr hosts lo hi (real_counters counters) raw_ms t) \<Longrightarrow> hp_counter h \<noteq> mem_used_pct"
    and ms_def: "ms = fleet_mem_points tr hosts lo hi raw_ms t"
    and nonneg: "\<And>m s. m \<in> set ms \<Longrightarrow> mp_total m = Some s \<Longrightarrow> 0 \<le> s"
  shows "parallel cs \<and> sorted_wrt (<) (cs_t cs) \<and> set (cs_t cs) = {b. host_pcts b ms \<noteq> []}
    \<and> cs_avg cs = map (\<lambda>b. sql_avg (host_pcts b ms)) (cs_t cs)
    \<and> cs_p50 cs = map (\<lambda>b. median_of (host_pcts b ms)) (cs_t cs)"
proof -
  obtain rest virt reg where split: "split_mem_used_pct counters = (rest, virt, reg)" by (cases "split_mem_used_pct counters")
  let ?fleet = "fleet_points tr hosts lo hi rest raw_ms t"
  let ?points = "(if reg then ?fleet else []) @ (if virt then mem_fleet_points ms else [])"
  obtain data where data: "data = fold (add_point False) ?points []" by blast
  let ?rows = "sort_key (\<lambda>r. (mp_bucket r, mp_host r)) (filter (\<lambda>r. mp_avail r \<noteq> None \<and> mp_total r \<noteq> None) ms)"
  have none: "points_of mem_used_pct ?fleet = []"
  proof -
    have "pt_counter p \<noteq> mem_used_pct" if "p \<in> set ?fleet" for p
    proof -
      have "point_key p \<in> host_group ` set (fleet_host_points tr hosts lo hi rest raw_ms t)"
        using that unfolding fleet_points_groups [symmetric] by (rule imageI)
      then obtain h where "h \<in> set (fleet_host_points tr hosts lo hi rest raw_ms t)" "pt_counter p = hp_counter h" by auto
      then show ?thesis using not_stored [of h] by (simp add: split)
    qed
    then show ?thesis by (simp add: filter_empty_conv)
  qed
  have all: "points_of mem_used_pct (mem_fleet_points ms) = mem_fleet_points ms"
    by (auto simp: filter_id_conv dest: mem_fleet_points_counter)
  have at: "map_of (populate_fleet_p50 (fleet_host_points tr hosts lo hi rest raw_ms t) data) mem_used_pct
      = (if virt \<and> mem_fleet_points ms \<noteq> [] then Some (column False (mem_fleet_points ms)) else None)"
    unfolding map_of_populate_p50 data map_of_points by (simp add: none all)
  have virt: virt
    using series at by (auto simp: fleet_data_def split data ms_def [symmetric] split: if_splits)
  have col: "mem_fleet_points ms \<noteq> []"
    and cs: "cs = (column False (mem_fleet_points ms))\<lparr>cs_p50 := mem_run (map pt_bucket (mem_fleet_points ms)) ?rows (0, [], [])\<rparr>"
    using series at virt
    by (auto simp: fleet_data_def split data ms_def [symmetric] populate_mem_p50_def update_conv' Let_def column_def mem_run_def
        split: if_splits prod.splits)
  obtain rows where rows: "rows = ?rows" by blast
  note cs = cs [folded rows]
  have sorted_rows: "sorted (map mp_bucket rows)" unfolding rows by (rule sorted_mem_buckets)
  let ?T = "map pt_bucket (mem_fleet_points ms)"
  have order: "sorted_wrt (<) ?T" by (rule mem_points_order)
  have buckets: "set ?T = {b. host_pcts b ms \<noteq> []}" using mem_points_buckets by simp
  have same: "p50_pcts b rows = [] \<longleftrightarrow> host_pcts b ms = []" "median_of (p50_pcts b rows) = median_of (host_pcts b ms)" for b
  proof -
    have eq: "p50_pcts b (filter (\<lambda>r. mp_avail r \<noteq> None \<and> mp_total r \<noteq> None) ms) = host_pcts b ms"
      by (rule p50_pcts_are_host_pcts) (rule nonneg)
    have perm: "mset (p50_pcts b rows) = mset (host_pcts b ms)"
      unfolding rows p50_pcts_sorted eq ..
    then show "p50_pcts b rows = [] \<longleftrightarrow> host_pcts b ms = []" by (rule perm_empty)
    show "median_of (p50_pcts b rows) = median_of (host_pcts b ms)" using perm by (rule median_of_perm)
  qed
  have medians: "cs_p50 cs = map (\<lambda>b. median_of (host_pcts b ms)) (filter (\<lambda>b. host_pcts b ms \<noteq> [] \<and> b \<in> set ?T)
      (remdups_adj (map mp_bucket rows)))"
    using bucket_at_iff [of ?T] order by (simp add: cs mem_medians [OF sorted_rows] same strict_sorted_iff)
  let ?due = "filter (\<lambda>b. host_pcts b ms \<noteq> [] \<and> b \<in> set ?T) (remdups_adj (map mp_bucket rows))"
  have "?due = ?T"
  proof (rule strict_sorted_equal)
    show "sorted_wrt (<) ?due" by (intro sorted_wrt_filter strict_remdups_adj sorted_rows)
    have "b \<in> mp_bucket ` set rows" if "host_pcts b ms \<noteq> []" for b
    proof -
      from that obtain r where "r \<in> set ms" "mp_bucket r = b" "host_pct r \<noteq> None"
        by (auto simp: host_pcts_def filter_empty_conv)
      then show ?thesis using host_pct_inputs [of r] unfolding rows set_sort set_filter by blast
    qed
    then show "set ?due = set ?T" unfolding buckets by auto
  qed (rule order)
  then have p50: "cs_p50 cs = map (\<lambda>b. median_of (host_pcts b ms)) ?T" using medians by simp
  then show ?thesis
    using order buckets mem_points_avg by (simp add: cs column_def parallel_def)
qed

subsection \<open>What a query returns\<close>

text \<open>The memory counter is computed on reading only, and a stored amount of memory is not negative.\<close>

definition memory_rows_ok :: "metric_tables \<Rightarrow> bool" where
  "memory_rows_ok t \<longleftrightarrow>
     (\<forall>r \<in> set (mt_raw t). rr_counter r \<noteq> mem_used_pct \<and> (rr_counter r = mem_total_mb \<longrightarrow> 0 \<le> rr_value r))
     \<and> (\<forall>r \<in> set (mt_5min t) \<union> set (mt_hourly t). bk_counter r \<noteq> mem_used_pct \<and> (bk_counter r = mem_total_mb \<longrightarrow> 0 \<le> bk_avg r))"

lemma memory_not_stored:
  assumes "memory_rows_ok t" and "h \<in> set (fleet_host_points tr hosts lo hi cs raw_ms t)"
  shows "hp_counter h \<noteq> mem_used_pct"
  using assms by (cases tr) (auto simp: memory_rows_ok_def fleet_host_points_def raw_host_points_def bucket_host_points_def
      fleet_raw_rows_def fleet_bucket_rows_def set_group_by point_of_bucket_def)

lemma sql_avg_nonneg: "\<forall>x \<in> set xs. 0 \<le> x \<Longrightarrow> 0 \<le> sql_avg xs"
  by (simp add: sql_avg_def sum_list_nonneg)

lemma max_null_nonneg: "max_null xs = Some s \<Longrightarrow> \<forall>x \<in> set xs. 0 \<le> x \<Longrightarrow> 0 \<le> s"
  using Max_in [of "set xs"] by (auto simp: max_null_def split: if_splits)

lemma group_by_member: "x \<in> set (group_by key agg rows) \<Longrightarrow> \<exists>k rs. x = agg k rs \<and> (\<forall>r \<in> set rs. r \<in> set rows)"
proof -
  assume "x \<in> set (group_by key agg rows)"
  then obtain k where "x = agg k (filter (\<lambda>r. key r = k) rows)" by (auto simp: set_group_by)
  moreover have "\<forall>r \<in> set (filter (\<lambda>r. key r = k) rows). r \<in> set rows" by simp
  ultimately show ?thesis by blast
qed

lemma raw_totals_nonneg:
  assumes "memory_rows_ok t" and "m \<in> set (raw_mem_points w hosts lo hi t)" and "mp_total m = Some s"
  shows "0 \<le> s"
proof -
  obtain rs where total: "avg_null (map rr_value (filter (\<lambda>r. rr_counter r = mem_total_mb) rs)) = Some s"
    and rs: "\<forall>r \<in> set rs. r \<in> set (mt_raw t)"
    using group_by_member [OF assms(2) [unfolded raw_mem_points_def]] assms(3) by (force simp: fleet_raw_rows_def)
  then have "\<forall>v \<in> set (map rr_value (filter (\<lambda>r. rr_counter r = mem_total_mb) rs)). 0 \<le> v"
    using assms(1) by (auto simp: memory_rows_ok_def)
  then show ?thesis using sql_avg_nonneg total by (auto simp: avg_null_def split: if_splits)
qed

lemma bucket_totals_nonneg:
  assumes "\<forall>r \<in> set rows. bk_counter r = mem_total_mb \<longrightarrow> 0 \<le> bk_avg r"
    and "m \<in> set (bucket_mem_points hosts lo hi rows)" and "mp_total m = Some s"
  shows "0 \<le> s"
proof -
  obtain rs where total: "max_null (map bk_avg (filter (\<lambda>r. bk_counter r = mem_total_mb) rs)) = Some s"
    and rs: "\<forall>r \<in> set rs. r \<in> set rows"
    using group_by_member [OF assms(2) [unfolded bucket_mem_points_def]] assms(3) by (force simp: fleet_bucket_rows_def)
  then have "\<forall>v \<in> set (map bk_avg (filter (\<lambda>r. bk_counter r = mem_total_mb) rs)). 0 \<le> v"
    using assms(1) by auto
  then show ?thesis by (rule max_null_nonneg [OF total])
qed

lemma fleet_totals_nonneg:
  assumes "memory_rows_ok t" and "m \<in> set (fleet_mem_points tr hosts lo hi raw_ms t)" and "mp_total m = Some s"
  shows "0 \<le> s"
proof -
  have bucket_ok: "\<forall>r \<in> set rows. bk_counter r = mem_total_mb \<longrightarrow> 0 \<le> bk_avg r" if "rows = mt_5min t \<or> rows = mt_hourly t" for rows
    using assms(1) that by (auto simp: memory_rows_ok_def)
  consider (raw) w where "m \<in> set (raw_mem_points w hosts lo hi t)"
    | (bucket) rows where "rows = mt_5min t \<or> rows = mt_hourly t" "m \<in> set (bucket_mem_points hosts lo hi rows)"
    using assms(2) unfolding fleet_mem_points_def by (cases tr) auto
  then show ?thesis
  proof cases
    case raw
    then show ?thesis using raw_totals_nonneg [OF assms(1) _ assms(3)] by blast
  next
    case bucket
    then show ?thesis using bucket_totals_nonneg [OF bucket_ok _ assms(3)] by blast
  qed
qed

text \<open>
  C15: in the answer to a fleet query, every counter but the memory one has strictly increasing times
  with arrays of one length, its times are the buckets in which some host takes part, and its p50 array
  holds the medians of the values of those hosts. A host takes part unless the counter is the session
  limit and the host has none.
\<close>
theorem fleet_medians_exact:
  assumes "map_of (se_data (query_range_fleet hosts from_t to_t tr counters raw_ms t)) c = Some cs"
    and "c \<noteq> mem_used_pct"
    and "hps = fleet_host_points tr hosts (unix_milli from_t) (unix_milli to_t) (fst (split_mem_used_pct counters)) raw_ms t"
  shows "parallel cs \<and> sorted_wrt (<) (cs_t cs) \<and> set (cs_t cs) = {b. host_values c b hps \<noteq> []}
    \<and> cs_p50 cs = map (\<lambda>b. median_of (host_values c b hps)) (cs_t cs)"
proof (rule fleet_series_medians)
  show "map_of (fleet_data tr hosts (unix_milli from_t) (unix_milli to_t) counters raw_ms t) c = Some cs"
    using assms(1) by (auto simp: query_range_fleet_def split: prod.splits if_splits)
qed (use assms(2,3) in simp_all)

definition fleet_sample_row :: "string \<Rightarrow> string \<Rightarrow> int \<Rightarrow> rat \<Rightarrow> raw_row" where
  "fleet_sample_row h c ts v = \<lparr>rr_ts = ts, rr_host = h, rr_counter = c, rr_value = v\<rparr>"

definition fleet_sample :: metric_tables where
  "fleet_sample = \<lparr>mt_raw = [fleet_sample_row ''A'' ''cpu'' 0 10, fleet_sample_row ''B'' ''cpu'' 9 20,
     fleet_sample_row ''C'' ''cpu'' 7 60, fleet_sample_row ''A'' ''cpu'' 90000 40,
     fleet_sample_row ''A'' ''mem_avail_mb'' 0 1, fleet_sample_row ''A'' ''mem_total_mb'' 0 4], mt_5min = [], mt_hourly = []\<rparr>"

theorem fleet_medians_exact_witness:
  "let hps = fleet_host_points TierRaw [''A'', ''B'', ''C''] (unix_milli 0) (unix_milli 120000000000) [''cpu''] 60000 fleet_sample
   in [20, 40] = map (\<lambda>b. median_of (host_values ''cpu'' b hps)) [0, 60000]"
proof -
  have "map_of (se_data (query_range_fleet [''A'', ''B'', ''C''] 0 120000000000 TierRaw [''cpu''] 60000 fleet_sample)) ''cpu''
      = Some \<lparr>cs_t = [0, 60000], cs_avg = [30, 40], cs_min = [10, 40], cs_max = [60, 40], cs_p50 = [20, 40]\<rparr>"
    by code_simp
  from fleet_medians_exact [OF this _ refl] show ?thesis by (simp add: split_mem_used_pct_def)
qed

text \<open>
  C40: when no host stores the memory counter itself and no stored total is negative, the memory series
  of a fleet query has strictly increasing times, its times are the buckets in which the memory in use
  is known for some host, and its averages and medians, which the code appends without looking at the
  position, are those of the hosts' percentages in the bucket at the same position.
\<close>
theorem memory_medians_aligned:
  assumes "map_of (se_data (query_range_fleet hosts from_t to_t tr counters raw_ms t)) mem_used_pct = Some cs"
    and "memory_rows_ok t"
    and "ms = fleet_mem_points tr hosts (unix_milli from_t) (unix_milli to_t) raw_ms t"
  shows "parallel cs \<and> sorted_wrt (<) (cs_t cs) \<and> set (cs_t cs) = {b. host_pcts b ms \<noteq> []}
    \<and> cs_avg cs = map (\<lambda>b. sql_avg (host_pcts b ms)) (cs_t cs)
    \<and> cs_p50 cs = map (\<lambda>b. median_of (host_pcts b ms)) (cs_t cs)"
proof (rule fleet_mem_medians)
  show "map_of (fleet_data tr hosts (unix_milli from_t) (unix_milli to_t) counters raw_ms t) mem_used_pct = Some cs"
    using assms(1) by (auto simp: query_range_fleet_def split: prod.splits if_splits)
  show "hp_counter h \<noteq> mem_used_pct"
    if "h \<in> set (fleet_host_points tr hosts (unix_milli from_t) (unix_milli to_t) (real_counters counters) raw_ms t)" for h
    using memory_not_stored [OF assms(2) that] .
  show "0 \<le> s" if "m \<in> set ms" "mp_total m = Some s" for m s
    using fleet_totals_nonneg [OF assms(2)] that unfolding assms(3) .
qed (rule assms(3))

theorem memory_medians_aligned_witness:
  "let ms = fleet_mem_points TierRaw [''A'', ''B''] (unix_milli 0) (unix_milli 120000000000) 60000 fleet_sample
   in [75] = map (\<lambda>b. median_of (host_pcts b ms)) [0]"
proof -
  have "map_of (se_data (query_range_fleet [''A'', ''B''] 0 120000000000 TierRaw [mem_used_pct] 60000 fleet_sample)) mem_used_pct
      = Some \<lparr>cs_t = [0], cs_avg = [75], cs_min = [75], cs_max = [75], cs_p50 = [75]\<rparr>"
    by code_simp
  moreover have "memory_rows_ok fleet_sample"
    by (simp add: memory_rows_ok_def fleet_sample_def fleet_sample_row_def)
  ultimately show ?thesis by (auto dest!: memory_medians_aligned [OF _ _ refl])
qed

end
