(* ===== verification/ServiceRun.thy ===== *)
theory ServiceRun
  imports AuditTrail
begin

text \<open>
  The run of the service over its checks and restarts (\<open>internal/svc/service_loop.go\<close>,
  \<open>internal/svc/check.go\<close>): the start reconciles the stored audit trail with the registry and seeds the
  in-memory observation from the latest row of the host; every check appends the transition it saw, and
  a failed append is only logged. The answers of the registry, the database and the clock are part of
  the events. The theorems: the age of a drain state counts from that seed across restarts, and the
  stored trail is the history of the modes seen. All times are readings of one clock.
\<close>

subsection \<open>The start\<close>

text \<open>
  \<open>sb_host\<close> is the name the system answers, empty when it has none; \<open>sb_reconcile_query\<close> is the error of
  the query for the latest rows during the reconciliation, if it fails. A failed append is logged in the job
  row with the message of a read-only store, whatever its cause; the last-write time of the registry key is
  never the zero time, so it is always stored.
\<close>

record start_input =
  sb_dashboard_only :: bool
  sb_host :: string
  sb_key :: "registry_key option"
  sb_now :: instant
  sb_finished :: instant
  sb_reconcile_query :: "string option"
  sb_appended :: bool
  sb_seed_query :: bool

record service_state =
  sv_check :: check_state
  sv_table :: "stored_audit list"
  sv_jobs :: "job_row list"

definition registry_host :: "string \<Rightarrow> string" where
  "registry_host host = (if host = [] then ''UNKNOWN'' else host)"

definition probe_of :: "start_input \<Rightarrow> registry_state \<Rightarrow> drain_probe" where
  "probe_of si s = \<lparr>dp_host = registry_host (sb_host si), dp_mode = int (gs_mode s), dp_modified = Some (gs_modified s)\<rparr>"

definition start_reconcile :: "start_input \<Rightarrow> stored_audit list \<times> job_row list \<Rightarrow> stored_audit list \<times> job_row list" where
  "start_reconcile si db =
     (if sb_dashboard_only si then db
      else (case read_drain_mode (sb_key si) of
              None \<Rightarrow> db
            | Some s \<Rightarrow>
                (case sb_reconcile_query si of
                   Some e \<Rightarrow> (fst db, drift_job (sb_now si) (sb_finished si) ''failure'' e 0 (snd db))
                 | None \<Rightarrow> snd (reconcile (sb_appended si) (probe_of si s) (sb_now si) (sb_finished si) db))))"

definition seed_observation :: "start_input \<Rightarrow> stored_audit list \<Rightarrow> observation option" where
  "seed_observation si table =
     (if sb_dashboard_only si \<or> sb_host si = [] \<or> \<not> sb_seed_query si then None
      else (case latest_by_host table (sb_host si) of
              None \<Rightarrow> None
            | Some row \<Rightarrow> Some \<lparr>ob_timestamp = ad_ts row, ob_mode = mode_of_state (ad_new row), ob_since = ad_ts row,
                ob_changed_by = ad_changed_by row\<rparr>))"

definition start_service :: "start_input \<Rightarrow> service_state \<Rightarrow> service_state" where
  "start_service si sv =
     (let (table, jobs) = start_reconcile si (sv_table sv, sv_jobs sv)
      in \<lparr>sv_check = start_check (seed_observation si table), sv_table = table, sv_jobs = jobs\<rparr>)"

subsection \<open>A check\<close>

text \<open>
  The settings in force, what the check gets from outside, the clock when its record is made and whether
  the database accepts the append.
\<close>

record cycle_input =
  cy_grace :: duration
  cy_poll :: duration
  cy_threshold :: int
  cy_perf :: perf_config
  cy_check :: check_input
  cy_recorded :: instant
  cy_appended :: bool

definition transition_row :: "instant \<Rightarrow> audit_row \<Rightarrow> audit_record" where
  "transition_row recorded a =
     \<lparr>ad_ts = recorded, ad_host = ar_host a, ad_prev = int (ar_prev a), ad_new = int (ar_new a),
      ad_principal = ar_principal a, ad_changed_by = ar_changed_by a, ad_reason = [],
      ad_key_modified = Some (ar_key_modified a), ad_reconciliation = False, ad_before = None\<rparr>"

definition append_transition :: "cycle_input \<Rightarrow> check_report option \<Rightarrow> stored_audit list \<Rightarrow> stored_audit list" where
  "append_transition ci r table =
     (case Option.bind r cr_audit of
        None \<Rightarrow> table
      | Some a \<Rightarrow>
          (case audit_append (cy_appended ci) (transition_row (cy_recorded ci) a) table of
             Inl e \<Rightarrow> table | Inr table' \<Rightarrow> table'))"

definition service_check ::
  "(float64 \<Rightarrow> float64 \<Rightarrow> float64) \<Rightarrow> cycle_input \<Rightarrow> service_state \<Rightarrow> service_state \<times> check_report option" where
  "service_check percent ci sv =
     (let (st, r) = run_check percent (cy_grace ci) (cy_poll ci) (cy_threshold ci) (cy_perf ci) (cy_check ci) (sv_check sv)
      in (sv\<lparr>sv_check := st, sv_table := append_transition ci r (sv_table sv)\<rparr>, r))"

subsection \<open>Runs\<close>

text \<open>
  \<open>Perf_Restarted\<close>: the collector is opened anew after a change of its settings or a return from
  dashboard-only operation, with fresh counters; the observation stays.
\<close>

datatype service_event = Service_Start start_input | Service_Check cycle_input | Perf_Restarted

definition service_step :: "(float64 \<Rightarrow> float64 \<Rightarrow> float64) \<Rightarrow> service_event \<Rightarrow> service_state \<Rightarrow> service_state" where
  "service_step percent e sv =
     (case e of
        Service_Start si \<Rightarrow> start_service si sv
      | Service_Check ci \<Rightarrow> fst (service_check percent ci sv)
      | Perf_Restarted \<Rightarrow> sv\<lparr>sv_check := (sv_check sv)\<lparr>cs_perf := zero_triggers\<rparr>\<rparr>)"

lemma service_step_simps [simp]:
  "service_step percent (Service_Start si) sv = start_service si sv"
  "service_step percent (Service_Check ci) sv = fst (service_check percent ci sv)"
  "service_step percent Perf_Restarted sv = sv\<lparr>sv_check := (sv_check sv)\<lparr>cs_perf := zero_triggers\<rparr>\<rparr>"
  by (simp_all add: service_step_def)

abbreviation run_service ::
  "(float64 \<Rightarrow> float64 \<Rightarrow> float64) \<Rightarrow> service_event list \<Rightarrow> service_state \<Rightarrow> service_state" where
  "run_service percent \<equiv> fold (service_step percent)"

definition is_start :: "service_event \<Rightarrow> bool" where
  "is_start e \<longleftrightarrow> (case e of Service_Start si \<Rightarrow> True | _ \<Rightarrow> False)"

definition checks_of :: "service_event list \<Rightarrow> check_input list" where
  "checks_of es = List.map_filter (\<lambda>e. case e of Service_Check ci \<Rightarrow> Some (cy_check ci) | _ \<Rightarrow> None) es"

lemma checks_of_simps [simp]:
  "checks_of [] = []" "checks_of (Service_Check ci # es) = cy_check ci # checks_of es"
  "checks_of (Service_Start si # es) = checks_of es" "checks_of (Perf_Restarted # es) = checks_of es"
  "checks_of (es @ es') = checks_of es @ checks_of es'"
  by (simp_all add: checks_of_def List.map_filter_def)

lemma service_check_state:
  "service_check percent ci sv = (sv', r) \<longleftrightarrow>
     run_check percent (cy_grace ci) (cy_poll ci) (cy_threshold ci) (cy_perf ci) (cy_check ci) (sv_check sv) = (sv_check sv', r)
     \<and> sv' = sv\<lparr>sv_check := sv_check sv', sv_table := append_transition ci r (sv_table sv)\<rparr>"
  by (cases sv) (auto simp: service_check_def split: prod.splits)

subsection \<open>The age of a drain state\<close>

text \<open>The reading that stands for the trail at a start: the latest row of the host, dated by it.\<close>

definition seeded_reads :: "start_input \<Rightarrow> stored_audit list \<Rightarrow> (instant \<times> drain_mode) list" where
  "seeded_reads si table =
     (if sb_dashboard_only si \<or> sb_host si = [] \<or> \<not> sb_seed_query si then []
      else (case latest_by_host table (sb_host si) of None \<Rightarrow> [] | Some row \<Rightarrow> [(ad_ts row, mode_of_state (ad_new row))]))"

lemma seed_tracks: "tracks (seed_observation si table) (seeded_reads si table)"
  by (auto simp: seed_observation_def seeded_reads_def tracks_def began_def split: option.split)

lemma start_seeded:
  "tracks (cs_observed (sv_check (start_service si sv))) (seeded_reads si (sv_table (start_service si sv)))"
  by (simp add: start_service_def start_check_def seed_tracks split: prod.split)

lemma service_check_tracks:
  assumes "tracks (cs_observed (sv_check sv)) rs"
  shows "tracks (cs_observed (sv_check (fst (service_check percent ci sv)))) (rs @ reads [cy_check ci])"
proof -
  obtain sv' r where run: "service_check percent ci sv = (sv', r)" by (metis surj_pair)
  note run' = run [unfolded service_check_state, THEN conjunct1]
  show ?thesis using run_check_tracks [OF run' assms] by (simp only: run fst_conv)
qed

lemma service_step_tracks:
  assumes "\<not> is_start e" and "tracks (cs_observed (sv_check sv)) rs"
  shows "tracks (cs_observed (sv_check (service_step percent e sv))) (rs @ reads (checks_of [e]))"
  using assms service_check_tracks [OF assms(2)]
  by (cases e) (simp_all add: is_start_def, simp add: reads_def List.map_filter_simps)

lemma run_service_tracks:
  "list_all (\<lambda>e. \<not> is_start e) es \<Longrightarrow> tracks (cs_observed (sv_check sv)) rs \<Longrightarrow>
   tracks (cs_observed (sv_check (run_service percent es sv))) (rs @ reads (checks_of es))"
proof (induction es arbitrary: sv rs)
  case Nil
  then show ?case by (simp add: reads_def List.map_filter_simps)
next
  case (Cons e es)
  have "checks_of (e # es) = checks_of [e] @ checks_of es" using checks_of_simps(5) [of "[e]" es] by simp
  then have "rs @ reads (checks_of (e # es)) = (rs @ reads (checks_of [e])) @ reads (checks_of es)"
    by (simp only: reads_append append_assoc)
  moreover have "\<not> is_start e" and es: "list_all (\<lambda>e. \<not> is_start e) es" using Cons.prems(1) by simp_all
  note Cons.IH [OF es service_step_tracks [OF this(1) Cons.prems(2)]]
  ultimately show ?case by (simp only: fold_Cons o_apply)
qed

text \<open>
  C21: after a start of the service, a check that reads the registry raises the alert exactly when
  connections are restricted and the present mode has been seen without a break for longer than the
  grace period (in whole seconds), where the readings start with the latest row of the stored trail,
  dated by it: the age counts across restarts. Without such a row (none stored, no host name, the
  query failed, or the start was dashboard-only) it counts from the first reading after the start.
  Settings may change between checks; reopening the collector does not matter.
\<close>

theorem alert_after_grace:
  assumes "list_all (\<lambda>e. \<not> is_start e) es"
    and "read_drain_mode (ti_key (cy_check ci)) = Some s"
    and "service_check percent ci (run_service percent (Service_Start si # es) sv) = (sv', Some x)"
  shows "''alert'' \<in> set (cr_triggers x) \<longleftrightarrow>
    gs_mode s \<noteq> allow_all
    \<and> cy_grace ci < dur_truncate (ti_later (cy_check ci)
        - began (seeded_reads si (sv_table (start_service si sv)) @ reads (checks_of es @ [cy_check ci]))) second"
proof -
  have "tracks (cs_observed (sv_check (run_service percent (Service_Start si # es) sv)))
      (seeded_reads si (sv_table (start_service si sv)) @ reads (checks_of es))"
    using run_service_tracks [OF assms(1) start_seeded] by simp
  then show ?thesis
    using run_check_alert_iff [OF assms(2) _ assms(3) [unfolded service_check_state, THEN conjunct1]]
    by (simp only: reads_append append_assoc)
qed


subsection \<open>The trail as the history of the modes\<close>

text \<open>The modes a run sees: the readings of the start-up reconciliations and of the checks, in order.\<close>

definition mode_seen :: "service_event \<Rightarrow> drain_mode list" where
  "mode_seen e =
     (case e of
        Service_Start si \<Rightarrow> (case read_drain_mode (sb_key si) of None \<Rightarrow> [] | Some s \<Rightarrow> [gs_mode s])
      | Service_Check ci \<Rightarrow> (case read_drain_mode (ti_key (cy_check ci)) of None \<Rightarrow> [] | Some s \<Rightarrow> [gs_mode s])
      | Perf_Restarted \<Rightarrow> [])"

text \<open>The millisecond in which an event would write its row.\<close>

definition write_time :: "service_event \<Rightarrow> int list" where
  "write_time e =
     (case e of Service_Start si \<Rightarrow> [unix_milli (sb_now si)] | Service_Check ci \<Rightarrow> [unix_milli (cy_recorded ci)]
      | Perf_Restarted \<Rightarrow> [])"

text \<open>An agent with a name whose queries and appends succeed.\<close>

definition healthy_event :: "string \<Rightarrow> service_event \<Rightarrow> bool" where
  "healthy_event h e \<longleftrightarrow>
     (case e of
        Service_Start si \<Rightarrow> \<not> sb_dashboard_only si \<and> sb_host si = h \<and> sb_reconcile_query si = None
          \<and> sb_appended si \<and> sb_seed_query si
      | Service_Check ci \<Rightarrow> ti_host (cy_check ci) = h \<and> cy_appended ci
      | Perf_Restarted \<Rightarrow> True)"

definition host_changes :: "string \<Rightarrow> stored_audit list \<Rightarrow> (int \<times> int) list" where
  "host_changes h rows = map (\<lambda>r. (ad_prev r, ad_new r)) (filter (\<lambda>r. ad_host r = h \<and> ad_prev r \<noteq> ad_new r) rows)"

definition mode_changes :: "drain_mode list \<Rightarrow> (int \<times> int) list" where
  "mode_changes ms = map (\<lambda>(a, b). (int a, int b)) (changes ms)"

lemma mode_changes_simps [simp]:
  "mode_changes [] = []" "mode_changes [a] = []"
  "mode_changes (a # b # l) = (if a = b then [] else [(int a, int b)]) @ mode_changes (b # l)"
  by (simp_all add: mode_changes_def)

lemma mode_changes_append: "mode_changes (ms @ a # l) = mode_changes (ms @ [a]) @ mode_changes (a # l)"
proof (induction ms)
  case (Cons m ms)
  then show ?case by (cases ms) simp_all
qed simp

lemma host_changes_append [simp]:
  "host_changes h [] = []" "host_changes h (rows @ rows') = host_changes h rows @ host_changes h rows'"
  by (simp_all add: host_changes_def)

definition trail_at :: "string \<Rightarrow> int \<Rightarrow> drain_mode \<Rightarrow> stored_audit list \<Rightarrow> bool" where
  "trail_at h t m table \<longleftrightarrow>
     has_pk audit_key table \<and> (\<forall>q \<in> set table. ad_host q = h \<longrightarrow> ad_ts q \<le> t)
     \<and> (\<exists>r. latest_by_host table h = Some r \<and> ad_new r = int m)"

lemma trail_later: "trail_at h t m table \<Longrightarrow> t \<le> t' \<Longrightarrow> trail_at h t' m table"
  by (fastforce simp: trail_at_def)

lemma trail_append:
  assumes "trail_at h t m table" and "ad_host r = h" "t < ad_ts r" "ad_new r = int m'"
  shows "insert_new audit_key r table = table @ [r]" and "trail_at h (ad_ts r) m' (table @ [r])"
proof -
  have less: "audit_key q < audit_key r" if "q \<in> set table" "ad_host q = h" for q
  proof -
    have "ad_ts q < ad_ts r" using assms(1,3) that by (fastforce simp: trail_at_def)
    then show ?thesis by (simp add: audit_key_def less_prod_def)
  qed
  then have fresh: "audit_key q \<noteq> audit_key r" if "q \<in> set table" for q
  proof (cases "ad_host q = h")
    case True then show ?thesis using less [OF that] by simp
  next
    case False then show ?thesis using assms(2) by (simp add: audit_key_def)
  qed
  then show "insert_new audit_key r table = table @ [r]" unfolding insert_new_def list_ex_iff by metis
  have pk: "has_pk audit_key (table @ [r])" using assms(1) fresh by (force simp: has_pk_def trail_at_def)
  have "latest_by_host (table @ [r]) h = Some (of_stored r)"
    using latest_by_host_append [OF pk assms(2) less] .
  moreover have "\<forall>q \<in> set (table @ [r]). ad_host q = h \<longrightarrow> ad_ts q \<le> ad_ts r"
    using assms(1,3) by (fastforce simp: trail_at_def)
  ultimately show "trail_at h (ad_ts r) m' (table @ [r])"
    using pk assms(4) by (simp add: trail_at_def of_stored_def)
qed

lemma mode_width: "read_drain_mode key = Some s \<Longrightarrow> gs_mode s < 2 ^ 32"
  by (auto simp: read_drain_mode_def drain_modes Let_def Option.bind_eq_Some_conv split: option.splits if_splits reg_value.splits)

lemma mode_of_int: "m < 2 ^ 32 \<Longrightarrow> mode_of_state (int m) = m"
proof -
  assume "m < 2 ^ 32"
  then have "int m mod 2 ^ 32 = int m" by (intro mod_pos_pos_trivial) simp_all
  then show "mode_of_state (int m) = m" by (simp add: mode_of_state_def)
qed

lemma start_reconcile_trail:
  assumes trail: "trail_at h t m table" and ok: "healthy_event h (Service_Start si)" and h: "h \<noteq> []"
    and time: "t < unix_milli (sb_now si)"
  shows "\<exists>rows. fst (start_reconcile si (table, jobs)) = table @ rows
    \<and> trail_at h (unix_milli (sb_now si)) (last (m # mode_seen (Service_Start si))) (table @ rows)
    \<and> host_changes h rows = mode_changes (m # mode_seen (Service_Start si))"
proof (cases "read_drain_mode (sb_key si)")
  case None
  then show ?thesis using trail_later [OF trail] time by (simp add: start_reconcile_def mode_seen_def)
next
  case (Some s)
  have seen: "mode_seen (Service_Start si) = [gs_mode s]" by (simp add: mode_seen_def Some)
  obtain prior where prior: "latest_by_host table h = Some prior" "ad_new prior = int m"
    using trail by (auto simp: trail_at_def)
  have host: "dp_host (probe_of si s) = h" using ok h by (simp add: probe_of_def registry_host_def healthy_event_def)
  define row where "row = stored_of (drift_row (probe_of si s) (sb_now si) prior)"
  have row: "ad_ts row = unix_milli (sb_now si)" "ad_host row = h" "ad_prev row = int m" "ad_new row = int (gs_mode s)"
    using host prior(2) by (simp_all add: row_def stored_of_def drift_row_def) (simp add: probe_of_def)
  note app = trail_append [OF trail row(2) _ row(4), unfolded row(1), OF time]
  have run: "fst (start_reconcile si (table, jobs)) =
      (if needs_drift_row (probe_of si s) prior then insert_new audit_key row table else table)"
    using ok prior(1) host by (simp add: start_reconcile_def healthy_event_def Some reconcile_def audit_append_def row_def)
  show ?thesis
  proof (cases "needs_drift_row (probe_of si s) prior")
    case True
    then show ?thesis
      using app row run by (intro exI [of _ "[row]"]) (simp add: seen host_changes_def)
  next
    case False
    then have "gs_mode s = m" using prior(2) by (simp add: needs_drift_row_def probe_of_def)
    then show ?thesis using False trail_later [OF trail] time run by (intro exI [of _ "[]"]) (simp add: seen)
  qed
qed

lemma append_transition_trail:
  assumes trail: "trail_at h t m table" and ok: "healthy_event h (Service_Check ci)"
    and time: "t < unix_milli (cy_recorded ci)" and observed: "cs_observed st = Some p" "ob_mode p = m"
    and run: "run_check percent grace poll threshold cfg (cy_check ci) st = (st', r)"
  shows "\<exists>rows. append_transition ci r table = table @ rows
    \<and> trail_at h (unix_milli (cy_recorded ci)) (last (m # mode_seen (Service_Check ci))) (table @ rows)
    \<and> host_changes h rows = mode_changes (m # mode_seen (Service_Check ci))
    \<and> (\<exists>o'. cs_observed st' = Some o' \<and> ob_mode o' = last (m # mode_seen (Service_Check ci)))"
  using run
proof (cases rule: run_check_result)
  case 1
  then show ?thesis
    using trail_later [OF trail] time observed by (simp add: append_transition_def mode_seen_def)
next
  case (2 s o' x)
  have seen: "mode_seen (Service_Check ci) = [gs_mode s]" by (simp add: mode_seen_def 2(1))
  show ?thesis
  proof (cases "m = gs_mode s")
    case True
    then have "cr_audit x = None" using 2(8) observed by simp
    then show ?thesis
      using True 2 trail_later [OF trail] time by (intro exI [of _ "[]"]) (simp add: append_transition_def seen)
  next
    case False
    then obtain a where a: "cr_audit x = Some a" "ar_prev a = m" "ar_new a = gs_mode s"
      using 2(8) observed by auto
    have host: "ar_host a = h"
      using a(1) run ok 2(1,2) by (auto simp: run_check_def Let_def healthy_event_def split: prod.splits option.splits if_splits)
    define row where "row = stored_of (transition_row (cy_recorded ci) a)"
    have row: "ad_ts row = unix_milli (cy_recorded ci)" "ad_host row = h" "ad_prev row = int m" "ad_new row = int (gs_mode s)"
      using a host by (simp_all add: row_def stored_of_def transition_row_def)
    note app = trail_append [OF trail row(2) _ row(4), unfolded row(1), OF time]
    have "append_transition ci r table = table @ [row]"
      using ok app(1) a(1) 2(2) by (simp add: append_transition_def audit_append_def healthy_event_def row_def)
    then show ?thesis
      using app(2) row 2(3,4) False by (intro exI [of _ "[row]"]) (simp add: seen host_changes_def)
  qed
qed

text \<open>One event on a run whose observation, once there is one, is the mode of the trail.\<close>

definition in_step :: "string \<Rightarrow> int \<Rightarrow> drain_mode \<Rightarrow> service_state \<Rightarrow> bool" where
  "in_step h t m sv \<longleftrightarrow> trail_at h t m (sv_table sv) \<and> m < 2 ^ 32
     \<and> (\<exists>p. cs_observed (sv_check sv) = Some p \<and> ob_mode p = m)"

lemma mode_seen_width: "m < 2 ^ 32 \<Longrightarrow> last (m # mode_seen e) < 2 ^ 32"
  by (auto simp: mode_seen_def dest: mode_width split: service_event.split option.split)

lemma start_in_step:
  assumes "trail_at h t m (sv_table sv)" "m < 2 ^ 32" "healthy_event h (Service_Start si)" "h \<noteq> []"
    "t < unix_milli (sb_now si)"
  shows "\<exists>rows. sv_table (start_service si sv) = sv_table sv @ rows
    \<and> in_step h (unix_milli (sb_now si)) (last (m # mode_seen (Service_Start si))) (start_service si sv)
    \<and> host_changes h rows = mode_changes (m # mode_seen (Service_Start si))"
proof -
  let ?m = "last (m # mode_seen (Service_Start si))"
  obtain rows where rows: "fst (start_reconcile si (sv_table sv, sv_jobs sv)) = sv_table sv @ rows"
      "trail_at h (unix_milli (sb_now si)) ?m (sv_table sv @ rows)"
      "host_changes h rows = mode_changes (m # mode_seen (Service_Start si))"
    using start_reconcile_trail [OF assms(1,3-5)] by blast
  obtain r where r: "latest_by_host (sv_table sv @ rows) h = Some r" "ad_new r = int ?m"
    using rows(2) unfolding trail_at_def by blast
  have "mode_of_state (ad_new r) = ?m" using mode_of_int [OF mode_seen_width [OF assms(2)]] r(2) by simp
  then have "\<exists>p. seed_observation si (sv_table sv @ rows) = Some p \<and> ob_mode p = ?m"
    using assms(3,4) r(1) by (simp add: seed_observation_def healthy_event_def)
  moreover have "sv_table (start_service si sv) = sv_table sv @ rows"
    "cs_observed (sv_check (start_service si sv)) = seed_observation si (sv_table sv @ rows)"
    using rows(1) by (simp_all add: start_service_def start_check_def case_prod_beta)
  ultimately show ?thesis
    using rows(2,3) mode_seen_width [OF assms(2)] unfolding in_step_def by auto
qed

lemma step_in_step:
  assumes st: "in_step h t m sv" and ok: "healthy_event h e" and h: "h \<noteq> []" and time: "sorted_wrt (<) (t # write_time e)"
  shows "\<exists>rows. sv_table (service_step percent e sv) = sv_table sv @ rows
    \<and> in_step h (last (t # write_time e)) (last (m # mode_seen e)) (service_step percent e sv)
    \<and> host_changes h rows = mode_changes (m # mode_seen e)"
proof (cases e)
  case (Service_Start si)
  then show ?thesis
    using start_in_step [of h t m sv si] st ok h time by (simp add: in_step_def write_time_def)
next
  case (Service_Check ci)
  obtain p where p: "cs_observed (sv_check sv) = Some p" "ob_mode p = m" using st by (auto simp: in_step_def)
  obtain sv' r where run: "service_check percent ci sv = (sv', r)" by (metis surj_pair)
  note run' = run [unfolded service_check_state]
  have tr: "trail_at h t m (sv_table sv)" using st by (simp add: in_step_def)
  have time': "t < unix_milli (cy_recorded ci)" using time by (simp add: Service_Check write_time_def)
  note step = append_transition_trail [OF tr ok [unfolded Service_Check] time' p run' [THEN conjunct1]]
  have eq: "service_step percent (Service_Check ci) sv = sv'" using run by simp
  have table: "sv_table sv' = append_transition ci r (sv_table sv)" by (subst run' [THEN conjunct2]) simp
  have width: "last (m # mode_seen (Service_Check ci)) < 2 ^ 32" using st mode_seen_width by (simp add: in_step_def)
  have "last (t # write_time (Service_Check ci)) = unix_milli (cy_recorded ci)" by (simp add: write_time_def)
  with step width show ?thesis unfolding Service_Check eq in_step_def table by metis
next
  case Perf_Restarted
  then show ?thesis using st by (simp add: in_step_def write_time_def mode_seen_def)
qed

lemma chain_step:
  assumes "sorted_wrt (<) (t # write_time e @ ts)"
  shows "sorted_wrt (<) (t # write_time e) \<and> sorted_wrt (<) (last (t # write_time e) # ts)"
proof -
  have "write_time e = [] \<or> (\<exists>x. write_time e = [x])" by (simp add: write_time_def split: service_event.split)
  then show ?thesis using assms by auto
qed

lemma mode_changes_step: "mode_changes (m # xs @ ys) = mode_changes (m # xs) @ mode_changes (last (m # xs) # ys)"
  using mode_changes_append [of "m # butlast xs" "last xs" ys]
  by (cases xs rule: rev_cases) (simp_all del: mode_changes_simps(3))

lemma run_in_step:
  assumes "list_all (healthy_event h) es" and "h \<noteq> []" and "in_step h t m sv"
    and "sorted_wrt (<) (t # concat (map write_time es))"
  shows "\<exists>rows. sv_table (run_service percent es sv) = sv_table sv @ rows
    \<and> host_changes h rows = mode_changes (m # concat (map mode_seen es))"
  using assms
proof (induction es arbitrary: t m sv)
  case Nil
  then show ?case by simp
next
  case (Cons e es)
  have times: "sorted_wrt (<) (t # write_time e)"
    "sorted_wrt (<) (last (t # write_time e) # concat (map write_time es))"
    using chain_step [of t e "concat (map write_time es)"] Cons.prems(4) by simp_all
  have e: "healthy_event h e" and es: "list_all (healthy_event h) es" using Cons.prems(1) by simp_all
  from step_in_step [OF Cons.prems(3) e Cons.prems(2) times(1), of percent]
  obtain rows where rows: "sv_table (service_step percent e sv) = sv_table sv @ rows"
      "in_step h (last (t # write_time e)) (last (m # mode_seen e)) (service_step percent e sv)"
      "host_changes h rows = mode_changes (m # mode_seen e)" by blast
  from Cons.IH [OF es Cons.prems(2) rows(2) times(2)]
  obtain rows' where rows': "sv_table (run_service percent es (service_step percent e sv)) =
        sv_table (service_step percent e sv) @ rows'"
      "host_changes h rows' = mode_changes (last (m # mode_seen e) # concat (map mode_seen es))" by blast
  show ?case
    using rows(1,3) rows' mode_changes_step [of m "mode_seen e" "concat (map mode_seen es)"]
    by (intro exI [of _ "rows @ rows'"]) (simp del: mode_changes_simps)
qed

text \<open>
  C23: from a start of the agent on a stored trail whose latest row of the host has the mode \<open>m\<close>, and
  through any further checks and restarts, the changing rows (old mode different from new mode) added
  for the host are exactly the changes in the sequence of \<open>m\<close> and the modes seen by the start-up
  reconciliations and the checks, in order; nothing stored before is touched. Registry reads may fail;
  the database must accept every query and append, no retention run removes rows, and the events carry
  increasing milliseconds, later than the rows of the host. A failed append leaves a hole (the change
  is only logged), and a host without a row gets its first one at the first change that one run of the
  service sees.
\<close>

theorem audit_is_mode_history:
  assumes "h \<noteq> []" and "list_all (healthy_event h) (Service_Start si # es)"
    and "has_pk audit_key (sv_table sv)" and "latest_by_host (sv_table sv) h = Some prior" and "ad_new prior = int m"
    and "m < 2 ^ 32" and "\<forall>q \<in> set (sv_table sv). ad_host q = h \<longrightarrow> ad_ts q \<le> t"
    and "sorted_wrt (<) (t # concat (map write_time (Service_Start si # es)))"
  shows "\<exists>rows. sv_table (run_service percent (Service_Start si # es) sv) = sv_table sv @ rows
    \<and> host_changes h rows = mode_changes (m # concat (map mode_seen (Service_Start si # es)))"
proof -
  have tr: "trail_at h t m (sv_table sv)" using assms(3-5,7) by (simp add: trail_at_def)
  have ok: "healthy_event h (Service_Start si)" "list_all (healthy_event h) es" using assms(2) by simp_all
  have times: "t < unix_milli (sb_now si)" "sorted_wrt (<) (unix_milli (sb_now si) # concat (map write_time es))"
    using assms(8) by (simp_all add: write_time_def)
  from start_in_step [OF tr assms(6) ok(1) assms(1) times(1)]
  obtain rows where rows: "sv_table (start_service si sv) = sv_table sv @ rows"
      "in_step h (unix_milli (sb_now si)) (last (m # mode_seen (Service_Start si))) (start_service si sv)"
      "host_changes h rows = mode_changes (m # mode_seen (Service_Start si))" by blast
  from run_in_step [OF ok(2) assms(1) rows(2) times(2), of percent]
  obtain rows' where rows': "sv_table (run_service percent es (start_service si sv)) = sv_table (start_service si sv) @ rows'"
      "host_changes h rows' = mode_changes (last (m # mode_seen (Service_Start si)) # concat (map mode_seen es))" by blast
  show ?thesis
    using rows(1,3) rows' mode_changes_step [of m "mode_seen (Service_Start si)" "concat (map mode_seen es)"]
    by (intro exI [of _ "rows @ rows'"]) (simp del: mode_changes_simps)
qed

subsection \<open>Witnesses\<close>

text \<open>
  A host drained at second 1, as its trail says; the service starts at second 10, reads the same, and
  checks two hours later. In the second run the drain has been lifted before the start and is set again
  before the check.
\<close>

definition example_trail :: service_state where
  "example_trail = \<lparr>sv_check = start_check None, sv_table = [stored_of \<lparr>ad_ts = second, ad_host = ''RDS1'', ad_prev = 0,
     ad_new = 2, ad_principal = [], ad_changed_by = ''CORP/ann'', ad_reason = [], ad_key_modified = None,
     ad_reconciliation = False, ad_before = None\<rparr>], sv_jobs = []\<rparr>"

definition example_key :: "nat \<Rightarrow> registry_key" where
  "example_key v = \<lparr>rk_deny = RegAbsent, rk_drain = RegValue v, rk_modified = Some second\<rparr>"

definition example_start :: "nat \<Rightarrow> start_input" where
  "example_start v = \<lparr>sb_dashboard_only = False, sb_host = ''RDS1'', sb_key = Some (example_key v), sb_now = 10 * second,
     sb_finished = 10 * second, sb_reconcile_query = None, sb_appended = True, sb_seed_query = True\<rparr>"

definition example_cycle :: "instant \<Rightarrow> nat \<Rightarrow> cycle_input" where
  "example_cycle t v = \<lparr>cy_grace = hour, cy_poll = 5 * minute, cy_threshold = 80, cy_perf = cf_performance (default_config []),
     cy_check = \<lparr>ti_key = Some (example_key v), ti_host = ''RDS1'', ti_now = t, ti_later = t, ti_event_user = [],
       ti_query_user = [], ti_sessions = None, ti_limits = [], ti_perf = None\<rparr>,
     cy_recorded = t, cy_appended = True\<rparr>"

lemma example_latest:
  "latest_by_host (sv_table example_trail) ''RDS1'' = Some (of_stored (hd (sv_table example_trail)))"
  by (simp add: example_trail_def latest_by_host_def newest_first_def stored_of_def)

lemma example_table:
  "ad_ts (of_stored (hd (sv_table example_trail))) = second" "ad_new (of_stored (hd (sv_table example_trail))) = 2"
  by (simp_all add: example_trail_def stored_of_def of_stored_def second_def unix_milli_def)

lemma example_reads:
  "v < 2 ^ 32 \<Longrightarrow> read_drain_mode (Some (example_key v)) = Some \<lparr>gs_mode = v, gs_modified = second, gs_present = True\<rparr>"
  by (simp add: example_key_def read_drain_mode_def)

lemma example_start_table: "sv_table (start_service (example_start 2) example_trail) = sv_table example_trail"
proof -
  have "\<not> needs_drift_row (probe_of (example_start 2) \<lparr>gs_mode = 2, gs_modified = second, gs_present = True\<rparr>)
      (of_stored (hd (sv_table example_trail)))"
    by (simp add: needs_drift_row_def probe_of_def example_table)
  moreover have "dp_host (probe_of (example_start 2) s) = ''RDS1''" for s
    by (simp add: probe_of_def registry_host_def example_start_def)
  ultimately show ?thesis
    by (simp add: start_service_def start_reconcile_def example_reads reconcile_def example_latest
        example_start_def [THEN arg_cong [where f = sb_key]] example_start_def [THEN arg_cong [where f = sb_dashboard_only]]
        example_start_def [THEN arg_cong [where f = sb_reconcile_query]] case_prod_beta)
qed

lemma alert_after_grace_witness:
  "\<exists>sv' x. service_check (\<lambda>a b. a) (example_cycle (2 * hour) 2) (run_service (\<lambda>a b. a) [Service_Start (example_start 2)] example_trail)
      = (sv', Some x) \<and> ''alert'' \<in> set (cr_triggers x)"
proof -
  let ?ci = "example_cycle (2 * hour) 2" and ?p = "\<lambda>a b. a"
  have key: "read_drain_mode (ti_key (cy_check ?ci)) = Some \<lparr>gs_mode = 2, gs_modified = second, gs_present = True\<rparr>"
    by (simp add: example_cycle_def example_reads)
  obtain sv' x where r: "service_check ?p ?ci (run_service ?p [Service_Start (example_start 2)] example_trail) = (sv', Some x)"
    using run_check_total [OF key, of ?p "cy_grace ?ci" "cy_poll ?ci" "cy_threshold ?ci" "cy_perf ?ci"
        "sv_check (run_service ?p [Service_Start (example_start 2)] example_trail)"]
    by (auto simp: service_check_def)
  have "seeded_reads (example_start 2) (sv_table example_trail) = [(second, 2)]"
    using mode_of_int [of 2] example_table by (simp add: seeded_reads_def example_start_def example_latest)
  moreover have "reads (checks_of [] @ [cy_check ?ci]) = [(2 * hour, 2)]"
    by (simp add: reads_single key) (simp add: example_cycle_def)
  ultimately have "began (seeded_reads (example_start 2) (sv_table (start_service (example_start 2) example_trail))
      @ reads (checks_of [] @ [cy_check ?ci])) = second"
    by (simp add: example_start_table began_def)
  then have "''alert'' \<in> set (cr_triggers x)"
    using alert_after_grace [OF _ key r] by (simp add: allow_all_def example_cycle_def dur_truncate_def go_rem_def
        go_div_def hour_def minute_def second_def)
  with r show ?thesis by blast
qed

lemma audit_is_mode_history_witness:
  "\<exists>rows. sv_table (run_service (\<lambda>a b. a) [Service_Start (example_start 0), Service_Check (example_cycle (2 * hour) 2)] example_trail)
      = sv_table example_trail @ rows \<and> host_changes ''RDS1'' rows = [(2, 0), (0, 2)]"
proof -
  let ?es = "[Service_Start (example_start 0), Service_Check (example_cycle (2 * hour) 2)]"
  have "concat (map mode_seen ?es) = [0, 2]"
    by (simp add: mode_seen_def example_start_def example_cycle_def example_reads)
  then show ?thesis
    using audit_is_mode_history [of "''RDS1''" "example_start 0" "[Service_Check (example_cycle (2 * hour) 2)]" example_trail
        "of_stored (hd (sv_table example_trail))" 2 1000 "\<lambda>a b. a"] example_latest example_table(2)
    by (simp add: healthy_event_def write_time_def has_pk_def unix_milli_def hour_def minute_def second_def
        example_start_def example_cycle_def example_trail_def stored_of_def)
qed

end
