(* ===== verification/Spec2Isabelle.thy ===== *)
theory Spec2Isabelle
  imports ActionLifecycle ActionExecutor ProcessHeap Roster Updater SspiContexts ForceUpdate Broker
    ConfigEdit RemoteConfig NotifyTargets DrainCheck SpikeDetection
    DataRetention FleetMetrics ServiceRun
begin

text \<open>
  \<^bold>\<open>A verification development for LISSTech DrainCtl\<close>

  DrainCtl is a Go program for Windows remote-desktop hosts. Each host runs an agent service that
  watches its sessions and reports snapshots to a dashboard; the dashboard stores the reports in
  SQLite, projects them through a privacy policy, keeps a roster of hosts, and queues commands
  (log off, disconnect, send a message, check for an update) that the agents pick up with the
  answers to their reports. The theories model the logic of both ends in the order in which a report
  and a command pass through it.

  \<^bold>\<open>Theories and the code they model\<close> (paths under \<open>src/internal/\<close>)

  \<^item> \<open>Prelude\<close>: bytes, ASCII case folding, \<open>strings.Split\<close>, decimal digits, times, and the locales
    \<open>codec\<close>, \<open>canonical_codec\<close> (a printer and a parser) and \<open>step_invariant\<close> (a step function with an
    invariant); every later theory interprets them on its own definitions.
  \<^item> \<open>Identifiers\<close>: \<open>sessiondata/model.go\<close>, the 64-bit decimal and version-7 UUID texts, host names.
  \<^item> \<open>SessionModel\<close>: the wire records and \<open>sessiondata/validation.go\<close>.
  \<^item> \<open>SessionProjection\<close>: \<open>ProjectSnapshot\<close>, \<open>CompactSnapshotForWire\<close>, \<open>CalculateAggregates\<close>.
  \<^item> \<open>Workload\<close>: \<open>sessiondata/workload.go\<close>, the workload summary, its histograms, their percentiles
    and their binary codecs.
  \<^item> \<open>ProcessHeap\<close>: the bounded worst-first heap that picks the processes of a session.
  \<^item> \<open>SnapshotStore\<close>: \<open>telemetry/session_store.go\<close>: generations of an agent (the fence), the
    acceptance of a snapshot, the tables it writes with their CHECK constraints.
  \<^item> \<open>ActionRequests\<close>: \<open>sessiondata/\<close> requests, their normalisation and fingerprints of commands; shadow URIs.
  \<^item> \<open>ActionStore\<close>, \<open>ActionLifecycle\<close>: \<open>telemetry/session_action_store.go\<close>: the outbox transactions
    (enqueue, expire, deliver, complete, cancel, purge) and the properties of their histories.
  \<^item> \<open>ActionLedger\<close>, \<open>ActionExecutor\<close>: the agent's ledger of executed commands and the execution
    with its report and acknowledgement loop.
  \<^item> \<open>Roster\<close>: \<open>telemetry/servers.go\<close>, \<open>exclusions.go\<close>, \<open>freshness.go\<close>.
  \<^item> \<open>Updater\<close>: \<open>updater/\<close>: versions, the retry delays, the persisted state, the signed manifest, the
    release endpoint and one poll.
  \<^item> \<open>Access\<close>, \<open>SspiContexts\<close>: \<open>dashboard/\<close> group gates, browser sessions and logins; the ownership of
    the pending SSPI contexts under interleaved requests (\<open>sspi.go\<close>), the counter updates being steps of
    their own.
  \<^item> \<open>ForceUpdate\<close>: \<open>telemetry/force_update_outbox.go\<close>, \<open>dashboard/forceupdate.go\<close> and its handler.
  \<^item> \<open>Broker\<close>: \<open>dashboard/broker.go\<close>, the fan-out of events to subscribers.
  \<^item> \<open>Config\<close>: \<open>config.go\<close> (the repository root): the configuration, its defaults and \<open>Validate\<close>.
  \<^item> \<open>ConfigEdit\<close>: the same file's patches, secrets, registry migration and load-modify-save.
  \<^item> \<open>RemoteConfig\<close>: the run-time views of the configuration and \<open>svc/check.go\<close>, the overlay of the
    settings that a dashboard sends.
  \<^item> \<open>Thresholds\<close>: \<open>perfmon/threshold.go\<close>, consecutive breaches and the triggers they raise.
  \<^item> \<open>Notifications\<close>, \<open>NotifyTargets\<close>: \<open>notify.go\<close> and \<open>notify_target.go\<close>: routing, repeat
    suppression with roll-back of failed sends, and the editing of targets.
  \<^item> \<open>DrainCheck\<close>: \<open>registry.go\<close>, \<open>check.go\<close>, \<open>sessions.go\<close> and \<open>svcRunCheck\<close> of \<open>svc/check.go\<close>: one
    check of a host, as a function of the observation that the checks before it left.
  \<^item> \<open>ServiceRun\<close>: \<open>svc/service_loop.go\<close>, the start of the service (drift reconciliation, then the observation
    seeded from the latest stored audit row) and its checks with the rows they append, over any history of
    starts and checks; imports \<open>AuditTrail\<close>.
  \<^item> \<open>Detector\<close>, \<open>SpikeDetection\<close>: \<open>evtspike/\<close>: the statistics of one channel (scoring, the confirmation
    of two buckets in three, the cap on what is learned), the channel list, the baseline file and the
    life cycle of the subsystem with its subscriptions and their retries.
  \<^item> \<open>SqlTables\<close>, \<open>MetricTiers\<close>, \<open>WorkloadTiers\<close>, \<open>DataRetention\<close>: \<open>telemetry/\<close> metrics and session workload
    tables, their roll-ups (\<open>aggregator.go\<close>, \<open>session_workload.go\<close>) and the retention (\<open>retention.go\<close>);
    tables are lists of rows with a primary key, REAL columns rationals without rounding.
  \<^item> \<open>MetricQueries\<close>, \<open>FleetMetrics\<close>: \<open>telemetry/metrics.go\<close>, the queries of one host and of the fleet: the
    series of each tier, the sums and averages over the hosts, the synthetic memory counter and the
    loops that attach the median of the hosts to every bucket.
  \<^item> \<open>MaintenanceJobs\<close>, \<open>AuditTrail\<close>: the job log, the stored audit rows with the paged query, the start-up
    reconciliation, the history command and the audit handler.
  \<^item> \<open>EventSpikes\<close>: \<open>telemetry/event_spikes.go\<close> and the handlers of \<open>dashboard/evtspike.go\<close>.

  \<^bold>\<open>How code is rendered\<close>

  A Go string is a list of bytes (\<open>char list\<close>) and string enumerations stay strings; an error is a
  value of an error datatype in \<open>Inl\<close> or \<open>None\<close>; a struct is a record; an SQL table is a map or a list of
  rows, a transaction is a function that returns the new database or the error that rolled it back,
  and the CHECK constraints and keys of the schema are predicates that the transaction tests. Times
  are integers in nanoseconds, the millisecond columns are integers. Counters that the code keeps in
  64 bits keep their wrap-around where the code can reach it; UUID bytes are 8-bit words. Floating
  point arithmetic (comparisons are computed), SHA-256, Ed25519, DPAPI, JSON encoding and decoding, \<open>strings.ToLower\<close> beyond
  ASCII, the clock, random bytes and the Windows calls are arguments of the definitions that use them.

  \<^bold>\<open>What the lemmas show\<close>

  Round trips of every text and binary format; that validation bounds what reaches the store; that
  the projection of a snapshot depends on nothing the policy hides; that the fence of a host never
  moves back and replays are rejected; that a finished command keeps its first outcome, erases its
  message, is delivered oldest first and is called at most once on the host, over histories of
  transactions (short of the retention, purge or acknowledgement that each property names); that
  transactions never trip over a constraint; that a removed host stays removed;
  that an offline epoch is reported once; that the heap returns what sorting would; that only a
  newer, signed and matching package is installed; that validation of the configuration ends inside
  the documented ranges and every update keeps it there; that alerts are raised exactly when a
  condition lasted, across restarts of the service; that the stored audit trail is the history of the drain
  modes seen; that notifications respect routing and repeat intervals. Each theory states its invariant once, shows that
  every operation keeps it, and the properties read it off reachable states. Properties carry their
  claim id in the text before them; a property with hypotheses is followed by a witness that applies
  it to concrete data.

  Almost every loop is a structural recursion, or a function with a termination proof whose measure is
  the remaining input (decoding loops), the remaining items (heap, truncation) or the remaining levels of
  the compaction. The chunked delete of the retention, whose statements the database answers, is a
  \<open>partial_function\<close>, and its termination is a property. The one bound is that of \<open>audit_walk\<close>, a client
  that follows the cursors of the audit query for so many pages; one more than the number of rows is shown
  to be enough.

  \<^bold>\<open>Not modelled\<close>

  Failures of the SQL driver except where a theory makes them part of its events (the audit appends and
  queries of \<open>ServiceRun\<close>, the inserts of \<open>EventSpikes\<close>, the deletes of \<open>DataRetention\<close>; elsewhere a
  transaction either commits or fails by its own tests), concurrency
  below a transaction or a held mutex (each operation is one step, in the order the lock grants),
  HTTP routing and rendering, the terminal interface, WTS, registry and service control calls, e-mail
  transport, key storage and the goroutines that drive the loops. The
  manifest of the development lists these parts one by one with the reason.
\<close>

end
